(* ===== verification/Prelude.thy ===== *)
theory Prelude
  imports Main "HOL-Library.Word"
begin

text \<open>
  The vocabulary shared by every component of the Panix kernel model: the machine
  integer types of the C++ sources, and generic lemmas on lists, maps and circular
  probe sequences.

  Conventions used throughout:
  \<^item> An operation whose C++ counterpart may fail to return (it loops forever, or the
    processor traps on a division by zero or on a null or freed pointer) has a result of
    type \<open>'a option\<close>; \<open>None\<close> is "does not return".
  \<^item> A C++ \<open>ds::Optional\<close> is also an \<open>option\<close>, nested inside the former where both occur.
  \<^item> \<open>size_t\<close> counters that are bounded by the memory of the machine are \<open>nat\<close>; where the
    width matters (32-bit loop indices, hashes, bit masks, physical addresses that are
    masked and xor-ed) the model has words or writes the wrap-around out.
\<close>

type_synonym u8 = "8 word"
type_synonym u16 = "16 word"
type_synonym u32 = "32 word"
type_synonym u64 = "64 word"

named_theorems panix_defs \<open>definitions that are safe to unfold in a component proof\<close>

section \<open>Circular probing\<close>

text \<open>
  A probe loop visits \<open>i, i + 1, \<dots>\<close> modulo the capacity until a stop condition holds. The
  next two lemmas are shared by the three probe loops of the hash map.
\<close>

lemma probe_mod_step: "((i + n) mod c + 1) mod c = (i + Suc n) mod (c::nat)"
  by (simp add: mod_Suc_eq)

lemma probe_loop:
  assumes step: "\<And>i. i < c \<Longrightarrow> \<not> P i \<Longrightarrow> f i = f ((i + 1) mod c)"
    and "i < (c::nat)" and "\<forall>j<n. \<not> P ((i + j) mod c)"
  shows "f i = f ((i + n) mod c)"
  using assms(3)
proof (induction n)
  case 0
  then show ?case using assms(2) by simp
next
  case (Suc n)
  then have "f i = f ((i + n) mod c)" by simp
  also have "\<dots> = f (((i + n) mod c + 1) mod c)"
    using Suc.prems assms(2) by (intro step) auto
  finally show ?case by (simp only: probe_mod_step)
qed

lemma probe_reaches:
  assumes "i < (c::nat)" and "k < c"
  shows "\<exists>n<c. (i + n) mod c = k"
proof (cases "i \<le> k")
  case True
  then show ?thesis using assms by (intro exI[of _ "k - i"]) auto
next
  case False
  then have "(i + (c + k - i)) mod c = k" using assms by simp
  moreover have "c + k - i < c" using False assms by simp
  ultimately show ?thesis by blast
qed

lemma probe_first_stop:
  assumes "i < (c::nat)" and "k < c" and "P k"
  obtains n where "n < c" "P ((i + n) mod c)" "\<forall>j<n. \<not> P ((i + j) mod c)"
proof -
  obtain m where m: "m < c" "(i + m) mod c = k"
    using probe_reaches[OF assms(1,2)] by blast
  define n where "n = (LEAST n. P ((i + n) mod c))"
  have "P ((i + n) mod c)"
    unfolding n_def by (rule LeastI[of _ m]) (use m assms(3) in simp)
  moreover have "n \<le> m"
    unfolding n_def by (rule Least_le) (use m assms(3) in simp)
  moreover have "\<forall>j<n. \<not> P ((i + j) mod c)"
    unfolding n_def using not_less_Least by blast
  moreover have "n < c" using \<open>n \<le> m\<close> m(1) by simp
  ultimately show ?thesis using that by blast
qed

lemma probe_inj:
  assumes "(i + a) mod c = (i + b) mod (c::nat)" "a < c" "b < c"
  shows "a = b"
proof (rule ccontr)
  assume "a \<noteq> b"
  then consider "a < b" | "b < a" by linarith
  then show False
  proof cases
    case 1
    with assms(1) have "c dvd (i + b) - (i + a)"
      by (metis add_le_cancel_left less_imp_le mod_eq_dvd_iff_nat)
    with 1 assms(3) show False by (auto dest: dvd_imp_le)
  next
    case 2
    with assms(1) have "c dvd (i + a) - (i + b)"
      by (metis add_le_cancel_left less_imp_le mod_eq_dvd_iff_nat)
    with 2 assms(2) show False by (auto dest: dvd_imp_le)
  qed
qed

section \<open>Evaluating lists at numerals\<close>

named_theorems list_eval \<open>rules that compute list operations at numeral indices\<close>

lemma list_update_numeral [list_eval]: "(x # xs)[numeral k := y] = x # xs[pred_numeral k := y]"
  by (simp add: numeral_eq_Suc)

lemma replicate_numeral_eval [list_eval]:
  "replicate (numeral k) x = x # replicate (pred_numeral k) x"
  by (simp add: numeral_eq_Suc)

lemma upt_rec_eval [list_eval]: "i < j \<Longrightarrow> [i..<j] = i # [Suc i..<j]" "\<not> i < j \<Longrightarrow> [i..<j] = []"
  by (simp_all add: upt_rec)

end
