(* ===== verification/Murmur_Hash.thy ===== *)
theory Murmur_Hash
  imports Prelude
begin

text \<open>
  \<open>ds::MurmurHasher\<close> of \<open>src/ds/hash_map.h\<close>: the 32-bit MurmurHash3 used by every hash
  map of the kernel. A key is the list of its bytes in memory order (the in-memory
  representation of the object, or the characters of a \<open>ds::String\<close>, final NUL included);
  words are loaded little-endian, as \<open>memcpy\<close> does on x86-64.

  Besides the published test vectors, the theory shows that every mixing step is injective,
  so that two different 32-bit keys (inode numbers, block group numbers) never have the
  same hash.
\<close>

unbundle bit_operations_syntax

section \<open>The hash function\<close>

definition rotl32 :: "nat \<Rightarrow> u32 \<Rightarrow> u32" where
  "rotl32 r k = push_bit r k OR drop_bit (32 - r) k"

definition murmur_32_scramble :: "u32 \<Rightarrow> u32" where
  "murmur_32_scramble k =
     (let k = k * 0xcc9e2d51;
          k = push_bit 15 k OR drop_bit 17 k;
          k = k * 0x1b873593
      in k)"

text \<open>\<open>memcpy(&k, key, 4)\<close>: the four bytes, least significant first.\<close>

definition load_le32 :: "u8 list \<Rightarrow> u32" where
  "load_le32 bs =
     ucast (bs ! 0) OR push_bit 8 (ucast (bs ! 1)) OR push_bit 16 (ucast (bs ! 2))
       OR push_bit 24 (ucast (bs ! 3))"

definition murmur_block :: "u32 \<Rightarrow> u32 \<Rightarrow> u32" where
  "murmur_block h k =
     (let h = h XOR murmur_32_scramble k;
          h = push_bit 13 h OR drop_bit 19 h
      in h * 5 + 0xe6546b64)"

text \<open>The first loop: \<open>len >> 2\<close> blocks of four bytes; the result is where \<open>key\<close> stops.\<close>

fun murmur_blocks :: "nat \<Rightarrow> u8 list \<Rightarrow> u32 \<Rightarrow> u8 list \<times> u32" where
  "murmur_blocks 0 key h = (key, h)"
| "murmur_blocks (Suc i) key h =
     murmur_blocks i (drop 4 key) (murmur_block h (load_le32 (take 4 key)))"

text \<open>The second loop: the remaining \<open>len & 3\<close> bytes, from the last one down.\<close>

fun murmur_tail :: "nat \<Rightarrow> u8 list \<Rightarrow> u32 \<Rightarrow> u32" where
  "murmur_tail 0 key k = k"
| "murmur_tail (Suc i) key k = murmur_tail i key (push_bit 8 k OR ucast (key ! i))"

definition murmur_fmix :: "u32 \<Rightarrow> u32" where
  "murmur_fmix h =
     (let h = h XOR drop_bit 16 h;
          h = h * 0x85ebca6b;
          h = h XOR drop_bit 13 h;
          h = h * 0xc2b2ae35;
          h = h XOR drop_bit 16 h
      in h)"

definition murmur3_32 :: "u8 list \<Rightarrow> u32 \<Rightarrow> u32" where
  "murmur3_32 key seed =
     (let len = length key;
          (rest, h) = murmur_blocks (len div 4) key seed;
          k = murmur_tail (len mod 4) rest 0;
          h = h XOR murmur_32_scramble k;
          h = h XOR of_nat len
      in murmur_fmix h)"

text \<open>\<open>Hash(const T&)\<close> for a 32-bit key: its four bytes in memory.\<close>

definition bytes_le32 :: "u32 \<Rightarrow> u8 list" where
  "bytes_le32 w = [ucast w, ucast (drop_bit 8 w), ucast (drop_bit 16 w), ucast (drop_bit 24 w)]"

definition Hash :: "u8 list \<Rightarrow> u32" where
  "Hash plaintext = murmur3_32 plaintext 0"

section \<open>Injectivity of the mixing steps\<close>

lemma load_bytes_le32: "load_le32 (bytes_le32 w) = w"
proof (rule bit_word_eqI)
  fix n assume "n < LENGTH(32)"
  then consider "n < 8" | "8 \<le> n" "n < 16" | "16 \<le> n" "n < 24" | "24 \<le> n" "n < 32"
    by fastforce
  then show "bit (load_le32 (bytes_le32 w)) n = bit w n"
    by cases (auto simp: load_le32_def bytes_le32_def bit_simps)
qed

lemma inj_mult_odd32:
  assumes "(c::u32) * d = 1"
  shows "inj (\<lambda>x. x * c)"
proof (rule injI)
  fix x y assume "x * c = y * c"
  then have "x * (c * d) = y * (c * d)" by (metis mult.assoc)
  then show "x = y" using assms by simp
qed

lemma rotl_inverse:
  assumes "0 < r" "r < 32"
  shows "push_bit (32 - r) (push_bit r k OR drop_bit (32 - r) k)
           OR drop_bit r (push_bit r k OR drop_bit (32 - r) k) = (k::u32)"
  using assms by (intro bit_word_eqI) (auto simp: bit_simps)

lemma xorshift16_inverse:
  "(x XOR drop_bit 16 x) XOR drop_bit 16 (x XOR drop_bit 16 x) = (x::u32)"
  by (rule bit_word_eqI) (auto simp: bit_simps dest: bit_imp_le_length)

lemma xorshift13_inverse:
  "(let y = x XOR drop_bit 13 x in y XOR drop_bit 13 y XOR drop_bit 26 y) = (x::u32)"
  by (rule bit_word_eqI) (auto simp: bit_simps Let_def dest: bit_imp_le_length)

lemma inj_mult_c1: "inj (\<lambda>x::u32. x * 0xcc9e2d51)"
  by (rule inj_mult_odd32[where d = "0xdee13bb1"]) simp

lemma inj_mult_c2: "inj (\<lambda>x::u32. x * 0x1b873593)"
  by (rule inj_mult_odd32[where d = "0x56ed309b"]) simp

lemma inj_mult_5: "inj (\<lambda>x::u32. x * 5)"
  by (rule inj_mult_odd32[where d = "0xcccccccd"]) simp

lemma inj_mult_f1: "inj (\<lambda>x::u32. x * 0x85ebca6b)"
  by (rule inj_mult_odd32[where d = "0xa5cb9243"]) simp

lemma inj_mult_f2: "inj (\<lambda>x::u32. x * 0xc2b2ae35)"
  by (rule inj_mult_odd32[where d = "0x7ed1b41d"]) simp

lemma inj_rotl15: "inj (\<lambda>k::u32. push_bit 15 k OR drop_bit 17 k)"
  by (rule inj_on_inverseI[where g = "\<lambda>y. push_bit 17 y OR drop_bit 15 y"])
    (use rotl_inverse[of 15] in simp)

lemma inj_rotl13: "inj (\<lambda>k::u32. push_bit 13 k OR drop_bit 19 k)"
  by (rule inj_on_inverseI[where g = "\<lambda>y. push_bit 19 y OR drop_bit 13 y"])
    (use rotl_inverse[of 13] in simp)

lemma inj_xorshift16: "inj (\<lambda>x::u32. x XOR drop_bit 16 x)"
  using xorshift16_inverse by (rule inj_on_inverseI)

lemma inj_xorshift13: "inj (\<lambda>x::u32. x XOR drop_bit 13 x)"
  by (rule inj_on_inverseI) (rule xorshift13_inverse[unfolded Let_def])

lemma inj_xor: "inj (\<lambda>x::u32. x XOR c)"
  by (rule inj_on_inverseI[where g = "\<lambda>x. x XOR c"]) (simp add: xor.assoc)

lemma inj_xor_left: "inj (\<lambda>x::u32. c XOR x)"
  using inj_xor[of c] by (simp add: xor.commute)

lemma inj_add32: "inj (\<lambda>x::u32. x + c)"
  by (simp add: inj_def)

lemma inj_murmur_32_scramble: "inj murmur_32_scramble"
proof -
  have eq: "murmur_32_scramble =
    (\<lambda>k. k * 0x1b873593) \<circ> ((\<lambda>k. push_bit 15 k OR drop_bit 17 k) \<circ> (\<lambda>k. k * 0xcc9e2d51))"
    by (simp add: murmur_32_scramble_def fun_eq_iff Let_def)
  show ?thesis
    by (subst eq) (intro inj_compose inj_mult_c1 inj_mult_c2 inj_rotl15)
qed

lemma inj_murmur_fmix: "inj murmur_fmix"
proof -
  have eq: "murmur_fmix =
    (\<lambda>h. h XOR drop_bit 16 h) \<circ> ((\<lambda>h. h * 0xc2b2ae35) \<circ> ((\<lambda>h. h XOR drop_bit 13 h) \<circ>
      ((\<lambda>h. h * 0x85ebca6b) \<circ> (\<lambda>h. h XOR drop_bit 16 h))))"
    by (simp add: murmur_fmix_def fun_eq_iff Let_def)
  show ?thesis
    by (subst eq) (intro inj_compose inj_mult_f1 inj_mult_f2 inj_xorshift16 inj_xorshift13)
qed

lemma inj_murmur_block: "inj (murmur_block h)"
proof -
  have "murmur_block h =
    (\<lambda>h. h + 0xe6546b64) \<circ> ((\<lambda>h. h * 5) \<circ> ((\<lambda>h. push_bit 13 h OR drop_bit 19 h) \<circ>
      ((\<lambda>x. h XOR x) \<circ> murmur_32_scramble)))"
    by (simp add: murmur_block_def fun_eq_iff Let_def)
  then show ?thesis
    by (simp only: inj_compose[OF inj_add32 inj_compose[OF inj_mult_5
        inj_compose[OF inj_rotl13 inj_compose[OF inj_xor_left inj_murmur_32_scramble]]]])
qed

lemma Hash_bytes_le32:
  "Hash (bytes_le32 w) =
     murmur_fmix ((murmur_block 0 w XOR murmur_32_scramble 0) XOR 4)"
  by (simp add: Hash_def murmur3_32_def bytes_le32_def load_bytes_le32[unfolded bytes_le32_def])

section \<open>Properties\<close>

text \<open>
  Two different 32-bit keys (the inode numbers and block group numbers that the file
  system hashes) never have the same 32-bit hash: in the hash map they may share a slot,
  but never a full hash value.
\<close>

theorem Hash_u32_injective: "Hash (bytes_le32 a) = Hash (bytes_le32 b) \<longleftrightarrow> a = b"
proof
  assume "Hash (bytes_le32 a) = Hash (bytes_le32 b)"
  then have "(murmur_block 0 a XOR murmur_32_scramble 0) XOR 4 =
      (murmur_block 0 b XOR murmur_32_scramble 0) XOR 4"
    by (simp only: Hash_bytes_le32 inj_eq[OF inj_murmur_fmix])
  then have "murmur_block 0 a = murmur_block 0 b"
    by (simp only: inj_eq[OF inj_xor])
  then show "a = b" by (simp only: inj_eq[OF inj_murmur_block])
qed simp

text \<open>
  the implementation agrees with the published MurmurHash3 (x86, 32 bit) test vectors,
  with keys whose length is 0, 1, 2, 3 modulo 4.
\<close>

theorem murmur3_32_vectors:
  "murmur3_32 [] 0 = 0 \<and> murmur3_32 [] 1 = 0x514E28B7 \<and>
   murmur3_32 (map of_char ''test'') 0 = 0xba6bd213 \<and>
   murmur3_32 (map of_char ''Hello, world!'') 0 = 0xc0363e43 \<and>
   murmur3_32 [0x21, 0x43, 0x65, 0x87] 0 = 0xF55B516B \<and>
   murmur3_32 [0x21, 0x43, 0x65] 0 = 0x7E4A8634 \<and>
   murmur3_32 [0x21, 0x43] 0 = 0xA0F7B07A \<and>
   murmur3_32 [0x21] 0 = 0x72661CF4"
  by code_simp

end
