(* ===== verification/Map_Interface.thy ===== *)
theory Map_Interface
  imports Prelude
begin

text \<open>
  The contract between the associative containers of \<open>src/ds\<close> and the code that uses them.
  \<open>kv_store\<close> is what a client of a table that only grows relies on; \<open>kv_map\<close> adds deletion
  and in-place update. \<open>inv\<close> is the provider's representation invariant, \<open>abs\<close> the map it
  stands for, and \<open>room n\<close> the provider's promise that \<open>n\<close> more insertions fit.

  The lemmas of the two locales are the client's: they are proved once from the laws and
  reach the tables of the kernel through the interpretations in \<open>Hash_Map\<close>.
\<close>

locale kv_store =
  fixes inv :: "'m \<Rightarrow> bool"
    and abs :: "'m \<Rightarrow> 'k \<Rightarrow> 'v option"
    and room :: "nat \<Rightarrow> 'm \<Rightarrow> bool"
    and lookup :: "'m \<Rightarrow> 'k \<Rightarrow> 'v option option"
    and ins :: "'m \<Rightarrow> 'k \<Rightarrow> 'v \<Rightarrow> (bool \<times> 'm) option"
  assumes lookup_abs: "inv m \<Longrightarrow> lookup m k = Some (abs m k)"
    and insert_fresh: "inv m \<Longrightarrow> room (Suc n) m \<Longrightarrow> abs m k = None \<Longrightarrow>
      \<exists>m'. ins m k v = Some (True, m') \<and> inv m' \<and> room n m' \<and> abs m' = (abs m)(k \<mapsto> v)"
begin

text \<open>The value just stored is found again, and no other lookup changes.\<close>

lemma lookup_after_insert:
  assumes "inv m" "room (Suc n) m" "abs m k = None"
  obtains m' where "ins m k v = Some (True, m')" "inv m'" "room n m'"
    "lookup m' k = Some (Some v)" "\<And>j. j \<noteq> k \<Longrightarrow> lookup m' j = lookup m j"
  using insert_fresh[OF assms, of v] lookup_abs assms(1) by fastforce

end

locale kv_map = kv_store inv abs room lookup ins
  for inv :: "'m \<Rightarrow> bool" and abs :: "'m \<Rightarrow> 'k \<Rightarrow> 'v option" and room lookup ins +
  fixes contains :: "'m \<Rightarrow> 'k \<Rightarrow> bool option"
    and del :: "'m \<Rightarrow> 'k \<Rightarrow> (bool \<times> 'm) option"
    and upd :: "'m \<Rightarrow> 'k \<Rightarrow> ('v \<Rightarrow> 'v) \<Rightarrow> 'm option"
  assumes contains_abs: "inv m \<Longrightarrow> contains m k = Some (abs m k \<noteq> None)"
    and delete_abs: "inv m \<Longrightarrow>
      \<exists>m'. del m k = Some (abs m k \<noteq> None, m') \<and> inv m' \<and> abs m' = (abs m)(k := None) \<and>
           (\<forall>n. room n m \<longrightarrow> room n m')"
    and update_abs: "inv m \<Longrightarrow> abs m k = Some v \<Longrightarrow>
      \<exists>m'. upd m k f = Some m' \<and> inv m' \<and> abs m' = (abs m)(k \<mapsto> f v) \<and>
           (\<forall>n. room n m \<longrightarrow> room n m')"
begin

text \<open>
  The idiom of the pin counts (\<open>if (t.Contains(k)) ++t[k]; else t.Insert(k, 1)\<close>): it always
  returns, and leaves the table at the old map with the one count changed.
\<close>

lemma update_or_insert:
  assumes "inv m" "room (Suc n) m" and mono: "\<And>m. room (Suc n) m \<Longrightarrow> room n m"
  shows "\<exists>m'. (case contains m k of
               None \<Rightarrow> None
             | Some True \<Rightarrow> upd m k f
             | Some False \<Rightarrow> map_option snd (ins m k v)) = Some m' \<and>
         inv m' \<and> room n m' \<and>
         abs m' = (abs m)(k \<mapsto> case abs m k of None \<Rightarrow> v | Some w \<Rightarrow> f w)"
proof (cases "abs m k")
  case None
  then show ?thesis
    using contains_abs[OF assms(1)] insert_fresh[OF assms(1,2) None, of v] by auto
next
  case (Some w)
  then show ?thesis
    using contains_abs[OF assms(1), of k] update_abs[OF assms(1) Some, of f] assms(2) mono by auto
qed

text \<open>Deleting a key that was just inserted restores the map.\<close>

lemma insert_delete:
  assumes "inv m" "room (Suc n) m" "abs m k = None"
  shows "\<exists>m1 m2. ins m k v = Some (True, m1) \<and> del m1 k = Some (True, m2) \<and> inv m2 \<and>
           room n m2 \<and> abs m2 = abs m"
proof -
  obtain m1 where m1: "ins m k v = Some (True, m1)" "inv m1" "room n m1"
    "abs m1 = (abs m)(k \<mapsto> v)"
    using insert_fresh[OF assms] by blast
  moreover obtain m2 where "del m1 k = Some (abs m1 k \<noteq> None, m2)" "inv m2"
    "abs m2 = (abs m1)(k := None)" "\<forall>n. room n m1 \<longrightarrow> room n m2"
    using delete_abs[OF m1(2)] by blast
  moreover have "(abs m)(k := None) = abs m" using assms(3) by auto
  ultimately show ?thesis by simp
qed

end

end
