(* ===== verification/Hash_Map.thy ===== *)
theory Hash_Map
  imports Map_Interface Murmur_Hash
begin

text \<open>
  \<open>ds::HashMap\<close> of \<open>src/ds/hash_map.h\<close>: an open-addressing hash table with one metadata
  byte per slot. \<open>EMPTY\<close> and \<open>DELETED\<close> mark unoccupied slots; an occupied slot holds
  seven bits of the hash. The template parameter \<open>hasher\<close> is the argument \<open>hash\<close> of the
  operations; key equality is equality.

  The first part is the code: the state record, \<open>Find\<close>, \<open>Insert\<close>, \<open>Lookup\<close>, \<open>Contains\<close>,
  \<open>Delete\<close>, \<open>Rehash\<close>, the copy constructor and the two halves of a move. The second part is
  the representation invariant \<open>hm_inv\<close> and the abstraction \<open>hm_abs\<close> to a finite map; the
  third shows that the table refines a map as long as no key is inserted twice.
\<close>

unbundle bit_operations_syntax

section \<open>The code\<close>

definition EMPTY :: u8 where "EMPTY = - 128"
definition DELETED :: u8 where "DELETED = - 2"

text \<open>The template parameter \<open>inv_load_factor\<close>, 3 for every map of the kernel.\<close>

definition inv_load_factor :: nat where "inv_load_factor = 3"

text \<open>
  \<open>mdata\<close> is the byte array \<open>mdata_\<close>, \<open>map_arr\<close> the entry array \<open>map_\<close>: \<open>None\<close> is raw memory that no
  constructor has run on.
\<close>

record ('k, 'v) hash_map =
  mdata :: "u8 list"
  capacity :: nat
  num_entries :: nat
  map_arr :: "('k \<times> 'v) option list"

definition H1 :: "u32 \<Rightarrow> nat" where
  "H1 hash = unat (drop_bit 7 hash)"

definition H2 :: "u32 \<Rightarrow> u8" where
  "H2 hash = ucast (hash AND 0x7F)"

definition HashMap :: "nat \<Rightarrow> ('k, 'v) hash_map" where
  "HashMap initial_size =
     \<lparr>mdata = replicate initial_size EMPTY, capacity = initial_size, num_entries = 0,
      map_arr = replicate initial_size None\<rparr>"

definition occupied :: "('k, 'v) hash_map \<Rightarrow> nat \<Rightarrow> bool" where
  "occupied m i \<longleftrightarrow> mdata m ! i \<noteq> EMPTY \<and> mdata m ! i \<noteq> DELETED"

text \<open>\<open>H2(hash) == mdata_[ind] && key == map_[ind].key_\<close>\<close>

definition slot_matches :: "('k, 'v) hash_map \<Rightarrow> 'k \<Rightarrow> u32 \<Rightarrow> nat \<Rightarrow> bool" where
  "slot_matches m key h i \<longleftrightarrow>
     H2 h = mdata m ! i \<and> (case map_arr m ! i of Some (k, _) \<Rightarrow> k = key | None \<Rightarrow> False)"

text \<open>
  The loop of \<open>Find\<close>: its index is a \<open>uint32_t\<close>, so the increment wraps at \<open>2 ^ 32\<close> before
  the remainder is taken. \<open>Some None\<close> is the result \<open>-1\<close>.
\<close>

partial_function (option) Find_loop ::
  "('k, 'v) hash_map \<Rightarrow> 'k \<Rightarrow> u32 \<Rightarrow> nat \<Rightarrow> nat option option" where
  "Find_loop m key h ind =
     (if ind < capacity m \<and> mdata m ! ind \<noteq> EMPTY
      then if slot_matches m key h ind then Some (Some ind)
           else Find_loop m key h ((ind + 1) mod 2 ^ 32 mod capacity m)
      else Some None)"

definition Find :: "('k \<Rightarrow> u32) \<Rightarrow> ('k, 'v) hash_map \<Rightarrow> 'k \<Rightarrow> nat option option" where
  "Find hash m key =
     (if capacity m = 0 then None
      else Find_loop m key (hash key) (H1 (hash key) mod capacity m))"

definition Lookup :: "('k \<Rightarrow> u32) \<Rightarrow> ('k, 'v) hash_map \<Rightarrow> 'k \<Rightarrow> 'v option option" where
  "Lookup hash m key =
     (case Find hash m key of
        None \<Rightarrow> None
      | Some None \<Rightarrow> Some None
      | Some (Some i) \<Rightarrow> Some (map_option snd (map_arr m ! i)))"

definition Contains :: "('k \<Rightarrow> u32) \<Rightarrow> ('k, 'v) hash_map \<Rightarrow> 'k \<Rightarrow> bool option" where
  "Contains hash m key = map_option (\<lambda>r. r \<noteq> None) (Find hash m key)"

definition Delete ::
  "('k \<Rightarrow> u32) \<Rightarrow> ('k, 'v) hash_map \<Rightarrow> 'k \<Rightarrow> (bool \<times> ('k, 'v) hash_map) option" where
  "Delete hash m key =
     (case Find hash m key of
        None \<Rightarrow> None
      | Some None \<Rightarrow> Some (False, m)
      | Some (Some i) \<Rightarrow> Some (True, m\<lparr>mdata := (mdata m)[i := DELETED]\<rparr>))"

definition Len :: "('k, 'v) hash_map \<Rightarrow> nat" where
  "Len m = num_entries m"

text \<open>
  \<open>operator[]\<close> used as an assignment target, \<open>m[key] = f(m[key])\<close>: for an absent key
  \<open>Find\<close> returns \<open>-1\<close> and the code accesses \<open>map_[-1]\<close>, outside the array.
\<close>

definition update_at ::
  "('k \<Rightarrow> u32) \<Rightarrow> ('k, 'v) hash_map \<Rightarrow> 'k \<Rightarrow> ('v \<Rightarrow> 'v) \<Rightarrow> ('k, 'v) hash_map option" where
  "update_at hash m key f =
     (case Find hash m key of
        Some (Some i) \<Rightarrow> Some (m\<lparr>map_arr := (map_arr m)[i := map_option (apsnd f) (map_arr m ! i)]\<rparr>)
      | _ \<Rightarrow> None)"

text \<open>
  The probe loop of \<open>Insert\<close> stops at the first unoccupied slot, empty or deleted
  (\<open>Some (Some ind)\<close>), or at the key (\<open>Some None\<close>, for \<open>return false\<close>). Its index is a
  \<open>size_t\<close>.
\<close>

partial_function (option) Insert_loop ::
  "('k, 'v) hash_map \<Rightarrow> 'k \<Rightarrow> u32 \<Rightarrow> nat \<Rightarrow> nat option option" where
  "Insert_loop m key h ind =
     (if occupied m ind
      then if slot_matches m key h ind then Some None
           else Insert_loop m key h ((ind + 1) mod capacity m)
      else Some (Some ind))"

partial_function (option) Rehash_probe :: "u8 list \<Rightarrow> nat \<Rightarrow> nat \<Rightarrow> nat option" where
  "Rehash_probe new_mdata cap new_ind =
     (if new_mdata ! new_ind \<noteq> EMPTY
      then Rehash_probe new_mdata cap ((new_ind + 1) mod 2 ^ 32 mod cap)
      else Some new_ind)"

text \<open>The copy loop of \<open>Rehash\<close>, over the indices of the old arrays.\<close>

fun Rehash_copy ::
  "('k \<Rightarrow> u32) \<Rightarrow> ('k, 'v) hash_map \<Rightarrow> nat \<Rightarrow> nat list \<Rightarrow> u8 list \<Rightarrow> ('k \<times> 'v) option list \<Rightarrow>
   (u8 list \<times> ('k \<times> 'v) option list) option" where
  "Rehash_copy hash m cap [] nmd nmp = Some (nmd, nmp)"
| "Rehash_copy hash m cap (i # is) nmd nmp =
     (if occupied m i
      then case map_arr m ! i of
             None \<Rightarrow> None
           | Some (k, v) \<Rightarrow>
               (case Rehash_probe nmd cap (H1 (hash k) mod cap) of
                  None \<Rightarrow> None
                | Some j \<Rightarrow>
                    Rehash_copy hash m cap is (nmd[j := H2 (hash k)]) (nmp[j := Some (k, v)]))
      else Rehash_copy hash m cap is nmd nmp)"

text \<open>
  \<open>Rehash\<close>. Its initialisation loop counts with a \<open>uint32_t\<close> up to the new capacity, and
  so never ends once that is \<open>2 ^ 32\<close> or more.
\<close>

definition Rehash :: "('k \<Rightarrow> u32) \<Rightarrow> ('k, 'v) hash_map \<Rightarrow> ('k, 'v) hash_map option" where
  "Rehash hash m =
     (let old_capacity = capacity m;
          cap = (capacity m + 1) * 2 - 1
      in if 2 ^ 32 \<le> cap then None
         else case Rehash_copy hash m cap [0..<old_capacity] (replicate cap EMPTY)
                     (replicate cap None) of
                None \<Rightarrow> None
              | Some (nmd, nmp) \<Rightarrow> Some (m\<lparr>mdata := nmd, capacity := cap, map_arr := nmp\<rparr>))"

definition Insert ::
  "('k \<Rightarrow> u32) \<Rightarrow> ('k, 'v) hash_map \<Rightarrow> 'k \<Rightarrow> 'v \<Rightarrow> (bool \<times> ('k, 'v) hash_map) option" where
  "Insert hash m key val =
     (if capacity m = 0 then None
      else case Insert_loop m key (hash key) (H1 (hash key) mod capacity m) of
             None \<Rightarrow> None
           | Some None \<Rightarrow> Some (False, m)
           | Some (Some ind) \<Rightarrow>
               (let m = m\<lparr>mdata := (mdata m)[ind := H2 (hash key)],
                          map_arr := (map_arr m)[ind := Some (key, val)],
                          num_entries := num_entries m + 1\<rparr>
                in if num_entries m > capacity m div inv_load_factor
                   then map_option (Pair True) (Rehash hash m)
                   else Some (True, m)))"

text \<open>
  The copy constructor (and, after it has freed the old arrays, the copy assignment): every
  metadata byte is copied, and an entry is copied where it is occupied.
\<close>

definition copy_of :: "('k, 'v) hash_map \<Rightarrow> ('k, 'v) hash_map" where
  "copy_of rhs =
     \<lparr>mdata = map (\<lambda>i. mdata rhs ! i) [0..<capacity rhs], capacity = capacity rhs,
      num_entries = num_entries rhs,
      map_arr = map (\<lambda>i. if occupied rhs i then map_arr rhs ! i else None) [0..<capacity rhs]\<rparr>"

text \<open>The move constructor and assignment: the new object and what is left of the old one.\<close>

definition move_from :: "('k, 'v) hash_map \<Rightarrow> ('k, 'v) hash_map \<times> ('k, 'v) hash_map" where
  "move_from rhs = (rhs, \<lparr>mdata = [], capacity = 0, num_entries = 0, map_arr = []\<rparr>)"

section \<open>Invariant and abstraction\<close>

definition home :: "('k \<Rightarrow> u32) \<Rightarrow> ('k, 'v) hash_map \<Rightarrow> 'k \<Rightarrow> nat" where
  "home hash m k = H1 (hash k) mod capacity m"

text \<open>Every slot on the probe path from \<open>i0\<close> to \<open>i\<close> is non-empty.\<close>

definition path_to :: "('k, 'v) hash_map \<Rightarrow> nat \<Rightarrow> nat \<Rightarrow> bool" where
  "path_to m i0 i \<longleftrightarrow>
     (\<exists>n<capacity m. i = (i0 + n) mod capacity m \<and>
        (\<forall>j<n. mdata m ! ((i0 + j) mod capacity m) \<noteq> EMPTY))"

definition hm_shape :: "('k \<Rightarrow> u32) \<Rightarrow> ('k, 'v) hash_map \<Rightarrow> bool" where
  "hm_shape hash m \<longleftrightarrow>
     0 < capacity m \<and> capacity m < 2 ^ 32 \<and>
     length (mdata m) = capacity m \<and> length (map_arr m) = capacity m \<and>
     (\<forall>i<capacity m. occupied m i \<longrightarrow>
        (\<exists>k v. map_arr m ! i = Some (k, v) \<and> mdata m ! i = H2 (hash k) \<and>
               path_to m (home hash m k) i))"

definition hm_uniq :: "('k, 'v) hash_map \<Rightarrow> bool" where
  "hm_uniq m \<longleftrightarrow>
     (\<forall>i<capacity m. \<forall>j<capacity m. occupied m i \<longrightarrow> occupied m j \<longrightarrow>
        map_option fst (map_arr m ! i) = map_option fst (map_arr m ! j) \<longrightarrow> i = j)"

definition used :: "('k, 'v) hash_map \<Rightarrow> nat" where
  "used m = card {i. i < capacity m \<and> mdata m ! i \<noteq> EMPTY}"

definition hm_load :: "('k, 'v) hash_map \<Rightarrow> bool" where
  "hm_load m \<longleftrightarrow> used m \<le> num_entries m \<and> num_entries m \<le> capacity m div inv_load_factor"

text \<open>What any sequence of operations keeps, and what a disciplined client keeps.\<close>

definition hm_ok :: "('k \<Rightarrow> u32) \<Rightarrow> ('k, 'v) hash_map \<Rightarrow> bool" where
  "hm_ok hash m \<longleftrightarrow> hm_shape hash m \<and> hm_load m"

definition hm_inv :: "('k \<Rightarrow> u32) \<Rightarrow> ('k, 'v) hash_map \<Rightarrow> bool" where
  "hm_inv hash m \<longleftrightarrow> hm_ok hash m \<and> hm_uniq m"

definition hm_contents :: "('k, 'v) hash_map \<Rightarrow> ('k \<times> 'v) set" where
  "hm_contents m = {kv. \<exists>i<capacity m. occupied m i \<and> map_arr m ! i = Some kv}"

definition hm_pairs :: "('k, 'v) hash_map \<Rightarrow> ('k \<times> 'v) list" where
  "hm_pairs m =
     List.map_filter (\<lambda>i. if occupied m i then map_arr m ! i else None) [0..<capacity m]"

definition hm_abs :: "('k, 'v) hash_map \<Rightarrow> ('k \<rightharpoonup> 'v)" where
  "hm_abs m = map_of (hm_pairs m)"

lemma EMPTY_neq_DELETED [simp]: "EMPTY \<noteq> DELETED" "DELETED \<noteq> EMPTY"
  by (simp_all add: EMPTY_def DELETED_def)

lemma H2_not_special [simp]: "H2 h \<noteq> EMPTY" "H2 h \<noteq> DELETED" "EMPTY \<noteq> H2 h" "DELETED \<noteq> H2 h"
proof -
  have "\<not> bit (H2 h) 7"
    by (simp add: H2_def bit_simps)
  moreover have "bit EMPTY 7" "bit DELETED 7"
    by (simp_all add: EMPTY_def DELETED_def)
  ultimately show "H2 h \<noteq> EMPTY" "H2 h \<noteq> DELETED" "EMPTY \<noteq> H2 h" "DELETED \<noteq> H2 h"
    by metis+
qed

lemma inv_load_factor_pos [simp]: "inv_load_factor = 3"
  by (simp add: inv_load_factor_def)

lemma home_less: "hm_shape hash m \<Longrightarrow> home hash m k < capacity m"
  by (simp add: hm_shape_def home_def)

lemma set_hm_pairs: "set (hm_pairs m) = hm_contents m"
  by (force simp: hm_pairs_def hm_contents_def List.map_filter_def split: if_splits)

lemma hm_uniq_key:
  assumes "hm_uniq m" "j < capacity m" "i < capacity m" "occupied m j" "occupied m i"
    and "map_arr m ! j = Some (k, w)" "map_arr m ! i = Some (k, v)"
  shows "j = i"
  using assms unfolding hm_uniq_def by simp

lemma hm_contents_functional:
  assumes "hm_uniq m" "(k, v) \<in> hm_contents m" "(k, w) \<in> hm_contents m"
  shows "v = w"
  using assms unfolding hm_uniq_def hm_contents_def by fastforce

lemma hm_abs_iff: "hm_uniq m \<Longrightarrow> hm_abs m k = Some v \<longleftrightarrow> (k, v) \<in> hm_contents m"
  unfolding hm_abs_def
  by (metis hm_contents_functional map_of_SomeD set_hm_pairs weak_map_of_SomeI)

lemma hm_abs_None: "hm_abs m k = None \<longleftrightarrow> k \<notin> fst ` hm_contents m"
  by (simp add: hm_abs_def map_of_eq_None_iff set_hm_pairs)

lemma hm_abs_eqI:
  assumes "hm_uniq m" "\<And>k v. f k = Some v \<longleftrightarrow> (k, v) \<in> hm_contents m"
  shows "hm_abs m = f"
  by (rule ext) (metis assms hm_abs_iff not_None_eq)

lemma slot_matches_occupied: "slot_matches m key h i \<Longrightarrow> occupied m i"
  by (metis H2_not_special(1,2) occupied_def slot_matches_def)

lemma slot_matches_key:
  assumes "hm_shape hash m" "i < capacity m"
  shows "slot_matches m key (hash key) i \<longleftrightarrow> occupied m i \<and> (\<exists>v. map_arr m ! i = Some (key, v))"
proof
  assume match: "slot_matches m key (hash key) i"
  then show "occupied m i \<and> (\<exists>v. map_arr m ! i = Some (key, v))"
    using slot_matches_occupied[OF match]
    by (auto simp: slot_matches_def split: option.splits)
next
  assume "occupied m i \<and> (\<exists>v. map_arr m ! i = Some (key, v))"
  then show "slot_matches m key (hash key) i"
    using assms by (auto simp: hm_shape_def slot_matches_def)
qed

lemma path_to_mono:
  assumes "path_to m i0 i" "capacity m' = capacity m" "0 < capacity m"
    and "\<And>j. j < capacity m \<Longrightarrow> mdata m ! j \<noteq> EMPTY \<Longrightarrow> mdata m' ! j \<noteq> EMPTY"
  shows "path_to m' i0 i"
  using assms unfolding path_to_def by force

lemma hm_load_empty_slot:
  assumes "used m < capacity m"
  shows "\<exists>i<capacity m. mdata m ! i = EMPTY"
proof (rule ccontr)
  assume "\<not> ?thesis"
  then have "{i. i < capacity m \<and> mdata m ! i \<noteq> EMPTY} = {..<capacity m}" by auto
  with assms show False by (simp add: used_def)
qed

lemma hm_ok_used: "hm_ok hash m \<Longrightarrow> used m < capacity m"
  unfolding hm_ok_def hm_shape_def hm_load_def inv_load_factor_pos by linarith

section \<open>Find, Lookup, Contains\<close>

lemma mod_u32_step: "i < c \<Longrightarrow> c < 2 ^ 32 \<Longrightarrow> (i + 1) mod 2 ^ 32 mod c = (i + 1) mod (c::nat)"
  by simp

text \<open>The loop of \<open>Find\<close> ends at the first slot on the probe path that is empty or matches.\<close>

lemma Find_loop_spec:
  assumes shape: "hm_shape hash m" and free: "used m < capacity m" and i0: "i0 < capacity m"
  obtains i n where "n < capacity m" "i = (i0 + n) mod capacity m"
    and "\<forall>j<n. mdata m ! ((i0 + j) mod capacity m) \<noteq> EMPTY \<and>
               \<not> slot_matches m key (hash key) ((i0 + j) mod capacity m)"
    and "slot_matches m key (hash key) i \<and> Find_loop m key (hash key) i0 = Some (Some i) \<or>
         mdata m ! i = EMPTY \<and> Find_loop m key (hash key) i0 = Some None"
proof -
  let ?c = "capacity m"
  let ?P = "\<lambda>i. mdata m ! i = EMPTY \<or> slot_matches m key (hash key) i"
  have c32: "?c < 2 ^ 32" using shape by (simp add: hm_shape_def)
  obtain k where k: "k < ?c" "?P k" using hm_load_empty_slot[OF free] by blast
  obtain n where n: "n < ?c" "?P ((i0 + n) mod ?c)" "\<forall>j<n. \<not> ?P ((i0 + j) mod ?c)"
    by (rule probe_first_stop[where P = ?P, OF i0 k])
  have "Find_loop m key (hash key) i0 = Find_loop m key (hash key) ((i0 + n) mod ?c)"
  proof (rule probe_loop[where P = ?P])
    fix i assume "i < ?c" "\<not> ?P i"
    then show "Find_loop m key (hash key) i = Find_loop m key (hash key) ((i + 1) mod ?c)"
      using mod_u32_step[OF _ c32] by (subst Find_loop.simps) simp
  qed (use i0 n(3) in auto)
  moreover have "(i0 + n) mod ?c < ?c" using i0 by simp
  ultimately show ?thesis
    using that[OF n(1) refl] n(2,3)
    by (auto simp: Find_loop.simps[of m key "hash key" "(i0 + n) mod ?c"]
        dest: slot_matches_occupied simp: occupied_def)
qed

lemma Find_spec:
  assumes shape: "hm_shape hash m" and free: "used m < capacity m"
  obtains (found) i v where "Find hash m key = Some (Some i)" "i < capacity m" "occupied m i"
      "map_arr m ! i = Some (key, v)"
    | (absent) "Find hash m key = Some None" "key \<notin> fst ` hm_contents m"
proof -
  let ?c = "capacity m" and ?h = "home hash m key"
  have hc: "?h < ?c" using home_less[OF shape] .
  have c0: "?c \<noteq> 0" using shape by (simp add: hm_shape_def)
  obtain i n where n: "n < ?c" "i = (?h + n) mod ?c"
    "\<forall>j<n. mdata m ! ((?h + j) mod ?c) \<noteq> EMPTY \<and>
           \<not> slot_matches m key (hash key) ((?h + j) mod ?c)"
    and res: "slot_matches m key (hash key) i \<and> Find_loop m key (hash key) ?h = Some (Some i) \<or>
         mdata m ! i = EMPTY \<and> Find_loop m key (hash key) ?h = Some None"
    by (rule Find_loop_spec[OF shape free hc])
  have F: "Find hash m key = Find_loop m key (hash key) ?h"
    using c0 by (simp add: Find_def home_def)
  have ic: "i < ?c" using n(1,2) hc by simp
  show thesis
  proof (cases "slot_matches m key (hash key) i")
    case True
    then have "Find_loop m key (hash key) ?h = Some (Some i)"
      using res slot_matches_occupied by (fastforce simp: occupied_def)
    with True show thesis
      using found F ic slot_matches_key[OF shape ic] by metis
  next
    case False
    then have E: "mdata m ! i = EMPTY" "Find_loop m key (hash key) ?h = Some None"
      using res by auto
    have "key \<notin> fst ` hm_contents m"
    proof
      assume "key \<in> fst ` hm_contents m"
      then obtain k v where k: "k < ?c" "occupied m k" "map_arr m ! k = Some (key, v)"
        by (auto simp: hm_contents_def)
      then have "path_to m ?h k" using shape by (fastforce simp: hm_shape_def)
      then obtain p where p: "p < ?c" "k = (?h + p) mod ?c"
        "\<forall>j<p. mdata m ! ((?h + j) mod ?c) \<noteq> EMPTY" by (auto simp: path_to_def)
      have sm: "slot_matches m key (hash key) k"
        using slot_matches_key[OF shape k(1)] k by blast
      consider "p < n" | "p = n" | "n < p" by linarith
      then show False
      proof cases
        case 1 then show False using n(3) p(2) sm by blast
      next
        case 2 then show False using False n(2) p(2) sm by simp
      next
        case 3 then show False using E(1) n(2) p(3) by blast
      qed
    qed
    with E(2) show thesis using absent F by simp
  qed
qed

lemma Find_returns:
  assumes "hm_shape hash m" "used m < capacity m"
  shows "\<exists>r. Find hash m key = Some r"
  by (rule Find_spec[OF assms, of key]) auto

lemma Lookup_abs:
  assumes "hm_shape hash m" "used m < capacity m" "hm_uniq m"
  shows "Lookup hash m key = Some (hm_abs m key)"
proof (rule Find_spec[OF assms(1,2), of key])
  fix i v
  assume f: "Find hash m key = Some (Some i)" and "i < capacity m" "occupied m i"
    and e: "map_arr m ! i = Some (key, v)"
  then have "(key, v) \<in> hm_contents m" by (auto simp: hm_contents_def)
  then have "hm_abs m key = Some v" using assms(3) by (simp add: hm_abs_iff)
  then show ?thesis using f e by (simp add: Lookup_def)
next
  assume f: "Find hash m key = Some None" and "key \<notin> fst ` hm_contents m"
  then have "hm_abs m key = None" by (simp only: hm_abs_None not_False_eq_True)
  with f show ?thesis by (simp add: Lookup_def)
qed

lemma Contains_abs:
  assumes "hm_shape hash m" "used m < capacity m"
  shows "Contains hash m key = Some (key \<in> fst ` hm_contents m)"
proof (rule Find_spec[OF assms, of key])
  fix i v
  assume f: "Find hash m key = Some (Some i)" and "i < capacity m" "occupied m i"
    and e: "map_arr m ! i = Some (key, v)"
  then have "(key, v) \<in> hm_contents m" by (auto simp: hm_contents_def)
  then show ?thesis using f by (force simp: Contains_def)
qed (simp add: Contains_def)

section \<open>Storing into an unoccupied slot\<close>

text \<open>The three stores that \<open>Insert\<close> and \<open>Rehash\<close> make into the slot they have found.\<close>

abbreviation place ::
  "('k \<Rightarrow> u32) \<Rightarrow> ('k, 'v) hash_map \<Rightarrow> nat \<Rightarrow> 'k \<Rightarrow> 'v \<Rightarrow> ('k, 'v) hash_map" where
  "place hash m i k v \<equiv> m\<lparr>mdata := (mdata m)[i := H2 (hash k)], map_arr := (map_arr m)[i := Some (k, v)]\<rparr>"

lemma occupied_place:
  "i < length (mdata m) \<Longrightarrow> occupied (place hash m i k v) j \<longleftrightarrow> j = i \<or> occupied m j"
  by (cases "j = i") (auto simp: occupied_def)

lemma place_shape:
  assumes shape: "hm_shape hash m" and i: "i < capacity m" and free: "\<not> occupied m i"
    and path: "path_to m (home hash m k) i"
  shows "hm_shape hash (place hash m i k v)"
proof -
  let ?m = "place hash m i k v"
  have len: "length (mdata m) = capacity m" "length (map_arr m) = capacity m" "0 < capacity m"
    using shape by (simp_all add: hm_shape_def)
  have mono: "mdata m ! j \<noteq> EMPTY \<Longrightarrow> mdata ?m ! j \<noteq> EMPTY" if "j < capacity m" for j
    using that len by (cases "j = i") auto
  have path': "path_to m a b \<Longrightarrow> path_to ?m a b" for a b
    by (rule path_to_mono) (use mono len in auto)
  have "\<exists>k' v'. map_arr ?m ! j = Some (k', v') \<and> mdata ?m ! j = H2 (hash k') \<and>
          path_to ?m (home hash ?m k') j"
    if j: "j < capacity m" "occupied ?m j" for j
  proof (cases "j = i")
    case True
    then show ?thesis using len i path path' by (auto simp: home_def)
  next
    case False
    with j len i have "occupied m j" by (simp add: occupied_place)
    then show ?thesis using shape j(1) False path' by (fastforce simp: hm_shape_def home_def)
  qed
  then show ?thesis using shape by (simp add: hm_shape_def)
qed

lemma place_contents:
  assumes "hm_shape hash m" "i < capacity m" "\<not> occupied m i"
  shows "hm_contents (place hash m i k v) = insert (k, v) (hm_contents m)"
proof -
  have "i < length (mdata m)" "i < length (map_arr m)"
    using assms by (simp_all add: hm_shape_def)
  then show ?thesis
    using assms(2,3) unfolding hm_contents_def
    by (auto simp: occupied_place nth_list_update split: if_splits)
qed

lemma place_uniq:
  assumes "hm_shape hash m" "i < capacity m" "\<not> occupied m i" "hm_uniq m"
    and "k \<notin> fst ` hm_contents m"
  shows "hm_uniq (place hash m i k v)"
proof -
  have len: "i < length (mdata m)" "i < length (map_arr m)"
    using assms(1,2) by (simp_all add: hm_shape_def)
  have key: "map_option fst (map_arr m ! j) \<noteq> Some k" if "j < capacity m" "occupied m j" for j
    using assms(5) that by (force simp: hm_contents_def)
  have key': "Some k \<noteq> map_option fst (map_arr m ! j)" if "j < capacity m" "occupied m j" for j
    using key[OF that] by metis
  show ?thesis
    unfolding hm_uniq_def
  proof (intro allI impI)
    fix a b
    assume "a < capacity (place hash m i k v)" "b < capacity (place hash m i k v)"
      and "occupied (place hash m i k v) a" "occupied (place hash m i k v) b"
      and "map_option fst (map_arr (place hash m i k v) ! a) =
           map_option fst (map_arr (place hash m i k v) ! b)"
    with len key key' assms(4) show "a = b"
      by (cases "a = i"; cases "b = i") (simp_all add: occupied_place hm_uniq_def, metis+)
  qed
qed

lemma place_used: "used (place hash m i k v) \<le> used m + 1"
proof -
  have "{j. j < capacity m \<and> (mdata m)[i := H2 (hash k)] ! j \<noteq> EMPTY}
      \<subseteq> insert i {j. j < capacity m \<and> mdata m ! j \<noteq> EMPTY}"
  proof
    fix j assume "j \<in> {j. j < capacity m \<and> (mdata m)[i := H2 (hash k)] ! j \<noteq> EMPTY}"
    then show "j \<in> insert i {j. j < capacity m \<and> mdata m ! j \<noteq> EMPTY}"
      by (cases "j = i") auto
  qed
  then have "used (place hash m i k v) \<le> card (insert i {j. j < capacity m \<and> mdata m ! j \<noteq> EMPTY})"
    unfolding used_def by (simp add: card_mono)
  also have "\<dots> \<le> used m + 1"
    unfolding used_def by (simp add: card_insert_if)
  finally show ?thesis .
qed

section \<open>Rehash\<close>

lemma Rehash_probe_spec:
  assumes shape: "hm_shape hash m" and free: "used m < capacity m"
    and nodel: "\<forall>i<capacity m. mdata m ! i \<noteq> DELETED"
  obtains i where "Rehash_probe (mdata m) (capacity m) (home hash m k) = Some i"
    "i < capacity m" "\<not> occupied m i" "path_to m (home hash m k) i"
proof -
  let ?c = "capacity m" and ?h = "home hash m k"
  let ?P = "\<lambda>i. mdata m ! i = EMPTY"
  have c32: "?c < 2 ^ 32" using shape by (simp add: hm_shape_def)
  have hc: "?h < ?c" using home_less[OF shape] .
  obtain e where e: "e < ?c" "?P e" using hm_load_empty_slot[OF free] by blast
  obtain n where n: "n < ?c" "?P ((?h + n) mod ?c)" "\<forall>j<n. \<not> ?P ((?h + j) mod ?c)"
    by (rule probe_first_stop[where P = ?P, OF hc e])
  have "Rehash_probe (mdata m) ?c ?h = Rehash_probe (mdata m) ?c ((?h + n) mod ?c)"
  proof (rule probe_loop[where P = ?P])
    fix i assume "i < ?c" "\<not> ?P i"
    then show "Rehash_probe (mdata m) ?c i = Rehash_probe (mdata m) ?c ((i + 1) mod ?c)"
      using mod_u32_step[OF _ c32] by (subst Rehash_probe.simps) simp
  qed (use hc n(3) in auto)
  then have "Rehash_probe (mdata m) ?c ?h = Some ((?h + n) mod ?c)"
    using n(2) by (simp add: Rehash_probe.simps)
  moreover have "path_to m ?h ((?h + n) mod ?c)"
    using n unfolding path_to_def by blast
  moreover have "(?h + n) mod ?c < ?c" using hc by simp
  ultimately show thesis using that n(2) by (simp add: occupied_def)
qed

definition slots :: "('k, 'v) hash_map \<Rightarrow> nat list \<Rightarrow> ('k \<times> 'v) set" where
  "slots m is = {kv. \<exists>i\<in>set is. occupied m i \<and> map_arr m ! i = Some kv}"

lemma slots_Nil [simp]: "slots m [] = {}"
  by (simp add: slots_def)

lemma slots_Cons: "slots m (i # is) = (if occupied m i then set_option (map_arr m ! i) else {}) \<union> slots m is"
  by (auto simp: slots_def)

lemma slots_all: "slots m [0..<capacity m] = hm_contents m"
  by (auto simp: slots_def hm_contents_def)

text \<open>
  The copy loop, generalised over the indices still to do. \<open>n\<close> is the table built so far;
  the loop succeeds, keeps its shape, and adds exactly the occupied slots that are left.
\<close>

lemma Rehash_copy_spec:
  assumes "hm_shape hash m" "hm_shape hash n" "\<forall>i<capacity n. mdata n ! i \<noteq> DELETED"
    and "set is \<subseteq> {..<capacity m}" "used n + length is < capacity n"
  shows "\<exists>nmd nmp. Rehash_copy hash m (capacity n) is (mdata n) (map_arr n) = Some (nmd, nmp) \<and>
           hm_shape hash (n\<lparr>mdata := nmd, map_arr := nmp\<rparr>) \<and>
           used (n\<lparr>mdata := nmd, map_arr := nmp\<rparr>) \<le> used n + length (filter (occupied m) is) \<and>
           hm_contents (n\<lparr>mdata := nmd, map_arr := nmp\<rparr>) = hm_contents n \<union> slots m is \<and>
           (hm_uniq m \<longrightarrow> hm_uniq n \<longrightarrow> distinct is \<longrightarrow>
              fst ` hm_contents n \<inter> fst ` slots m is = {} \<longrightarrow>
              hm_uniq (n\<lparr>mdata := nmd, map_arr := nmp\<rparr>))"
  using assms(2-5)
proof (induction "is" arbitrary: n)
  case Nil
  then show ?case by simp
next
  case (Cons i "is")
  show ?case
  proof (cases "occupied m i")
    case False
    have "set is \<subseteq> {..<capacity m}" "used n + length is < capacity n"
      using Cons.prems(3,4) by simp_all
    note IH = Cons.IH[OF Cons.prems(1,2) this]
    show ?thesis
      using IH by (elim ex_forward) (use False in \<open>simp add: slots_Cons\<close>)
  next
    case True
    have "i < capacity m" using Cons.prems(3) by simp
    with True assms(1) obtain k v where kv: "map_arr m ! i = Some (k, v)"
      by (auto simp: hm_shape_def)
    have "used n < capacity n" using Cons.prems(4) by simp
    then obtain j where j: "Rehash_probe (mdata n) (capacity n) (home hash n k) = Some j"
      "j < capacity n" "\<not> occupied n j" "path_to n (home hash n k) j"
      by (rule Rehash_probe_spec[OF Cons.prems(1) _ Cons.prems(2)])
    let ?n = "place hash n j k v"
    have shape: "hm_shape hash ?n" using Cons.prems(1) j(2-4) by (rule place_shape)
    have cont: "hm_contents ?n = insert (k, v) (hm_contents n)"
      using Cons.prems(1) j(2,3) by (rule place_contents)
    have nodel: "\<forall>i<capacity ?n. mdata ?n ! i \<noteq> DELETED"
    proof (intro allI impI)
      fix i assume "i < capacity ?n"
      then show "mdata ?n ! i \<noteq> DELETED"
        using Cons.prems(1,2) j(2) by (cases "i = j") (auto simp: hm_shape_def)
    qed
    have used: "used ?n + length is < capacity ?n"
      using Cons.prems(4) place_used[where m = n and i = j and hash = hash and k = k and v = v] by simp
    obtain nmd nmp where IH:
      "Rehash_copy hash m (capacity n) is (mdata ?n) (map_arr ?n) = Some (nmd, nmp)"
      "hm_shape hash (n\<lparr>mdata := nmd, map_arr := nmp\<rparr>)"
      "used (n\<lparr>mdata := nmd, map_arr := nmp\<rparr>) \<le> used ?n + length (filter (occupied m) is)"
      "hm_contents (n\<lparr>mdata := nmd, map_arr := nmp\<rparr>) = hm_contents ?n \<union> slots m is"
      "hm_uniq m \<longrightarrow> hm_uniq ?n \<longrightarrow> distinct is \<longrightarrow>
         fst ` hm_contents ?n \<inter> fst ` slots m is = {} \<longrightarrow>
         hm_uniq (n\<lparr>mdata := nmd, map_arr := nmp\<rparr>)"
      using Cons.IH[OF shape nodel _ used] Cons.prems(3) by auto
    have "hm_uniq (n\<lparr>mdata := nmd, map_arr := nmp\<rparr>)"
      if u: "hm_uniq m" "hm_uniq n" "distinct (i # is)"
        "fst ` hm_contents n \<inter> fst ` slots m (i # is) = {}"
    proof -
      have "k \<notin> fst ` hm_contents n" using u(4) True kv by (auto simp: slots_Cons)
      then have "hm_uniq ?n" using place_uniq[OF Cons.prems(1) j(2,3) u(2)] by blast
      moreover have "k \<notin> fst ` slots m is"
      proof
        assume "k \<in> fst ` slots m is"
        then obtain i' w where "i' \<in> set is" "occupied m i'" "map_arr m ! i' = Some (k, w)"
          by (auto simp: slots_def)
        moreover from this have "i' = i"
          using hm_uniq_key[OF u(1) _ _ _ True _ kv] \<open>i < capacity m\<close> Cons.prems(3) by auto
        ultimately show False using u(3) by simp
      qed
      ultimately show ?thesis using IH(5) u cont by (auto simp: slots_Cons)
    qed
    moreover have "hm_contents (n\<lparr>mdata := nmd, map_arr := nmp\<rparr>) = hm_contents n \<union> slots m (i # is)"
      using IH(4) cont True kv by (auto simp: slots_Cons)
    moreover have "used (n\<lparr>mdata := nmd, map_arr := nmp\<rparr>)
        \<le> used n + length (filter (occupied m) (i # is))"
      using IH(3) place_used[where m = n and i = j and hash = hash and k = k and v = v] True by simp
    moreover have "Rehash_copy hash m (capacity n) (i # is) (mdata n) (map_arr n) = Some (nmd, nmp)"
      using IH(1) True kv j(1) by (simp add: home_def)
    ultimately show ?thesis using IH(2) by blast
  qed
qed

lemma length_filter_occupied: "length (filter (occupied m) [0..<capacity m]) \<le> used m"
proof -
  have "length (filter (occupied m) [0..<capacity m]) =
      card {i. i < capacity m \<and> occupied m i}"
    by (simp add: length_filter_conv_card cong: conj_cong)
  also have "\<dots> \<le> used m"
    unfolding used_def by (rule card_mono) (auto simp: occupied_def)
  finally show ?thesis .
qed

lemma Rehash_spec:
  assumes shape: "hm_shape hash m" and small: "2 * capacity m + 1 < 2 ^ 32"
  obtains m' where "Rehash hash m = Some m'" "hm_shape hash m'"
    "capacity m' = 2 * capacity m + 1" "num_entries m' = num_entries m"
    "used m' \<le> used m" "hm_contents m' = hm_contents m" "hm_uniq m \<longrightarrow> hm_uniq m'"
proof -
  let ?cap = "2 * capacity m + 1"
  let ?n = "m\<lparr>mdata := replicate ?cap EMPTY, capacity := ?cap, map_arr := replicate ?cap None\<rparr>"
  have unocc: "\<not> occupied ?n i" if "i < ?cap" for i
    using that by (simp add: occupied_def del: replicate_Suc)
  have shape_n: "hm_shape hash ?n"
    unfolding hm_shape_def using unocc small by (auto simp del: replicate_Suc)
  have nodel: "\<forall>i<capacity ?n. mdata ?n ! i \<noteq> DELETED"
    by (simp del: replicate_Suc)
  have used_n: "used ?n = 0"
    by (simp add: used_def del: replicate_Suc)
  have cont_n: "hm_contents ?n = {}"
    unfolding hm_contents_def using unocc by auto
  have uniq_n: "hm_uniq ?n"
    unfolding hm_uniq_def using unocc by auto
  have sub: "set [0..<capacity m] \<subseteq> {..<capacity m}" by auto
  have lt: "used ?n + length [0..<capacity m] < capacity ?n" using used_n by simp
  obtain nmd nmp where R:
    "Rehash_copy hash m ?cap [0..<capacity m] (mdata ?n) (map_arr ?n) = Some (nmd, nmp)"
    "hm_shape hash (?n\<lparr>mdata := nmd, map_arr := nmp\<rparr>)"
    "used (?n\<lparr>mdata := nmd, map_arr := nmp\<rparr>) \<le> length (filter (occupied m) [0..<capacity m])"
    "hm_contents (?n\<lparr>mdata := nmd, map_arr := nmp\<rparr>) = hm_contents m"
    "hm_uniq m \<Longrightarrow> hm_uniq (?n\<lparr>mdata := nmd, map_arr := nmp\<rparr>)"
    using Rehash_copy_spec[OF shape shape_n nodel sub lt] used_n cont_n uniq_n
    by (auto simp: slots_all simp del: replicate_Suc)
  let ?m' = "m\<lparr>mdata := nmd, capacity := ?cap, map_arr := nmp\<rparr>"
  have eq: "?n\<lparr>mdata := nmd, map_arr := nmp\<rparr> = ?m'" by simp
  have "Rehash hash m = Some ?m'"
    using R(1) small by (simp add: Rehash_def Let_def mult.commute[of "capacity m"] del: replicate_Suc)
  then show thesis
    using R(2-5) length_filter_occupied[of m] unfolding eq
    by (intro that[of ?m']) auto
qed

section \<open>Insert\<close>

text \<open>The loop of \<open>Insert\<close> ends at the first slot that is unoccupied or holds the key.\<close>

lemma Insert_loop_spec:
  assumes shape: "hm_shape hash m" and free: "used m < capacity m"
  obtains (present) i v where "Insert_loop m key (hash key) (home hash m key) = Some None"
      "i < capacity m" "occupied m i" "map_arr m ! i = Some (key, v)"
    | (slot) i where "Insert_loop m key (hash key) (home hash m key) = Some (Some i)"
      "i < capacity m" "\<not> occupied m i" "path_to m (home hash m key) i"
      "(\<forall>j<capacity m. mdata m ! j \<noteq> DELETED) \<Longrightarrow> key \<notin> fst ` hm_contents m"
proof -
  let ?c = "capacity m" and ?h = "home hash m key"
  let ?P = "\<lambda>i. \<not> occupied m i \<or> slot_matches m key (hash key) i"
  let ?L = "Insert_loop m key (hash key)"
  have hc: "?h < ?c" using home_less[OF shape] .
  obtain k where k: "k < ?c" "?P k"
    using hm_load_empty_slot[OF free] by (auto simp: occupied_def)
  obtain n where n: "n < ?c" "?P ((?h + n) mod ?c)" "\<forall>j<n. \<not> ?P ((?h + j) mod ?c)"
    by (rule probe_first_stop[where P = ?P, OF hc k])
  let ?i = "(?h + n) mod ?c"
  have ic: "?i < ?c" using hc by simp
  have L: "?L ?h = ?L ?i"
  proof (rule probe_loop[where P = ?P])
    fix i assume "i < ?c" "\<not> ?P i"
    then show "?L i = ?L ((i + 1) mod ?c)" by (subst Insert_loop.simps) simp
  qed (use hc n(3) in auto)
  show thesis
  proof (cases "occupied m ?i")
    case True
    then have "slot_matches m key (hash key) ?i" using n(2) by blast
    then show thesis
      using present[of ?i] L True ic slot_matches_key[OF shape ic]
      by (auto simp: Insert_loop.simps[of m key "hash key" ?i])
  next
    case False
    have path: "path_to m ?h ?i"
      using n(1,3) unfolding path_to_def occupied_def by blast
    have "key \<notin> fst ` hm_contents m" if nodel: "\<forall>j<?c. mdata m ! j \<noteq> DELETED"
    proof (rule Find_loop_spec[OF shape free hc, of key])
      fix i n'
      assume n': "n' < ?c" "i = (?h + n') mod ?c"
        "\<forall>j<n'. mdata m ! ((?h + j) mod ?c) \<noteq> EMPTY \<and>
                 \<not> slot_matches m key (hash key) ((?h + j) mod ?c)"
        and res: "slot_matches m key (hash key) i \<and>
            Find_loop m key (hash key) ?h = Some (Some i) \<or>
          mdata m ! i = EMPTY \<and> Find_loop m key (hash key) ?h = Some None"
      have E: "mdata m ! ?i = EMPTY" using False nodel ic by (auto simp: occupied_def)
      then have "n' \<le> n" using n'(3) by (meson not_le)
      then have "\<not> slot_matches m key (hash key) i"
        using n'(2) n(3) False slot_matches_occupied by (metis le_neq_implies_less)
      with res have "Find_loop m key (hash key) ?h = Some None" by blast
      then have F: "Find hash m key = Some None"
        using hc by (simp add: Find_def home_def)
      show "key \<notin> fst ` hm_contents m"
        by (rule Find_spec[OF shape free, of key]) (use F in auto)
    qed
    then show thesis
      using slot[of ?i] L False ic path
      by (auto simp: Insert_loop.simps[of m key "hash key" ?i])
  qed
qed

lemma load_grow: "0 < c \<Longrightarrow> n \<le> c div 3 \<Longrightarrow> Suc n \<le> Suc (2 * c) div (3::nat)"
  by presburger

text \<open>Storing and growing, the part of \<open>Insert\<close> after the loop.\<close>

lemma Insert_store:
  assumes ok: "hm_ok hash m" and small: "2 * capacity m + 1 < 2 ^ 32"
    and loop: "Insert_loop m key (hash key) (home hash m key) = Some (Some i)"
    and i: "i < capacity m" "\<not> occupied m i" "path_to m (home hash m key) i"
  obtains m' where "Insert hash m key v = Some (True, m')" "hm_ok hash m'"
    "hm_contents m' = insert (key, v) (hm_contents m)"
    "hm_uniq m \<Longrightarrow> key \<notin> fst ` hm_contents m \<Longrightarrow> hm_uniq m'"
    "num_entries m' = num_entries m + 1"
    "capacity m' \<le> max (capacity m) (6 * num_entries m')"
proof -
  have shape: "hm_shape hash m" and load: "hm_load m" using ok by (simp_all add: hm_ok_def)
  have c0: "0 < capacity m" using shape by (simp add: hm_shape_def)
  let ?p = "place hash m i key v" and ?q = "(place hash m i key v)\<lparr>num_entries := num_entries m + 1\<rparr>"
  have shape_q: "hm_shape hash ?q" and cont_q: "hm_contents ?q = insert (key, v) (hm_contents m)"
    and uniq_q: "hm_uniq m \<Longrightarrow> key \<notin> fst ` hm_contents m \<Longrightarrow> hm_uniq ?q"
    and used_q: "used ?q \<le> used m + 1"
    using place_shape[OF shape i] place_contents[OF shape i(1,2)]
      place_uniq[OF shape i(1,2)] place_used[where m = m and i = i and hash = hash and k = key and v = v]
    by (simp_all add: hm_shape_def home_def path_to_def occupied_def hm_contents_def hm_uniq_def used_def)
  have q: "?q = m\<lparr>mdata := (mdata m)[i := H2 (hash key)],
      map_arr := (map_arr m)[i := Some (key, v)], num_entries := num_entries m + 1\<rparr>"
    by simp
  show thesis
  proof (cases "num_entries m + 1 > capacity m div inv_load_factor")
    case True
    have small_q: "2 * capacity ?q + 1 < 2 ^ 32" using small by simp
    obtain m' where R: "Rehash hash ?q = Some m'" "hm_shape hash m'"
      "capacity m' = 2 * capacity ?q + 1" "num_entries m' = num_entries ?q"
      "used m' \<le> used ?q" "hm_contents m' = hm_contents ?q" "hm_uniq ?q \<longrightarrow> hm_uniq m'"
      by (rule Rehash_spec[OF shape_q small_q])
    have "2 * capacity m + 1 \<le> 6 * (num_entries m + 1)" using True by simp
    moreover have "Insert hash m key v = Some (True, m')"
      using loop True R(1) c0 by (simp add: Insert_def home_def Let_def)
    moreover have "hm_load m'"
      using R(3-5) used_q load load_grow[OF c0] by (auto simp: hm_load_def)
    ultimately show thesis
      using that[of m'] R cont_q uniq_q by (simp add: hm_ok_def)
  next
    case False
    then have "Insert hash m key v = Some (True, ?q)"
      using loop c0 by (simp add: Insert_def home_def Let_def)
    moreover have "hm_load ?q"
      using used_q load False by (auto simp: hm_load_def)
    ultimately show thesis
      using that[of ?q] shape_q cont_q uniq_q by (simp add: hm_ok_def)
  qed
qed

section \<open>Deleting and updating\<close>

lemma hm_contents_Delete:
  assumes shape: "hm_shape hash m" and u: "hm_uniq m" and i: "i < capacity m" "occupied m i"
    and e: "map_arr m ! i = Some (key, v)"
  shows "hm_contents (m\<lparr>mdata := (mdata m)[i := DELETED]\<rparr>) = {kv \<in> hm_contents m. fst kv \<noteq> key}"
proof -
  have len: "i < length (mdata m)" using shape i by (simp add: hm_shape_def)
  have occ: "occupied (m\<lparr>mdata := (mdata m)[i := DELETED]\<rparr>) j \<longleftrightarrow> j \<noteq> i \<and> occupied m j" for j
    using len by (cases "j = i") (simp_all add: occupied_def)
  have "j \<noteq> i \<longleftrightarrow> fst kv \<noteq> key"
    if "j < capacity m" "occupied m j" "map_arr m ! j = Some kv" for j kv
    using hm_uniq_key[OF u that(1) i(1) that(2) i(2) _ e] that(3) e by (cases kv) auto
  then show ?thesis unfolding hm_contents_def by (auto simp: occ)
qed

lemma Delete_store:
  assumes ok: "hm_ok hash m" and i: "i < capacity m" "occupied m i"
  shows "hm_ok hash (m\<lparr>mdata := (mdata m)[i := DELETED]\<rparr>)"
    and "hm_uniq m \<Longrightarrow> hm_uniq (m\<lparr>mdata := (mdata m)[i := DELETED]\<rparr>)"
proof -
  let ?m = "m\<lparr>mdata := (mdata m)[i := DELETED]\<rparr>"
  have shape: "hm_shape hash m" and load: "hm_load m" using ok by (simp_all add: hm_ok_def)
  have len: "i < length (mdata m)" using shape i by (simp add: hm_shape_def)
  have occ: "occupied ?m j \<longleftrightarrow> j \<noteq> i \<and> occupied m j" for j
    using len by (cases "j = i") (simp_all add: occupied_def)
  have empty: "mdata ?m ! j = EMPTY \<longleftrightarrow> mdata m ! j = EMPTY" for j
    using len i(2) by (cases "j = i") (simp_all add: occupied_def)
  have path: "path_to ?m a b \<longleftrightarrow> path_to m a b" for a b
    unfolding path_to_def empty by simp
  have "hm_shape hash ?m"
    unfolding hm_shape_def
  proof (intro conjI allI impI)
    fix j assume "j < capacity ?m" "occupied ?m j"
    then show "\<exists>k v. map_arr ?m ! j = Some (k, v) \<and> mdata ?m ! j = H2 (hash k) \<and>
        path_to ?m (home hash ?m k) j"
      using shape unfolding hm_shape_def occ path by (auto simp: home_def)
  qed (use shape in \<open>simp_all add: hm_shape_def\<close>)
  moreover have "used ?m = used m" unfolding used_def empty by simp
  then have "hm_load ?m" using load by (simp add: hm_load_def)
  ultimately show "hm_ok hash ?m" by (simp add: hm_ok_def)
  show "hm_uniq ?m" if "hm_uniq m" using that unfolding hm_uniq_def occ by simp
qed

text \<open>\<open>update_at\<close> rewrites the value of one slot and touches neither keys nor metadata.\<close>

lemma update_store_ok:
  assumes ok: "hm_ok hash m" and i: "i < capacity m" and e: "map_arr m ! i = Some (key, v)"
    and m'_def: "m' = m\<lparr>map_arr := (map_arr m)[i := Some (key, w)]\<rparr>"
  shows "hm_ok hash m'"
proof -
  have shape: "hm_shape hash m" and load: "hm_load m" using ok by (simp_all add: hm_ok_def)
  have len: "i < length (map_arr m)" using shape i by (simp add: hm_shape_def)
  have occ: "occupied m' j \<longleftrightarrow> occupied m j" for j by (simp add: m'_def occupied_def)
  have path: "path_to m' a b \<longleftrightarrow> path_to m a b" for a b by (simp add: m'_def path_to_def)
  have "hm_shape hash m'"
    unfolding hm_shape_def
  proof (intro conjI allI impI)
    fix j assume "j < capacity m'" "occupied m' j"
    then obtain k x where "map_arr m ! j = Some (k, x)" "mdata m ! j = H2 (hash k)"
      "path_to m (home hash m k) j"
      using shape unfolding hm_shape_def occ by (auto simp: m'_def)
    then show "\<exists>k v. map_arr m' ! j = Some (k, v) \<and> mdata m' ! j = H2 (hash k) \<and>
        path_to m' (home hash m' k) j"
      unfolding path using e len by (cases "j = i") (auto simp: m'_def home_def)
  qed (use shape in \<open>simp_all add: hm_shape_def m'_def\<close>)
  moreover have "hm_load m'" using load by (simp add: m'_def hm_load_def used_def)
  ultimately show ?thesis by (simp add: hm_ok_def)
qed

lemma update_store:
  assumes inv: "hm_inv hash m" and i: "i < capacity m" "occupied m i"
    and e: "map_arr m ! i = Some (key, v)"
    and m'_def: "m' = m\<lparr>map_arr := (map_arr m)[i := Some (key, w)]\<rparr>"
  shows "hm_inv hash m'" and "hm_abs m' = (hm_abs m)(key \<mapsto> w)"
proof -
  have ok: "hm_ok hash m" and shape: "hm_shape hash m" and u: "hm_uniq m"
    using inv by (simp_all add: hm_inv_def hm_ok_def)
  have len: "i < length (map_arr m)" using shape i by (simp add: hm_shape_def)
  have occ: "occupied m' j \<longleftrightarrow> occupied m j" for j by (simp add: m'_def occupied_def)
  have keys: "map_option fst (map_arr m' ! j) = map_option fst (map_arr m ! j)" for j
    using len e by (cases "j = i") (simp_all add: m'_def)
  have u': "hm_uniq m'"
    using u unfolding hm_uniq_def occ keys by (simp add: m'_def)
  then show "hm_inv hash m'" using update_store_ok[OF ok i(1) e m'_def] by (simp add: hm_inv_def)
  have "(k, x) \<in> hm_contents m' \<longleftrightarrow> (if k = key then x = w else (k, x) \<in> hm_contents m)" for k x
  proof -
    have *: "(k, x) \<in> hm_contents m' \<longleftrightarrow>
      (\<exists>j<capacity m. occupied m j \<and> (if j = i then (k, x) = (key, w) else map_arr m ! j = Some (k, x)))"
      using len unfolding hm_contents_def occ by (auto simp: m'_def nth_list_update)
    have **: "map_arr m ! j \<noteq> Some (key, x)" if "j < capacity m" "occupied m j" "j \<noteq> i" for j
      using hm_uniq_key[OF u that(1) i(1) that(2) i(2) _ e] that(3) by blast
    show ?thesis
    proof (cases "k = key")
      case True
      with * ** i show ?thesis by auto
    next
      case False
      then have "(if j = i then (k, x) = (key, w) else map_arr m ! j = Some (k, x)) \<longleftrightarrow>
          map_arr m ! j = Some (k, x)" for j
        using e by auto
      with False show ?thesis unfolding * by (simp add: hm_contents_def)
    qed
  qed
  then show "hm_abs m' = (hm_abs m)(key \<mapsto> w)"
    using hm_abs_iff[OF u] by (intro hm_abs_eqI[OF u']) auto
qed

section \<open>The hash map provides a map\<close>

text \<open>
  Room for \<open>n\<close> more insertions: the \<open>uint32_t\<close> loop counters of \<open>Find\<close> and \<open>Rehash\<close> are
  exact up to a capacity of \<open>2 ^ 32 - 1\<close>, and a rehash at most doubles a capacity that
  the number of insertions bounds.
\<close>

definition hm_room :: "nat \<Rightarrow> ('k, 'v) hash_map \<Rightarrow> bool" where
  "hm_room n m \<longleftrightarrow> capacity m + 2 \<le> 2 ^ 31 \<and> 6 * (num_entries m + n) + 2 \<le> 2 ^ 31"

lemma hm_room_small: "hm_room n m \<Longrightarrow> 2 * capacity m + 1 < 2 ^ 32"
  by (simp add: hm_room_def)

lemma hm_room_mono: "hm_room (Suc n) m \<Longrightarrow> hm_room n m"
  by (simp add: hm_room_def)

lemma hm_room_Insert:
  assumes "hm_room (Suc n) m" "num_entries m' = num_entries m + 1"
    and "capacity m' \<le> max (capacity m) (6 * num_entries m')"
  shows "hm_room n m'"
  using assms by (auto simp: hm_room_def max_def split: if_splits)

lemma hm_inv_HashMap:
  assumes "0 < n" "n < 2 ^ 32"
  shows "hm_inv hash (HashMap n)" and "hm_abs (HashMap n) = Map.empty"
proof -
  have unocc: "\<not> occupied (HashMap n) i" if "i < n" for i
    using that by (simp add: occupied_def HashMap_def)
  then have c: "hm_contents (HashMap n) = {}"
    by (auto simp: hm_contents_def HashMap_def)
  have "used (HashMap n) = 0" by (simp add: used_def HashMap_def)
  then show "hm_inv hash (HashMap n)"
    using assms unocc by (auto simp: hm_inv_def hm_ok_def hm_shape_def hm_load_def hm_uniq_def HashMap_def)
  show "hm_abs (HashMap n) = Map.empty"
    by (rule ext) (simp add: hm_abs_None c)
qed

lemma hm_room_HashMap: "n0 + 2 \<le> 2 ^ 31 \<Longrightarrow> 6 * n + 2 \<le> 2 ^ 31 \<Longrightarrow> hm_room n (HashMap n0)"
  by (simp add: hm_room_def HashMap_def)

lemma Insert_cases:
  assumes ok: "hm_ok hash m" and room: "hm_room (Suc n) m"
  obtains (present) "Insert hash m key v = Some (False, m)" "key \<in> fst ` hm_contents m"
    | (stored) m' where "Insert hash m key v = Some (True, m')" "hm_ok hash m'" "hm_room n m'"
      "hm_contents m' = insert (key, v) (hm_contents m)"
      "hm_uniq m \<Longrightarrow> key \<notin> fst ` hm_contents m \<Longrightarrow> hm_uniq m'"
      "(\<forall>j<capacity m. mdata m ! j \<noteq> DELETED) \<Longrightarrow> key \<notin> fst ` hm_contents m"
proof -
  have shape: "hm_shape hash m" using ok by (simp add: hm_ok_def)
  have c0: "0 < capacity m" using shape by (simp add: hm_shape_def)
  show thesis
  proof (rule Insert_loop_spec[OF shape hm_ok_used[OF ok], of key])
    fix i w
    assume "Insert_loop m key (hash key) (home hash m key) = Some None"
      and "i < capacity m" "occupied m i" "map_arr m ! i = Some (key, w)"
    moreover from this have "(key, w) \<in> hm_contents m" by (auto simp: hm_contents_def)
    ultimately show thesis using present c0 by (force simp: Insert_def home_def)
  next
    fix i
    assume loop: "Insert_loop m key (hash key) (home hash m key) = Some (Some i)"
      and i: "i < capacity m" "\<not> occupied m i" "path_to m (home hash m key) i"
      and nodel: "(\<forall>j<capacity m. mdata m ! j \<noteq> DELETED) \<Longrightarrow> key \<notin> fst ` hm_contents m"
    obtain m' where "Insert hash m key v = Some (True, m')" "hm_ok hash m'"
      "hm_contents m' = insert (key, v) (hm_contents m)"
      "hm_uniq m \<Longrightarrow> key \<notin> fst ` hm_contents m \<Longrightarrow> hm_uniq m'"
      "num_entries m' = num_entries m + 1" "capacity m' \<le> max (capacity m) (6 * num_entries m')"
      using Insert_store[OF ok hm_room_small[OF room] loop i, of v] by metis
    then show thesis using stored[of m'] hm_room_Insert[OF room] nodel by blast
  qed
qed

lemma Insert_absent:
  assumes inv: "hm_inv hash m" and room: "hm_room (Suc n) m" and new: "hm_abs m key = None"
  shows "\<exists>m'. Insert hash m key v = Some (True, m') \<and> hm_inv hash m' \<and> hm_room n m' \<and>
           hm_abs m' = (hm_abs m)(key \<mapsto> v)"
proof -
  have u: "hm_uniq m" and ok: "hm_ok hash m" using inv by (simp_all add: hm_inv_def)
  have new': "key \<notin> fst ` hm_contents m" using new by (rule hm_abs_None[THEN iffD1])
  show ?thesis
  proof (rule Insert_cases[OF ok room, of key v])
    fix m'
    assume m': "Insert hash m key v = Some (True, m')" "hm_ok hash m'" "hm_room n m'"
      "hm_contents m' = insert (key, v) (hm_contents m)"
      "hm_uniq m \<Longrightarrow> key \<notin> fst ` hm_contents m \<Longrightarrow> hm_uniq m'"
    have u': "hm_uniq m'" using m'(5) u new' by blast
    have "hm_abs m' = (hm_abs m)(key \<mapsto> v)"
      using new' hm_abs_iff[OF u] by (intro hm_abs_eqI[OF u']) (auto simp: m'(4) rev_image_eqI)
    with m' u' show ?thesis by (auto simp: hm_inv_def)
  qed (use new' in blast)
qed

lemma Delete_abs:
  assumes inv: "hm_inv hash m"
  shows "\<exists>m'. Delete hash m key = Some (hm_abs m key \<noteq> None, m') \<and> hm_inv hash m' \<and>
           hm_abs m' = (hm_abs m)(key := None) \<and> (\<forall>n. hm_room n m \<longrightarrow> hm_room n m')"
proof -
  have u: "hm_uniq m" and ok: "hm_ok hash m" and shape: "hm_shape hash m"
    using inv by (simp_all add: hm_inv_def hm_ok_def)
  show ?thesis
  proof (rule Find_spec[OF shape hm_ok_used[OF ok], of key])
    fix i v
    assume f: "Find hash m key = Some (Some i)" and i: "i < capacity m" "occupied m i"
      and e: "map_arr m ! i = Some (key, v)"
    let ?m = "m\<lparr>mdata := (mdata m)[i := DELETED]\<rparr>"
    have u': "hm_uniq ?m" using Delete_store(2)[OF ok i u] .
    have "(key, v) \<in> hm_contents m" using i e by (auto simp: hm_contents_def)
    then have "hm_abs m key = Some v" using hm_abs_iff[OF u] by blast
    moreover have "hm_abs ?m = (hm_abs m)(key := None)"
      using hm_abs_iff[OF u]
      by (intro hm_abs_eqI[OF u']) (auto simp: hm_contents_Delete[OF shape u i e])
    ultimately show ?thesis
      using f u' Delete_store(1)[OF ok i] by (simp add: Delete_def hm_inv_def hm_room_def)
  next
    assume f: "Find hash m key = Some None" and "key \<notin> fst ` hm_contents m"
    then have "hm_abs m key = None" by (simp only: hm_abs_None not_False_eq_True)
    then show ?thesis using f inv by (auto simp: Delete_def)
  qed
qed

lemma update_at_abs:
  assumes inv: "hm_inv hash m" and present: "hm_abs m key = Some v"
  shows "\<exists>m'. update_at hash m key f = Some m' \<and> hm_inv hash m' \<and>
           hm_abs m' = (hm_abs m)(key \<mapsto> f v) \<and> (\<forall>n. hm_room n m \<longrightarrow> hm_room n m')"
proof -
  have u: "hm_uniq m" and ok: "hm_ok hash m" and shape: "hm_shape hash m"
    using inv by (simp_all add: hm_inv_def hm_ok_def)
  have c: "(key, v) \<in> hm_contents m" using present hm_abs_iff[OF u] by blast
  show ?thesis
  proof (rule Find_spec[OF shape hm_ok_used[OF ok], of key])
    fix i w
    assume f: "Find hash m key = Some (Some i)" and i: "i < capacity m" "occupied m i"
      and e: "map_arr m ! i = Some (key, w)"
    have "(key, w) \<in> hm_contents m" using i e by (auto simp: hm_contents_def)
    then have "w = v" using hm_contents_functional[OF u _ c] by blast
    then show ?thesis
      using f e update_store[OF inv i e refl] by (simp add: update_at_def hm_room_def)
  next
    assume "key \<notin> fst ` hm_contents m"
    with c show ?thesis by force
  qed
qed

lemma hm_inv_parts: "hm_inv hash m \<Longrightarrow> hm_shape hash m" "hm_inv hash m \<Longrightarrow> used m < capacity m"
  "hm_inv hash m \<Longrightarrow> hm_uniq m"
  using hm_ok_used by (auto simp: hm_inv_def hm_ok_def)

interpretation hmap: kv_map "hm_inv hash" hm_abs hm_room "Lookup hash" "Insert hash"
  "Contains hash" "Delete hash" "update_at hash"
  for hash :: "'k \<Rightarrow> u32"
proof unfold_locales
  fix m :: "('k, 'v) hash_map" and k v f n
  show "hm_inv hash m \<Longrightarrow> Lookup hash m k = Some (hm_abs m k)"
    by (rule Lookup_abs) (rule hm_inv_parts; assumption)+
  show "hm_inv hash m \<Longrightarrow> Contains hash m k = Some (hm_abs m k \<noteq> None)"
    using Contains_abs[OF hm_inv_parts(1,2)] by (simp only: hm_abs_None not_not)
qed (blast intro: Insert_absent Delete_abs update_at_abs)+

section \<open>Sequences of operations\<close>

text \<open>
  The states a map created with \<open>n0\<close> slots can be in after \<open>c\<close> insertions and any number of
  other operations, in any order, with any keys: this includes the undisciplined uses
  (inserting a key twice, inserting after a deletion) that break \<open>hm_uniq\<close>.
\<close>

inductive hm_run :: "('k \<Rightarrow> u32) \<Rightarrow> nat \<Rightarrow> nat \<Rightarrow> ('k, 'v) hash_map \<Rightarrow> bool"
  for hash :: "'k \<Rightarrow> u32" and n0 :: nat where
  start: "hm_run hash n0 0 (HashMap n0)"
| insert: "hm_run hash n0 c m \<Longrightarrow> Insert hash m k v = Some (b, m') \<Longrightarrow> hm_run hash n0 (Suc c) m'"
| delete: "hm_run hash n0 c m \<Longrightarrow> Delete hash m k = Some (b, m') \<Longrightarrow> hm_run hash n0 c m'"
| update: "hm_run hash n0 c m \<Longrightarrow> update_at hash m k f = Some m' \<Longrightarrow> hm_run hash n0 c m'"
| copy: "hm_run hash n0 c m \<Longrightarrow> hm_run hash n0 c (copy_of m)"

lemma Delete_ok:
  assumes ok: "hm_ok hash m"
  shows "\<exists>b m'. Delete hash m key = Some (b, m') \<and> hm_ok hash m' \<and> (hm_room n m \<longrightarrow> hm_room n m')"
proof -
  have shape: "hm_shape hash m" using ok by (simp add: hm_ok_def)
  show ?thesis
  proof (rule Find_spec[OF shape hm_ok_used[OF ok], of key])
    fix i v assume "Find hash m key = Some (Some i)" "i < capacity m" "occupied m i"
    then show ?thesis using Delete_store(1)[OF ok] by (auto simp: Delete_def hm_room_def)
  qed (use ok in \<open>auto simp: Delete_def\<close>)
qed

lemma update_at_ok:
  assumes ok: "hm_ok hash m" and m': "update_at hash m key f = Some m'"
  shows "hm_ok hash m' \<and> hm_room n m' = hm_room n m"
proof -
  have shape: "hm_shape hash m" using ok by (simp add: hm_ok_def)
  show ?thesis
  proof (rule Find_spec[OF shape hm_ok_used[OF ok], of key])
    fix i v assume f: "Find hash m key = Some (Some i)" and i: "i < capacity m" "map_arr m ! i = Some (key, v)"
    then show ?thesis using update_store_ok[OF ok i refl] m' by (auto simp: update_at_def hm_room_def)
  qed (use m' in \<open>auto simp: update_at_def\<close>)
qed

lemma copy_of_same:
  assumes "hm_shape hash m"
  shows "mdata (copy_of m) = mdata m" "capacity (copy_of m) = capacity m"
    "num_entries (copy_of m) = num_entries m"
    "i < capacity m \<Longrightarrow> occupied m i \<Longrightarrow> map_arr (copy_of m) ! i = map_arr m ! i"
    "length (map_arr (copy_of m)) = capacity m"
  using assms by (simp_all add: copy_of_def hm_shape_def list_eq_iff_nth_eq)

lemma copy_of_ok:
  assumes "hm_ok hash m"
  shows "hm_ok hash (copy_of m)" "hm_contents (copy_of m) = hm_contents m"
    "hm_uniq m \<Longrightarrow> hm_uniq (copy_of m)" "hm_room n (copy_of m) = hm_room n m"
proof -
  have shape: "hm_shape hash m" using assms by (simp add: hm_ok_def)
  note same = copy_of_same[OF shape]
  have occ: "occupied (copy_of m) i = occupied m i" for i by (simp add: occupied_def same)
  have path: "path_to (copy_of m) a b = path_to m a b" for a b by (simp add: path_to_def same)
  show "hm_ok hash (copy_of m)"
    using assms unfolding hm_ok_def hm_shape_def hm_load_def used_def home_def occ path
    by (simp add: same)
  show "hm_contents (copy_of m) = hm_contents m"
    unfolding hm_contents_def occ by (auto simp: same)
  show "hm_uniq (copy_of m)" if "hm_uniq m"
    using that unfolding hm_uniq_def occ by (simp add: same)
  show "hm_room n (copy_of m) = hm_room n m" by (simp add: hm_room_def same)
qed

lemma hm_run_ok:
  assumes "hm_run hash n0 c m" "0 < n0" "n0 + 2 \<le> 2 ^ 31" "6 * (c + d) + 2 \<le> 2 ^ 31"
  shows "hm_ok hash m \<and> hm_room d m"
  using assms
proof (induction arbitrary: d rule: hm_run.induct)
  case start
  then show ?case
    using hm_inv_HashMap(1)[of n0 hash] by (auto simp: hm_inv_def hm_room_def HashMap_def)
next
  case (insert c m k v b m')
  have "hm_ok hash m \<and> hm_room (Suc d) m"
    by (rule insert.IH) (use insert.prems in simp_all)
  then have ok: "hm_ok hash m" and room: "hm_room (Suc d) m" by simp_all
  show ?case
    by (rule Insert_cases[OF ok room, of k v]) (use insert.hyps(2) ok room hm_room_mono in auto)
next
  case (delete c m k b m')
  then have "hm_ok hash m" "hm_room d m" by simp_all
  then show ?case using Delete_ok[of hash m k d] delete.hyps(2) by auto
next
  case (update c m k f m')
  then have "hm_ok hash m" "hm_room d m" by simp_all
  then show ?case using update_at_ok[of hash m k f m' d] update.hyps(2) by simp
next
  case (copy c m)
  then have "hm_ok hash m" "hm_room d m" by simp_all
  then show ?case using copy_of_ok(1,4) by metis
qed

section \<open>Properties\<close>

text \<open>
  C1: inserting a key that the map does not hold returns true, keeps the representation
  invariant, and afterwards looks up to the inserted value, while every other key looks up
  as before; this includes the insertions that rehash.
\<close>

theorem hash_map_insert:
  assumes "hm_inv hash m" "hm_room (Suc n) m" "hm_abs m key = None"
  shows "\<exists>m'. Insert hash m key v = Some (True, m') \<and> hm_inv hash m' \<and> hm_room n m' \<and>
    hm_abs m' = (hm_abs m)(key \<mapsto> v) \<and> Lookup hash m' key = Some (Some v) \<and>
    (\<forall>j. j \<noteq> key \<longrightarrow> Lookup hash m' j = Lookup hash m j)"
proof -
  obtain m' where m': "Insert hash m key v = Some (True, m')" "hm_inv hash m'" "hm_room n m'"
    "hm_abs m' = (hm_abs m)(key \<mapsto> v)"
    using hmap.insert_fresh[OF assms] by blast
  then show ?thesis using assms(1) by (simp add: hmap.lookup_abs)
qed

theorem hash_map_insert_witness:
  "\<exists>m'. Insert (Hash \<circ> bytes_le32) (HashMap 1) 7 ''inode'' = Some (True, m') \<and>
     Lookup (Hash \<circ> bytes_le32) m' 7 = Some (Some ''inode'')"
proof -
  have "hm_room (Suc 0) (HashMap 1)" by (rule hm_room_HashMap) simp_all
  from hash_map_insert[OF hm_inv_HashMap(1) this, where hash = "Hash \<circ> bytes_le32" and key = 7
      and v = "''inode''"]
  show ?thesis by (auto simp: hm_inv_HashMap(2))
qed

text \<open>
  C2: as long as no key is stored twice, the open-addressing table with its tombstones
  refines a finite map: look-up, membership, deletion and the update through
  \<open>operator[]\<close> all return and are the corresponding operations on \<open>hm_abs\<close>.
\<close>

theorem hash_map_refines_map:
  assumes "hm_inv hash m"
  shows "Lookup hash m key = Some (hm_abs m key) \<and>
    Contains hash m key = Some (hm_abs m key \<noteq> None) \<and>
    (\<exists>m'. Delete hash m key = Some (hm_abs m key \<noteq> None, m') \<and> hm_inv hash m' \<and>
          hm_abs m' = (hm_abs m)(key := None)) \<and>
    (case hm_abs m key of
       None \<Rightarrow> update_at hash m key f = None
     | Some v \<Rightarrow> \<exists>m'. update_at hash m key f = Some m' \<and> hm_inv hash m' \<and>
                      hm_abs m' = (hm_abs m)(key \<mapsto> f v))"
proof (intro conjI)
  show "Lookup hash m key = Some (hm_abs m key)" using assms by (rule hmap.lookup_abs)
  show c: "Contains hash m key = Some (hm_abs m key \<noteq> None)" using assms by (rule hmap.contains_abs)
  show "\<exists>m'. Delete hash m key = Some (hm_abs m key \<noteq> None, m') \<and> hm_inv hash m' \<and>
      hm_abs m' = (hm_abs m)(key := None)"
    using hmap.delete_abs[OF assms] by blast
  show "case hm_abs m key of None \<Rightarrow> update_at hash m key f = None
     | Some v \<Rightarrow> \<exists>m'. update_at hash m key f = Some m' \<and> hm_inv hash m' \<and>
                      hm_abs m' = (hm_abs m)(key \<mapsto> f v)"
  proof (cases "hm_abs m key")
    case None
    then have "Find hash m key = Some None" using c by (auto simp: Contains_def)
    with None show ?thesis by (simp add: update_at_def)
  next
    case (Some v)
    then show ?thesis using hmap.update_abs[OF assms Some] by auto
  qed
qed

theorem hash_map_refines_map_witness:
  "Lookup (Hash \<circ> bytes_le32) (HashMap 4 :: (u32, nat) hash_map) 9 = Some None"
proof -
  have "hm_inv (Hash \<circ> bytes_le32) (HashMap 4 :: (u32, nat) hash_map)"
    by (rule hm_inv_HashMap) simp_all
  from hash_map_refines_map[OF this, of 9 Suc] show ?thesis by (simp add: hm_inv_HashMap(2))
qed

text \<open>
  C3: no probe loop runs forever. In every state that a map created with between 1 and \<open>2 ^ 30\<close> slots
  reaches by fewer than \<open>2 ^ 28\<close> insertions and any number of deletions, updates and copies in any
  order (duplicates and tombstones included), the next insertion, look-up, membership test and
  deletion return, and so does the update of a key that is present. (The bound keeps the capacity
  below \<open>2 ^ 32\<close>, where the 32-bit counter of \<open>Rehash\<close> would not end.)
\<close>

theorem hash_map_never_hangs:
  assumes "hm_run hash n0 c m" "0 < n0" "n0 \<le> 2 ^ 30" "c < 2 ^ 28"
  shows "Insert hash m k v \<noteq> None \<and> Lookup hash m k \<noteq> None \<and> Contains hash m k \<noteq> None \<and>
    Delete hash m k \<noteq> None \<and> (Contains hash m k = Some True \<longrightarrow> update_at hash m k f \<noteq> None)"
proof -
  have ok: "hm_ok hash m" and room: "hm_room (Suc 0) m"
    using hm_run_ok[of hash n0 c m "Suc 0"] assms by simp_all
  have "Find hash m k \<noteq> None"
    using Find_returns[OF _ hm_ok_used[OF ok]] ok by (auto simp: hm_ok_def)
  moreover have "Insert hash m k v \<noteq> None"
    by (rule Insert_cases[OF ok room, of k v]) simp_all
  ultimately show ?thesis
    by (auto simp: Lookup_def Contains_def Delete_def update_at_def split: option.splits)
qed

theorem hash_map_never_hangs_witness:
  "\<exists>m b m' m2. Insert (Hash \<circ> bytes_le32) (HashMap 1) 7 True = Some (b, m) \<and>
     Delete (Hash \<circ> bytes_le32) m 7 = Some (True, m') \<and> Insert (Hash \<circ> bytes_le32) m' 5 False = Some m2"
proof -
  let ?h = "Hash \<circ> bytes_le32"
  have run: "hm_run ?h 1 0 (HashMap 1 :: (u32, bool) hash_map)" by (rule hm_run.start)
  obtain b m where m: "Insert ?h (HashMap 1) 7 True = Some (b, m)"
    using hash_map_never_hangs[OF run, where k = 7 and v = True and f = id] by auto
  have room: "hm_room (Suc 0) (HashMap 1 :: (u32, bool) hash_map)" by (rule hm_room_HashMap) simp_all
  then have "hm_inv ?h m" "hm_abs m 7 \<noteq> None"
    using hmap.insert_fresh[OF hm_inv_HashMap(1) room, where hash = ?h and k = 7 and v = True] m by (auto simp: hm_inv_HashMap(2))
  then obtain m' where m': "Delete ?h m 7 = Some (True, m')" using hmap.delete_abs[of ?h m 7] by auto
  have "hm_run ?h 1 1 m'" using hm_run.delete[OF hm_run.insert[OF run m] m'] by simp
  then show ?thesis using hash_map_never_hangs[of ?h 1 1 m' 5 False id] m m' by auto
qed

text \<open>
  Inserting a key that is present, in a map from which nothing was ever deleted, is
  refused and changes nothing.
\<close>

theorem hash_map_insert_present:
  assumes "hm_inv hash m" "hm_room (Suc n) m" "\<forall>i<capacity m. mdata m ! i \<noteq> DELETED"
    and "hm_abs m key \<noteq> None"
  shows "Insert hash m key v = Some (False, m)"
proof -
  have "hm_ok hash m" using assms(1) by (simp add: hm_inv_def)
  then show ?thesis
    by (rule Insert_cases[OF _ assms(2), of hash key v]) (use assms(3,4) in \<open>auto simp: hm_abs_None\<close>)
qed

text \<open>Evaluation of the probe loops, one slot at a time.\<close>

lemma Insert_loop_eval [panix_defs]:
  "\<not> occupied m i \<Longrightarrow> Insert_loop m key h i = Some (Some i)"
  "occupied m i \<Longrightarrow> slot_matches m key h i \<Longrightarrow> Insert_loop m key h i = Some None"
  "occupied m i \<Longrightarrow> \<not> slot_matches m key h i \<Longrightarrow>
     Insert_loop m key h i = Insert_loop m key h ((i + 1) mod capacity m)"
  by (simp_all add: Insert_loop.simps[of m key h i])

lemma Find_loop_eval [panix_defs]:
  "mdata m ! i = EMPTY \<Longrightarrow> Find_loop m key h i = Some None"
  "i < capacity m \<Longrightarrow> mdata m ! i \<noteq> EMPTY \<Longrightarrow> slot_matches m key h i \<Longrightarrow>
     Find_loop m key h i = Some (Some i)"
  "i < capacity m \<Longrightarrow> mdata m ! i \<noteq> EMPTY \<Longrightarrow> \<not> slot_matches m key h i \<Longrightarrow>
     Find_loop m key h i = Find_loop m key h ((i + 1) mod 2 ^ 32 mod capacity m)"
  by (simp_all add: Find_loop.simps[of m key h i])

lemma Rehash_probe_eval [panix_defs]:
  "nmd ! i = EMPTY \<Longrightarrow> Rehash_probe nmd c i = Some i"
  "nmd ! i \<noteq> EMPTY \<Longrightarrow> Rehash_probe nmd c i = Rehash_probe nmd c ((i + 1) mod 2 ^ 32 mod c)"
  by (simp_all add: Rehash_probe.simps[of nmd c i])

lemmas hm_eval = panix_defs list_eval Insert_def Find_def Lookup_def Delete_def Len_def Rehash_def
  HashMap_def occupied_def slot_matches_def H1_def H2_def EMPTY_def DELETED_def
  Let_def

lemma Hash_examples:
  "Hash (bytes_le32 0) = 0x2362f9de" "Hash (bytes_le32 5) = 0x0e1bbb7e"
  by code_simp+

theorem hash_map_insert_present_witness:
  "\<exists>m. Insert (Hash \<circ> bytes_le32) (HashMap 1) 5 True = Some (True, m) \<and>
       Insert (Hash \<circ> bytes_le32) m 5 False = Some (False, m)"
proof -
  let ?h = "Hash \<circ> bytes_le32"
  have room: "hm_room (Suc (Suc 0)) (HashMap 1 :: (u32, bool) hash_map)"
    by (rule hm_room_HashMap) simp_all
  obtain m where m: "Insert ?h (HashMap 1) 5 True = Some (True, m)" "hm_inv ?h m"
    "hm_room (Suc 0) m" "hm_abs m = (hm_abs (HashMap 1))(5 \<mapsto> True)"
    using hmap.insert_fresh[OF hm_inv_HashMap(1) room, where hash = ?h and k = 5 and v = True]
    by (auto simp: hm_inv_HashMap(2))
  have "\<forall>i<capacity m. mdata m ! i \<noteq> DELETED"
  proof -
    have "Insert ?h (HashMap 1) 5 True = Some (True, \<lparr>mdata = [126, -128, -128], capacity = 3,
        num_entries = 1, map_arr = [Some (5, True), None, None]\<rparr>)"
      by (simp add: hm_eval Hash_examples)
    then have "capacity m = 3" "set (mdata m) = {126, -128}" using m(1) by auto
    moreover have "length (mdata m) = capacity m" using m(2) hm_inv_parts(1) by (auto simp: hm_shape_def)
    ultimately show ?thesis using nth_mem[of _ "mdata m"] by (fastforce simp: DELETED_def)
  qed
  from hash_map_insert_present[OF m(2,3) this, of 5 False] m(1,4) show ?thesis by simp
qed

text \<open>The search ends at the first slot of the probe path that matches, if no slot before it is empty.\<close>

lemma Find_first_match:
  assumes c: "0 < capacity m" "capacity m < 2 ^ 32" and n: "n < capacity m"
    and before: "\<forall>j<n. mdata m ! ((home hash m key + j) mod capacity m) \<noteq> EMPTY \<and>
      \<not> slot_matches m key (hash key) ((home hash m key + j) mod capacity m)"
    and match: "slot_matches m key (hash key) ((home hash m key + n) mod capacity m)"
  shows "Find hash m key = Some (Some ((home hash m key + n) mod capacity m))"
proof -
  let ?c = "capacity m" and ?h = "home hash m key"
  let ?P = "\<lambda>i. mdata m ! i = EMPTY \<or> slot_matches m key (hash key) i"
  have "Find hash m key = Find_loop m key (hash key) ?h" using c by (simp add: Find_def home_def)
  also have "\<dots> = Find_loop m key (hash key) ((?h + n) mod ?c)"
  proof (rule probe_loop[where P = ?P])
    show "Find_loop m key (hash key) i = Find_loop m key (hash key) ((i + 1) mod ?c)" if "i < ?c" "\<not> ?P i" for i
      using that mod_u32_step[OF that(1) c(2)] by (subst Find_loop.simps) simp
    show "?h < ?c" using c by (simp add: home_def)
  qed (use before in auto)
  also have "\<dots> = Some (Some ((?h + n) mod ?c))"
    using match slot_matches_occupied[OF match] c by (subst Find_loop.simps) (simp add: occupied_def)
  finally show ?thesis .
qed

text \<open>
  C4: the probe of \<open>Insert\<close> stops at a tombstone without looking for the key behind it. For every table
  whose keys are unique and every key in it: if a slot before the one of the key on its probe path
  has been deleted (and the load does not make \<open>Insert\<close> rehash), inserting the key once more
  answers true, stores a second entry that hides the first and counts it; deleting the key
  afterwards makes the old value reappear.
\<close>

theorem insert_after_delete_duplicates:
  assumes inv: "hm_inv hash m"
    and key: "hm_abs m key = Some old" "slot_matches m key (hash key) ((home hash m key + n) mod capacity m)" "n < capacity m"
    and tomb: "d < n" "mdata m ! ((home hash m key + d) mod capacity m) = DELETED"
    and load: "num_entries m + 1 \<le> capacity m div inv_load_factor"
  shows "\<exists>m1 m2. Insert hash m key new = Some (True, m1) \<and> Len m1 = Len m + 1 \<and>
    Lookup hash m1 key = Some (Some new) \<and> Delete hash m1 key = Some (True, m2) \<and>
    Lookup hash m2 key = Some (Some old)"
proof -
  let ?c = "capacity m" and ?h = "home hash m key"
  let ?i = "\<lambda>j. (?h + j) mod ?c"
  have shape: "hm_shape hash m" and uniq: "hm_uniq m" using hm_inv_parts[OF inv] by simp_all
  then have c: "0 < ?c" "?c < 2 ^ 32" and len: "length (mdata m) = ?c" "length (map_arr m) = ?c" by (auto simp: hm_shape_def)
  have i: "?i j < ?c" for j using c by simp
  have kn: "occupied m (?i n)" "map_arr m ! ?i n = Some (key, old)"
  proof -
    obtain v where v: "occupied m (?i n)" "map_arr m ! ?i n = Some (key, v)" using key(2) slot_matches_key[OF shape i] by blast
    then have "(key, v) \<in> hm_contents m" using i by (auto simp: hm_contents_def)
    then show "occupied m (?i n)" "map_arr m ! ?i n = Some (key, old)"
      using v key(1) hm_abs_iff[OF uniq] hm_contents_functional[OF uniq] by fastforce+
  qed
  have only: "\<not> slot_matches m key (hash key) (?i j)" if "j < n" for j
  proof
    assume "slot_matches m key (hash key) (?i j)"
    then obtain v where "occupied m (?i j)" "map_arr m ! ?i j = Some (key, v)" using slot_matches_key[OF shape i] by blast
    then have "?i j = ?i n" using hm_uniq_key[OF uniq i i] kn by blast
    then show False using probe_inj[of ?h j ?c n] that key(3) by simp
  qed
  have path: "mdata m ! ?i j \<noteq> EMPTY" if "j < n" for j
  proof -
    have "path_to m ?h (?i n)" using shape i kn unfolding hm_shape_def by fastforce
    then obtain n' where n': "n' < ?c" "?i n = ?i n'" "\<forall>j<n'. mdata m ! ?i j \<noteq> EMPTY" unfolding path_to_def by blast
    then have "n' = n" using probe_inj[of ?h n ?c n'] key(3) by simp
    then show ?thesis using n' that by simp
  qed
  define e where "e = (LEAST j. \<not> occupied m (?i j))"
  have d: "\<not> occupied m (?i d)" using tomb(2) by (simp add: occupied_def)
  have e: "\<not> occupied m (?i e)" "e \<le> d" "\<And>j. j < e \<Longrightarrow> occupied m (?i j)"
    unfolding e_def using LeastI[of "\<lambda>j. \<not> occupied m (?i j)" d, OF d] Least_le[of "\<lambda>j. \<not> occupied m (?i j)" d, OF d]
      not_less_Least[of _ "\<lambda>j. \<not> occupied m (?i j)"] by blast+
  have en: "e < n" using e(2) tomb(1) by simp
  have neq: "?i j \<noteq> ?i e" if "j \<le> n" "j \<noteq> e" for j using probe_inj[of ?h j ?c e] that en key(3) by auto
  let ?m1 = "m\<lparr>mdata := (mdata m)[?i e := H2 (hash key)], map_arr := (map_arr m)[?i e := Some (key, new)],
     num_entries := num_entries m + 1\<rparr>"
  let ?m2 = "?m1\<lparr>mdata := (mdata ?m1)[?i e := DELETED]\<rparr>"
  have "Insert_loop m key (hash key) ?h = Insert_loop m key (hash key) (?i e)"
  proof (rule probe_loop[where P = "\<lambda>i. \<not> occupied m i \<or> slot_matches m key (hash key) i"])
    show "Insert_loop m key (hash key) i = Insert_loop m key (hash key) ((i + 1) mod ?c)"
      if "i < ?c" "\<not> (\<not> occupied m i \<or> slot_matches m key (hash key) i)" for i
      using that by (subst Insert_loop.simps) simp
    show "?h < ?c" using home_less[OF shape] .
  qed (use e(3) only en in auto)
  then have "Insert_loop m key (hash key) ?h = Some (Some (?i e))" using e(1) by (simp add: Insert_loop.simps[of m key "hash key" "?i e"])
  then have ins: "Insert hash m key new = Some (True, ?m1)" using c load by (simp add: Insert_def home_def Let_def)
  have home: "home hash ?m1 key = ?h" "home hash ?m2 key = ?h" by (simp_all add: home_def)
  have slot1: "slot_matches ?m1 key (hash key) (?i j) = slot_matches m key (hash key) (?i j)" "mdata ?m1 ! ?i j = mdata m ! ?i j"
    if "j \<le> n" "j \<noteq> e" for j using neq[OF that] by (simp_all add: slot_matches_def)
  have "Find hash ?m1 key = Some (Some ((home hash ?m1 key + e) mod capacity ?m1))"
  proof (rule Find_first_match)
    have "mdata ?m1 ! ?i e = H2 (hash key)" "map_arr ?m1 ! ?i e = Some (key, new)" using len i by simp_all
    then show "slot_matches ?m1 key (hash key) ((home hash ?m1 key + e) mod capacity ?m1)" unfolding home by (simp add: slot_matches_def)
    show "\<forall>j<e. mdata ?m1 ! ((home hash ?m1 key + j) mod capacity ?m1) \<noteq> EMPTY \<and>
      \<not> slot_matches ?m1 key (hash key) ((home hash ?m1 key + j) mod capacity ?m1)"
      unfolding home using slot1 path only en by simp
  qed (use c en key(3) in simp_all)
  then have f1: "Find hash ?m1 key = Some (Some (?i e))" by (simp add: home_def)
  have slot2: "slot_matches ?m2 key (hash key) (?i j) = slot_matches m key (hash key) (?i j)" "mdata ?m2 ! ?i j = mdata m ! ?i j"
    if "j \<le> n" "j \<noteq> e" for j using neq[OF that] by (simp_all add: slot_matches_def)
  have at_e: "mdata ?m2 ! ?i e = DELETED" using len i by simp
  have "Find hash ?m2 key = Some (Some ((home hash ?m2 key + n) mod capacity ?m2))"
  proof (rule Find_first_match)
    show "\<forall>j<n. mdata ?m2 ! ((home hash ?m2 key + j) mod capacity ?m2) \<noteq> EMPTY \<and>
      \<not> slot_matches ?m2 key (hash key) ((home hash ?m2 key + j) mod capacity ?m2)"
    proof (intro allI impI)
      fix j assume j: "j < n"
      show "mdata ?m2 ! ((home hash ?m2 key + j) mod capacity ?m2) \<noteq> EMPTY \<and>
        \<not> slot_matches ?m2 key (hash key) ((home hash ?m2 key + j) mod capacity ?m2)"
      proof (cases "j = e")
        case True
        then show ?thesis using at_e unfolding home by (simp add: slot_matches_def)
      next
        case False
        then show ?thesis using slot2[of j] path[OF j] only[OF j] j unfolding home by simp
      qed
    qed
    show "slot_matches ?m2 key (hash key) ((home hash ?m2 key + n) mod capacity ?m2)" using slot2[of n] key(2) en unfolding home by simp
  qed (use c key(3) in simp_all)
  then have f2: "Find hash ?m2 key = Some (Some (?i n))" by (simp add: home_def)
  have "map_arr ?m2 ! ?i n = Some (key, old)" using kn(2) neq[of n] en by simp
  then have "Lookup hash ?m2 key = Some (Some old)" using f2 by (simp add: Lookup_def)
  moreover have "Lookup hash ?m1 key = Some (Some new)" "Delete hash ?m1 key = Some (True, ?m2)"
    using f1 len i by (simp_all add: Lookup_def Delete_def)
  ultimately show ?thesis using ins by (intro exI[of _ ?m1] exI[of _ ?m2]) (simp add: Len_def)
qed

text \<open>Keys 0 and 5 share the home slot of a table of 14 slots; 0 was stored first and then deleted.\<close>

definition demo_tomb :: "(u32, nat) hash_map" where
  "demo_tomb = \<lparr>mdata = (replicate 21 EMPTY)[9 := DELETED, 10 := 126], capacity = 21, num_entries = 2,
     map_arr = (replicate 21 None)[9 := Some (0, 10), 10 := Some (5, 20)]\<rparr>"

lemma demo_tomb_reached:
  "\<exists>m1 m2. Insert (Hash \<circ> bytes_le32) (HashMap 21) 0 10 = Some (True, m1) \<and>
     Insert (Hash \<circ> bytes_le32) m1 5 20 = Some (True, m2) \<and> Delete (Hash \<circ> bytes_le32) m2 0 = Some (True, demo_tomb)"
  by (simp add: hm_eval Hash_examples demo_tomb_def)

theorem insert_after_delete_duplicates_witness:
  "\<exists>m1 m2. Insert (Hash \<circ> bytes_le32) demo_tomb 5 30 = Some (True, m1) \<and> Delete (Hash \<circ> bytes_le32) m1 5 = Some (True, m2) \<and>
     Lookup (Hash \<circ> bytes_le32) m2 5 = Some (Some 20)"
proof -
  let ?h = "Hash \<circ> bytes_le32"
  have room: "hm_room (Suc (Suc 0)) (HashMap 21 :: (u32, nat) hash_map)" by (rule hm_room_HashMap) simp_all
  obtain m1 m2 where run: "Insert ?h (HashMap 21) 0 10 = Some (True, m1)" "Insert ?h m1 5 20 = Some (True, m2)"
    "Delete ?h m2 0 = Some (True, demo_tomb)" using demo_tomb_reached by blast
  have 1: "hm_inv ?h m1" "hm_room (Suc 0) m1" "hm_abs m1 = [0 \<mapsto> 10]"
    using hmap.insert_fresh[OF hm_inv_HashMap(1) room, where hash = ?h and k = 0 and v = 10] run(1) by (auto simp: hm_inv_HashMap(2))
  have 2: "hm_inv ?h m2" "hm_abs m2 = [0 \<mapsto> 10, 5 \<mapsto> 20]"
    using hmap.insert_fresh[OF 1(1,2), of 5 20] run(2) 1(3) by auto
  have inv: "hm_inv ?h demo_tomb" "hm_abs demo_tomb 5 = Some 20"
    using hmap.delete_abs[OF 2(1), of 0] run(3) 2(2) by auto
  have "home ?h demo_tomb 5 = 9" "slot_matches demo_tomb 5 (?h 5) 10" "mdata demo_tomb ! 9 = DELETED" "capacity demo_tomb = 21" "num_entries demo_tomb = 2"
    by (simp_all add: home_def slot_matches_def hm_eval Hash_examples demo_tomb_def)
  then show ?thesis using insert_after_delete_duplicates[OF inv, of 1 0 30] by auto
qed

end
