(* ===== verification/Rb_Tree.thy ===== *)
theory Rb_Tree
  imports Prelude "HOL-Library.Monad_Syntax"
begin

text \<open>
  \<open>ds::RbTree\<close> of \<open>src/ds/rb_tree.h\<close>: a map from keys to values kept in a red-black tree of nodes with pointers to
  both children and to the parent. The nodes live in a heap, a finite map from addresses; 0 is the null pointer, and
  following a pointer to no node has no result. The address the allocator returns is an argument of \<open>Rb_Insert\<close>.

  \<open>Print\<close> has an empty body and is left out. The copy constructor and the assignment of the tree do not type-check when
  they are instantiated (a node has no default constructor, a tree is not comparable with a pointer).
\<close>

section \<open>Nodes and pointers\<close>

datatype color_t = RED | BLACK
datatype direction_t = LEFT | RIGHT
datatype orientation_t = STRAIGHT | ANGLED

definition InvertDir :: "direction_t \<Rightarrow> direction_t" where
  "InvertDir dir = (if dir = LEFT then RIGHT else LEFT)"

record ('k, 'v) rb_node =
  rb_key :: 'k
  rb_val :: 'v
  rb_color :: color_t
  rb_left :: nat
  rb_right :: nat
  rb_parent :: nat

record ('k, 'v) rb_tree =
  rb_root :: nat
  num_keys :: u64
  rb_heap :: "nat \<rightharpoonup> ('k, 'v) rb_node"

definition RbTree :: "('k, 'v) rb_tree" where
  "RbTree = \<lparr>rb_root = 0, num_keys = 0, rb_heap = Map.empty\<rparr>"

definition RbNode :: "'k \<Rightarrow> 'v \<Rightarrow> color_t \<Rightarrow> nat \<Rightarrow> nat \<Rightarrow> nat \<Rightarrow> ('k, 'v) rb_node" where
  "RbNode key val color left right parent =
     \<lparr>rb_key = key, rb_val = val, rb_color = color, rb_left = left, rb_right = right, rb_parent = parent\<rparr>"

definition node :: "nat \<Rightarrow> ('k, 'v) rb_tree \<Rightarrow> ('k, 'v) rb_node option" where
  "node a s = (if a = 0 then None else rb_heap s a)"

definition put_node :: "nat \<Rightarrow> ('k, 'v) rb_node \<Rightarrow> ('k, 'v) rb_tree \<Rightarrow> ('k, 'v) rb_tree" where
  "put_node a n s = s\<lparr>rb_heap := (rb_heap s)(a \<mapsto> n)\<rparr>"

text \<open>\<open>a->field = ...;\<close>\<close>

definition set_node ::
  "nat \<Rightarrow> (('k, 'v) rb_node \<Rightarrow> ('k, 'v) rb_node) \<Rightarrow> ('k, 'v) rb_tree \<Rightarrow> ('k, 'v) rb_tree option" where
  "set_node a f s = do { n \<leftarrow> node a s; Some (put_node a (f n) s) }"

definition set_color :: "nat \<Rightarrow> color_t \<Rightarrow> ('k, 'v) rb_tree \<Rightarrow> ('k, 'v) rb_tree option" where
  "set_color a c = set_node a (\<lambda>n. n\<lparr>rb_color := c\<rparr>)"

definition child :: "direction_t \<Rightarrow> ('k, 'v) rb_node \<Rightarrow> nat" where
  "child dir n = (if dir = LEFT then rb_left n else rb_right n)"

definition with_child :: "direction_t \<Rightarrow> nat \<Rightarrow> ('k, 'v) rb_node \<Rightarrow> ('k, 'v) rb_node" where
  "with_child dir c n = (if dir = LEFT then n\<lparr>rb_left := c\<rparr> else n\<lparr>rb_right := c\<rparr>)"

text \<open>\<open>x ? x->rb_color : BLACK\<close>: the missing children of the leaves are black.\<close>

definition color_of :: "nat \<Rightarrow> ('k, 'v) rb_tree \<Rightarrow> color_t option" where
  "color_of a s = (if a = 0 then Some BLACK else map_option rb_color (node a s))"

section \<open>Operations of a node\<close>

partial_function (option) Rb_Find :: "'k::linorder \<Rightarrow> nat \<Rightarrow> ('k, 'v) rb_tree \<Rightarrow> nat option" where
  "Rb_Find key this s =
     do { n \<leftarrow> node this s;
          if key < rb_key n then (if rb_left n \<noteq> 0 then Rb_Find key (rb_left n) s else Some 0)
          else if key > rb_key n then (if rb_right n \<noteq> 0 then Rb_Find key (rb_right n) s else Some 0)
          else Some this }"

partial_function (option) Rb_Min :: "nat \<Rightarrow> ('k, 'v) rb_tree \<Rightarrow> nat option" where
  "Rb_Min this s = do { n \<leftarrow> node this s; if rb_left n = 0 then Some this else Rb_Min (rb_left n) s }"

partial_function (option) Rb_Max :: "nat \<Rightarrow> ('k, 'v) rb_tree \<Rightarrow> nat option" where
  "Rb_Max this s = do { n \<leftarrow> node this s; if rb_right n = 0 then Some this else Rb_Max (rb_right n) s }"

definition GetDir :: "nat \<Rightarrow> ('k, 'v) rb_tree \<Rightarrow> direction_t option" where
  "GetDir this s =
     do { n \<leftarrow> node this s; p \<leftarrow> node (rb_parent n) s; Some (if this = rb_left p then LEFT else RIGHT) }"

definition GetOrientation :: "nat \<Rightarrow> ('k, 'v) rb_tree \<Rightarrow> orientation_t option" where
  "GetOrientation this s =
     do { n \<leftarrow> node this s; d \<leftarrow> GetDir (rb_parent n) s; d' \<leftarrow> GetDir this s;
          Some (if d = d' then STRAIGHT else ANGLED) }"

definition GetChild :: "direction_t \<Rightarrow> nat \<Rightarrow> ('k, 'v) rb_tree \<Rightarrow> nat option" where
  "GetChild dir this s = map_option (child dir) (node this s)"

definition GetUncle :: "nat \<Rightarrow> ('k, 'v) rb_tree \<Rightarrow> nat option" where
  "GetUncle this s =
     do { n \<leftarrow> node this s;
          if rb_parent n = 0 then Some 0
          else do { p \<leftarrow> node (rb_parent n) s;
                    if rb_parent p = 0 then Some 0
                    else do { d \<leftarrow> GetDir (rb_parent n) s; GetChild (InvertDir d) (rb_parent p) s } } }"

definition GetSibling :: "nat \<Rightarrow> ('k, 'v) rb_tree \<Rightarrow> nat option" where
  "GetSibling this s =
     do { n \<leftarrow> node this s;
          if rb_parent n = 0 then Some 0
          else do { d \<leftarrow> GetDir this s; GetChild (InvertDir d) (rb_parent n) s } }"

definition GetNephew :: "orientation_t \<Rightarrow> nat \<Rightarrow> ('k, 'v) rb_tree \<Rightarrow> nat option" where
  "GetNephew orientation this s =
     do { sibling \<leftarrow> GetSibling this s;
          if sibling = 0 then Some 0
          else do { d \<leftarrow> GetDir sibling s;
                    GetChild (if orientation = STRAIGHT then d else InvertDir d) sibling s } }"

partial_function (option) BstInsert ::
  "'k::linorder \<Rightarrow> 'v \<Rightarrow> nat \<Rightarrow> nat \<Rightarrow> ('k, 'v) rb_tree \<Rightarrow> (nat \<times> ('k, 'v) rb_tree) option"
where
  "BstInsert key val new this s =
     do { n \<leftarrow> node this s;
          if key < rb_key n then
            (if rb_left n \<noteq> 0 then BstInsert key val new (rb_left n) s
             else do { s \<leftarrow> set_node this (\<lambda>n. n\<lparr>rb_left := new\<rparr>) (put_node new (RbNode key val RED 0 0 this) s);
                       Some (new, s) })
          else if key > rb_key n then
            (if rb_right n \<noteq> 0 then BstInsert key val new (rb_right n) s
             else do { s \<leftarrow> set_node this (\<lambda>n. n\<lparr>rb_right := new\<rparr>) (put_node new (RbNode key val RED 0 0 this) s);
                       Some (new, s) })
          else Some (0, s) }"

definition BstDelete :: "'k::linorder \<Rightarrow> nat \<Rightarrow> ('k, 'v) rb_tree \<Rightarrow> (nat \<times> ('k, 'v) rb_tree) option" where
  "BstDelete key this s =
     do { a \<leftarrow> Rb_Find key this s;
          if a = 0 then Some (0, s)
          else do { n \<leftarrow> node a s;
                    if rb_left n \<noteq> 0 then
                      do { in_order_pred \<leftarrow> Rb_Max (rb_left n) s; m \<leftarrow> node in_order_pred s;
                           s \<leftarrow> set_node a (\<lambda>n. n\<lparr>rb_key := rb_key m, rb_val := rb_val m\<rparr>) s; Some (in_order_pred, s) }
                    else if rb_right n \<noteq> 0 then
                      do { in_order_succ \<leftarrow> Rb_Min (rb_right n) s; m \<leftarrow> node in_order_succ s;
                           s \<leftarrow> set_node a (\<lambda>n. n\<lparr>rb_key := rb_key m, rb_val := rb_val m\<rparr>) s; Some (in_order_succ, s) }
                    else Some (a, s) } }"

text \<open>\<open>delete\<close>: the destructor of a node deletes both children.\<close>

partial_function (option) Delete_node :: "nat \<Rightarrow> ('k, 'v) rb_tree \<Rightarrow> ('k, 'v) rb_tree option" where
  "Delete_node this s =
     (if this = 0 then Some s
      else do { n \<leftarrow> node this s; s \<leftarrow> Delete_node (rb_left n) s;
                n \<leftarrow> node this s; s \<leftarrow> Delete_node (rb_right n) s;
                Some (s\<lparr>rb_heap := (rb_heap s)(this := None)\<rparr>) })"

section \<open>Operations of the tree\<close>

text \<open>
  \<open>Rotate\<close>: the two branches of the code are mirror images, here the direction is the argument of \<open>child\<close> and
  \<open>with_child\<close>.
\<close>

definition Rotate :: "direction_t \<Rightarrow> nat \<Rightarrow> ('k, 'v) rb_tree \<Rightarrow> ('k, 'v) rb_tree option" where
  "Rotate dir a s =
     do { n \<leftarrow> node a s;
          let new_par = child (InvertDir dir) n;
          m \<leftarrow> node new_par s;
          s \<leftarrow> set_node a (with_child (InvertDir dir) (child dir m)) s;
          n \<leftarrow> node a s;
          s \<leftarrow> (if child (InvertDir dir) n \<noteq> 0 then set_node (child (InvertDir dir) n) (\<lambda>n. n\<lparr>rb_parent := a\<rparr>) s else Some s);
          n \<leftarrow> node a s;
          s \<leftarrow> set_node new_par (\<lambda>m. m\<lparr>rb_parent := rb_parent n\<rparr>) s;
          n \<leftarrow> node a s;
          s \<leftarrow> (if rb_parent n = 0 then Some (s\<lparr>rb_root := new_par\<rparr>)
                else do { d \<leftarrow> GetDir a s; set_node (rb_parent n) (with_child d new_par) s });
          s \<leftarrow> set_node new_par (with_child dir a) s;
          set_node a (\<lambda>n. n\<lparr>rb_parent := new_par\<rparr>) s }"

text \<open>
  \<open>PostInsertFix\<close>: an angled problem node is straightened first (case 2), then the grandparent is rotated (case 3).
  \<open>Insertion_round\<close> is one round of the loop, from its problem node to the next.
\<close>

definition Straighten :: "nat \<Rightarrow> ('k, 'v) rb_tree \<Rightarrow> (nat \<times> ('k, 'v) rb_tree) option" where
  "Straighten problem_node s =
     do { orientation \<leftarrow> GetOrientation problem_node s;
          if orientation = ANGLED
          then do { d \<leftarrow> GetDir problem_node s; n \<leftarrow> node problem_node s;
                    s \<leftarrow> Rotate (InvertDir d) (rb_parent n) s; Some (rb_parent n, s) }
          else Some (problem_node, s) }"

definition Rotate_grandparent :: "nat \<Rightarrow> ('k, 'v) rb_tree \<Rightarrow> ('k, 'v) rb_tree option" where
  "Rotate_grandparent problem_node s =
     do { n \<leftarrow> node problem_node s;
          parent_dir \<leftarrow> GetDir (rb_parent n) s;
          s \<leftarrow> set_color (rb_parent n) BLACK s;
          p \<leftarrow> node (rb_parent n) s;
          s \<leftarrow> set_color (rb_parent p) RED s;
          Rotate (InvertDir parent_dir) (rb_parent p) s }"

definition Insertion_round :: "nat \<Rightarrow> ('k, 'v) rb_tree \<Rightarrow> (nat \<times> ('k, 'v) rb_tree) option" where
  "Insertion_round problem_node s =
     do { uncle \<leftarrow> GetUncle problem_node s;
          uncle_color \<leftarrow> color_of uncle s;
          n \<leftarrow> node problem_node s;
          if uncle_color = RED then
            do { s \<leftarrow> set_color (rb_parent n) BLACK s;
                 s \<leftarrow> set_color uncle BLACK s;
                 p \<leftarrow> node (rb_parent n) s;
                 s \<leftarrow> set_color (rb_parent p) RED s;
                 Some (rb_parent p, s) }
          else
            do { (problem_node, s) \<leftarrow> Straighten problem_node s;
                 s \<leftarrow> Rotate_grandparent problem_node s;
                 Some (problem_node, s) } }"

partial_function (option) Insertion_loop :: "nat \<Rightarrow> ('k, 'v) rb_tree \<Rightarrow> ('k, 'v) rb_tree option" where
  "Insertion_loop problem_node s =
     do { n \<leftarrow> node problem_node s;
          if rb_parent n = 0 then Some s
          else do { p \<leftarrow> node (rb_parent n) s;
                    if rb_color p \<noteq> RED then Some s
                    else do { (problem_node, s) \<leftarrow> Insertion_round problem_node s; Insertion_loop problem_node s } } }"

definition PostInsertFix :: "nat \<Rightarrow> ('k, 'v) rb_tree \<Rightarrow> ('k, 'v) rb_tree option" where
  "PostInsertFix new_node s = do { s \<leftarrow> Insertion_loop new_node s; set_color (rb_root s) BLACK s }"

definition Rb_Insert :: "'k::linorder \<Rightarrow> 'v \<Rightarrow> nat \<Rightarrow> ('k, 'v) rb_tree \<Rightarrow> (bool \<times> ('k, 'v) rb_tree) option" where
  "Rb_Insert key val new s =
     (if rb_root s \<noteq> 0 then
        do { (new_node, s) \<leftarrow> BstInsert key val new (rb_root s) s;
             if new_node = 0 then Some (False, s)
             else do { s \<leftarrow> PostInsertFix new_node s; Some (True, s\<lparr>num_keys := num_keys s + 1\<rparr>) } }
      else
        do { s \<leftarrow> PostInsertFix new ((put_node new (RbNode key val BLACK 0 0 0) s)\<lparr>rb_root := new\<rparr>);
             Some (True, s\<lparr>num_keys := num_keys s + 1\<rparr>) })"

text \<open>\<open>Rb_Read\<close> returns the value of the key or, where the code returns false, nothing.\<close>

definition Rb_Read :: "'k::linorder \<Rightarrow> ('k, 'v) rb_tree \<Rightarrow> 'v option option" where
  "Rb_Read key s =
     do { key_node \<leftarrow> Rb_Find key (rb_root s) s;
          if key_node = 0 then Some None else map_option (\<lambda>n. Some (rb_val n)) (node key_node s) }"

definition Rb_Update :: "'k::linorder \<Rightarrow> 'v \<Rightarrow> ('k, 'v) rb_tree \<Rightarrow> (bool \<times> ('k, 'v) rb_tree) option" where
  "Rb_Update key new_val s =
     do { key_node \<leftarrow> Rb_Find key (rb_root s) s;
          if key_node = 0 then Some (False, s)
          else map_option (Pair True) (set_node key_node (\<lambda>n. n\<lparr>rb_val := new_val\<rparr>) s) }"

text \<open>One round of the loop of \<open>PreDeletionFix\<close>.\<close>

definition Deletion_round :: "nat \<Rightarrow> ('k, 'v) rb_tree \<Rightarrow> (nat \<times> ('k, 'v) rb_tree) option" where
  "Deletion_round problem_node s =
     do { sibling \<leftarrow> GetSibling problem_node s;
          inner_nephew \<leftarrow> GetNephew ANGLED problem_node s;
          outer_nephew \<leftarrow> GetNephew STRAIGHT problem_node s;
          inner_nephew_color \<leftarrow> color_of inner_nephew s;
          outer_nephew_color \<leftarrow> color_of outer_nephew s;
          sib \<leftarrow> node sibling s;
          n \<leftarrow> node problem_node s;
          if rb_color sib = BLACK then
            if inner_nephew_color = BLACK \<and> outer_nephew_color = BLACK then
              do { s \<leftarrow> set_color sibling RED s; Some (rb_parent n, s) }
            else if inner_nephew_color = RED \<and> outer_nephew_color = BLACK then
              do { s \<leftarrow> set_color sibling RED s;
                   s \<leftarrow> set_color inner_nephew BLACK s;
                   d \<leftarrow> GetDir sibling s;
                   s \<leftarrow> Rotate d sibling s;
                   Some (problem_node, s) }
            else
              do { p \<leftarrow> node (rb_parent n) s;
                   s \<leftarrow> set_color sibling (rb_color p) s;
                   s \<leftarrow> set_color (rb_parent n) BLACK s;
                   s \<leftarrow> set_color outer_nephew BLACK s;
                   d \<leftarrow> GetDir problem_node s;
                   s \<leftarrow> Rotate d (rb_parent n) s;
                   Some (rb_root s, s) }
          else
            do { s \<leftarrow> set_color sibling BLACK s;
                 s \<leftarrow> set_color (rb_parent n) RED s;
                 d \<leftarrow> GetDir problem_node s;
                 s \<leftarrow> Rotate d (rb_parent n) s;
                 Some (problem_node, s) } }"

partial_function (option) Deletion_loop :: "nat \<Rightarrow> ('k, 'v) rb_tree \<Rightarrow> (nat \<times> ('k, 'v) rb_tree) option" where
  "Deletion_loop problem_node s =
     (if problem_node = rb_root s then Some (problem_node, s)
      else do { n \<leftarrow> node problem_node s;
                if rb_color n \<noteq> BLACK then Some (problem_node, s)
                else do { (problem_node, s) \<leftarrow> Deletion_round problem_node s; Deletion_loop problem_node s } })"

definition PreDeletionFix :: "nat \<Rightarrow> ('k, 'v) rb_tree \<Rightarrow> ('k, 'v) rb_tree option" where
  "PreDeletionFix this s = do { (problem_node, s) \<leftarrow> Deletion_loop this s; set_color problem_node BLACK s }"

definition Rb_Delete :: "'k::linorder \<Rightarrow> ('k, 'v) rb_tree \<Rightarrow> (bool \<times> ('k, 'v) rb_tree) option" where
  "Rb_Delete key s =
     do { (node_to_delete, s) \<leftarrow> BstDelete key (rb_root s) s;
          if node_to_delete = 0 then Some (False, s)
          else if node_to_delete = rb_root s then
            do { s \<leftarrow> Delete_node (rb_root s) s; Some (True, s\<lparr>rb_root := 0, num_keys := num_keys s - 1\<rparr>) }
          else
            do { n \<leftarrow> node node_to_delete s;
                 s \<leftarrow> (if rb_color n = BLACK then PreDeletionFix node_to_delete s else Some s);
                 d \<leftarrow> GetDir node_to_delete s;
                 n \<leftarrow> node node_to_delete s;
                 s \<leftarrow> set_node (rb_parent n) (with_child d 0) s;
                 s \<leftarrow> Delete_node node_to_delete s;
                 Some (True, s\<lparr>num_keys := num_keys s - 1\<rparr>) } }"

definition Destroy :: "('k, 'v) rb_tree \<Rightarrow> ('k, 'v) rb_tree option" where
  "Destroy s = Delete_node (rb_root s) s"

end
