(* ===== verification/Rb_Tree_Shape.thy ===== *)
theory Rb_Tree_Shape
  imports Rb_Tree
begin

text \<open>
  The heap of a red-black tree as a tree of addressed nodes, and the primitive operations of \<open>Rb_Tree\<close> as equations
  between such trees. A node is reached by a path of frames from its subtree to the root, \<open>plug\<close> puts a subtree under
  its path; moving along a path needs no proof, because both views are the same tree.
\<close>

section \<open>Trees with addresses\<close>

datatype ('k, 'v) atree = Tip | Nd "('k, 'v) atree" nat color_t 'k 'v "('k, 'v) atree"

datatype ('k, 'v) frame = Fr direction_t nat color_t 'k 'v "('k, 'v) atree"

text \<open>\<open>mk d a c k v t u\<close> has \<open>t\<close> on the side \<open>d\<close> and \<open>u\<close> on the other.\<close>

definition mk :: "direction_t \<Rightarrow> nat \<Rightarrow> color_t \<Rightarrow> 'k \<Rightarrow> 'v \<Rightarrow> ('k, 'v) atree \<Rightarrow> ('k, 'v) atree \<Rightarrow> ('k, 'v) atree" where
  "mk d a c k v t u = (if d = LEFT then Nd t a c k v u else Nd u a c k v t)"

fun plug :: "('k, 'v) frame list \<Rightarrow> ('k, 'v) atree \<Rightarrow> ('k, 'v) atree" where
  "plug [] t = t"
| "plug (Fr d a c k v u # C) t = plug C (mk d a c k v t u)"

fun adr :: "('k, 'v) atree \<Rightarrow> nat" where
  "adr Tip = 0"
| "adr (Nd l a c k v r) = a"

fun addrs :: "('k, 'v) atree \<Rightarrow> nat list" where
  "addrs Tip = []"
| "addrs (Nd l a c k v r) = addrs l @ a # addrs r"

fun cadr :: "('k, 'v) frame list \<Rightarrow> nat" where
  "cadr [] = 0"
| "cadr (Fr d a c k v u # C) = a"

fun caddrs :: "('k, 'v) frame list \<Rightarrow> nat list" where
  "caddrs [] = []"
| "caddrs (Fr d a c k v u # C) = a # addrs u @ caddrs C"

text \<open>The heap of a tree whose root has the parent \<open>p\<close>, and of a path whose subtree has the address \<open>x\<close>.\<close>

fun tmap :: "nat \<Rightarrow> ('k, 'v) atree \<Rightarrow> nat \<rightharpoonup> ('k, 'v) rb_node" where
  "tmap p Tip = Map.empty"
| "tmap p (Nd l a c k v r) = (tmap a l ++ tmap a r)(a \<mapsto> RbNode k v c (adr l) (adr r) p)"

fun cmap :: "nat \<Rightarrow> ('k, 'v) frame list \<Rightarrow> nat \<rightharpoonup> ('k, 'v) rb_node" where
  "cmap x [] = Map.empty"
| "cmap x (Fr d a c k v u # C) =
     (cmap a C ++ tmap a u)(a \<mapsto> with_child d x (with_child (InvertDir d) (adr u) (RbNode k v c 0 0 (cadr C))))"

definition wf_adr :: "('k, 'v) atree \<Rightarrow> bool" where
  "wf_adr t = (distinct (addrs t) \<and> 0 \<notin> set (addrs t))"

definition st :: "u64 \<Rightarrow> ('k, 'v) atree \<Rightarrow> ('k, 'v) rb_tree" where
  "st n t = \<lparr>rb_root = adr t, num_keys = n, rb_heap = tmap 0 t\<rparr>"

lemma InvertDir_simps [simp]:
  "InvertDir LEFT = RIGHT" "InvertDir RIGHT = LEFT" "InvertDir (InvertDir d) = d" "InvertDir d = d \<longleftrightarrow> False"
  "d = InvertDir d \<longleftrightarrow> False" "d \<noteq> LEFT \<longleftrightarrow> d = RIGHT" "d \<noteq> e \<longleftrightarrow> e = InvertDir d"
  by (cases d; cases e; simp add: InvertDir_def)+

lemma mk_simps [simp]: "mk LEFT a c k v t u = Nd t a c k v u" "mk RIGHT a c k v t u = Nd u a c k v t" "adr (mk d a c k v t u) = a"
  by (simp_all add: mk_def)

lemma mk_InvertDir: "mk (InvertDir d) a c k v t u = mk d a c k v u t"
  by (cases d) simp_all

lemma child_simps [simp]:
  "child d (with_child d x n) = x" "child (InvertDir d) (with_child d x n) = child (InvertDir d) n"
  "child d (with_child (InvertDir d) x n) = child d n"
  "rb_parent (with_child d x n) = rb_parent n" "rb_color (with_child d x n) = rb_color n" "rb_key (with_child d x n) = rb_key n"
  "rb_val (with_child d x n) = rb_val n"
  "rb_parent (RbNode k v c l r p) = p" "rb_color (RbNode k v c l r p) = c" "rb_key (RbNode k v c l r p) = k" "rb_val (RbNode k v c l r p) = v"
  by (cases d; simp add: child_def with_child_def RbNode_def)+

lemma set_addrs_mk [simp]: "set (addrs (mk d a c k v t u)) = {a} \<union> set (addrs t) \<union> set (addrs u)"
  by (cases d) auto

lemma distinct_mk [simp]: "distinct (addrs (mk d a c k v t u)) \<longleftrightarrow>
    a \<notin> set (addrs t) \<and> a \<notin> set (addrs u) \<and> distinct (addrs t) \<and> distinct (addrs u) \<and> set (addrs t) \<inter> set (addrs u) = {}"
  by (cases d) auto

lemma dom_tmap [simp]: "dom (tmap p t) = set (addrs t)"
  by (induction t arbitrary: p) auto

lemma dom_cmap [simp]: "dom (cmap x C) = set (caddrs C)"
proof (induction x C rule: cmap.induct)
  case (2 x d a c k v u C)
  then show ?case by (simp only: cmap.simps caddrs.simps dom_fun_upd dom_map_add dom_tmap) auto
qed simp

lemma tmap_outside [simp]: "x \<notin> set (addrs t) \<Longrightarrow> tmap p t x = None"
  using dom_tmap[of p t] by blast

lemma tmap_SomeD: "tmap p t x = Some m \<Longrightarrow> x \<in> set (addrs t)"
  using dom_tmap[of p t] by blast

lemma cmap_outside [simp]: "x \<notin> set (caddrs C) \<Longrightarrow> cmap y C x = None"
  using dom_cmap[of y C] by blast

lemma tmap_mk: "set (addrs t) \<inter> set (addrs u) = {} \<Longrightarrow>
    tmap p (mk d a c k v t u) = (tmap a u ++ tmap a t)(a \<mapsto> with_child d (adr t) (with_child (InvertDir d) (adr u) (RbNode k v c 0 0 p)))"
  using map_add_comm[of "tmap a t" "tmap a u"] by (cases d) (simp_all add: with_child_def RbNode_def)

lemma plug_addrs: "set (addrs (plug C t)) = set (caddrs C) \<union> set (addrs t)"
  by (induction C t rule: plug.induct) auto

lemma plug_distinct: "distinct (addrs (plug C t)) \<longleftrightarrow> distinct (caddrs C) \<and> distinct (addrs t) \<and> set (caddrs C) \<inter> set (addrs t) = {}"
  by (induction C t rule: plug.induct) auto

lemma plug_append [simp]: "plug (C @ D) t = plug D (plug C t)"
  by (induction C t rule: plug.induct) auto

lemma caddrs_append [simp]: "caddrs (D @ C) = caddrs D @ caddrs C"
  by (induction D rule: caddrs.induct) simp_all

lemma wf_plug: "wf_adr (plug C t) \<longleftrightarrow>
    distinct (caddrs C) \<and> distinct (addrs t) \<and> set (caddrs C) \<inter> set (addrs t) = {} \<and> 0 \<notin> set (caddrs C) \<and> 0 \<notin> set (addrs t)"
  by (auto simp: wf_adr_def plug_addrs plug_distinct)

lemma adr_plug: "adr (plug C t) = (if C = [] then adr t else cadr [last C])"
  by (induction C t rule: plug.induct) auto

text \<open>The heap of a plugged tree is the heap of the path and the heap of the subtree.\<close>

lemma tmap_plug: "distinct (addrs (plug C t)) \<Longrightarrow> tmap 0 (plug C t) = cmap (adr t) C ++ tmap (cadr C) t"
proof (induction C t rule: plug.induct)
  case (1 t)
  then show ?case by simp
next
  case (2 d a c k v u C t)
  then have dis: "a \<notin> set (addrs t)" "a \<notin> set (addrs u)" "set (addrs t) \<inter> set (addrs u) = {}" "a \<notin> set (caddrs C)"
    "set (caddrs C) \<inter> set (addrs t) = {}"
    by (auto simp: plug_distinct)
  have "tmap 0 (plug (Fr d a c k v u # C) t) = cmap a C ++ tmap (cadr C) (mk d a c k v t u)"
    using 2 by simp
  also have "\<dots> = cmap (adr t) (Fr d a c k v u # C) ++ tmap a t"
    using dis by (intro ext) (simp only: tmap_mk cmap.simps map_add_def fun_upd_apply, auto split: option.splits)
  finally show ?case by (simp only: cadr.simps)
qed

section \<open>Primitive operations on plugged trees\<close>

definition nd :: "direction_t \<Rightarrow> color_t \<Rightarrow> 'k \<Rightarrow> 'v \<Rightarrow> nat \<Rightarrow> nat \<Rightarrow> nat \<Rightarrow> ('k, 'v) rb_node" where
  "nd d c k v x y p = with_child d x (with_child (InvertDir d) y (RbNode k v c 0 0 p))"

lemma nd_simps [simp]:
  "child d (nd d c k v x y p) = x" "child (InvertDir d) (nd d c k v x y p) = y" "rb_parent (nd d c k v x y p) = p"
  "rb_color (nd d c k v x y p) = c" "rb_key (nd d c k v x y p) = k" "rb_val (nd d c k v x y p) = v"
  "with_child d z (nd d c k v x y p) = nd d c k v z y p" "with_child (InvertDir d) z (nd d c k v x y p) = nd d c k v x z p"
  "nd d c k v x y p\<lparr>rb_parent := q\<rparr> = nd d c k v x y q" "nd d c k v x y p\<lparr>rb_color := e\<rparr> = nd d e k v x y p"
  by (cases d; simp add: nd_def with_child_def child_def RbNode_def)+

lemma nd_sides [simp]: "nd LEFT c k v x y p = RbNode k v c x y p" "nd RIGHT c k v x y p = RbNode k v c y x p"
  by (simp_all add: nd_def with_child_def RbNode_def)

lemma nd_InvertDir: "nd (InvertDir d) c k v x y p = nd d c k v y x p"
  by (cases d) simp_all

lemma tmap_top: "tmap p (mk d a c k v t u) a = Some (nd d c k v (adr t) (adr u) p)"
  by (cases d) simp_all

lemma heap_plug: "wf_adr (plug C t) \<Longrightarrow> rb_heap (st n (plug C t)) = cmap (adr t) C ++ tmap (cadr C) t"
  by (simp add: st_def tmap_plug wf_adr_def)

lemma node_at:
  assumes "wf_adr (plug C (mk d a c k v t u))"
  shows "node a (st n (plug C (mk d a c k v t u))) = Some (nd d c k v (adr t) (adr u) (cadr C))"
proof -
  have "a \<noteq> 0" using assms by (simp add: wf_plug)
  moreover have "(cmap x C ++ tmap (cadr C) (mk d a c k v t u)) a = Some (nd d c k v (adr t) (adr u) (cadr C))" for x
    by (simp only: map_add_def tmap_top option.case)
  ultimately show ?thesis using heap_plug[OF assms, of n] by (simp only: node_def mk_simps if_False)
qed

text \<open>A node whose colour, key or value is replaced.\<close>

lemma heap_set_node:
  assumes "wf_adr (plug C (mk d a c k v t u))"
  shows "put_node a (nd d c' k' v' (adr t) (adr u) (cadr C)) (st n (plug C (mk d a c k v t u))) = st n (plug C (mk d a c' k' v' t u))"
proof -
  have wf: "wf_adr (plug C (mk d a c' k' v' t u))" and dis: "set (addrs t) \<inter> set (addrs u) = {}" using assms by (auto simp: wf_plug)
  have "tmap 0 (plug C (mk d a c' k' v' t u)) = (tmap 0 (plug C (mk d a c k v t u)))(a \<mapsto> nd d c' k' v' (adr t) (adr u) (cadr C))"
    using heap_plug[OF assms] heap_plug[OF wf] by (simp add: st_def tmap_mk[OF dis] nd_def)
  then show ?thesis by (simp add: put_node_def st_def adr_plug)
qed

lemma set_color_at:
  assumes "wf_adr (plug C (mk d a c k v t u))"
  shows "set_color a c' (st n (plug C (mk d a c k v t u))) = Some (st n (plug C (mk d a c' k v t u)))"
  using heap_set_node[OF assms] by (simp add: set_color_def set_node_def node_at[OF assms])

lemma GetDir_at:
  assumes "wf_adr (plug (Fr d a c k v u # C) (mk e b c2 k2 v2 x y))"
  shows "GetDir b (st n (plug (Fr d a c k v u # C) (mk e b c2 k2 v2 x y))) = Some d"
proof -
  have ne: "b \<noteq> adr u" using assms by (cases u) (auto simp: wf_plug)
  have wf: "wf_adr (plug C (mk d a c k v (mk e b c2 k2 v2 x y) u))" using assms by simp
  have "node a (st n (plug (Fr d a c k v u # C) (mk e b c2 k2 v2 x y))) = Some (nd d c k v b (adr u) (cadr C))"
    using node_at[OF wf, of n] by simp
  then show ?thesis using node_at[OF assms, of n] ne by (cases d) (simp_all add: GetDir_def RbNode_def)
qed

lemma cmap_child: "C \<noteq> [] \<Longrightarrow> \<exists>d' m. (\<forall>x. cmap x C (cadr C) = Some (with_child d' x m) \<and> cmap x C = (cmap y C)(cadr C \<mapsto> with_child d' x m))"
proof -
  assume "C \<noteq> []"
  then obtain d a c k v u D where C: "C = Fr d a c k v u # D" by (metis cadr.cases neq_Nil_conv)
  show ?thesis
    by (rule exI[of _ d], rule exI[of _ "with_child (InvertDir d) (adr u) (RbNode k v c 0 0 (cadr D))"])
      (simp only: C cmap.simps cadr.simps fun_upd_apply fun_upd_upd simp_thms if_True)
qed

text \<open>
  \<open>Rotate\<close> on a heap: four nodes change, the rotated node \<open>a\<close>, its child \<open>b\<close>, the inner grandchild \<open>y\<close> and the
  parent \<open>p\<close>, the last two only where they exist.
\<close>

lemma Rotate_heap:
  assumes a: "node a s = Some (nd d c k v x b p)" and b: "node b s = Some (nd d c2 k2 v2 y e a)" and ne: "a \<noteq> b"
    and y: "y \<noteq> 0 \<Longrightarrow> node y s = Some m \<and> y \<noteq> a \<and> y \<noteq> b \<and> y \<noteq> p"
    and p: "p \<noteq> 0 \<Longrightarrow> node p s = Some q \<and> p \<noteq> a \<and> p \<noteq> b \<and> (if a = rb_left q then LEFT else RIGHT) = d'"
  shows "Rotate d a s = Some (s\<lparr>
     rb_root := if p = 0 then b else rb_root s,
     rb_heap := ((if p = 0 then id else (\<lambda>h. h(p \<mapsto> with_child d' b q)))
        ((if y = 0 then id else (\<lambda>h. h(y \<mapsto> m\<lparr>rb_parent := a\<rparr>))) (rb_heap s)))
        (a \<mapsto> nd d c k v x y b, b \<mapsto> nd d c2 k2 v2 a e p)\<rparr>)"
proof -
  have [simp]: "a \<noteq> 0" "b \<noteq> 0" "b \<noteq> a" using a b ne by (auto simp: node_def split: if_splits)
  have ha: "rb_heap s a = Some (nd d c k v x b p)" and hb: "rb_heap s b = Some (nd d c2 k2 v2 y e a)"
    using a b by (simp_all add: node_def)
  note defs = Rotate_def set_node_def put_node_def GetDir_def Let_def
  show ?thesis
  proof (cases "y = 0"; cases "p = 0")
    assume "y = 0" "p = 0"
    then show ?thesis using ne by (simp add: defs node_def ha hb fun_upd_twist)
  next
    assume "y \<noteq> 0" "p = 0"
    then show ?thesis using ne y by (simp add: defs node_def ha hb fun_upd_twist)
  next
    assume "y = 0" "p \<noteq> 0"
    then show ?thesis using ne p by (simp add: defs node_def ha hb fun_upd_twist)
  next
    assume "y \<noteq> 0" "p \<noteq> 0"
    then show ?thesis using ne p y by (simp add: defs node_def ha hb fun_upd_twist)
  qed
qed

lemma tmap_inner: "x \<noteq> adr t \<Longrightarrow> tmap p t x = tmap q t x"
  by (cases t) simp_all

lemma cmap_inner: "x \<noteq> cadr C \<Longrightarrow> cmap y C x = cmap z C x"
  by (cases C rule: cadr.cases) (simp_all add: map_add_def)

lemma adr_0: "wf_adr (plug C t) \<Longrightarrow> adr t = 0 \<longleftrightarrow> t = Tip"
  by (cases t) (auto simp: wf_plug)

lemma cadr_0: "wf_adr (plug C t) \<Longrightarrow> cadr C = 0 \<longleftrightarrow> C = []"
  by (cases C rule: cadr.cases) (auto simp: wf_plug)

lemma adr_in: "t \<noteq> Tip \<Longrightarrow> adr t \<in> set (addrs t)"
  by (cases t) simp_all

lemma cadr_in: "C \<noteq> [] \<Longrightarrow> cadr C \<in> set (caddrs C)"
  by (cases C rule: cadr.cases) simp_all

lemma tmap_at: "t \<noteq> Tip \<Longrightarrow> \<exists>m. tmap p t (adr t) = Some m \<and> (\<forall>q. tmap q t (adr t) = Some (m\<lparr>rb_parent := q\<rparr>))"
  by (cases t) (simp_all add: RbNode_def)

lemma Rotate_at:
  assumes wf: "wf_adr (plug C (mk d a c k v A (mk d b c2 k2 v2 B E)))"
  shows "Rotate d a (st n (plug C (mk d a c k v A (mk d b c2 k2 v2 B E)))) =
    Some (st n (plug C (mk d b c2 k2 v2 (mk d a c k v A B) E)))" (is "Rotate d a ?s = Some ?s'")
proof -
  let ?t = "mk d a c k v A (mk d b c2 k2 v2 B E)" and ?t' = "mk d b c2 k2 v2 (mk d a c k v A B) E" and ?p = "cadr C"
  have wf': "wf_adr (plug C ?t')" using wf by (auto simp: wf_plug)
  have heap: "rb_heap ?s = cmap a C ++ tmap ?p ?t" "rb_heap ?s' = cmap b C ++ tmap ?p ?t'"
    using heap_plug[OF wf, of n] heap_plug[OF wf', of n] by simp_all
  have dis: "distinct (addrs ?t)" "distinct (addrs ?t')" "set (caddrs C) \<inter> set (addrs ?t) = {}" "0 \<notin> set (caddrs C)" "0 \<notin> set (addrs ?t)"
    using wf wf' by (simp_all add: wf_plug)
  have na: "node a ?s = Some (nd d c k v (adr A) b ?p)" using node_at[OF wf, of n] by simp
  have nb: "node b ?s = Some (nd d c2 k2 v2 (adr B) (adr E) a)"
    using node_at[of "Fr (InvertDir d) a c k v A # C" d b c2 k2 v2 B E n] wf by (simp add: mk_InvertDir)
  have heap_in: "rb_heap ?s x = tmap ?p ?t x" if "x \<in> set (addrs ?t)" for x
  proof -
    have "x \<notin> set (caddrs C)" using that dis(3) by blast
    then show ?thesis by (simp add: heap map_add_def split: option.splits)
  qed
  obtain m where m: "adr B \<noteq> 0 \<Longrightarrow> node (adr B) ?s = Some m \<and> adr B \<noteq> a \<and> adr B \<noteq> b \<and> adr B \<noteq> ?p \<and> tmap a B (adr B) = Some (m\<lparr>rb_parent := a\<rparr>)"
  proof (cases "B = Tip")
    case False
    then obtain m where "tmap b B (adr B) = Some m" "\<forall>q. tmap q B (adr B) = Some (m\<lparr>rb_parent := q\<rparr>)" using tmap_at by blast
    note m = this
    have in_B: "adr B \<in> set (addrs B)" by (rule adr_in[OF False])
    then have "adr B \<notin> set (addrs A)" "adr B \<notin> set (addrs E)" using in_B dis(1) by auto
    then have "tmap ?p ?t (adr B) = tmap b B (adr B)" using dis(1) in_B by (cases d) (auto simp: map_add_def split: option.splits)
    moreover have "adr B \<noteq> 0" using in_B dis(5) by (metis Un_iff set_addrs_mk)
    moreover from this have "adr B \<noteq> ?p" using in_B dis(3,4,5) cadr_in[of C] by (cases "C = []") auto
    ultimately show ?thesis using that m in_B heap_in[of "adr B"] dis(1,5) by (auto simp: node_def)
  qed (auto intro: that)
  obtain q d' where q: "?p \<noteq> 0 \<Longrightarrow> node ?p ?s = Some q \<and> ?p \<noteq> a \<and> ?p \<noteq> b \<and> (if a = rb_left q then LEFT else RIGHT) = d' \<and>
      cmap b C ?p = Some (with_child d' b q)"
  proof (cases C rule: cadr.cases)
    case (2 e p cp kp vp u D)
    have "node p ?s = Some (nd e cp kp vp a (adr u) (cadr D))" using node_at[of D e p cp kp vp ?t u n] wf 2 by simp
    moreover have "a \<noteq> adr u" using dis(3,5) 2 by (cases u) auto
    moreover have "cmap b C p = Some (nd e cp kp vp b (adr u) (cadr D))" using 2 by (simp add: nd_def)
    ultimately show ?thesis using that[of "nd e cp kp vp a (adr u) (cadr D)" e] dis(3) 2 by (cases e) (auto simp: RbNode_def with_child_def)
  qed (auto intro: that)
  have y: "adr B \<noteq> 0 \<longleftrightarrow> B \<noteq> Tip" and p: "?p \<noteq> 0 \<longleftrightarrow> C \<noteq> []" 
    using adr_0[of "[]" B] dis(1,5) cadr_0[OF wf] by (auto simp: wf_adr_def)
  have "rb_heap ?s' = ((if ?p = 0 then id else (\<lambda>h. h(?p \<mapsto> with_child d' b q)))
        ((if adr B = 0 then id else (\<lambda>h. h(adr B \<mapsto> m\<lparr>rb_parent := a\<rparr>))) (rb_heap ?s)))
        (a \<mapsto> nd d c k v (adr A) (adr B) b, b \<mapsto> nd d c2 k2 v2 a (adr E) ?p)" (is "_ = ?h")
  proof
    fix x
    consider "x = a" | "x = b" | "x = adr B" "B \<noteq> Tip" | "x = ?p" "C \<noteq> []" | "x \<noteq> a" "x \<noteq> b" "x \<noteq> adr B \<or> B = Tip" "x \<noteq> ?p \<or> C = []" by blast
    then show "rb_heap ?s' x = ?h x"
    proof cases
      case 5
      then have "tmap a B x = tmap b B x" and "cmap b C x = cmap a C x" using tmap_inner[of x B a b] cmap_inner[of x C a b] by (cases "B = Tip"; cases "C = []"; simp)+
      moreover have "?h x = rb_heap ?s x" using 5 y p by simp
      moreover have "tmap ?p ?t' x = tmap ?p ?t x" using 5 calculation(1) by (cases d) (simp_all add: map_add_def split: option.split)
      ultimately show ?thesis by (simp only: heap map_add_def)
    next
      case 1
      have "node a ?s' = Some (nd d c k v (adr A) (adr B) b)" using node_at[of "Fr d b c2 k2 v2 E # C" d a c k v A B n] wf' by simp
      then show ?thesis using 1 na nb dis(1) by (auto simp: node_def split: if_splits)
    next
      case 2
      have "node b ?s' = Some (nd d c2 k2 v2 a (adr E) ?p)" using node_at[OF wf', of n] by simp
      then show ?thesis using 2 by (simp add: node_def split: if_splits)
    next
      case 3
      have in_B: "adr B \<in> set (addrs B)" by (rule adr_in[OF 3(2)])
      then have "adr B \<notin> set (addrs A)" "adr B \<notin> set (addrs E)" "adr B \<notin> set (caddrs C)" using dis(1,3) by auto
      then have "tmap ?p ?t' (adr B) = tmap a B (adr B)" using m y 3 by (cases d) (auto simp: map_add_def split: option.splits)
      then show ?thesis using m y 3 by (auto simp: heap(2) map_add_def)
    next
      case 4
      then have "?p \<notin> set (addrs ?t')" using dis(3) cadr_in[of C] by auto
      then have "tmap ?p ?t' ?p = None" by (rule tmap_outside)
      then show ?thesis using q p 4 by (simp add: heap(2) map_add_def)
    qed
  qed
  moreover have "rb_root ?s' = (if ?p = 0 then b else rb_root ?s)" using p by (auto simp: st_def adr_plug)
  ultimately have s': "?s' = ?s\<lparr>rb_root := if ?p = 0 then b else rb_root ?s, rb_heap := ?h\<rparr>" by (simp add: st_def)
  show ?thesis unfolding s' by (rule Rotate_heap[OF na nb]) (use dis m q in auto)
qed

text \<open>Insertion of a new leaf.\<close>

lemma put_leaf:
  assumes wf: "wf_adr (plug C (mk d a c k v Tip u))" and new: "new \<noteq> 0" "new \<notin> set (addrs (plug C (mk d a c k v Tip u)))"
  shows "set_node a (with_child d new) (put_node new (RbNode key val RED 0 0 a) (st n (plug C (mk d a c k v Tip u)))) =
    Some (st n (plug C (mk d a c k v (Nd Tip new RED key val Tip) u)))"
proof -
  let ?t = "mk d a c k v Tip u" and ?t' = "mk d a c k v (Nd Tip new RED key val Tip) u"
  have wf': "wf_adr (plug C ?t')" using wf new by (auto simp: wf_plug plug_addrs)
  have out: "a \<noteq> new" "new \<notin> set (addrs u)" "new \<notin> set (caddrs C)" "a \<noteq> 0" using new wf by (auto simp: plug_addrs wf_plug)
  have "tmap 0 (plug C ?t') x = ((tmap 0 (plug C ?t))(new \<mapsto> RbNode key val RED 0 0 a, a \<mapsto> nd d c k v new (adr u) (cadr C))) x" for x
    using heap_plug[OF wf, of n] heap_plug[OF wf', of n] out
    by (cases d) (auto simp: st_def map_add_def split: option.splits)
  moreover have "node a (put_node new m (st n (plug C ?t))) = Some (nd d c k v 0 (adr u) (cadr C))" for m
    using node_at[OF wf, of n] out by (simp add: node_def put_node_def)
  ultimately show ?thesis by (simp add: set_node_def put_node_def st_def adr_plug fun_eq_iff)
qed

text \<open>Destruction of a subtree that hangs nowhere, and the cut of a subtree.\<close>

lemma Delete_node_tmap:
  assumes "wf_adr t" "set (addrs t) \<inter> dom h = {}" "rb_heap s = h ++ tmap p t"
  shows "Delete_node (adr t) s = Some (s\<lparr>rb_heap := h\<rparr>)"
  using assms
proof (induction t arbitrary: p h s)
  case Tip
  then show ?case by (subst Delete_node.simps) simp
next
  case (Nd l a c k v r)
  let ?n = "RbNode k v c (adr l) (adr r) p"
  have wf: "wf_adr l" "wf_adr r" "a \<notin> set (addrs l)" "a \<notin> set (addrs r)" "set (addrs l) \<inter> set (addrs r) = {}" "a \<noteq> 0"
    using Nd.prems(1) by (auto simp: wf_adr_def)
  have h: "set (addrs l) \<inter> dom h = {}" "set (addrs r) \<inter> dom h = {}" "h a = None" using Nd.prems(2) by auto
  have heap: "rb_heap s = (h ++ tmap a r)(a \<mapsto> ?n) ++ tmap a l" "(h ++ tmap a r)(a \<mapsto> ?n) = h(a \<mapsto> ?n) ++ tmap a r"
    using Nd.prems(3) wf map_add_comm[of "tmap a l" "tmap a r"] by (auto simp: map_add_def fun_eq_iff split: option.splits)
  have n: "node a s = Some ?n" using Nd.prems by (simp add: node_def wf_adr_def)
  have l: "Delete_node (adr l) s = Some (s\<lparr>rb_heap := (h ++ tmap a r)(a \<mapsto> ?n)\<rparr>)"
    by (rule Nd.IH(1)[OF wf(1) _ heap(1)]) (use h wf in \<open>simp only: dom_fun_upd dom_map_add dom_tmap, auto\<close>)
  have "dom (h(a \<mapsto> ?n)) = insert a (dom h)" by (simp only: dom_fun_upd option.simps if_False)
  then have disr: "set (addrs r) \<inter> dom (h(a \<mapsto> ?n)) = {}" using h(2) wf(4) by (metis Int_insert_right_if0)
  have "Delete_node (adr r) (s\<lparr>rb_heap := h(a \<mapsto> ?n) ++ tmap a r\<rparr>) = Some (s\<lparr>rb_heap := h(a \<mapsto> ?n) ++ tmap a r\<rparr>\<lparr>rb_heap := h(a \<mapsto> ?n)\<rparr>)"
    by (rule Nd.IH(2)[OF wf(2) disr, where p = a]) (simp del: fun_upd_apply)
  then have r: "Delete_node (adr r) (s\<lparr>rb_heap := (h ++ tmap a r)(a \<mapsto> ?n)\<rparr>) = Some (s\<lparr>rb_heap := h(a \<mapsto> ?n)\<rparr>)"
    unfolding heap(2) by simp
  show ?case by (subst Delete_node.simps) (use wf h n l r in \<open>simp add: node_def RbNode_def fun_upd_idem\<close>)
qed

lemma cut_subtree:
  assumes wf: "wf_adr (plug C (mk d a c k v t u))" and t: "t \<noteq> Tip"
  shows "do { s \<leftarrow> set_node a (with_child d 0) (st n (plug C (mk d a c k v t u))); Delete_node (adr t) s } =
    Some (st n (plug C (mk d a c k v Tip u)))"
proof -
  let ?t = "mk d a c k v t u" and ?t' = "mk d a c k v Tip u"
  have wf': "wf_adr (plug C ?t')" using wf by (auto simp: wf_plug)
  have dis: "a \<noteq> 0" "a \<notin> set (addrs t)" "a \<notin> set (addrs u)" "set (addrs u) \<inter> set (addrs t) = {}" "a \<notin> set (caddrs C)"
    "set (addrs t) \<inter> set (caddrs C) = {}" and wft: "wf_adr t"
    using wf unfolding wf_plug by (auto simp: wf_adr_def)
  let ?n = "nd d c k v 0 (adr u) (cadr C)" and ?s = "st n (plug C ?t)"
  have set: "set_node a (with_child d 0) ?s = Some (put_node a ?n ?s)" using node_at[OF wf, of n] by (simp add: set_node_def)
  have dom: "dom (tmap 0 (plug C ?t')) = set (caddrs C) \<union> {a} \<union> set (addrs u)" by (auto simp: plug_addrs simp del: domIff)
  have "((tmap 0 (plug C ?t))(a \<mapsto> ?n)) x = (tmap 0 (plug C ?t') ++ tmap a t) x" for x
    using heap_plug[OF wf, of n] heap_plug[OF wf', of n] dis
    by (cases d) (auto simp: st_def map_add_def dest!: tmap_SomeD split: option.splits)
  then have "rb_heap (put_node a ?n ?s) = tmap 0 (plug C ?t') ++ tmap a t" by (auto simp: put_node_def st_def)
  from Delete_node_tmap[OF wft _ this] dis dom
  have "Delete_node (adr t) (put_node a ?n ?s) = Some (put_node a ?n ?s\<lparr>rb_heap := tmap 0 (plug C ?t')\<rparr>)" by auto
  then show ?thesis using set by (simp add: put_node_def st_def adr_plug)
qed

end
