(* ===== verification/Rb_Tree_Insert.thy ===== *)
theory Rb_Tree_Insert
  imports Rb_Tree_Shape
begin

text \<open>
  Search trees, red-black colours, and the insertion: \<open>BstInsert\<close> puts the key where the search ends, and the loop of
  \<open>PostInsertFix\<close> restores the colours without touching the order.
\<close>

section \<open>Search\<close>

fun inorder :: "('k, 'v) atree \<Rightarrow> ('k \<times> 'v) list" where
  "inorder Tip = []"
| "inorder (Nd l a c k v r) = inorder l @ (k, v) # inorder r"

text \<open>The entries to the left and to the right of a path.\<close>

fun lefts :: "('k, 'v) frame list \<Rightarrow> ('k \<times> 'v) list" where
  "lefts [] = []"
| "lefts (Fr d a c k v u # C) = lefts C @ (if d = LEFT then [] else inorder u @ [(k, v)])"

fun rights :: "('k, 'v) frame list \<Rightarrow> ('k \<times> 'v) list" where
  "rights [] = []"
| "rights (Fr d a c k v u # C) = (if d = LEFT then (k, v) # inorder u else []) @ rights C"

lemma inorder_mk: "inorder (mk d a c k v t u) = (if d = LEFT then inorder t @ (k, v) # inorder u else inorder u @ (k, v) # inorder t)"
  by (cases d) simp_all

lemma inorder_plug: "inorder (plug C t) = lefts C @ inorder t @ rights C"
  by (induction C t rule: plug.induct) (simp_all add: inorder_mk)

definition sorted_keys :: "('k::linorder \<times> 'v) list \<Rightarrow> bool" where
  "sorted_keys xs = sorted_wrt (<) (map fst xs)"

lemma sorted_keys_append [simp]:
  "sorted_keys (xs @ ys) \<longleftrightarrow> sorted_keys xs \<and> sorted_keys ys \<and> (\<forall>x\<in>set xs. \<forall>y\<in>set ys. fst x < fst y)"
  "sorted_keys (x # xs) \<longleftrightarrow> sorted_keys xs \<and> (\<forall>y\<in>set xs. fst x < fst y)" "sorted_keys []"
  by (auto simp: sorted_keys_def sorted_wrt_append)

lemma sorted_keys_distinct: "sorted_keys xs \<Longrightarrow> distinct (map fst xs)"
  by (simp add: sorted_keys_def strict_sorted_iff)

text \<open>Where the search for a key ends: the path to the node of the key, or to the missing child.\<close>

fun seek :: "'k::linorder \<Rightarrow> ('k, 'v) frame list \<Rightarrow> ('k, 'v) atree \<Rightarrow> ('k, 'v) frame list \<times> ('k, 'v) atree" where
  "seek key C Tip = (C, Tip)"
| "seek key C (Nd l a c k v r) =
     (if key < k then seek key (Fr LEFT a c k v r # C) l
      else if key > k then seek key (Fr RIGHT a c k v l # C) r
      else (C, Nd l a c k v r))"

lemma seek_plug: "seek key C t = (D, u) \<Longrightarrow> plug D u = plug C t"
  by (induction key C t arbitrary: D u rule: seek.induct) (auto split: if_splits)

lemma seek_found: "seek key C t = (D, Nd l a c k v r) \<Longrightarrow> k = key"
  by (induction key C t arbitrary: D rule: seek.induct) (auto split: if_splits)

lemma seek_missing:
  assumes "seek key C t = (D, Tip)" "\<forall>x\<in>set (lefts C). fst x < key" "\<forall>x\<in>set (rights C). key < fst x" "sorted_keys (inorder t)"
  shows "(\<forall>x\<in>set (lefts D). fst x < key) \<and> (\<forall>x\<in>set (rights D). key < fst x)"
  using assms
proof (induction key C t arbitrary: D rule: seek.induct)
  case (2 key C l a c k v r)
  consider "key < k" | "k < key" "\<not> key < k" | "key = k" by fastforce
  then show ?case
  proof cases
    case 1
    have "\<forall>x\<in>set (inorder r). key < fst x" using "2.prems"(4) 1 by (auto intro: order.strict_trans)
    then show ?thesis using "2.IH"(1)[OF 1] "2.prems" 1 by auto
  next
    case 2
    have "\<forall>x\<in>set (inorder l). fst x < key" using "2.prems"(4) 2 by (auto intro: order.strict_trans)
    then show ?thesis using "2.IH"(2)[OF 2(2,1)] "2.prems" 2 by auto
  qed (use "2.prems" in simp)
qed simp

lemma Find_seek:
  assumes "wf_adr (plug C t)" "t \<noteq> Tip" "seek key C t = (D, u)"
  shows "Rb_Find key (adr t) (st n (plug C t)) = Some (adr u)"
  using assms
proof (induction key C t rule: seek.induct)
  case (2 key C l a c k v r)
  have node: "node a (st n (plug C (Nd l a c k v r))) = Some (RbNode k v c (adr l) (adr r) (cadr C))"
    using node_at[of C LEFT] 2(3) by simp
  have left: "l \<noteq> Tip \<Longrightarrow> adr l \<noteq> 0" "r \<noteq> Tip \<Longrightarrow> adr r \<noteq> 0"
    using 2(3) adr_0[of "Fr LEFT a c k v r # C" l] adr_0[of "Fr RIGHT a c k v l # C" r] by simp_all
  consider "key < k" | "k < key" | "key = k" by fastforce
  then show ?case
  proof cases
    case 1
    then show ?thesis
      using 2 node left by (cases "l = Tip") (simp_all add: Rb_Find.simps[of key a] RbNode_def)
  next
    case 2
    then have "\<not> key < k" "key \<noteq> k" by auto
    then show ?thesis
      using "2.IH" "2.prems" 2 node left by (cases "r = Tip") (simp_all add: Rb_Find.simps[of key a] RbNode_def)
  next
    case 3
    then show ?thesis using 2 node by (auto simp: Rb_Find.simps[of k a] RbNode_def)
  qed
qed simp

lemma BstInsert_seek:
  assumes "wf_adr (plug C t)" "t \<noteq> Tip" "seek key C t = (D, u)" "new \<noteq> 0" "new \<notin> set (addrs (plug C t))"
  shows "BstInsert key val new (adr t) (st n (plug C t)) =
    Some (if u = Tip then (new, st n (plug D (Nd Tip new RED key val Tip))) else (0, st n (plug C t)))"
  using assms
proof (induction key C t rule: seek.induct)
  case (2 key C l a c k v r)
  have node: "node a (st n (plug C (Nd l a c k v r))) = Some (RbNode k v c (adr l) (adr r) (cadr C))"
    using node_at[of C LEFT] 2(3) by simp
  have left: "l \<noteq> Tip \<Longrightarrow> adr l \<noteq> 0" "r \<noteq> Tip \<Longrightarrow> adr r \<noteq> 0"
    using 2(3) adr_0[of "Fr LEFT a c k v r # C" l] adr_0[of "Fr RIGHT a c k v l # C" r] by simp_all
  have side: "(\<lambda>n. n\<lparr>rb_left := new\<rparr>) = with_child LEFT new" "(\<lambda>n. n\<lparr>rb_right := new\<rparr>) = with_child RIGHT new"
    by (simp_all add: with_child_def fun_eq_iff)
  have val: "rb_key (RbNode k v c x y p) = k" "rb_left (RbNode k v c x y p) = x" "rb_right (RbNode k v c x y p) = y" for x y p
    by (simp_all add: RbNode_def)
  note step = BstInsert.simps[of key val new a] BstInsert.simps[of k val new a] val side
  note leaf = put_leaf[of C LEFT a c k v r new key val n] put_leaf[of C RIGHT a c k v l new key val n]
  consider "key < k" | "k < key" | "key = k" by fastforce
  then show ?case
  proof cases
    case 1
    then show ?thesis using "2.IH" "2.prems" 1 node left leaf by (cases "l = Tip") (auto simp: step)
  next
    case 2
    then have "\<not> key < k" "key \<noteq> k" by auto
    then show ?thesis using "2.IH" "2.prems" 2 node left leaf by (cases "r = Tip") (auto simp: step)
  next
    case 3
    then show ?thesis using 2 node by (auto simp: step)
  qed
qed simp

section \<open>Colours\<close>

text \<open>
  \<open>rbt n t\<close>: every path of \<open>t\<close> has \<open>n\<close> black nodes and no red node has a red child. \<open>rbc n C\<close>: the path \<open>C\<close>
  accepts a subtree of black height \<open>n\<close>. The root is treated as the child of a red node, so it has to be black.
\<close>

fun col :: "('k, 'v) atree \<Rightarrow> color_t" where
  "col Tip = BLACK"
| "col (Nd l a c k v r) = c"

fun ccol :: "('k, 'v) frame list \<Rightarrow> color_t" where
  "ccol [] = RED"
| "ccol (Fr d a c k v u # C) = c"

fun rbt :: "nat \<Rightarrow> ('k, 'v) atree \<Rightarrow> bool" where
  "rbt n Tip = (n = 0)"
| "rbt n (Nd l a RED k v r) = (col l = BLACK \<and> col r = BLACK \<and> rbt n l \<and> rbt n r)"
| "rbt 0 (Nd l a BLACK k v r) = False"
| "rbt (Suc n) (Nd l a BLACK k v r) = (rbt n l \<and> rbt n r)"

fun rbc :: "nat \<Rightarrow> ('k, 'v) frame list \<Rightarrow> bool" where
  "rbc n [] = True"
| "rbc n (Fr d a RED k v u # C) = (rbt n u \<and> col u = BLACK \<and> ccol C = BLACK \<and> rbc n C)"
| "rbc n (Fr d a BLACK k v u # C) = (rbt n u \<and> rbc (Suc n) C)"

definition rb_ok :: "('k, 'v) atree \<Rightarrow> bool" where
  "rb_ok t = (col t = BLACK \<and> (\<exists>n. rbt n t))"

fun paint :: "('k, 'v) atree \<Rightarrow> ('k, 'v) atree" where
  "paint Tip = Tip"
| "paint (Nd l a c k v r) = Nd l a BLACK k v r"

lemma color_cases: "c \<noteq> RED \<longleftrightarrow> c = BLACK" "c \<noteq> BLACK \<longleftrightarrow> c = RED"
  by (cases c; simp)+

lemma rbt_mk [simp]:
  "rbt n (mk d a RED k v t u) \<longleftrightarrow> col t = BLACK \<and> col u = BLACK \<and> rbt n t \<and> rbt n u"
  "rbt (Suc n) (mk d a BLACK k v t u) \<longleftrightarrow> rbt n t \<and> rbt n u" "col (mk d a c k v t u) = c"
  "rbt 0 (mk d a BLACK k v t u) = False" "paint (mk d a c k v t u) = mk d a BLACK k v t u"
  by (cases d; simp add: conj_ac)+

text \<open>The parts of a node, the subtree on the side \<open>d\<close> first.\<close>

lemma mk_cases:
  assumes "t \<noteq> Tip"
  obtains a c k v x y where "t = mk d a c k v x y"
proof (cases t)
  case (Nd l a c k v r)
  then have "t = mk d a c k v (if d = LEFT then l else r) (if d = LEFT then r else l)" by (cases d) simp_all
  then show ?thesis by (rule that)
qed (use assms in simp)

text \<open>A plugged tree is red-black exactly when the path and the subtree agree on the black height.\<close>

lemma rb_plug: "rb_ok (plug C t) \<longleftrightarrow> (\<exists>n. rbt n t \<and> rbc n C \<and> (ccol C = RED \<longrightarrow> col t = BLACK))"
proof (induction C t rule: plug.induct)
  case (2 d a c k v u C t)
  show ?case
  proof (cases c)
    case RED
    then show ?thesis using 2 by (auto simp: color_cases)
  next
    case BLACK
    have "(\<exists>n. rbt n (mk d a BLACK k v t u) \<and> rbc n C) \<longleftrightarrow> (\<exists>n. rbt (Suc n) (mk d a BLACK k v t u) \<and> rbc (Suc n) C)"
      by (metis not0_implies_Suc rbt_mk(4))
    then show ?thesis using 2 BLACK by auto
  qed
qed (auto simp: rb_ok_def)

text \<open>Keys and values do not matter for the colours.\<close>

lemma rbt_entry: "rbt n (Nd l a c k v r) \<longleftrightarrow> rbt n (Nd l a c k' v' r)"
  by (cases c; cases n; simp)

lemma rb_ok_entry: "rb_ok (plug C (Nd l a c k v r)) \<longleftrightarrow> rb_ok (plug C (Nd l a c k' v' r))"
  unfolding rb_plug using rbt_entry[of _ l a c k v r k' v'] by simp

lemma rb_ok_paint: "rbt n t \<Longrightarrow> rb_ok (paint t)"
  by (cases t; cases "col t") (auto simp: rb_ok_def intro: exI[of _ "Suc n"] exI[of _ n])

section \<open>The rounds of the insertion\<close>

lemma color_of_adr: "wf_adr (plug C t) \<Longrightarrow> color_of (adr t) (st n (plug C t)) = Some (col t)"
proof (cases t)
  case (Nd l a c k v r)
  assume "wf_adr (plug C t)"
  then show ?thesis using node_at[of C LEFT a c k v l r n] Nd by (simp add: color_of_def wf_plug RbNode_def)
qed (simp add: color_of_def)

lemma GetUncle_at:
  assumes "wf_adr (plug (Fr d p cp kp vp s # Fr e g cg kg vg u # C) t)" "t \<noteq> Tip"
  shows "GetUncle (adr t) (st n (plug (Fr d p cp kp vp s # Fr e g cg kg vg u # C) t)) = Some (adr u)"
proof -
  obtain a c k v x y where t: "t = mk d a c k v x y" using mk_cases[OF assms(2)] .
  let ?s = "st n (plug (Fr d p cp kp vp s # Fr e g cg kg vg u # C) t)"
  have "node a ?s = Some (nd d c k v (adr x) (adr y) p)" using node_at[OF assms(1)[unfolded t]] t by simp
  moreover have "node p ?s = Some (nd d cp kp vp a (adr s) g)" using node_at[of "Fr e g cg kg vg u # C" d p cp kp vp t s n] assms(1) t by simp
  moreover have "node g ?s = Some (nd e cg kg vg p (adr u) (cadr C))"
    using node_at[of C e g cg kg vg "mk d p cp kp vp t s" u n] assms(1) t by simp
  moreover have "GetDir p ?s = Some e" using GetDir_at[of e g cg kg vg u C d p cp kp vp t s n] assms(1) by simp
  moreover have "p \<noteq> 0" "g \<noteq> 0" using assms(1) by (simp_all add: wf_plug)
  ultimately show ?thesis using t by (simp add: GetUncle_def GetChild_def)
qed

lemma Insertion_round_red:
  assumes wf: "wf_adr (plug (Fr d p cp kp vp s # Fr e g cg kg vg u # C) t)" and t: "t \<noteq> Tip" and u: "col u = RED"
  shows "Insertion_round (adr t) (st n (plug (Fr d p cp kp vp s # Fr e g cg kg vg u # C) t)) =
    Some (g, st n (plug C (mk e g RED kg vg (mk d p BLACK kp vp t s) (paint u))))"
proof -
  let ?C = "Fr d p cp kp vp s # Fr e g cg kg vg u # C"
  obtain a c k v x y where ta: "t = mk d a c k v x y" using mk_cases[OF t] .
  have uT: "u \<noteq> Tip" using u by auto
  obtain b ku vu w z where ub: "u = mk e b RED ku vu w z" using mk_cases[OF uT] u by (metis rbt_mk(3))
  have "node a (st n (plug ?C t)) = Some (nd d c k v (adr x) (adr y) p)" using node_at[OF wf[unfolded ta]] ta by simp
  moreover have "color_of b (st n (plug ?C t)) = Some RED"
    using color_of_adr[of "Fr (InvertDir e) g cg kg vg (mk d p cp kp vp t s) # C" u n] wf ub by (simp add: mk_InvertDir)
  moreover have "set_color p BLACK (st n (plug ?C t)) = Some (st n (plug (Fr d p BLACK kp vp s # Fr e g cg kg vg u # C) t))"
    using set_color_at[of "Fr e g cg kg vg u # C" d p cp kp vp t s BLACK n] wf by simp
  moreover have wf1: "wf_adr (plug (Fr d p BLACK kp vp s # Fr e g cg kg vg u # C) t)" using wf by (simp add: wf_plug)
  then have "set_color b BLACK (st n (plug (Fr d p BLACK kp vp s # Fr e g cg kg vg u # C) t)) =
      Some (st n (plug (Fr d p BLACK kp vp s # Fr e g cg kg vg (paint u) # C) t))"
    using set_color_at[of "Fr (InvertDir e) g cg kg vg (mk d p BLACK kp vp t s) # C" e b RED ku vu w z BLACK n] ub by (simp add: mk_InvertDir)
  moreover have wf2: "wf_adr (plug (Fr d p BLACK kp vp s # Fr e g cg kg vg (paint u) # C) t)" using wf ub by (simp add: wf_plug)
  then have "node p (st n (plug (Fr d p BLACK kp vp s # Fr e g cg kg vg (paint u) # C) t)) = Some (nd d BLACK kp vp a (adr s) g)"
    using node_at[of "Fr e g cg kg vg (paint u) # C" d p BLACK kp vp t s n] ta by simp
  moreover have "set_color g RED (st n (plug (Fr d p BLACK kp vp s # Fr e g cg kg vg (paint u) # C) t)) =
      Some (st n (plug C (mk e g RED kg vg (mk d p BLACK kp vp t s) (paint u))))"
    using set_color_at[of C e g cg kg vg "mk d p BLACK kp vp t s" "paint u" RED n] wf2 by simp
  ultimately show ?thesis using GetUncle_at[OF wf t, of n] ta ub by (simp add: Insertion_round_def)
qed

lemma Straighten_straight:
  assumes wf: "wf_adr (plug (Fr d p cp kp vp s # Fr d g cg kg vg u # C) t)" and t: "t \<noteq> Tip"
  shows "Straighten (adr t) (st n (plug (Fr d p cp kp vp s # Fr d g cg kg vg u # C) t)) =
    Some (adr t, st n (plug (Fr d p cp kp vp s # Fr d g cg kg vg u # C) t))"
proof -
  obtain a c k v x y where ta: "t = mk d a c k v x y" using mk_cases[OF t] .
  show ?thesis using node_at[OF wf[unfolded ta], of n] GetDir_at[OF wf[unfolded ta], of n]
      GetDir_at[of d g cg kg vg u C d p cp kp vp t s n] wf ta
    by (simp add: Straighten_def GetOrientation_def)
qed

lemma Straighten_angled:
  assumes wf: "wf_adr (plug (Fr (InvertDir d) p cp kp vp s # Fr d g cg kg vg u # C) (mk d a c k v x y))"
  shows "Straighten a (st n (plug (Fr (InvertDir d) p cp kp vp s # Fr d g cg kg vg u # C) (mk d a c k v x y))) =
    Some (p, st n (plug (Fr d a c k v y # Fr d g cg kg vg u # C) (mk d p cp kp vp s x)))"
proof -
  let ?s = "st n (plug (Fr (InvertDir d) p cp kp vp s # Fr d g cg kg vg u # C) (mk d a c k v x y))"
  have "GetDir p ?s = Some d"
    using GetDir_at[of d g cg kg vg u C "InvertDir d" p cp kp vp "mk d a c k v x y" s n] wf by simp
  moreover have "Rotate d p ?s = Some (st n (plug (Fr d a c k v y # Fr d g cg kg vg u # C) (mk d p cp kp vp s x)))"
    using Rotate_at[of "Fr d g cg kg vg u # C" d p cp kp vp s a c k v x y n] wf by (simp add: mk_InvertDir)
  ultimately show ?thesis using node_at[OF wf, of n] GetDir_at[OF wf, of n] by (simp add: Straighten_def GetOrientation_def)
qed

lemma Rotate_grandparent_at:
  assumes wf: "wf_adr (plug (Fr d p cp kp vp s # Fr d g cg kg vg u # C) t)" and t: "t \<noteq> Tip"
  shows "Rotate_grandparent (adr t) (st n (plug (Fr d p cp kp vp s # Fr d g cg kg vg u # C) t)) =
    Some (st n (plug (Fr d p BLACK kp vp (mk d g RED kg vg s u) # C) t))"
proof -
  let ?C = "\<lambda>c e. Fr d p c kp vp s # Fr d g e kg vg u # C"
  obtain a c k v x y where ta: "t = mk d a c k v x y" using mk_cases[OF t] .
  have wf': "wf_adr (plug (?C c e) t)" for c e using wf by (simp add: wf_plug)
  have "node a (st n (plug (?C cp cg) t)) = Some (nd d c k v (adr x) (adr y) p)" using node_at[OF wf[unfolded ta], of n] ta by simp
  moreover have "GetDir p (st n (plug (?C cp cg) t)) = Some d" using GetDir_at[of d g cg kg vg u C d p cp kp vp t s n] wf by simp
  moreover have "set_color p BLACK (st n (plug (?C cp cg) t)) = Some (st n (plug (?C BLACK cg) t))"
    using set_color_at[of "Fr d g cg kg vg u # C" d p cp kp vp t s BLACK n] wf by simp
  moreover have "node p (st n (plug (?C BLACK cg) t)) = Some (nd d BLACK kp vp a (adr s) g)"
    using node_at[of "Fr d g cg kg vg u # C" d p BLACK kp vp t s n] wf'[of BLACK cg] ta by simp
  moreover have "set_color g RED (st n (plug (?C BLACK cg) t)) = Some (st n (plug (?C BLACK RED) t))"
    using set_color_at[of C d g cg kg vg "mk d p BLACK kp vp t s" u RED n] wf'[of BLACK cg] by simp
  moreover have "Rotate (InvertDir d) g (st n (plug (?C BLACK RED) t)) = Some (st n (plug (Fr d p BLACK kp vp (mk d g RED kg vg s u) # C) t))"
    using Rotate_at[of C "InvertDir d" g RED kg vg u p BLACK kp vp s t n] wf'[of BLACK RED] by (simp add: mk_InvertDir)
  ultimately show ?thesis using ta by (simp add: Rotate_grandparent_def)
qed

lemma Insertion_round_straight:
  assumes wf: "wf_adr (plug (Fr d p cp kp vp s # Fr d g cg kg vg u # C) t)" and t: "t \<noteq> Tip" and u: "col u = BLACK"
  shows "Insertion_round (adr t) (st n (plug (Fr d p cp kp vp s # Fr d g cg kg vg u # C) t)) =
    Some (adr t, st n (plug (Fr d p BLACK kp vp (mk d g RED kg vg s u) # C) t))"
proof -
  obtain a c k v x y where ta: "t = mk d a c k v x y" using mk_cases[OF t] .
  show ?thesis using GetUncle_at[OF wf t, of n] Straighten_straight[OF wf t, of n] Rotate_grandparent_at[OF wf t, of n]
      node_at[OF wf[unfolded ta], of n] color_of_adr[of "Fr (InvertDir d) g cg kg vg (mk d p cp kp vp t s) # C" u n] wf u ta
    by (simp add: Insertion_round_def mk_InvertDir)
qed

lemma Insertion_round_angled:
  assumes wf: "wf_adr (plug (Fr (InvertDir d) p cp kp vp s # Fr d g cg kg vg u # C) (mk d a c k v x y))" and u: "col u = BLACK"
  shows "Insertion_round a (st n (plug (Fr (InvertDir d) p cp kp vp s # Fr d g cg kg vg u # C) (mk d a c k v x y))) =
    Some (p, st n (plug (Fr d a BLACK k v (mk d g RED kg vg y u) # C) (mk d p cp kp vp s x)))"
proof -
  let ?t = "mk d a c k v x y"
  have t: "?t \<noteq> Tip" "mk d p cp kp vp s x \<noteq> Tip" by (cases d; simp)+
  have wf': "wf_adr (plug (Fr d a c k v y # Fr d g cg kg vg u # C) (mk d p cp kp vp s x))" using wf by (auto simp: wf_plug)
  show ?thesis using GetUncle_at[OF wf t(1), of n] Straighten_angled[OF wf, of n] Rotate_grandparent_at[OF wf' t(2), of n]
      node_at[OF wf, of n] color_of_adr[of "Fr (InvertDir d) g cg kg vg (mk (InvertDir d) p cp kp vp ?t s) # C" u n] wf u
    by (simp add: Insertion_round_def mk_InvertDir)
qed

lemma Insertion_loop_stop:
  assumes wf: "wf_adr (plug C t)" and t: "t \<noteq> Tip" and C: "C = [] \<or> ccol C = BLACK"
  shows "Insertion_loop (adr t) (st n (plug C t)) = Some (st n (plug C t))"
proof -
  obtain a c k v x y where ta: "t = mk LEFT a c k v x y" using mk_cases[OF t] .
  have a: "node a (st n (plug C t)) = Some (nd LEFT c k v (adr x) (adr y) (cadr C))" using node_at[OF wf[unfolded ta], of n] ta by simp
  show ?thesis
  proof (cases C rule: cadr.cases)
    case 1
    then show ?thesis using a ta by (subst Insertion_loop.simps) simp
  next
    case (2 d p cp kp vp s C1)
    then have "node p (st n (plug C t)) = Some (nd d BLACK kp vp a (adr s) (cadr C1))"
      using node_at[of C1 d p cp kp vp t s n] wf C ta by simp
    then show ?thesis using a ta 2 by (subst Insertion_loop.simps) simp
  qed
qed

lemma Insertion_loop_step:
  assumes wf: "wf_adr (plug (Fr d p RED kp vp s # C) t)" and t: "t \<noteq> Tip"
  shows "Insertion_loop (adr t) (st n (plug (Fr d p RED kp vp s # C) t)) =
    do { (x, s) \<leftarrow> Insertion_round (adr t) (st n (plug (Fr d p RED kp vp s # C) t)); Insertion_loop x s }"
proof -
  obtain a c k v x y where ta: "t = mk d a c k v x y" using mk_cases[OF t] .
  have "node a (st n (plug (Fr d p RED kp vp s # C) t)) = Some (nd d c k v (adr x) (adr y) p)" using node_at[OF wf[unfolded ta], of n] ta by simp
  moreover have "node p (st n (plug (Fr d p RED kp vp s # C) t)) = Some (nd d RED kp vp a (adr s) (cadr C))"
    using node_at[of C d p RED kp vp t s n] wf ta by simp
  moreover have "p \<noteq> 0" using wf by (simp add: wf_plug)
  ultimately show ?thesis using ta by (subst Insertion_loop.simps) simp
qed

text \<open>
  The loop starts at a red node whose only flaw is that its parent may be red as well; afterwards the tree is red-black
  up to the colour of its root, and holds the same entries in the same order at the same addresses.
\<close>

lemma Insertion_loop_restores:
  assumes "wf_adr (plug C t)" "col t = RED" "rbt n t" "rbc n C"
  shows "\<exists>T. Insertion_loop (adr t) (st m (plug C t)) = Some (st m T) \<and> wf_adr T \<and> set (addrs T) = set (addrs (plug C t)) \<and>
    inorder T = inorder (plug C t) \<and> rb_ok (paint T)"
  using assms
proof (induction "length C" arbitrary: C t n rule: less_induct)
  case less
  have t: "t \<noteq> Tip" using less.prems by auto
  show ?case
  proof (cases "C = [] \<or> ccol C = BLACK")
    case True
    have "rb_ok (paint (plug C t))"
    proof (cases "C = []")
      case True
      then show ?thesis using less.prems rb_ok_paint by simp
    next
      case False
      then have "rb_ok (plug C t)" using True less.prems by (auto simp: rb_plug)
      then show ?thesis using rb_ok_paint unfolding rb_ok_def by blast
    qed
    then show ?thesis using Insertion_loop_stop[OF less.prems(1) t True, of m] less.prems(1) by auto
  next
    case False
    then obtain e p kp vp s D where C: "C = Fr e p RED kp vp s # D" by (cases C rule: ccol.cases) (auto simp: color_cases)
    with less.prems(4) have s: "rbt n s" "col s = BLACK" "ccol D = BLACK" "rbc n D" by auto
    then obtain d g kg vg u E where D: "D = Fr d g BLACK kg vg u # E" by (cases D rule: ccol.cases) auto
    with s have u: "rbt n u" "rbc (Suc n) E" by auto
    note wf = less.prems(1)[unfolded C D]
    note step = Insertion_loop_step[OF wf t, of m]
    show ?thesis
    proof (cases "col u")
      case RED
      let ?t = "mk d g RED kg vg (mk e p BLACK kp vp t s) (paint u)"
      have red: "rbt (Suc n) (paint u)" "col (paint u) = BLACK" "inorder (paint u) = inorder u" "addrs (paint u) = addrs u"
        using u RED by (cases u rule: paint.cases; cases n; auto)+
      then have "wf_adr (plug E ?t)" "col ?t = RED" "rbt (Suc n) ?t" using wf less.prems s by (auto simp: wf_plug)
      then obtain T where T: "Insertion_loop g (st m (plug E ?t)) = Some (st m T)" "wf_adr T" "set (addrs T) = set (addrs (plug E ?t))"
        "inorder T = inorder (plug E ?t)" "rb_ok (paint T)"
        using less.hyps[of E ?t "Suc n"] u C D by auto
      have "Insertion_loop (adr t) (st m (plug C t)) = Some (st m T)" using step Insertion_round_red[OF wf t RED, of m] T(1) C D by simp
      then show ?thesis using T red by (intro exI[of _ T]) (cases d; cases e; auto simp: C D plug_addrs inorder_plug)
    next
      case BLACK
      show ?thesis
      proof (cases "e = d")
        case True
        let ?C = "Fr d p BLACK kp vp (mk d g RED kg vg s u) # E"
        note wf = wf[unfolded True]
        have wf': "wf_adr (plug ?C t)" using wf by (auto simp: wf_plug)
        have "Insertion_loop (adr t) (st m (plug C t)) = Some (st m (plug ?C t))"
          using step Insertion_round_straight[OF wf t BLACK, of m] Insertion_loop_stop[OF wf' t, of m] C D True by simp
        moreover have "rb_ok (plug ?C t)" unfolding rb_plug using less.prems s u BLACK by (auto intro!: exI[of _ n])
        then have "rb_ok (paint (plug ?C t))" using rb_ok_paint unfolding rb_ok_def by blast
        ultimately show ?thesis using wf' True by (intro exI[of _ "plug ?C t"]) (auto simp: C D plug_addrs inorder_plug inorder_mk)
      next
        case False
        then have e: "e = InvertDir d" by simp
        obtain a k v x y where ta: "t = mk d a RED k v x y" using mk_cases[OF t] less.prems(2) by (metis rbt_mk(3))
        note wf = wf[unfolded e ta]
        let ?C = "Fr d a BLACK k v (mk d g RED kg vg y u) # E" and ?t = "mk d p RED kp vp s x"
        have wf': "wf_adr (plug ?C ?t)" using wf by (auto simp: wf_plug)
        have t': "?t \<noteq> Tip" by (cases d) simp_all
        have "Insertion_loop (adr t) (st m (plug C t)) = Some (st m (plug ?C ?t))"
          using step Insertion_round_angled[OF wf BLACK, of m] Insertion_loop_stop[OF wf' t', of m] C D e ta by simp
        moreover have "rb_ok (plug ?C ?t)" unfolding rb_plug using less.prems s u BLACK ta by (auto intro!: exI[of _ n])
        then have "rb_ok (paint (plug ?C ?t))" using rb_ok_paint unfolding rb_ok_def by blast
        ultimately show ?thesis using wf' e ta
          by (intro exI[of _ "plug ?C ?t"]) (cases d; auto simp: C D plug_addrs inorder_plug inorder_mk)
      qed
    qed
  qed
qed

end
