(* ===== verification/Rb_Tree_Delete.thy ===== *)
theory Rb_Tree_Delete
  imports Rb_Tree_Insert
begin

text \<open>
  The rounds of \<open>PreDeletionFix\<close> as equations on plugged trees, and its loop: it makes room for the removal of a black
  node before the node is removed.
\<close>

section \<open>One round\<close>

lemma nephews_at:
  fixes n :: u64
  assumes wf: "wf_adr (plug (Fr d p cp kp vp (mk d q cq kq vq inn out) # C) t)" and t: "t \<noteq> Tip"
  defines "s \<equiv> st n (plug (Fr d p cp kp vp (mk d q cq kq vq inn out) # C) t)"
  shows "GetSibling (adr t) s = Some q" "GetNephew ANGLED (adr t) s = Some (adr inn)" "GetNephew STRAIGHT (adr t) s = Some (adr out)"
    "color_of (adr inn) s = Some (col inn)" "color_of (adr out) s = Some (col out)" "color_of q s = Some cq"
    "map_option rb_color (node q s) = Some cq" "map_option rb_parent (node (adr t) s) = Some p" "map_option rb_color (node p s) = Some cp"
    "GetDir (adr t) s = Some d" "GetDir q s = Some (InvertDir d)" "map_option rb_color (node (adr t) s) = Some (col t)"
proof -
  obtain a c k v x y where ta: "t = mk d a c k v x y" using mk_cases[OF t] .
  let ?q = "mk d q cq kq vq inn out"
  have na: "node a s = Some (nd d c k v (adr x) (adr y) p)" using node_at[OF wf[unfolded ta], of n] ta by (simp add: s_def)
  have np: "node p s = Some (nd d cp kp vp a q (cadr C))" using node_at[of C d p cp kp vp t ?q n] wf ta by (simp add: s_def)
  have nq: "node q s = Some (nd d cq kq vq (adr inn) (adr out) p)"
    using node_at[of "Fr (InvertDir d) p cp kp vp t # C" d q cq kq vq inn out n] wf by (simp add: s_def mk_InvertDir)
  have dir: "GetDir a s = Some d" "GetDir q s = Some (InvertDir d)"
    using GetDir_at[OF wf[unfolded ta], of n] GetDir_at[of "InvertDir d" p cp kp vp t C d q cq kq vq inn out n] wf ta
    by (simp_all add: s_def mk_InvertDir)
  have nz: "p \<noteq> 0" "q \<noteq> 0" using wf by (simp_all add: wf_plug)
  show sib: "GetSibling (adr t) s = Some q" using na np dir nz ta by (simp add: GetSibling_def GetChild_def)
  show "GetNephew ANGLED (adr t) s = Some (adr inn)" "GetNephew STRAIGHT (adr t) s = Some (adr out)"
    using sib dir nq nz by (simp_all add: GetNephew_def GetChild_def)
  show "color_of (adr inn) s = Some (col inn)" "color_of (adr out) s = Some (col out)" "color_of q s = Some cq"
    using color_of_adr[of "Fr d q cq kq vq out # Fr (InvertDir d) p cp kp vp t # C" inn n]
      color_of_adr[of "Fr (InvertDir d) q cq kq vq inn # Fr (InvertDir d) p cp kp vp t # C" out n] wf nq nz
    by (simp_all add: s_def mk_InvertDir color_of_def)
  show "map_option rb_color (node q s) = Some cq" "map_option rb_parent (node (adr t) s) = Some p" "map_option rb_color (node p s) = Some cp"
    "GetDir (adr t) s = Some d" "GetDir q s = Some (InvertDir d)" "map_option rb_color (node (adr t) s) = Some (col t)"
    using ta na np nq dir by simp_all
qed

lemma Deletion_round_recolor:
  assumes wf: "wf_adr (plug (Fr d p cp kp vp (mk d q BLACK kq vq inn out) # C) t)" and t: "t \<noteq> Tip"
    and nephews: "col inn = BLACK" "col out = BLACK"
  shows "Deletion_round (adr t) (st n (plug (Fr d p cp kp vp (mk d q BLACK kq vq inn out) # C) t)) =
    Some (p, st n (plug (Fr d p cp kp vp (mk d q RED kq vq inn out) # C) t))"
proof -
  have "set_color q RED (st n (plug (Fr d p cp kp vp (mk d q BLACK kq vq inn out) # C) t)) =
      Some (st n (plug (Fr d p cp kp vp (mk d q RED kq vq inn out) # C) t))"
    using set_color_at[of "Fr (InvertDir d) p cp kp vp t # C" d q BLACK kq vq inn out RED n] wf by (simp add: mk_InvertDir)
  then show ?thesis using nephews_at[OF wf t, of n] nephews by (auto simp: Deletion_round_def)
qed

lemma Deletion_round_inner:
  assumes wf: "wf_adr (plug (Fr d p cp kp vp (mk d q BLACK kq vq (mk d i RED ki vi x y) out) # C) t)" and t: "t \<noteq> Tip"
    and out: "col out = BLACK"
  shows "Deletion_round (adr t) (st n (plug (Fr d p cp kp vp (mk d q BLACK kq vq (mk d i RED ki vi x y) out) # C) t)) =
    Some (adr t, st n (plug (Fr d p cp kp vp (mk d i BLACK ki vi x (mk d q RED kq vq y out)) # C) t))"
proof -
  let ?C = "Fr (InvertDir d) p cp kp vp t # C"
  let ?s = "\<lambda>cq ci. st n (plug (Fr d p cp kp vp (mk d q cq kq vq (mk d i ci ki vi x y) out) # C) t)"
  have wf': "wf_adr (plug (Fr d p cp kp vp (mk d q cq kq vq (mk d i ci ki vi x y) out) # C) t)" for cq ci using wf by (simp add: wf_plug)
  have "set_color q RED (?s BLACK RED) = Some (?s RED RED)"
    using set_color_at[of ?C d q BLACK kq vq "mk d i RED ki vi x y" out RED n] wf by (simp add: mk_InvertDir)
  moreover have "set_color i BLACK (?s RED RED) = Some (?s RED BLACK)"
    using set_color_at[of "Fr d q RED kq vq out # ?C" d i RED ki vi x y BLACK n] wf'[of RED RED] by (simp add: mk_InvertDir)
  moreover have "Rotate (InvertDir d) q (?s RED BLACK) =
      Some (st n (plug (Fr d p cp kp vp (mk d i BLACK ki vi x (mk d q RED kq vq y out)) # C) t))"
    using Rotate_at[of ?C "InvertDir d" q RED kq vq out i BLACK ki vi y x n] wf'[of RED BLACK] by (simp add: mk_InvertDir)
  ultimately show ?thesis using nephews_at[OF wf t, of n] nephews_at[OF wf'[of RED BLACK] t, of n] out by (auto simp: Deletion_round_def)
qed

lemma Deletion_round_outer:
  fixes n :: u64
  assumes wf: "wf_adr (plug (Fr d p cp kp vp (mk d q BLACK kq vq inn out) # C) t)" and t: "t \<noteq> Tip" and out: "col out = RED"
  defines "s' \<equiv> st n (plug (Fr d p BLACK kp vp inn # Fr d q cp kq vq (paint out) # C) t)"
  shows "Deletion_round (adr t) (st n (plug (Fr d p cp kp vp (mk d q BLACK kq vq inn out) # C) t)) = Some (rb_root s', s')"
proof -
  let ?s = "\<lambda>cp' cq o'. st n (plug (Fr d p cp' kp vp (mk d q cq kq vq inn o') # C) t)"
  have wf': "wf_adr (plug (Fr d p cp' kp vp (mk d q cq kq vq inn out) # C) t)" for cp' cq using wf by (simp add: wf_plug)
  have "out \<noteq> Tip" using out by auto
  then obtain b ko vo x y where ob: "out = mk d b RED ko vo x y" using mk_cases out by (metis rbt_mk(3))
  have wf2: "wf_adr (plug (Fr d p cp' kp vp (mk d q cq kq vq inn (paint out)) # C) t)" for cp' cq using wf ob by (simp add: wf_plug)
  have "set_color q cp (?s cp BLACK out) = Some (?s cp cp out)"
    using set_color_at[of "Fr (InvertDir d) p cp kp vp t # C" d q BLACK kq vq inn out cp n] wf by (simp add: mk_InvertDir)
  moreover have "set_color p BLACK (?s cp cp out) = Some (?s BLACK cp out)"
    using set_color_at[of C d p cp kp vp t "mk d q cp kq vq inn out" BLACK n] wf'[of cp cp] by simp
  moreover have "set_color b BLACK (?s BLACK cp out) = Some (?s BLACK cp (paint out))"
    using set_color_at[of "Fr (InvertDir d) q cp kq vq inn # Fr (InvertDir d) p BLACK kp vp t # C" d b RED ko vo x y BLACK n] wf'[of BLACK cp] ob
    by (simp add: mk_InvertDir)
  moreover have "Rotate d p (?s BLACK cp (paint out)) = Some s'"
    using Rotate_at[of C d p BLACK kp vp t q cp kq vq inn "paint out" n] wf2[of BLACK cp] by (simp add: s'_def)
  ultimately show ?thesis using nephews_at[OF wf t, of n] nephews_at[OF wf2[of BLACK cp] t, of n] ob out by (auto simp: Deletion_round_def)
qed

lemma Deletion_round_red:
  assumes wf: "wf_adr (plug (Fr d p cp kp vp (mk d q RED kq vq inn out) # C) t)" and t: "t \<noteq> Tip"
  shows "Deletion_round (adr t) (st n (plug (Fr d p cp kp vp (mk d q RED kq vq inn out) # C) t)) =
    Some (adr t, st n (plug (Fr d p RED kp vp inn # Fr d q BLACK kq vq out # C) t))"
proof -
  let ?s = "\<lambda>cp' cq. st n (plug (Fr d p cp' kp vp (mk d q cq kq vq inn out) # C) t)"
  have wf': "wf_adr (plug (Fr d p cp' kp vp (mk d q cq kq vq inn out) # C) t)" for cp' cq using wf by (simp add: wf_plug)
  have "set_color q BLACK (?s cp RED) = Some (?s cp BLACK)"
    using set_color_at[of "Fr (InvertDir d) p cp kp vp t # C" d q RED kq vq inn out BLACK n] wf by (simp add: mk_InvertDir)
  moreover have "set_color p RED (?s cp BLACK) = Some (?s RED BLACK)"
    using set_color_at[of C d p cp kp vp t "mk d q BLACK kq vq inn out" RED n] wf'[of cp BLACK] by simp
  moreover have "Rotate d p (?s RED BLACK) = Some (st n (plug (Fr d p RED kp vp inn # Fr d q BLACK kq vq out # C) t))"
    using Rotate_at[of C d p RED kp vp t q BLACK kq vq inn out n] wf'[of RED BLACK] by simp
  ultimately show ?thesis using nephews_at[OF wf t, of n] nephews_at[OF wf'[of RED BLACK] t, of n] by (auto simp: Deletion_round_def)
qed

section \<open>The loop\<close>

lemma Deletion_loop_stop:
  assumes "wf_adr (plug C t)" "t \<noteq> Tip" "C = [] \<or> col t = RED"
  shows "Deletion_loop (adr t) (st n (plug C t)) = Some (adr t, st n (plug C t))"
proof (cases "C = []")
  case True
  then show ?thesis by (subst Deletion_loop.simps) (simp add: st_def)
next
  case False
  obtain a c k v x y where ta: "t = mk LEFT a c k v x y" using mk_cases[OF assms(2)] .
  then show ?thesis using node_at[OF assms(1)[unfolded ta], of n] assms(3) False by (subst Deletion_loop.simps) simp
qed

lemma Deletion_loop_step:
  assumes wf: "wf_adr (plug C t)" and t: "t \<noteq> Tip" and C: "C \<noteq> []" "col t = BLACK"
  shows "Deletion_loop (adr t) (st n (plug C t)) =
    do { (x, s) \<leftarrow> Deletion_round (adr t) (st n (plug C t)); Deletion_loop x s }"
proof -
  obtain a c k v x y where ta: "t = mk LEFT a c k v x y" using mk_cases[OF t] .
  have "cadr [last C] \<in> set (caddrs C)" using C(1) by (induction C rule: caddrs.induct) auto
  then have "adr t \<noteq> rb_root (st n (plug C t))" using wf C ta by (auto simp: st_def adr_plug wf_plug)
  then show ?thesis using node_at[OF wf[unfolded ta], of n] ta C by (subst Deletion_loop.simps) simp
qed

lemma lefts_append [simp]: "lefts (D @ C) = lefts C @ lefts D" "rights (D @ C) = rights D @ rights C"
  by (induction D rule: lefts.induct) simp_all

text \<open>
  The loop has made room: after the last node is painted black, the tree is the subtree \<open>L\<close> under some path, without
  \<open>L\<close> it is red-black, and the entries beside \<open>L\<close> are those beside it at the start.
\<close>

definition roomy :: "u64 \<Rightarrow> ('k, 'v) frame list \<Rightarrow> ('k, 'v) atree \<Rightarrow> nat \<times> ('k, 'v) rb_tree \<Rightarrow> bool" where
  "roomy m E L r = (\<exists>E'. set_color (fst r) BLACK (snd r) = Some (st m (plug E' L)) \<and> E' \<noteq> [] \<and> wf_adr (plug E' L) \<and>
     rb_ok (plug E' Tip) \<and> lefts E' = lefts E \<and> rights E' = rights E)"

lemma roomy_cong: "roomy m E L r \<Longrightarrow> lefts E = lefts E' \<Longrightarrow> rights E = rights E' \<Longrightarrow> roomy m E' L r"
  by (simp add: roomy_def)

lemma plug_nonempty: "plug C t \<noteq> Tip \<longleftrightarrow> C \<noteq> [] \<or> t \<noteq> Tip"
proof (induction C t rule: plug.induct)
  case (2 d a c k v u C t)
  then show ?case by (cases d) simp_all
qed simp

lemma col_plug: "C \<noteq> [] \<Longrightarrow> col (plug C t) = col (plug C u)"
proof (induction C arbitrary: t u)
  case (Cons F C)
  then show ?case by (cases F; cases "C = []") simp_all
qed simp

lemma paint_plug:
  assumes "D \<noteq> []"
  obtains D' where "D' \<noteq> []" "\<And>t. paint (plug D t) = plug D' t" "lefts D' = lefts D" "rights D' = rights D" "caddrs D' = caddrs D"
proof -
  obtain D0 F where D: "D = D0 @ [F]" using assms by (metis rev_exhaust)
  obtain d a c k v u where F: "F = Fr d a c k v u" by (cases F)
  show ?thesis using that[of "D0 @ [Fr d a BLACK k v u]"] D F by simp
qed

lemma Deletion_stops:
  assumes wf: "wf_adr (plug C (plug D L))" and L: "L \<noteq> Tip" "D \<noteq> []" and C: "C = [] \<or> col (plug D L) = RED \<and> rbc h C"
    and h: "rbt h (paint (plug D Tip))"
  shows "\<exists>r. Deletion_loop (adr (plug D L)) (st m (plug C (plug D L))) = Some r \<and> roomy m (D @ C) L r"
proof -
  have t: "plug D L \<noteq> Tip" using L by (simp add: plug_nonempty)
  obtain D' where D': "D' \<noteq> []" "\<And>t. paint (plug D t) = plug D' t" "lefts D' = lefts D" "rights D' = rights D" "caddrs D' = caddrs D"
    using paint_plug[OF L(2)] by metis
  obtain a c k v x y where ta: "plug D L = mk LEFT a c k v x y" using mk_cases[OF t] .
  have "set_color a BLACK (st m (plug C (plug D L))) = Some (st m (plug C (plug D' L)))"
    using set_color_at[OF wf[unfolded ta], of BLACK m] ta D'(2)[of L] by simp
  moreover have "wf_adr (plug (D' @ C) L)" using wf D'(5) by (simp add: wf_plug flip: plug_append)
  moreover have "col (paint (plug D Tip)) = BLACK" by (cases "plug D Tip") simp_all
  then have "rb_ok (plug C (plug D' Tip))" unfolding rb_plug[of C] using C h D'(2)[of Tip] by (cases "C = []") auto
  ultimately show ?thesis
    using Deletion_loop_stop[OF wf t, of m] C ta D' by (auto simp: roomy_def intro!: exI[of _ "D' @ C"])
qed

text \<open>A red outer nephew: one rotation ends the loop.\<close>

lemma Deletion_outer_ends:
  assumes wf: "wf_adr (plug (Fr d p cp kp vp (mk d q BLACK kq vq inn out) # C) (plug D L))" and L: "L \<noteq> Tip"
    and t: "col (plug D L) = BLACK" and h: "rbt h (plug D Tip)"
    and C: "rbc (Suc h) (Fr d p cp kp vp (mk d q BLACK kq vq inn out) # C)" and out: "col out = RED"
  shows "\<exists>r. Deletion_loop (adr (plug D L)) (st m (plug (Fr d p cp kp vp (mk d q BLACK kq vq inn out) # C) (plug D L))) = Some r \<and>
    roomy m (D @ Fr d p cp kp vp (mk d q BLACK kq vq inn out) # C) L r"
proof -
  let ?E = "D @ Fr d p BLACK kp vp inn # Fr d q cp kq vq (paint out) # C"
  have t': "plug D L \<noteq> Tip" using L by (simp add: plug_nonempty)
  have "out \<noteq> Tip" using out by auto
  then obtain b ko vo x y where ob: "out = mk d b RED ko vo x y" using mk_cases out by (metis rbt_mk(3))
  have wf': "wf_adr (plug ?E L)" using wf ob unfolding plug_append[symmetric] by (auto simp: wf_plug)
  have "rbt (Suc h) (paint out)" "col (paint out) = BLACK" using C ob by (cases cp; simp)+
  then have ok: "rb_ok (plug ?E Tip)" unfolding plug_append rb_plug using C h by (cases cp) (auto intro!: exI[of _ h])
  moreover have "inorder (paint out) = inorder out" using ob by (simp add: inorder_mk)
  moreover have "set_color (rb_root (st m (plug ?E L))) BLACK (st m (plug ?E L)) = Some (st m (plug ?E L))"
  proof -
    have "plug ?E L \<noteq> Tip" unfolding plug_nonempty by simp
    moreover have "col (plug ?E L) = BLACK" using ok col_plug[of ?E L Tip] unfolding rb_ok_def by simp
    ultimately show ?thesis using set_color_at[of "[]" LEFT] wf' by (cases "plug ?E L") (auto simp: st_def)
  qed
  moreover have "adr (plug ?E L) = rb_root (st m (plug ?E L))" by (simp add: st_def)
  moreover have "Deletion_loop (rb_root (st m (plug ?E L))) (st m (plug ?E L)) = Some (rb_root (st m (plug ?E L)), st m (plug ?E L))"
    by (subst Deletion_loop.simps) simp
  ultimately show ?thesis
    using Deletion_loop_step[OF wf t' _ t, of m] Deletion_round_outer[OF wf t' out, of m] wf'
    by (auto simp: roomy_def inorder_mk intro!: exI[of _ ?E])
qed

text \<open>A black sibling: either the loop ends, or the parent is the next problem node.\<close>

lemma Deletion_black_sibling:
  assumes wf: "wf_adr (plug (Fr d p cp kp vp u # C) (plug D L))" and L: "L \<noteq> Tip"
    and t: "col (plug D L) = BLACK" and h: "rbt h (plug D Tip)" and C: "rbc (Suc h) (Fr d p cp kp vp u # C)" and u: "col u = BLACK"
  shows "(\<exists>r. Deletion_loop (adr (plug D L)) (st m (plug (Fr d p cp kp vp u # C) (plug D L))) = Some r \<and> roomy m (D @ Fr d p cp kp vp u # C) L r) \<or>
    (\<exists>w. Deletion_loop (adr (plug D L)) (st m (plug (Fr d p cp kp vp u # C) (plug D L))) = Deletion_loop p (st m (plug (Fr d p cp kp vp w # C) (plug D L))) \<and>
      rbt h w \<and> inorder w = inorder u \<and> addrs w = addrs u)"
proof -
  have t': "plug D L \<noteq> Tip" using L by (simp add: plug_nonempty)
  have hu: "rbt (Suc h) u" using C by (cases cp) simp_all
  then have "u \<noteq> Tip" by auto
  then obtain q kq vq inn out where q: "u = mk d q BLACK kq vq inn out" using mk_cases u by (metis rbt_mk(3))
  note wf = wf[unfolded q] and C = C[unfolded q]
  note step = Deletion_loop_step[OF wf t' _ t, of m]
  have io: "rbt h inn" "rbt h out" using hu q by simp_all
  consider (outer) "col out = RED" | (inner) "col inn = RED" "col out = BLACK" | (none) "col inn = BLACK" "col out = BLACK"
    by (meson color_cases(1))
  then show ?thesis
  proof cases
    case outer
    then show ?thesis using Deletion_outer_ends[OF wf L t h C outer] q by blast
  next
    case inner
    then have "inn \<noteq> Tip" by auto
    then obtain i ki vi x y where i: "inn = mk d i RED ki vi x y" using mk_cases inner by (metis rbt_mk(3))
    let ?u = "mk d i BLACK ki vi x (mk d q RED kq vq y out)"
    have "wf_adr (plug (Fr d p cp kp vp ?u # C) (plug D L))" using wf i by (auto simp: wf_plug)
    moreover have "rbc (Suc h) (Fr d p cp kp vp ?u # C)" using C io i inner by (cases cp) simp_all
    ultimately obtain r where r: "Deletion_loop (adr (plug D L)) (st m (plug (Fr d p cp kp vp ?u # C) (plug D L))) = Some r"
      "roomy m (D @ Fr d p cp kp vp ?u # C) L r"
      using Deletion_outer_ends[OF _ L t h] by (metis rbt_mk(3))
    have "inorder ?u = inorder u" using q i by (cases d) simp_all
    then have "roomy m (D @ Fr d p cp kp vp u # C) L r" by (intro roomy_cong[OF r(2)]) (simp_all only: lefts.simps rights.simps lefts_append)
    then show ?thesis using r(1) step Deletion_round_inner[OF wf[unfolded i] t' inner(2), of m] q i by simp
  next
    case none
    then show ?thesis using step Deletion_round_recolor[OF wf t' none, of m] q io
      by (intro disjI2 exI[of _ "mk d q RED kq vq inn out"]) (cases d; simp)
  qed
qed

lemma Deletion_loop_roomy:
  assumes "wf_adr (plug C (plug D L))" "L \<noteq> Tip" "rbt h (paint (plug D Tip))" "rbc (if col (plug D L) = RED then h else Suc h) C"
    "D = [] \<Longrightarrow> C \<noteq> [] \<and> col L = BLACK"
  shows "\<exists>r. Deletion_loop (adr (plug D L)) (st m (plug C (plug D L))) = Some r \<and> roomy m (D @ C) L r"
  using assms
proof (induction "length C" arbitrary: C D h rule: less_induct)
  case less
  note L = less.prems(2)
  show ?case
  proof (cases "C = [] \<or> col (plug D L) = RED")
    case True
    then show ?thesis using less.prems Deletion_stops[where C = C and D = D and L = L and h = h and m = m] by (cases "D = []") auto
  next
    case False
    then have t: "col (plug D L) = BLACK" by (simp add: color_cases)
    obtain d p cp kp vp u E where C: "C = Fr d p cp kp vp u # E" using False by (cases C rule: cadr.cases) auto
    have h: "rbt h (plug D Tip)"
    proof (cases "D = []")
      case False
      then have "col (plug D Tip) = BLACK" using t col_plug[of D L Tip] by simp
      then show ?thesis using less.prems(3) by (cases "plug D Tip") simp_all
    qed (use less.prems(3) in simp)
    have c: "rbc (Suc h) (Fr d p cp kp vp u # E)" using less.prems(4) t C by simp
    note wf = less.prems(1)[unfolded C]
    text \<open>the step to the parent after a recolouring\<close>
    have parent: "\<exists>r. Deletion_loop p (st m (plug (Fr d p c kp vp w # E') (plug D L))) = Some r \<and> roomy m (D @ Fr d p c kp vp w # E') L r"
      if "wf_adr (plug (Fr d p c kp vp w # E') (plug D L))" "rbt h w" "rbc (if c = RED then Suc h else Suc (Suc h)) E'"
        "length E' < length C \<or> c = RED" for c w E'
    proof -
      let ?D = "D @ [Fr d p c kp vp w]"
      have "rbt (Suc h) (paint (plug ?D Tip))" using h that(2) by simp
      moreover have "wf_adr (plug E' (plug ?D L))" using that(1) by simp
      ultimately have "\<exists>r. Deletion_loop (adr (plug ?D L)) (st m (plug E' (plug ?D L))) = Some r \<and> roomy m (?D @ E') L r"
        using less.hyps[of E' ?D "Suc h"] Deletion_stops[where C = E' and D = ?D and L = L and h = "Suc h" and m = m] that L by (cases "c = RED") auto
      then show ?thesis by simp
    qed
    show ?thesis
    proof (cases "col u = RED")
      case False
      then have u: "col u = BLACK" by (simp add: color_cases)
      from Deletion_black_sibling[OF wf L t h c u, of m] show ?thesis
      proof (elim disjE exE conjE)
        fix w assume w: "Deletion_loop (adr (plug D L)) (st m (plug (Fr d p cp kp vp u # E) (plug D L))) = Deletion_loop p (st m (plug (Fr d p cp kp vp w # E) (plug D L)))"
          "rbt h w" "inorder w = inorder u" "addrs w = addrs u"
        have "wf_adr (plug (Fr d p cp kp vp w # E) (plug D L))" using wf w(4) unfolding wf_plug by simp
        moreover have "rbc (if cp = RED then Suc h else Suc (Suc h)) E" using c by (cases cp) simp_all
        ultimately obtain r where "Deletion_loop p (st m (plug (Fr d p cp kp vp w # E) (plug D L))) = Some r" "roomy m (D @ Fr d p cp kp vp w # E) L r"
          using parent[of cp w E] w(2) C by auto
        then show ?thesis using w C roomy_cong[of m "D @ Fr d p cp kp vp w # E" L r "D @ C"] by auto
      qed (use C in auto)
    next
      case True
      then have cp: "cp = BLACK" using c by (cases cp) simp_all
      have "u \<noteq> Tip" using True by auto
      then obtain q kq vq inn out where q: "u = mk d q RED kq vq inn out" using mk_cases True by (metis rbt_mk(3))
      let ?E = "Fr d q BLACK kq vq out # E"
      have c': "rbc (Suc h) (Fr d p RED kp vp inn # ?E)" "col inn = BLACK" using c cp q by simp_all
      have wf': "wf_adr (plug (Fr d p RED kp vp inn # ?E) (plug D L))" using wf q unfolding wf_plug by auto
      have t': "plug D L \<noteq> Tip" using L by (simp add: plug_nonempty)
      have step: "Deletion_loop (adr (plug D L)) (st m (plug C (plug D L))) = Deletion_loop (adr (plug D L)) (st m (plug (Fr d p RED kp vp inn # ?E) (plug D L)))"
        using Deletion_loop_step[OF wf t' _ t, of m] Deletion_round_red[OF wf[unfolded q] t', of m] C q by simp
      have same: "lefts (D @ Fr d p RED kp vp w # ?E) = lefts (D @ C)" "rights (D @ Fr d p RED kp vp w # ?E) = rights (D @ C)"
        if "inorder w = inorder inn" for w using C q that by (cases d; simp)+
      from Deletion_black_sibling[OF wf' L t h c'(1,2), of m] show ?thesis
      proof (elim disjE exE conjE)
        fix w assume w: "Deletion_loop (adr (plug D L)) (st m (plug (Fr d p RED kp vp inn # ?E) (plug D L))) = Deletion_loop p (st m (plug (Fr d p RED kp vp w # ?E) (plug D L)))"
          "rbt h w" "inorder w = inorder inn" "addrs w = addrs inn"
        have "wf_adr (plug (Fr d p RED kp vp w # ?E) (plug D L))" using wf' w(4) unfolding wf_plug by simp
        then obtain r where "Deletion_loop p (st m (plug (Fr d p RED kp vp w # ?E) (plug D L))) = Some r" "roomy m (D @ Fr d p RED kp vp w # ?E) L r"
          using parent[of RED w ?E] w(2) c' by auto
        then show ?thesis using w(1) step roomy_cong[OF _ same[OF w(3)]] by auto
      next
        fix r assume "Deletion_loop (adr (plug D L)) (st m (plug (Fr d p RED kp vp inn # ?E) (plug D L))) = Some r" "roomy m (D @ Fr d p RED kp vp inn # ?E) L r"
        then show ?thesis using step roomy_cong[OF _ same[OF refl]] by auto
      qed
    qed
  qed
qed

section \<open>The node that is cut\<close>

lemma Max_at:
  assumes "wf_adr (plug C t)" "t \<noteq> Tip"
  shows "\<exists>D l b c k v. Rb_Max (adr t) (st n (plug C t)) = Some b \<and> t = plug D (Nd l b c k v Tip) \<and> rights D = []"
  using assms
proof (induction t arbitrary: C)
  case (Nd l a c k v r)
  have node: "node a (st n (plug C (Nd l a c k v r))) = Some (RbNode k v c (adr l) (adr r) (cadr C))" using node_at[of C LEFT] Nd.prems by simp
  show ?case
  proof (cases "r = Tip")
    case True
    then show ?thesis using node by (intro exI[of _ "[]"]) (simp add: Rb_Max.simps[of a] RbNode_def)
  next
    case False
    have wf: "wf_adr (plug (Fr RIGHT a c k v l # C) r)" using Nd.prems by simp
    obtain D l' b c' k' v' where D: "Rb_Max (adr r) (st n (plug (Fr RIGHT a c k v l # C) r)) = Some b" "r = plug D (Nd l' b c' k' v' Tip)" "rights D = []"
      using Nd.IH(2)[OF wf False] by auto
    have "Rb_Max a (st n (plug C (Nd l a c k v r))) = Some b" using node D(1) adr_0[OF wf] False by (subst Rb_Max.simps) (simp add: RbNode_def)
    then show ?thesis using D by (intro exI[of _ "D @ [Fr RIGHT a c k v l]"] exI[of _ l']) auto
  qed
qed simp

lemma Min_at:
  assumes "wf_adr (plug C t)" "t \<noteq> Tip"
  shows "\<exists>D r b c k v. Rb_Min (adr t) (st n (plug C t)) = Some b \<and> t = plug D (Nd Tip b c k v r) \<and> lefts D = []"
  using assms
proof (induction t arbitrary: C)
  case (Nd l a c k v r)
  have node: "node a (st n (plug C (Nd l a c k v r))) = Some (RbNode k v c (adr l) (adr r) (cadr C))" using node_at[of C LEFT] Nd.prems by simp
  show ?case
  proof (cases "l = Tip")
    case True
    then show ?thesis using node by (intro exI[of _ "[]"]) (simp add: Rb_Min.simps[of a] RbNode_def)
  next
    case False
    have wf: "wf_adr (plug (Fr LEFT a c k v r # C) l)" using Nd.prems by simp
    obtain D r' b c' k' v' where D: "Rb_Min (adr l) (st n (plug (Fr LEFT a c k v r # C) l)) = Some b" "l = plug D (Nd Tip b c' k' v' r')" "lefts D = []"
      using Nd.IH(1)[OF wf False] by auto
    have "Rb_Min a (st n (plug C (Nd l a c k v r))) = Some b" using node D(1) adr_0[OF wf] False by (subst Rb_Min.simps) (simp add: RbNode_def)
    then show ?thesis using D by (intro exI[of _ "D @ [Fr LEFT a c k v r]"] exI[of _ r']) auto
  qed
qed simp

text \<open>
  \<open>BstDelete\<close> moves the entry of the in-order neighbour into the node of the key and returns the neighbour \<open>L\<close>. The
  entries outside \<open>L\<close> are then those of the tree without the key and without the child of \<open>L\<close>.
\<close>

definition cut_of :: "'k \<Rightarrow> ('k \<times> 'v) list \<Rightarrow> ('k, 'v) frame list \<Rightarrow> ('k, 'v) atree \<Rightarrow> bool" where
  "cut_of key xs E L = (\<exists>l b c k v r A B w. L = Nd l b c k v r \<and> (l = Tip \<or> r = Tip) \<and> (E = [] \<longrightarrow> l = Tip \<and> r = Tip) \<and>
     (k = key \<and> l = Tip \<and> r = Tip \<and> xs = A @ (key, w) # B \<and> lefts E @ rights E = A @ B \<or>
      r = Tip \<and> xs = A @ inorder l @ (k, v) # (key, w) # B \<and> lefts E @ rights E = A @ (k, v) # B \<or>
      l = Tip \<and> xs = A @ (key, w) # (k, v) # inorder r @ B \<and> lefts E @ rights E = A @ (k, v) # B))"

lemma cut_ofI:
  "xs = A @ (key, w) # B \<Longrightarrow> lefts E @ rights E = A @ B \<Longrightarrow> cut_of key xs E (Nd Tip b c key v Tip)"
  "xs = A @ inorder l @ (k, v) # (key, w) # B \<Longrightarrow> lefts E @ rights E = A @ (k, v) # B \<Longrightarrow> E \<noteq> [] \<Longrightarrow> cut_of key xs E (Nd l b c k v Tip)"
  "xs = A @ (key, w) # (k, v) # inorder r @ B \<Longrightarrow> lefts E @ rights E = A @ (k, v) # B \<Longrightarrow> E \<noteq> [] \<Longrightarrow> cut_of key xs E (Nd Tip b c k v r)"
  unfolding cut_of_def by fast+

lemma BstDelete_at:
  assumes wf: "wf_adr (plug C (Nd l a c key v r))" and find: "Rb_Find key (rb_root (st n (plug C (Nd l a c key v r)))) (st n (plug C (Nd l a c key v r))) = Some a"
    and ok: "rb_ok (plug C (Nd l a c key v r))"
  shows "\<exists>E L. BstDelete key (rb_root (st n (plug C (Nd l a c key v r)))) (st n (plug C (Nd l a c key v r))) = Some (adr L, st n (plug E L)) \<and>
    wf_adr (plug E L) \<and> rb_ok (plug E L) \<and> cut_of key (inorder (plug C (Nd l a c key v r))) E L"
proof -
  let ?s = "st n (plug C (Nd l a c key v r))"
  have node: "node a ?s = Some (RbNode key v c (adr l) (adr r) (cadr C))" and a: "a \<noteq> 0" using node_at[of C LEFT] wf by (simp_all add: wf_plug)
  have set: "set_node a (\<lambda>n. n\<lparr>rb_key := k, rb_val := w\<rparr>) ?s = Some (st n (plug C (Nd l a c k w r)))" for k w
    using heap_set_node[of C LEFT a c key v l r c k w n] wf node by (simp add: set_node_def RbNode_def)
  have keeps: "wf_adr (plug C (Nd l a c k w r))" "rb_ok (plug C (Nd l a c k w r))" for k w
    using wf ok rb_ok_entry[of C l a c key v r k w] by (simp_all add: wf_plug)
  have wfl: "wf_adr (plug (Fr LEFT a c key v r # C) l)" and wfr: "wf_adr (plug (Fr RIGHT a c key v l # C) r)" using wf by simp_all
  consider (left) "l \<noteq> Tip" | (right) "l = Tip" "r \<noteq> Tip" | (leaf) "l = Tip" "r = Tip" by blast
  then show ?thesis
  proof cases
    case left
    obtain D l' b c' k' v' where D: "Rb_Max (adr l) ?s = Some b" "l = plug D (Nd l' b c' k' v' Tip)" "rights D = []"
      using Max_at[OF wfl left, of n] by auto
    let ?E = "D @ Fr LEFT a c k' v' r # C" and ?L = "Nd l' b c' k' v' Tip"
    have "node b ?s = Some (RbNode k' v' c' (adr l') 0 (cadr (D @ [Fr LEFT a c key v r])))"
      using node_at[of "D @ Fr LEFT a c key v r # C" LEFT b c' k' v' l' Tip n] wf D(2) by (cases D rule: cadr.cases) simp_all
    then have "BstDelete key (rb_root ?s) ?s = Some (adr ?L, st n (plug ?E ?L))"
      using find node a D left adr_0[OF wfl] set[where k = k' and w = v'] by (simp add: BstDelete_def RbNode_def)
    moreover have "cut_of key (inorder (plug C (Nd l a c key v r))) ?E ?L"
      by (rule cut_ofI(2)[where A = "lefts C @ lefts D" and w = v and B = "inorder r @ rights C"]) (use D in \<open>simp_all add: inorder_plug\<close>)
    ultimately show ?thesis using keeps[where k = k' and w = v'] D(2) by (intro exI[of _ ?E] exI[of _ ?L]) auto
  next
    case right
    obtain D r' b c' k' v' where D: "Rb_Min (adr r) ?s = Some b" "r = plug D (Nd Tip b c' k' v' r')" "lefts D = []"
      using Min_at[OF wfr right(2), of n] by auto
    let ?E = "D @ Fr RIGHT a c k' v' l # C" and ?L = "Nd Tip b c' k' v' r'"
    have "node b ?s = Some (RbNode k' v' c' 0 (adr r') (cadr (D @ [Fr RIGHT a c key v l])))"
      using node_at[of "D @ Fr RIGHT a c key v l # C" LEFT b c' k' v' Tip r' n] wf D(2) by (cases D rule: cadr.cases) simp_all
    then have "BstDelete key (rb_root ?s) ?s = Some (adr ?L, st n (plug ?E ?L))"
      using find node a D right adr_0[OF wfr] set[where k = k' and w = v'] by (simp add: BstDelete_def RbNode_def)
    moreover have "cut_of key (inorder (plug C (Nd l a c key v r))) ?E ?L"
      by (rule cut_ofI(3)[where A = "lefts C" and w = v and B = "rights D @ rights C"]) (use D right in \<open>simp_all add: inorder_plug\<close>)
    ultimately show ?thesis using keeps[where k = k' and w = v'] D(2) by (intro exI[of _ ?E] exI[of _ ?L]) auto
  next
    case leaf
    then have "BstDelete key (rb_root ?s) ?s = Some (adr (Nd l a c key v r), ?s)" using find node a by (simp add: BstDelete_def RbNode_def)
    moreover have "cut_of key (inorder (plug C (Nd l a c key v r))) C (Nd l a c key v r)"
      unfolding leaf by (rule cut_ofI(1)[where A = "lefts C" and w = v and B = "rights C"]) (simp_all add: inorder_plug)
    ultimately show ?thesis using keeps[where k = key and w = v] by (intro exI[of _ C] exI[of _ "Nd l a c key v r"]) auto
  qed
qed

lemma make_room:
  assumes wf: "wf_adr (plug E L)" and ok: "rb_ok (plug E L)" and E: "E \<noteq> []" and L: "L = Nd l b c k v r" "l = Tip \<or> r = Tip"
  shows "\<exists>E'. (if c = BLACK then PreDeletionFix b (st m (plug E L)) else Some (st m (plug E L))) = Some (st m (plug E' L)) \<and> E' \<noteq> [] \<and>
    wf_adr (plug E' L) \<and> rb_ok (plug E' Tip) \<and> lefts E' = lefts E \<and> rights E' = rights E"
proof -
  obtain n where n: "rbt n L" "rbc n E" using ok unfolding rb_plug by blast
  show ?thesis
  proof (cases c)
    case BLACK
    then have "n = Suc 0" using n(1) L by (cases n) auto
    then obtain x where "Deletion_loop (adr L) (st m (plug E L)) = Some x" "roomy m E L x"
      using Deletion_loop_roomy[of E "[]" L 0 m] wf n E L BLACK by auto
    then show ?thesis using BLACK L by (cases x) (auto simp: PreDeletionFix_def roomy_def)
  next
    case RED
    then have "rbt 0 Tip" "rbc 0 E" using n L by auto
    then show ?thesis using RED wf E by (intro exI[of _ E]) (auto simp: rb_plug intro!: exI[of _ 0])
  qed
qed

lemma Delete_at:
  assumes bst: "BstDelete key (rb_root s) s = Some (adr L, st m (plug E L))" and wf: "wf_adr (plug E L)" and ok: "rb_ok (plug E L)"
    and cut: "cut_of key xs E L"
  shows "\<exists>T. Rb_Delete key s = Some (True, st (m - 1) T) \<and> wf_adr T \<and> rb_ok T \<and> inorder T = lefts E @ rights E"
proof -
  obtain l b c k v r where L: "L = Nd l b c k v r" "l = Tip \<or> r = Tip" "E = [] \<Longrightarrow> l = Tip \<and> r = Tip" using cut unfolding cut_of_def by blast
  have b: "b \<noteq> 0" using wf L by (simp add: wf_plug)
  show ?thesis
  proof (cases "E = []")
    case True
    have "Delete_node b (st m L) = Some ((st m L)\<lparr>rb_heap := Map.empty\<rparr>)"
      using Delete_node_tmap[of L Map.empty "st m L" 0] wf True L(1) by (simp add: st_def)
    then have "Rb_Delete key s = Some (True, st (m - 1) Tip)" using bst True L b by (simp add: Rb_Delete_def st_def)
    then show ?thesis using True by (intro exI[of _ Tip]) (simp add: wf_adr_def rb_ok_def)
  next
    case False
    obtain E' where E': "(if c = BLACK then PreDeletionFix b (st m (plug E L)) else Some (st m (plug E L))) = Some (st m (plug E' L))"
      "E' \<noteq> []" "wf_adr (plug E' L)" "rb_ok (plug E' Tip)" "lefts E' = lefts E" "rights E' = rights E"
      using make_room[OF wf ok False L(1,2), of m] by blast
    obtain d a ca ka va u D where D: "E' = Fr d a ca ka va u # D" using E'(2) by (cases E' rule: cadr.cases) auto
    note wf' = E'(3)[unfolded D]
    have "cadr [last E] \<in> set (caddrs E)" using False by (induction E rule: caddrs.induct) auto
    then have root: "b \<noteq> rb_root (st m (plug E L))" using wf False L by (auto simp: st_def adr_plug wf_plug)
    have "node b (st m (plug E L)) = Some (RbNode k v c (adr l) (adr r) (cadr E))" using node_at[of E LEFT b c k v l r m] wf L by simp
    moreover have "node b (st m (plug E' L)) = Some (RbNode k v c (adr l) (adr r) a)" using node_at[of E' LEFT b c k v l r m] E'(3) D L by simp
    moreover have "GetDir b (st m (plug E' L)) = Some d" using GetDir_at[of d a ca ka va u D LEFT b c k v l r m] wf' L D by simp
    moreover obtain t where "set_node a (with_child d 0) (st m (plug E' L)) = Some t" "Delete_node b t = Some (st m (plug E' Tip))"
      using cut_subtree[of D d a ca ka va L u m] wf' D L by (auto simp: bind_eq_Some_conv)
    moreover have "st m T\<lparr>num_keys := num_keys (st m T) - 1\<rparr> = st (m - 1) T" for T :: "('a, 'b) atree" by (simp add: st_def)
    ultimately have "Rb_Delete key s = Some (True, st (m - 1) (plug E' Tip))"
      unfolding Rb_Delete_def using bst E'(1) b root L(1) by (cases "c = BLACK") (simp_all add: RbNode_def)
    moreover have "wf_adr (plug E' Tip)" using E'(3) by (simp add: wf_plug)
    ultimately show ?thesis using E' by (intro exI[of _ "plug E' Tip"]) (simp add: inorder_plug)
  qed
qed

end
