(* ===== verification/Rb_Tree_Theorems.thy ===== *)
theory Rb_Tree_Theorems
  imports Rb_Tree_Delete Map_Interface
begin

text \<open>
  The operations of \<open>ds::RbTree\<close> against the map they implement.
\<close>

text \<open>
  \<open>rb_holds n m s\<close>: the heap of \<open>s\<close> is exactly one red-black search tree, with nothing leaked and nothing shared, its
  entries are the map \<open>m\<close> and its counter is \<open>n\<close>.
\<close>

definition rb_holds :: "u64 \<Rightarrow> ('k::linorder \<rightharpoonup> 'v) \<Rightarrow> ('k, 'v) rb_tree \<Rightarrow> bool" where
  "rb_holds n m s = (\<exists>T. s = st n T \<and> wf_adr T \<and> rb_ok T \<and> sorted_keys (inorder T) \<and> map_of (inorder T) = m)"

lemma rb_holdsE:
  assumes "rb_holds n m s"
  obtains T where "s = st n T" "wf_adr T" "rb_ok T" "sorted_keys (inorder T)" "map_of (inorder T) = m"
  using assms unfolding rb_holds_def by blast

lemma rb_holds_RbTree: "rb_holds 0 Map.empty RbTree"
  unfolding rb_holds_def by (rule exI[of _ Tip]) (simp add: st_def RbTree_def wf_adr_def rb_ok_def)

lemma map_of_insert_mid: "k \<notin> fst ` set xs \<Longrightarrow> map_of (xs @ (k, v) # ys) = (map_of (xs @ ys))(k \<mapsto> v)"
  by (induction xs) (auto simp: fun_eq_iff)

lemma map_of_out: "k \<notin> fst ` set xs \<Longrightarrow> map_of xs k = None"
  by (simp add: map_of_eq_None_iff)

lemma inorder_Nil: "inorder t = [] \<longleftrightarrow> t = Tip"
  by (cases t) simp_all

lemma map_of_Nil: "map_of xs = Map.empty \<longleftrightarrow> xs = []"
  by (simp add: map_of_eq_empty_iff)

lemma adr_whole: "wf_adr T \<Longrightarrow> adr T = 0 \<longleftrightarrow> T = Tip"
  using adr_0[of "[]" T] by simp

text \<open>Where the search ends decides what the map holds.\<close>

lemma seek_map:
  assumes "seek key [] T = (D, u)" "sorted_keys (inorder T)"
  shows "if u = Tip then inorder T = lefts D @ rights D \<and> (\<forall>x\<in>set (lefts D). fst x < key) \<and> (\<forall>x\<in>set (rights D). key < fst x) \<and>
           map_of (inorder T) key = None
         else \<exists>l a c v r. u = Nd l a c key v r \<and> T = plug D u \<and> map_of (inorder T) key = Some v"
proof (cases u)
  case Tip
  then have "plug D Tip = T" using seek_plug[OF assms(1)] by simp
  moreover have "\<forall>x\<in>set (lefts D). fst x < key" "\<forall>x\<in>set (rights D). key < fst x" using seek_missing[of key "[]" T D] assms Tip by auto
  ultimately show ?thesis using Tip by (fastforce simp: inorder_plug[of D Tip, simplified] map_of_eq_None_iff)
next
  case (Nd l a c k v r)
  then have k: "k = key" and T: "plug D u = T" using seek_found[of key "[]" T D l a c k v r] seek_plug[OF assms(1)] assms(1) by auto
  then have "(key, v) \<in> set (inorder T)" using Nd by (simp add: T[symmetric] inorder_plug)
  then show ?thesis using Nd k T map_of_is_SomeI[OF sorted_keys_distinct[OF assms(2)]] by auto
qed

lemma set_root_black:
  assumes "wf_adr T" "T \<noteq> Tip"
  shows "set_color (rb_root (st n T)) BLACK (st n T) = Some (st n (paint T))"
  using set_color_at[of "[]" LEFT] assms by (cases T) (auto simp: st_def)

lemma paint_keeps: "wf_adr (paint T) = wf_adr T" "inorder (paint T) = inorder T" "addrs (paint T) = addrs T"
  by (cases T; simp add: wf_adr_def)+

lemma PostInsertFix_restores:
  assumes wf: "wf_adr (plug C t)" and "col t = RED" "rbt n t" "rbc n C"
  shows "\<exists>T. PostInsertFix (adr t) (st m (plug C t)) = Some (st m T) \<and> wf_adr T \<and> inorder T = inorder (plug C t) \<and> rb_ok T"
proof -
  obtain T where T: "Insertion_loop (adr t) (st m (plug C t)) = Some (st m T)" "wf_adr T" "inorder T = inorder (plug C t)" "rb_ok (paint T)"
    using Insertion_loop_restores[OF assms] by blast
  have "t \<noteq> Tip" using assms(2) by auto
  then have "T \<noteq> Tip" using T(3) inorder_Nil[of t] by (auto simp: inorder_plug)
  then show ?thesis using T set_root_black[OF T(2), of m] by (intro exI[of _ "paint T"]) (simp add: PostInsertFix_def paint_keeps)
qed

lemma Insert_map:
  assumes "rb_holds n m s" "new \<noteq> 0" "rb_heap s new = None"
  shows "\<exists>s'. Rb_Insert key val new s = Some (m key = None, s') \<and>
    (if m key = None then rb_holds (n + 1) (m(key \<mapsto> val)) s' else s' = s)"
proof -
  obtain T where T: "s = st n T" "wf_adr T" "rb_ok T" "sorted_keys (inorder T)" "map_of (inorder T) = m" using assms(1) by (rule rb_holdsE)
  have new: "new \<notin> set (addrs T)" using assms(3) T(1) dom_tmap[of 0 T] by (auto simp: st_def simp del: dom_tmap)
  show ?thesis
  proof (cases "T = Tip")
    case True
    let ?t = "Nd Tip new BLACK key val Tip"
    have wf: "wf_adr ?t" using assms(2) by (simp add: wf_adr_def)
    have "(put_node new (RbNode key val BLACK 0 0 0) s)\<lparr>rb_root := new\<rparr> = st n ?t" using T(1) True by (simp add: st_def put_node_def)
    moreover have "PostInsertFix new (st n ?t) = Some (st n ?t)"
      using Insertion_loop_stop[of "[]" ?t n] set_root_black[OF wf, of n] wf by (simp add: PostInsertFix_def)
    moreover have "rb_holds (n + 1) [key \<mapsto> val] (st (n + 1) ?t)"
      unfolding rb_holds_def by (rule exI[of _ ?t]) (use wf in \<open>auto simp: rb_ok_def intro!: exI[of _ "Suc 0"]\<close>)
    moreover have "m = Map.empty" using T(5) True by auto
    ultimately show ?thesis using T(1) True by (simp add: Rb_Insert_def st_def)
  next
    case False
    obtain D u where seek: "seek key [] T = (D, u)" by force
    have bst: "BstInsert key val new (adr T) (st n T) =
      Some (if u = Tip then (new, st n (plug D (Nd Tip new RED key val Tip))) else (0, st n T))"
      using BstInsert_seek[of "[]" T key D u new val n] False T(2) seek new assms(2) by simp
    have root: "rb_root s = adr T" "adr T \<noteq> 0" using T adr_whole[OF T(2)] False by (simp_all add: st_def)
    note map = seek_map[OF seek T(4)]
    show ?thesis
    proof (cases "u = Tip")
      case True
      let ?t = "Nd Tip new RED key val Tip"
      have D: "plug D Tip = T" using seek_plug[OF seek] True by simp
      have "wf_adr (plug D ?t)" using T(2) new assms(2) D[symmetric] by (auto simp: wf_plug plug_addrs)
      moreover have "rbt 0 ?t" "rbc 0 D" using T(3) D[symmetric] by (auto simp: rb_plug)
      ultimately obtain T' where T': "PostInsertFix new (st n (plug D ?t)) = Some (st n T')" "wf_adr T'" "inorder T' = inorder (plug D ?t)" "rb_ok T'"
        using PostInsertFix_restores[of D ?t 0 n] by auto
      have "rb_holds (n + 1) (m(key \<mapsto> val)) (st (n + 1) T')"
        unfolding rb_holds_def
      proof (rule exI[of _ T'], intro conjI)
        have xs: "inorder T' = lefts D @ (key, val) # rights D" using T'(3) by (simp add: inorder_plug)
        then show "sorted_keys (inorder T')" using map T(4) True by auto
        have "key \<notin> fst ` set (lefts D)" using map True by auto
        then show "map_of (inorder T') = m(key \<mapsto> val)" using map T(5) True map_of_insert_mid[of key "lefts D" val "rights D"] xs by simp
      qed (use T' in auto)
      moreover have "m key = None" using map T(5) True by simp
      ultimately show ?thesis using bst True T(1) root T'(1) assms(2) by (simp add: Rb_Insert_def st_def)
    next
      case False
      then have "m key \<noteq> None" using map T(5) by auto
      then show ?thesis using bst False T(1) root by (auto simp: Rb_Insert_def)
    qed
  qed
qed

text \<open>
  C5: On a red-black tree \<open>Rb_Insert\<close> returns, answers whether the key was absent, and leaves a red-black search tree of
  the updated map, with every pointer, colour and the counter right; a present key changes nothing.
\<close>

theorem rb_Insert_map:
  assumes "rb_holds n m s" "new \<noteq> 0" "rb_heap s new = None"
  shows "\<exists>s'. Rb_Insert key val new s = Some (m key = None, s') \<and>
    (if m key = None then rb_holds (n + 1) (m(key \<mapsto> val)) s' else s' = s)"
  using assms by (rule Insert_map)

lemma Find_map:
  assumes T: "s = st n T" "wf_adr T" "sorted_keys (inorder T)" "T \<noteq> Tip"
  shows "\<exists>D u. Rb_Find key (rb_root s) s = Some (adr u) \<and>
    (if u = Tip then map_of (inorder T) key = None
     else \<exists>l a c v r. u = Nd l a c key v r \<and> T = plug D u \<and> map_of (inorder T) key = Some v)"
proof -
  obtain D u where seek: "seek key [] T = (D, u)" by force
  have "Rb_Find key (rb_root s) s = Some (adr u)" using Find_seek[of "[]" T key D u n] T seek by (simp add: st_def)
  then show ?thesis using seek_map[OF seek T(3)] by (intro exI[of _ D] exI[of _ u]) auto
qed

lemma Find_null: "Rb_Find key 0 s = None"
  by (subst Rb_Find.simps) (simp add: node_def)

lemma Read_map:
  assumes "rb_holds n m s"
  shows "Rb_Read key s = (if m = Map.empty then None else Some (m key))"
proof -
  obtain T where T: "s = st n T" "wf_adr T" "sorted_keys (inorder T)" "map_of (inorder T) = m" using assms by (rule rb_holdsE)
  show ?thesis
  proof (cases "T = Tip")
    case True
    then show ?thesis using T by (auto simp: Rb_Read_def st_def Find_null)
  next
    case False
    obtain D u where u: "Rb_Find key (rb_root s) s = Some (adr u)" "if u = Tip then map_of (inorder T) key = None
        else \<exists>l a c v r. u = Nd l a c key v r \<and> T = plug D u \<and> map_of (inorder T) key = Some v"
      using Find_map[OF T(1-3) False, of key] by blast
    have "m \<noteq> Map.empty" using False T(4) by (auto simp: inorder_Nil map_of_Nil)
    then show ?thesis using u T node_at[of D LEFT] by (cases "u = Tip") (auto simp: Rb_Read_def wf_plug RbNode_def)
  qed
qed

text \<open>
  \<open>Rb_Read\<close> on a tree with at least one key is the lookup of the map; on an empty tree it follows the null pointer of the
  root.
\<close>

theorem rb_Read_map:
  assumes "rb_holds n m s"
  shows "Rb_Read key s = (if m = Map.empty then None else Some (m key))"
  using assms by (rule Read_map)

text \<open>
  \<open>Rb_Update\<close> of a tree with at least one key is the update of the map where the key is present and nothing where it is
  not; on an empty tree it follows the null pointer of the root.
\<close>

theorem rb_Update_map:
  assumes "rb_holds n m s"
  shows "if m = Map.empty then Rb_Update key val s = None
    else \<exists>s'. Rb_Update key val s = Some (m key \<noteq> None, s') \<and> rb_holds n (if m key = None then m else m(key \<mapsto> val)) s'"
proof -
  obtain T where T: "s = st n T" "wf_adr T" "sorted_keys (inorder T)" "map_of (inorder T) = m" "rb_ok T" using assms by (rule rb_holdsE)
  show ?thesis
  proof (cases "T = Tip")
    case True
    then show ?thesis using T by (auto simp: Rb_Update_def st_def Find_null)
  next
    case False
    obtain D u where u: "Rb_Find key (rb_root s) s = Some (adr u)" "if u = Tip then map_of (inorder T) key = None
        else \<exists>l a c v r. u = Nd l a c key v r \<and> T = plug D u \<and> map_of (inorder T) key = Some v"
      using Find_map[OF T(1-3) False, of key] by blast
    have m: "m \<noteq> Map.empty" using False T(4) by (auto simp: inorder_Nil map_of_Nil)
    show ?thesis
    proof (cases "u = Tip")
      case True
      then show ?thesis using u m T assms by (auto simp: Rb_Update_def)
    next
      case False
      then obtain l a c v r where t: "u = Nd l a c key v r" "T = plug D u" "m key = Some v" using u T(4) by auto
      let ?T = "plug D (Nd l a c key val r)"
      have wf: "wf_adr (plug D (mk LEFT a c key v l r))" using T(2) t by simp
      have "set_node a (\<lambda>n. n\<lparr>rb_val := val\<rparr>) s = Some (st n ?T)"
        using node_at[OF wf, of n] heap_set_node[OF wf, of c key val n] T(1) t by (simp add: set_node_def RbNode_def)
      moreover have "rb_holds n (m(key \<mapsto> val)) (st n ?T)"
        unfolding rb_holds_def
      proof (rule exI[of _ ?T], intro conjI)
        have T': "inorder T = (lefts D @ inorder l) @ (key, v) # inorder r @ rights D" using t by (simp add: inorder_plug)
        then have "key \<notin> fst ` set (lefts D @ inorder l)" using sorted_keys_distinct[OF T(3)] by auto
        from map_of_insert_mid[OF this, of v "inorder r @ rights D"] map_of_insert_mid[OF this, of val "inorder r @ rights D"]
        show "map_of (inorder ?T) = m(key \<mapsto> val)" unfolding T(4)[symmetric] T' by (simp add: inorder_plug)
        show "sorted_keys (inorder ?T)" using T(3) T' by (simp add: inorder_plug)
        show "rb_ok ?T" using T(5) rb_ok_entry[of D l a c key v r key val] t by simp
      qed (use T t in \<open>simp_all add: wf_plug\<close>)
      moreover have "a \<noteq> 0" using wf by (simp add: wf_plug)
      ultimately show ?thesis using u m t by (simp add: Rb_Update_def)
    qed
  qed
qed

section \<open>Deletion\<close>

text \<open>The keys of the children of a node.\<close>

definition child_keys :: "('k, 'v) rb_node \<Rightarrow> ('k, 'v) rb_tree \<Rightarrow> 'k set" where
  "child_keys n s = {rb_key m |m. node (rb_left n) s = Some m \<or> node (rb_right n) s = Some m}"

lemma single_child:
  assumes "rb_ok (plug E (Nd l b c k v r))" "l = Tip \<or> r = Tip"
  shows "(l = Tip \<or> (\<exists>a k' v'. l = Nd Tip a RED k' v' Tip)) \<and> (r = Tip \<or> (\<exists>a k' v'. r = Nd Tip a RED k' v' Tip))"
proof -
  obtain n where n: "rbt n (Nd l b c k v r)" using assms(1) unfolding rb_plug by blast
  have zero: "t = Tip \<or> (\<exists>a k' v'. t = Nd Tip a RED k' v' Tip)" if "rbt 0 t" for t :: "('a, 'b) atree"
  proof (cases t)
    case (Nd x a c k v y)
    then show ?thesis using that by (cases c; cases x; cases y; simp; rename_tac c1 k1 v1 z; case_tac c1; simp)
  qed simp
  have "rbt 0 l \<and> rbt 0 r" using n assms(2) by (cases c; cases n) auto
  then show ?thesis using zero by blast
qed

lemma child_keys_at:
  assumes wf: "wf_adr (plug E (Nd l b c k v r))"
    and lr: "(l = Tip \<or> (\<exists>a k' v'. l = Nd Tip a RED k' v' Tip)) \<and> (r = Tip \<or> (\<exists>a k' v'. r = Nd Tip a RED k' v' Tip))"
  shows "child_keys (RbNode k v c (adr l) (adr r) p) (st n (plug E (Nd l b c k v r))) = fst ` set (inorder l) \<union> fst ` set (inorder r)"
proof -
  have child: "map_option rb_key (node (adr t) (st n (plug D t))) = (if t = Tip then None else Some (fst (hd (inorder t))))"
    if "wf_adr (plug D t)" "t = Tip \<or> (\<exists>a k' v'. t = Nd Tip a RED k' v' Tip)" for D t
    using that node_at[of D LEFT _ RED _ _ Tip Tip n] by (auto simp: node_def[of 0] RbNode_def)
  have "map_option rb_key (node (adr l) (st n (plug E (Nd l b c k v r)))) = (if l = Tip then None else Some (fst (hd (inorder l))))"
    "map_option rb_key (node (adr r) (st n (plug E (Nd l b c k v r)))) = (if r = Tip then None else Some (fst (hd (inorder r))))"
    using child[of "Fr LEFT b c k v r # E" l] child[of "Fr RIGHT b c k v l # E" r] wf lr by simp_all
  then show ?thesis using lr by (auto simp: child_keys_def RbNode_def split: if_splits)
qed

text \<open>What the entries beside the cut node are.\<close>

lemma map_of_without:
  assumes "sorted_keys (xs @ ys @ zs)"
  shows "map_of (xs @ zs) = map_of (xs @ ys @ zs) |` (- fst ` set ys)"
proof
  fix k
  show "map_of (xs @ zs) k = (map_of (xs @ ys @ zs) |` (- fst ` set ys)) k"
  proof (cases "k \<in> fst ` set ys")
    case True
    then have "k \<notin> fst ` set xs" "k \<notin> fst ` set zs" using sorted_keys_distinct[OF assms] by auto
    then show ?thesis using True by (simp add: restrict_map_def map_add_def map_of_out)
  next
    case False
    then show ?thesis by (simp add: restrict_map_def map_add_def map_of_out split: option.splits)
  qed
qed

lemma cut_entries:
  assumes cut: "cut_of key xs E (Nd l b c k v r)" and sorted: "sorted_keys xs"
  shows "sorted_keys (lefts E @ rights E) \<and>
    map_of (lefts E @ rights E) = map_of xs |` (- (insert key (fst ` set (inorder l) \<union> fst ` set (inorder r))))"
proof -
  obtain A B w where "k = key \<and> l = Tip \<and> r = Tip \<and> xs = A @ (key, w) # B \<and> lefts E @ rights E = A @ B \<or>
      r = Tip \<and> xs = A @ inorder l @ (k, v) # (key, w) # B \<and> lefts E @ rights E = A @ (k, v) # B \<or>
      l = Tip \<and> xs = A @ (key, w) # (k, v) # inorder r @ B \<and> lefts E @ rights E = A @ (k, v) # B"
    using cut unfolding cut_of_def by auto
  then show ?thesis
  proof (elim disjE conjE)
    assume xs: "xs = A @ (key, w) # B" "lefts E @ rights E = A @ B" "l = Tip" "r = Tip"
    then show ?thesis using map_of_without[of A "[(key, w)]" B] sorted by auto
  next
    assume xs: "r = Tip" "xs = A @ inorder l @ (k, v) # (key, w) # B" "lefts E @ rights E = A @ (k, v) # B"
    have "sorted_keys (A @ inorder l @ (k, v) # B)" using sorted xs by simp
    then have "map_of (A @ (k, v) # B) = map_of (A @ inorder l @ (k, v) # B) |` (- fst ` set (inorder l))"
      by (rule map_of_without)
    also have "A @ inorder l @ (k, v) # B = (A @ inorder l @ [(k, v)]) @ B" by simp
    also have "map_of \<dots> = map_of ((A @ inorder l @ [(k, v)]) @ [(key, w)] @ B) |` (- fst ` set [(key, w)])"
      by (rule map_of_without) (use sorted xs in simp)
    also have "(A @ inorder l @ [(k, v)]) @ [(key, w)] @ B = xs" using xs by simp
    finally have "map_of (A @ (k, v) # B) = map_of xs |` (- fst ` set [(key, w)] \<inter> - fst ` set (inorder l))"
      by (simp only: restrict_restrict)
    moreover have "- fst ` set [(key, w)] \<inter> - fst ` set (inorder l) = - insert key (fst ` set (inorder l) \<union> fst ` set (inorder r))" using xs(1) by auto
    moreover have "sorted_keys (A @ (k, v) # B)" using sorted xs by simp
    ultimately show ?thesis using xs(3) by simp
  next
    assume xs: "l = Tip" "xs = A @ (key, w) # (k, v) # inorder r @ B" "lefts E @ rights E = A @ (k, v) # B"
    have "map_of (A @ (k, v) # B) = map_of ((A @ [(k, v)]) @ B)" by simp
    also have "\<dots> = map_of ((A @ [(k, v)]) @ inorder r @ B) |` (- fst ` set (inorder r))"
      by (rule map_of_without) (use sorted xs in simp)
    also have "(A @ [(k, v)]) @ inorder r @ B = A @ ((k, v) # inorder r @ B)" by simp
    also have "map_of \<dots> = map_of (A @ [(key, w)] @ ((k, v) # inorder r @ B)) |` (- fst ` set [(key, w)])"
      by (rule map_of_without) (use sorted xs in simp)
    also have "A @ [(key, w)] @ ((k, v) # inorder r @ B) = xs" using xs by simp
    finally have "map_of (A @ (k, v) # B) = map_of xs |` (- fst ` set [(key, w)] \<inter> - fst ` set (inorder r))"
      by (simp only: restrict_restrict)
    moreover have "- fst ` set [(key, w)] \<inter> - fst ` set (inorder r) = - insert key (fst ` set (inorder l) \<union> fst ` set (inorder r))" using xs(1) by auto
    moreover have "sorted_keys (A @ (k, v) # B)" using sorted xs by simp
    ultimately show ?thesis using xs(3) by simp
  qed
qed

lemma Delete_null: "rb_root s = 0 \<Longrightarrow> Rb_Delete key s = None"
  by (simp add: Rb_Delete_def BstDelete_def Find_null)

theorem rb_Delete_absent:
  assumes "rb_holds n m s" "m key = None"
  shows "Rb_Delete key s = (if m = Map.empty then None else Some (False, s))"
proof -
  obtain T where T: "s = st n T" "wf_adr T" "sorted_keys (inorder T)" "map_of (inorder T) = m" using assms(1) by (rule rb_holdsE)
  show ?thesis
  proof (cases "T = Tip")
    case True
    then show ?thesis using T Delete_null[of s key] by (auto simp: st_def)
  next
    case False
    then have "Rb_Find key (rb_root s) s = Some 0" using Find_map[OF T(1-3) False, of key] T(4) assms(2) by (auto split: if_splits)
    moreover have "m \<noteq> Map.empty" using False T(4) by (auto simp: inorder_Nil map_of_Nil)
    ultimately show ?thesis by (simp add: Rb_Delete_def BstDelete_def)
  qed
qed

lemma Delete_present:
  assumes "rb_holds n m s" "m key \<noteq> None"
  shows "\<exists>x s1 c s'. BstDelete key (rb_root s) s = Some (x, s1) \<and> node x s1 = Some c \<and> Rb_Delete key s = Some (True, s') \<and>
    rb_holds (n - 1) (m |` (- insert key (child_keys c s1))) s' \<and> child_keys c s1 \<subseteq> dom m - {key} \<and>
    finite (child_keys c s1) \<and> card (child_keys c s1) \<le> 1"
proof -
  obtain T where T: "s = st n T" "wf_adr T" "sorted_keys (inorder T)" "map_of (inorder T) = m" "rb_ok T" using assms(1) by (rule rb_holdsE)
  have "T \<noteq> Tip" using T(4) assms(2) by auto
  then obtain D l a ca v r where D: "Rb_Find key (rb_root s) s = Some a" "T = plug D (Nd l a ca key v r)"
    using Find_map[OF T(1-3), of key] T(4) assms(2) by (auto split: if_splits)
  obtain E L where E: "BstDelete key (rb_root s) s = Some (adr L, st n (plug E L))" "wf_adr (plug E L)" "rb_ok (plug E L)" "cut_of key (inorder T) E L"
    using BstDelete_at[of D l a ca key v r n] T D by auto
  obtain l' b c' k' v' r' where L: "L = Nd l' b c' k' v' r'" "l' = Tip \<or> r' = Tip" using E(4) unfolding cut_of_def by blast
  let ?c = "RbNode k' v' c' (adr l') (adr r') (cadr E)" and ?s1 = "st n (plug E L)"
  have c: "node b ?s1 = Some ?c" using node_at[of E LEFT b c' k' v' l' r' n] E(2) L(1) by simp
  have lr: "(l' = Tip \<or> (\<exists>a k v. l' = Nd Tip a RED k v Tip)) \<and> (r' = Tip \<or> (\<exists>a k v. r' = Nd Tip a RED k v Tip))"
    using single_child[of E l' b c' k' v' r'] E L by simp
  then have keys: "child_keys ?c ?s1 = fst ` set (inorder l') \<union> fst ` set (inorder r')"
    using child_keys_at[of E l' b c' k' v' r' "cadr E" n] E L by simp
  have "fst ` set (inorder l') \<union> fst ` set (inorder r') \<subseteq> fst ` set (inorder T)" using E(4) L(1) unfolding cut_of_def by auto
  moreover have "key \<notin> fst ` set (inorder l') \<union> fst ` set (inorder r')"
    using E(4) L(1) sorted_keys_distinct[OF T(3)] unfolding cut_of_def by (elim exE conjE disjE) auto
  moreover have "dom m = fst ` set (inorder T)" unfolding T(4)[symmetric] by (rule dom_map_of_conv_image_fst)
  ultimately have sub: "child_keys ?c ?s1 \<subseteq> dom m - {key}" unfolding keys by blast
  obtain T' where "Rb_Delete key s = Some (True, st (n - 1) T')" "wf_adr T'" "rb_ok T'" "inorder T' = lefts E @ rights E"
    using Delete_at[OF E] by blast
  moreover have "sorted_keys (lefts E @ rights E)" "map_of (lefts E @ rights E) = m |` (- insert key (child_keys ?c ?s1))"
    using cut_entries[OF E(4)[unfolded L(1)] T(3)] T(4) keys by simp_all
  ultimately have "Rb_Delete key s = Some (True, st (n - 1) T')" "rb_holds (n - 1) (m |` (- insert key (child_keys ?c ?s1))) (st (n - 1) T')"
    unfolding rb_holds_def by (simp, metis)
  moreover have "finite (child_keys ?c ?s1)" "card (child_keys ?c ?s1) \<le> 1" using lr L(2) by (auto simp: keys)
  ultimately show ?thesis using E(1) c L(1) sub
    by - (rule exI[of _ b], rule exI[of _ ?s1], rule exI[of _ ?c], rule exI[of _ "st (n - 1) T'"], simp)
qed

text \<open>
  C6: \<open>Rb_Delete\<close> of a key of a red-black tree returns a red-black tree whose entries are the map without the key and without
  the key of the child of the node that is cut off: \<open>Rb_Delete\<close> takes the node of the in-order neighbour for a leaf, cuts it
  off its parent, and the destructor deletes its child with it.
\<close>

theorem rb_Delete_map:
  assumes "rb_holds n m s" "m key \<noteq> None"
  shows "\<exists>x s1 c s'. BstDelete key (rb_root s) s = Some (x, s1) \<and> node x s1 = Some c \<and> Rb_Delete key s = Some (True, s') \<and>
    rb_holds (n - 1) (m |` (- insert key (child_keys c s1))) s'"
  using Delete_present[OF assms] by blast

text \<open>
  C7: If the node that is cut off has a child, another key is lost with the deleted one and the counter is one too high.
\<close>

theorem rb_Delete_loses_child:
  assumes "rb_holds (of_nat (card (dom m))) m s" "m key \<noteq> None" "BstDelete key (rb_root s) s = Some (x, s1)" "node x s1 = Some c"
    and "child_keys c s1 \<noteq> {}"
  shows "\<exists>k' s' m'. Rb_Delete key s = Some (True, s') \<and> k' \<noteq> key \<and> m k' \<noteq> None \<and> m' k' = None \<and> rb_holds (of_nat (card (dom m')) + 1) m' s'"
proof -
  obtain s' where s': "Rb_Delete key s = Some (True, s')" "rb_holds (of_nat (card (dom m)) - 1) (m |` (- insert key (child_keys c s1))) s'"
    "child_keys c s1 \<subseteq> dom m - {key}" "finite (child_keys c s1)" "card (child_keys c s1) \<le> 1"
    using Delete_present[OF assms(1,2)] assms(3,4) by auto
  let ?m = "m |` (- insert key (child_keys c s1))"
  obtain T where "map_of (inorder T) = m" using assms(1) by (rule rb_holdsE)
  then have fin: "finite (dom m)" using finite_dom_map_of by metis
  have one: "card (child_keys c s1) = 1" using s'(4,5) assms(5) by (simp add: le_Suc_eq)
  have "dom ?m = dom m - insert key (child_keys c s1)" by auto
  moreover have "card (insert key (child_keys c s1)) = 2" using s'(3,4) one by (subst card_insert_disjoint) auto
  moreover have sub: "insert key (child_keys c s1) \<subseteq> dom m" using s'(3) assms(2) by auto
  ultimately have "card (dom ?m) = card (dom m) - 2" "2 \<le> card (dom m)"
    using card_Diff_subset[OF _ sub] card_mono[OF fin sub] s'(4) by auto
  then have "card (dom m) = card (dom ?m) + 2" by simp
  then have "of_nat (card (dom m)) - 1 = (of_nat (card (dom ?m)) + 1 :: u64)" by simp
  moreover obtain k' where "k' \<in> child_keys c s1" using assms(5) by blast
  then have "k' \<noteq> key" "m k' \<noteq> None" "?m k' = None" using s'(3) by (auto simp: restrict_map_def)
  ultimately show ?thesis using s'(1,2) by metis
qed

section \<open>The height\<close>

fun height :: "('k, 'v) atree \<Rightarrow> nat" where
  "height Tip = 0"
| "height (Nd l a c k v r) = Suc (max (height l) (height r))"

text \<open>A walk from a node along the child pointers.\<close>

fun follow :: "direction_t list \<Rightarrow> nat \<Rightarrow> ('k, 'v) rb_tree \<Rightarrow> nat option" where
  "follow [] a s = Some a"
| "follow (d # ds) a s = do { b \<leftarrow> GetChild d a s; follow ds b s }"

lemma rbt_height: "rbt n t \<Longrightarrow> height t \<le> 2 * n + (if col t = RED then 1 else 0)"
  by (induction n t rule: rbt.induct) (auto simp: color_cases split: if_splits)

lemma rbt_size: "rbt n t \<Longrightarrow> 2 ^ n \<le> length (inorder t) + 1"
  by (induction n t rule: rbt.induct) auto

lemma follow_height:
  assumes "wf_adr (plug C t)" "t \<noteq> Tip" "follow ds (adr t) (st n (plug C t)) = Some a" "a \<noteq> 0"
  shows "length ds < height t"
  using assms
proof (induction ds arbitrary: C t)
  case (Cons d ds)
  obtain b c k v x y where t: "t = mk d b c k v x y" using mk_cases[OF Cons.prems(2)] .
  have wf: "wf_adr (plug (Fr d b c k v y # C) x)" using Cons.prems(1) t by simp
  have "follow ds (adr x) (st n (plug (Fr d b c k v y # C) x)) = Some a"
    using Cons.prems(3) node_at[OF Cons.prems(1)[unfolded t], of n] t by (simp add: GetChild_def)
  moreover from this have "x \<noteq> Tip" using Cons.prems(4)
    by (cases ds) (auto simp: GetChild_def node_def)
  ultimately have "length ds < height x" using Cons.IH[OF wf] Cons.prems(4) by simp
  then show ?case using t by (cases d) auto
next
  case Nil
  then show ?case by (cases t) simp_all
qed

text \<open>
  The height of a tree is logarithmic: a node that is reached from the root over \<open>h\<close> child pointers has
  \<open>2\<^sup>h\<^sup>+\<^sup>1\<close> at most the square of the number of keys plus one.
\<close>

theorem rb_height_logarithmic:
  assumes "rb_holds n m s" "follow ds (rb_root s) s = Some a" "a \<noteq> 0"
  shows "2 ^ (length ds + 1) \<le> (card (dom m) + 1) ^ 2"
proof -
  obtain T where T: "s = st n T" "wf_adr T" "sorted_keys (inorder T)" "map_of (inorder T) = m" "rb_ok T" using assms(1) by (rule rb_holdsE)
  have "T \<noteq> Tip" using assms(2,3) T(1) by (cases ds) (auto simp: st_def GetChild_def node_def)
  then have "length ds < height T" using follow_height[of "[]" T ds _ a] T assms(2,3) by (simp add: st_def)
  moreover obtain h where h: "rbt h T" "col T = BLACK" using T(5) unfolding rb_ok_def by blast
  then have "height T \<le> 2 * h" using rbt_height[OF h(1)] by simp
  ultimately have "(2::nat) ^ (length ds + 1) \<le> 2 ^ (h * 2)" by (intro power_increasing) auto
  also have "\<dots> \<le> (length (inorder T) + 1) ^ 2" using rbt_size[OF h(1)] unfolding power_mult by (rule power_mono) simp
  also have "length (inorder T) = card (dom m)"
    using distinct_card[OF sorted_keys_distinct[OF T(3)]] unfolding T(4)[symmetric] dom_map_of_conv_image_fst set_map length_map by (rule sym)
  finally show ?thesis .
qed

section \<open>Reachable trees\<close>

text \<open>The trees that any sequence of insertions, updates and deletions makes from an empty one.\<close>

inductive rb_run :: "('k::linorder, 'v) rb_tree \<Rightarrow> bool" where
  start: "rb_run RbTree"
| insert: "rb_run s \<Longrightarrow> new \<noteq> 0 \<Longrightarrow> rb_heap s new = None \<Longrightarrow> Rb_Insert key val new s = Some (ok, s') \<Longrightarrow> rb_run s'"
| update: "rb_run s \<Longrightarrow> Rb_Update key val s = Some (ok, s') \<Longrightarrow> rb_run s'"
| delete: "rb_run s \<Longrightarrow> Rb_Delete key s = Some (ok, s') \<Longrightarrow> rb_run s'"

lemma rb_run_holds: "rb_run s \<Longrightarrow> \<exists>n m. rb_holds n m s"
proof (induction rule: rb_run.induct)
  case start
  then show ?case using rb_holds_RbTree by blast
next
  case (insert s new key val ok s')
  then obtain n m where "rb_holds n m s" by blast
  then show ?case using Insert_map[of n m s new key val] insert.hyps by (auto split: if_splits)
next
  case (update s key val ok s')
  then obtain n m where "rb_holds n m s" by blast
  then show ?case using rb_Update_map[of n m s key val] update.hyps by (auto split: if_splits)
next
  case (delete s key ok s')
  then obtain n m where m: "rb_holds n m s" by blast
  show ?case
  proof (cases "m key = None")
    case True
    then show ?thesis using m rb_Delete_absent[OF m True] delete.hyps by (auto split: if_splits)
  next
    case False
    then show ?thesis using Delete_present[OF m False] delete.hyps by auto
  qed
qed

text \<open>
  C8: Every sequence of insertions, updates and deletions, lossy deletions included, leaves a red-black search tree of some
  map: every later read answers from that map, every later insertion, update and deletion returns (as long as a key is
  left, for the operations that follow the root), and the paths of the tree are logarithmic in the number of keys.
\<close>

theorem rb_run_balanced:
  assumes "rb_run s"
  shows "\<exists>n m. rb_holds n m s \<and>
    (\<forall>key. Rb_Read key s = (if m = Map.empty then None else Some (m key))) \<and>
    (\<forall>key val new. new \<noteq> 0 \<and> rb_heap s new = None \<longrightarrow> Rb_Insert key val new s \<noteq> None) \<and>
    (\<forall>key val. m \<noteq> Map.empty \<longrightarrow> Rb_Update key val s \<noteq> None \<and> Rb_Delete key s \<noteq> None) \<and>
    (\<forall>ds a. follow ds (rb_root s) s = Some a \<and> a \<noteq> 0 \<longrightarrow> 2 ^ (length ds + 1) \<le> (card (dom m) + 1) ^ 2)"
proof -
  obtain n m where m: "rb_holds n m s" using rb_run_holds[OF assms] by blast
  have del: "Rb_Delete key s \<noteq> None" if "m \<noteq> Map.empty" for key
    using rb_Delete_absent[OF m, of key] Delete_present[OF m, of key] that by (cases "m key = None") auto
  have upd: "Rb_Update key val s \<noteq> None" if "m \<noteq> Map.empty" for key val
    using rb_Update_map[OF m, of key val] that by auto
  have ins: "Rb_Insert key val new s \<noteq> None" if "new \<noteq> 0" "rb_heap s new = None" for key val new
    using Insert_map[OF m that, of key val] by auto
  show ?thesis using m Read_map[OF m] ins upd del rb_height_logarithmic[OF m] by blast
qed

section \<open>The contract of a table\<close>

text \<open>
  A tree with at least one key is a table in the sense of \<open>kv_store\<close>, like the hash map; the allocator is taken to return
  the first free address.
\<close>

definition rb_inv :: "('k::linorder, 'v) rb_tree \<Rightarrow> bool" where
  "rb_inv s = (\<exists>n m. rb_holds n m s \<and> m \<noteq> Map.empty)"

definition rb_abs :: "('k::linorder, 'v) rb_tree \<Rightarrow> 'k \<Rightarrow> 'v option" where
  "rb_abs s k = (case Rb_Read k s of None \<Rightarrow> None | Some r \<Rightarrow> r)"

definition free_addr :: "('k, 'v) rb_tree \<Rightarrow> nat" where
  "free_addr s = (LEAST a. a \<noteq> 0 \<and> rb_heap s a = None)"

lemma rb_abs_holds: "rb_holds n m s \<Longrightarrow> rb_abs s = m"
  by (rule ext) (auto simp: rb_abs_def Read_map)

lemma free_addr_free:
  assumes "rb_holds n m s"
  shows "free_addr s \<noteq> 0 \<and> rb_heap s (free_addr s) = None"
proof -
  obtain T where T: "s = st n T" using assms by (rule rb_holdsE)
  have "finite (insert 0 (set (addrs T)))" by simp
  from ex_new_if_finite[OF infinite_UNIV_nat this] obtain a where "a \<noteq> 0 \<and> a \<notin> set (addrs T)" by auto
  then have "a \<noteq> 0 \<and> rb_heap s a = None" using T by (simp add: st_def)
  then show ?thesis unfolding free_addr_def by (rule LeastI)
qed

interpretation rb: kv_store rb_inv rb_abs "\<lambda>n s. True" "\<lambda>s k. Rb_Read k s" "\<lambda>s k v. Rb_Insert k v (free_addr s) s"
proof
  fix s :: "('k::linorder, 'v) rb_tree" and k
  assume "rb_inv s"
  then obtain n m where m: "rb_holds n m s" "m \<noteq> Map.empty" unfolding rb_inv_def by blast
  then show "Rb_Read k s = Some (rb_abs s k)" using rb_abs_holds[OF m(1)] by (simp add: Read_map)
next
  fix s :: "('k::linorder, 'v) rb_tree" and n k v
  assume "rb_inv s" "rb_abs s k = None"
  then obtain n m where m: "rb_holds n m s" "m k = None" unfolding rb_inv_def using rb_abs_holds by metis
  obtain s' where "Rb_Insert k v (free_addr s) s = Some (True, s')" "rb_holds (n + 1) (m(k \<mapsto> v)) s'"
    using Insert_map[OF m(1), of "free_addr s" k v] free_addr_free[OF m(1)] m(2) by auto
  then show "\<exists>s'. Rb_Insert k v (free_addr s) s = Some (True, s') \<and> rb_inv s' \<and> True \<and> rb_abs s' = (rb_abs s)(k \<mapsto> v)"
    using rb_abs_holds m(1) unfolding rb_inv_def by (metis map_upd_nonempty)
qed

end
