(* ===== verification/Rb_Tree_Examples.thy ===== *)
theory Rb_Tree_Examples
  imports Rb_Tree_Theorems
begin

text \<open>
  Concrete inputs for the theorems about the red-black tree: the tree that inserting 3, 4, 2 and 1 builds. Deleting 3
  loses 1, the child of the node of 2.
\<close>

definition demo_atree :: "(nat, nat) atree" where
  "demo_atree = Nd (Nd (Nd Tip 4 RED 1 10 Tip) 3 BLACK 2 20 Tip) 5 BLACK 3 30 (Nd Tip 2 BLACK 4 40 Tip)"

definition demo_rb :: "(nat, nat) rb_tree" where
  "demo_rb = st 4 demo_atree"

definition demo_map :: "nat \<rightharpoonup> nat" where
  "demo_map = [1 \<mapsto> 10, 2 \<mapsto> 20, 3 \<mapsto> 30, 4 \<mapsto> 40]"

lemma demo_holds: "rb_holds 4 demo_map demo_rb"
  unfolding rb_holds_def
proof (rule exI[of _ demo_atree], intro conjI)
  show "rb_ok demo_atree" unfolding rb_ok_def by (intro conjI exI[of _ 2]) (simp_all add: demo_atree_def numeral_2_eq_2)
  show "map_of (inorder demo_atree) = demo_map" by (rule ext) (simp add: demo_atree_def demo_map_def)
qed (simp_all add: demo_rb_def demo_atree_def wf_adr_def)

lemma demo_card: "card (dom demo_map) = 4"
proof -
  have "dom demo_map = {1, 2, 3, 4}" by (auto simp: demo_map_def)
  then show ?thesis by simp
qed

lemma demo_eval:
  "rb_root demo_rb = 5" "num_keys demo_rb = 4"
  "node 5 demo_rb = Some (RbNode 3 30 BLACK 3 2 0)" "node 3 demo_rb = Some (RbNode 2 20 BLACK 4 0 5)"
  "node 4 demo_rb = Some (RbNode 1 10 RED 0 0 3)" "node 2 demo_rb = Some (RbNode 4 40 BLACK 0 0 5)"
  by (simp_all add: demo_rb_def st_def demo_atree_def node_def)

theorem rb_Insert_map_witness:
  "\<exists>s'. Rb_Insert 6 60 9 demo_rb = Some (True, s') \<and> rb_holds 5 (demo_map(6 \<mapsto> 60)) s'"
  using rb_Insert_map[OF demo_holds, of 9 6 60] by (simp add: demo_map_def demo_rb_def st_def demo_atree_def)

theorem rb_Read_map_witness: "Rb_Read 2 demo_rb = Some (Some 20)"
  using rb_Read_map[OF demo_holds, of 2] by (auto simp: demo_map_def fun_eq_iff)

theorem rb_Update_map_witness: "\<exists>s'. Rb_Update 2 25 demo_rb = Some (True, s') \<and> rb_holds 4 (demo_map(2 \<mapsto> 25)) s'"
proof -
  have "demo_map 2 = Some 20" by (simp add: demo_map_def)
  moreover from this have "demo_map \<noteq> Map.empty" by (metis option.distinct(1))
  ultimately show ?thesis using rb_Update_map[OF demo_holds, of 2 25] by simp
qed

lemma demo_BstDelete:
  "BstDelete 3 5 demo_rb = Some (3, put_node 5 (RbNode 2 20 BLACK 3 2 0) demo_rb)"
proof -
  have "Rb_Find 3 5 demo_rb = Some 5" by (subst Rb_Find.simps) (simp add: demo_eval RbNode_def)
  moreover have "Rb_Max 3 demo_rb = Some 3" by (subst Rb_Max.simps) (simp add: demo_eval RbNode_def)
  ultimately show ?thesis by (simp add: BstDelete_def demo_eval RbNode_def set_node_def)
qed

lemma demo_rb_child: "child_keys (RbNode 2 20 BLACK 4 0 5) (put_node 5 n demo_rb) = {1}"
  using demo_eval(5) by (auto simp: child_keys_def node_def put_node_def RbNode_def)

theorem rb_Delete_map_witness:
  "\<exists>s'. Rb_Delete 3 demo_rb = Some (True, s') \<and> rb_holds 3 (demo_map |` (- {3, 1})) s'"
proof -
  have "demo_map 3 \<noteq> None" by (simp add: demo_map_def)
  moreover have "node 3 (put_node 5 n demo_rb) = Some (RbNode 2 20 BLACK 4 0 5)" for n
    using demo_eval(4) by (simp add: node_def put_node_def)
  ultimately show ?thesis using rb_Delete_map[OF demo_holds, of 3] by (auto simp: demo_eval(1) demo_BstDelete demo_rb_child)
qed

theorem rb_Delete_loses_child_witness:
  "\<exists>k' s' m'. Rb_Delete 3 demo_rb = Some (True, s') \<and> k' \<noteq> 3 \<and> demo_map k' \<noteq> None \<and> m' k' = None \<and> rb_holds (of_nat (card (dom m')) + 1) m' s'"
proof (rule rb_Delete_loses_child[where s = demo_rb])
  show "rb_holds (of_nat (card (dom demo_map))) demo_map demo_rb" using demo_holds by (simp add: demo_card)
  show "BstDelete 3 (rb_root demo_rb) demo_rb = Some (3, put_node 5 (RbNode 2 20 BLACK 3 2 0) demo_rb)"
    unfolding demo_eval(1) by (rule demo_BstDelete)
  show "node 3 (put_node 5 (RbNode 2 20 BLACK 3 2 0) demo_rb) = Some (RbNode 2 20 BLACK 4 0 5)"
    using demo_eval(4) by (simp add: node_def put_node_def)
qed (simp_all add: demo_rb_child demo_map_def)

theorem rb_height_logarithmic_witness: "(2::nat) ^ (2 + 1) \<le> (card (dom demo_map) + 1) ^ 2"
  using rb_height_logarithmic[of 4 demo_map demo_rb "[LEFT, LEFT]" 4] demo_holds
  by (simp add: demo_card demo_eval GetChild_def child_def RbNode_def)

theorem rb_run_balanced_witness:
  "\<exists>s. Rb_Insert 7 True 5 RbTree = Some (True, s) \<and> Rb_Delete (7 :: nat) s \<noteq> None"
proof -
  let ?s = "\<lparr>rb_root = 5, num_keys = 1, rb_heap = [5 \<mapsto> RbNode (7 :: nat) True BLACK 0 0 0]\<rparr>"
  have ins: "Rb_Insert 7 True 5 RbTree = Some (True, ?s)"
    by (simp add: Rb_Insert_def RbTree_def PostInsertFix_def Insertion_loop.simps[of 5] put_node_def node_def RbNode_def
      set_color_def set_node_def)
  have "rb_run ?s" by (rule rb_run.insert[OF rb_run.start _ _ ins]) (simp_all add: RbTree_def)
  from rb_run_balanced[OF this] obtain m where
    "\<forall>key. Rb_Read key ?s = (if m = Map.empty then None else Some (m key))" "m \<noteq> Map.empty \<longrightarrow> Rb_Delete 7 ?s \<noteq> None" by blast
  moreover have "Rb_Read 7 ?s = Some (Some True)"
    by (simp add: Rb_Read_def Rb_Find.simps[of 7 5] node_def RbNode_def)
  ultimately show ?thesis using ins by (metis option.distinct(1))
qed

end
