(* ===== verification/Libc_String.thy ===== *)
theory Libc_String
  imports Prelude
begin

text \<open>
  \<open>src/libc/string.cpp\<close> over a byte-addressed memory: the copying loops
  \<open>memcpy\<close>, \<open>memmove\<close>, \<open>memset\<close>, and the C string functions. Every loop is modelled in the
  order in which the code reads and writes, so that overlapping arguments behave as in the
  code. The lemmas give the functional meaning of each function over C strings (\<open>cstr\<close>) and
  the conditions on overlap under which the copies are right.
\<close>

type_synonym mem = "nat \<Rightarrow> u8"

section \<open>Copying\<close>

text \<open>\<open>for(i = 0; i < bytes; ++i) dest_bytes[i] = source_bytes[i];\<close>\<close>

fun memcpy :: "mem \<Rightarrow> nat \<Rightarrow> nat \<Rightarrow> nat \<Rightarrow> mem" where
  "memcpy m dest source 0 = m"
| "memcpy m dest source (Suc i) =
     (let m = memcpy m dest source i in m(dest + i := m (source + i)))"

text \<open>The loop of \<open>memmove\<close> runs from the last byte down to the first.\<close>

fun memmove_loop :: "mem \<Rightarrow> nat \<Rightarrow> nat \<Rightarrow> nat \<Rightarrow> mem" where
  "memmove_loop m dest source 0 = m"
| "memmove_loop m dest source (Suc i) =
     memmove_loop (m(dest + i := m (source + i))) dest source i"

text \<open>Its index is an \<open>int\<close>: \<open>bytes - 1\<close> is truncated to 32 bits and read as signed.\<close>

definition memmove :: "mem \<Rightarrow> nat \<Rightarrow> nat \<Rightarrow> nat \<Rightarrow> mem" where
  "memmove m dest source bytes =
     memmove_loop m dest source (nat (sint (of_nat bytes - 1 :: u32) + 1))"

fun memset :: "mem \<Rightarrow> nat \<Rightarrow> u8 \<Rightarrow> nat \<Rightarrow> mem" where
  "memset m p c 0 = m"
| "memset m p c (Suc len) = memset (m(p := c)) (p + 1) c len"

text \<open>\<open>memcmp\<close>: the sign of the first difference.\<close>

fun memcmp :: "mem \<Rightarrow> nat \<Rightarrow> nat \<Rightarrow> nat \<Rightarrow> int" where
  "memcmp m s1 s2 0 = 0"
| "memcmp m s1 s2 (Suc count) =
     (if m s1 \<noteq> m s2 then (if m s1 < m s2 then -1 else 1)
      else memcmp m (s1 + 1) (s2 + 1) count)"

section \<open>C strings\<close>

partial_function (option) strlen :: "mem \<Rightarrow> nat \<Rightarrow> nat option" where
  "strlen m str =
     (if m str \<noteq> 0
      then Option.bind (strlen m (str + 1)) (\<lambda>i. Some (i + 1))
      else Some 0)"

partial_function (option) strcmp :: "mem \<Rightarrow> nat \<Rightarrow> nat \<Rightarrow> int option" where
  "strcmp m lhs rhs =
     (if m lhs \<noteq> 0 \<and> m rhs \<noteq> 0 \<and> m lhs = m rhs
      then strcmp m (lhs + 1) (rhs + 1)
      else Some (uint (m lhs) - uint (m rhs)))"

text \<open>
  \<open>strncmp\<close>: at most \<open>len - 1\<close> characters are skipped; \<open>len - 1\<close> is computed in \<open>size_t\<close> and
  wraps for \<open>len = 0\<close>.
\<close>

fun strncmp_loop :: "mem \<Rightarrow> nat \<Rightarrow> nat \<Rightarrow> nat \<Rightarrow> int" where
  "strncmp_loop m lhs rhs 0 = uint (m lhs) - uint (m rhs)"
| "strncmp_loop m lhs rhs (Suc n) =
     (if m lhs \<noteq> 0 \<and> m rhs \<noteq> 0 \<and> m lhs = m rhs
      then strncmp_loop m (lhs + 1) (rhs + 1) n
      else uint (m lhs) - uint (m rhs))"

definition strncmp :: "mem \<Rightarrow> nat \<Rightarrow> nat \<Rightarrow> nat \<Rightarrow> int" where
  "strncmp m lhs rhs len = strncmp_loop m lhs rhs (unat (of_nat len - 1 :: u64))"

text \<open>
  \<open>strcat\<close> evaluates \<open>strlen(source)\<close> before every iteration, in the memory written so far.
\<close>

partial_function (option) strcat_loop :: "nat \<Rightarrow> nat \<Rightarrow> nat \<Rightarrow> mem \<Rightarrow> mem option" where
  "strcat_loop dest_end source i m =
     Option.bind (strlen m source) (\<lambda>n.
       if i < n then strcat_loop dest_end source (i + 1) (m(dest_end + i := m (source + i)))
       else Some (m(dest_end + n := 0)))"

definition strcat :: "mem \<Rightarrow> nat \<Rightarrow> nat \<Rightarrow> mem option" where
  "strcat m dest source =
     (case strlen m dest of
        None \<Rightarrow> None
      | Some concat_offset \<Rightarrow> strcat_loop (dest + concat_offset) source 0 m)"

definition strncat :: "mem \<Rightarrow> nat \<Rightarrow> nat \<Rightarrow> nat \<Rightarrow> mem option" where
  "strncat m dest source len =
     (case strlen m dest of
        None \<Rightarrow> None
      | Some concat_offset \<Rightarrow>
          Some ((memcpy m (dest + concat_offset) source len)(dest + concat_offset + len := 0)))"

section \<open>Meaning of the copies\<close>

text \<open>The memory in which the \<open>n\<close> bytes at \<open>dest\<close> are what was at \<open>source\<close>.\<close>

definition copied :: "mem \<Rightarrow> nat \<Rightarrow> nat \<Rightarrow> nat \<Rightarrow> mem" where
  "copied m dest source n =
     (\<lambda>a. if dest \<le> a \<and> a < dest + n then m (source + (a - dest)) else m a)"

lemma memcpy_copied:
  assumes "dest \<le> source \<or> source + n \<le> dest"
  shows "memcpy m dest source n = copied m dest source n"
  using assms
proof (induction n)
  case (Suc n)
  then have IH: "memcpy m dest source n = copied m dest source n" by auto
  have "copied m dest source n (source + n) = m (source + n)"
    using Suc.prems by (auto simp: copied_def)
  then show ?case using IH by (auto simp: copied_def fun_eq_iff Let_def)
qed (auto simp: copied_def fun_eq_iff)

lemma memmove_loop_copied:
  assumes "source \<le> dest \<or> dest + n \<le> source"
  shows "memmove_loop m dest source n = copied m dest source n"
  using assms
proof (induction n arbitrary: m)
  case (Suc n)
  let ?m = "m(dest + n := m (source + n))"
  have "memmove_loop ?m dest source n = copied ?m dest source n"
    using Suc by auto
  moreover have "copied ?m dest source n = copied m dest source (Suc n)"
    using Suc.prems by (auto simp: copied_def fun_eq_iff)
  ultimately show ?case by simp
qed (auto simp: copied_def fun_eq_iff)

lemma memmove_bytes:
  assumes "bytes \<le> 2 ^ 31"
  shows "nat (sint (of_nat bytes - 1 :: u32) + 1) = bytes"
proof -
  have "(of_nat bytes - 1 :: u32) = of_int (int bytes - 1)" by simp
  moreover have "sint (of_int (int bytes - 1) :: u32) = int bytes - 1"
    unfolding signed_of_int using assms by (simp add: signed_take_bit_int_eq_self_iff)
  ultimately have "sint (of_nat bytes - 1 :: u32) = int bytes - 1" by simp
  then show ?thesis by simp
qed

lemma memset_eq: "memset m p c len = (\<lambda>a. if p \<le> a \<and> a < p + len then c else m a)"
  by (induction len arbitrary: m p) (auto simp: fun_eq_iff fun_upd_def)

section \<open>Meaning of the comparisons\<close>

text \<open>The bytes of \<open>s\<close>, none of them NUL, stand at \<open>p\<close> and are followed by a NUL.\<close>

fun cstr :: "mem \<Rightarrow> nat \<Rightarrow> u8 list \<Rightarrow> bool" where
  "cstr m p [] \<longleftrightarrow> m p = 0"
| "cstr m p (c # s) \<longleftrightarrow> m p = c \<and> c \<noteq> 0 \<and> cstr m (p + 1) s"

lemma cstr_nth: "cstr m p s \<Longrightarrow> i < length s \<Longrightarrow> m (p + i) = s ! i"
proof (induction s arbitrary: p i)
  case (Cons c s)
  then show ?case using Cons.IH[of "p + 1" "i - 1"] by (cases i) auto
qed simp

lemma cstr_end: "cstr m p s \<Longrightarrow> m (p + length s) = 0"
proof (induction s arbitrary: p)
  case (Cons c s)
  then show ?case using Cons.IH[of "p + 1"] by simp
qed simp

lemma cstr_frame:
  "(\<And>a. p \<le> a \<Longrightarrow> a \<le> p + length s \<Longrightarrow> m' a = m a) \<Longrightarrow> cstr m' p s = cstr m p s"
  by (induction s arbitrary: p) auto

lemma strlen_cstr: "cstr m p s \<Longrightarrow> strlen m p = Some (length s)"
proof (induction s arbitrary: p)
  case Nil
  then show ?case by (simp add: strlen.simps)
next
  case (Cons c s)
  then show ?case by (subst strlen.simps) simp
qed

fun lex_diff :: "u8 list \<Rightarrow> u8 list \<Rightarrow> int" where
  "lex_diff (c # s) (d # t) = (if c = d then lex_diff s t else uint c - uint d)"
| "lex_diff (c # s) [] = uint c"
| "lex_diff [] (d # t) = - uint d"
| "lex_diff [] [] = 0"

lemma strcmp_lex_diff:
  "cstr m p s \<Longrightarrow> cstr m q t \<Longrightarrow> strcmp m p q = Some (lex_diff s t)"
proof (induction s t arbitrary: p q rule: lex_diff.induct)
  case (1 c s d t)
  then show ?case by (subst strcmp.simps) auto
qed (subst strcmp.simps, auto)+

lemma lex_diff_eq_0: "0 \<notin> set s \<Longrightarrow> 0 \<notin> set t \<Longrightarrow> lex_diff s t = 0 \<longleftrightarrow> s = t"
proof (induction s t rule: lex_diff.induct)
  case (1 c s d t)
  have "uint c = uint d \<longleftrightarrow> c = d" by (simp only: word_uint_eq_iff)
  with 1 show ?case by simp
qed (auto simp: uint_0_iff)

lemma cstr_no_nul: "cstr m p s \<Longrightarrow> 0 \<notin> set s"
  by (induction s arbitrary: p) auto

lemma strncmp_loop_lex_diff:
  "cstr m p s \<Longrightarrow> cstr m q t \<Longrightarrow>
     strncmp_loop m p q n = lex_diff (take (Suc n) s) (take (Suc n) t)"
proof (induction n arbitrary: p q s t)
  case 0
  then show ?case by (cases s; cases t) auto
next
  case (Suc n)
  then show ?case by (cases s; cases t) (auto simp del: take_Suc_Cons simp: take_Suc_Cons[of "Suc n"])
qed

lemma lex_diff_neg:
  "0 \<notin> set s \<Longrightarrow> 0 \<notin> set t \<Longrightarrow> lex_diff s t < 0 \<longleftrightarrow> ord_class.lexordp s t"
proof (induction s t rule: lex_diff.induct)
  case (1 c s d t)
  have "uint c < uint d \<longleftrightarrow> c < d" by (simp only: word_less_def)
  with 1 show ?case by auto
next
  case (2 c s)
  have "0 \<le> uint c" by simp
  then show ?case by (simp add: not_less)
next
  case (3 d t)
  then have "0 < uint d" by (simp add: less_le uint_0_iff)
  then show ?case by simp
qed simp

section \<open>Meaning of the concatenations\<close>

lemma copied_Suc: "copied m dest source (Suc i) =
    (copied m dest source i)(dest + i := m (source + i))"
  by (auto simp: copied_def fun_eq_iff)

lemma strcat_loop_copied:
  assumes src: "cstr m source t" and i: "i \<le> length t"
    and disj: "e + length t < source \<or> source + length t < e"
  shows "strcat_loop e source i (copied m e source i) =
    Some ((copied m e source (length t))(e + length t := 0))"
  using i
proof (induction "length t - i" arbitrary: i)
  case 0
  then have "i = length t" by simp
  moreover have "cstr (copied m e source i) source t"
    using src disj 0 by (subst cstr_frame[where m = m]) (auto simp: copied_def)
  ultimately show ?case by (simp add: strcat_loop.simps strlen_cstr fun_upd_def)
next
  case (Suc n)
  have "cstr (copied m e source i) source t"
    using src disj Suc(3) by (subst cstr_frame[where m = m]) (auto simp: copied_def)
  moreover have "copied m e source i (source + i) = m (source + i)"
    using disj Suc(2,3) by (auto simp: copied_def)
  moreover have "i < length t" using Suc(2) by linarith
  ultimately have "strcat_loop e source i (copied m e source i) =
      strcat_loop e source (Suc i) (copied m e source (Suc i))"
    by (simp add: strcat_loop.simps[of e source i] strlen_cstr copied_Suc)
  then show ?case using Suc.hyps(1)[of "Suc i"] Suc(2) by simp
qed

lemma cstr_concat:
  assumes "cstr m p s" "cstr m' (p + length s) t"
    and "\<And>a. p \<le> a \<Longrightarrow> a < p + length s \<Longrightarrow> m' a = m a"
  shows "cstr m' p (s @ t)"
  using assms
proof (induction s arbitrary: p)
  case (Cons c s)
  then show ?case using Cons.IH[of "p + 1"] by simp
qed simp

lemma cstr_copied:
  assumes "cstr m q t" "length t = n"
  shows "cstr ((copied m p q n)(p + n := 0)) p t"
proof -
  have "cstr m' p t" if "\<forall>i<length t. m' (p + i) = t ! i" "0 \<notin> set t" "m' (p + length t) = 0" for m'
    using that
  proof (induction t arbitrary: p)
    case (Cons c t)
    then have "\<forall>i<length t. m' (p + 1 + i) = t ! i" by fastforce
    with Cons show ?case by fastforce
  qed simp
  then show ?thesis
    using assms cstr_nth[OF assms(1)] cstr_no_nul[OF assms(1)] by (simp add: copied_def)
qed

section \<open>Properties\<close>

text \<open>
  C11: for up to \<open>2 ^ 31\<close> bytes \<open>memcpy\<close> and \<open>memmove\<close> leave at the destination exactly the bytes
  that stood at the source before the call, and change nothing else: \<open>memcpy\<close> whenever the
  destination does not lie inside the source above its start, \<open>memmove\<close> whenever it does not
  lie below it and overlap it.
\<close>

theorem memcpy_memmove_copy:
  assumes "n \<le> 2 ^ 31"
  shows "(dest \<le> source \<or> source + n \<le> dest \<longrightarrow> memcpy m dest source n = copied m dest source n) \<and>
    (source \<le> dest \<or> dest + n \<le> source \<longrightarrow> memmove m dest source n = copied m dest source n)"
  using memcpy_copied memmove_loop_copied memmove_bytes[OF assms] by (auto simp: memmove_def)

theorem memcpy_memmove_copy_witness:
  "memcpy (of_nat :: mem) 0 1 2 0 = 1 \<and> memmove (of_nat :: mem) 1 0 2 2 = 1"
  using memcpy_memmove_copy[of 2 0 1 "of_nat :: mem"] memcpy_memmove_copy[of 2 1 0 "of_nat :: mem"]
  by (simp add: copied_def)

text \<open>
  \<open>memmove\<close> is not the overlap-safe copy its name promises: it always copies backwards, so
  moving two bytes down by one (what removing an array element does) duplicates the last.
\<close>

theorem memmove_overlap_wrong:
  "let m = (of_nat :: mem); m' = memmove m 0 1 2
   in m' 0 = 2 \<and> copied m 0 1 2 0 = 1"
  by (simp add: memmove_def memmove_bytes[of 2, simplified] copied_def Let_def numeral_2_eq_2
      memmove_bytes[of 2, unfolded numeral_2_eq_2])

text \<open>
  C12: on C strings \<open>strcmp\<close> returns, with zero exactly for equal strings and a negative number
  exactly when the first is lexicographically smaller, bytes compared unsigned; \<open>strncmp\<close> does
  the same for the first \<open>n\<close> characters, \<open>n > 0\<close>.
\<close>

theorem strcmp_lexicographic:
  assumes "cstr m p s" "cstr m q t" "0 < n" "n < 2 ^ 64"
  shows "(\<exists>r. strcmp m p q = Some r \<and> (r = 0 \<longleftrightarrow> s = t) \<and> (r < 0 \<longleftrightarrow> ord_class.lexordp s t)) \<and>
    (strncmp m p q n = 0 \<longleftrightarrow> take n s = take n t) \<and>
    (strncmp m p q n < 0 \<longleftrightarrow> ord_class.lexordp (take n s) (take n t))"
proof -
  have no: "0 \<notin> set s" "0 \<notin> set t" using assms cstr_no_nul by blast+
  then have no': "0 \<notin> set (take n s)" "0 \<notin> set (take n t)" using set_take_subset by fast+
  have "(of_nat n - 1 :: u64) = of_nat (n - 1)" using assms(3) by simp
  moreover have "unat (of_nat (n - 1) :: u64) = n - 1"
    unfolding unat_of_nat using assms(3,4) by simp
  ultimately have "unat (of_nat n - 1 :: u64) = n - 1" by simp
  then have "strncmp m p q n = lex_diff (take n s) (take n t)"
    using strncmp_loop_lex_diff[OF assms(1,2), of "n - 1"] assms(3) by (simp add: strncmp_def)
  then show ?thesis
    using strcmp_lex_diff[OF assms(1,2)] lex_diff_eq_0[OF no] lex_diff_neg[OF no]
      lex_diff_eq_0[OF no'] lex_diff_neg[OF no'] by simp
qed

definition sample_strings :: mem where
  "sample_strings = (\<lambda>_. 0)(1 := 104, 2 := 105, 5 := 104, 6 := 106)"

theorem strcmp_lexicographic_witness:
  "\<exists>r. strcmp sample_strings 1 5 = Some r \<and> r < 0 \<and> strncmp sample_strings 1 5 1 = 0"
  using strcmp_lexicographic[of sample_strings 1 "[104, 105]" 5 "[104, 106]" 1]
  by (auto simp: sample_strings_def)

text \<open>
  when the destination and the source do not overlap, \<open>strcat\<close> returns with the
  concatenation at the destination, the source intact, and nothing else changed.
\<close>

theorem strcat_appends:
  assumes "cstr m p s" "cstr m q t"
    and "p + length s + length t < q \<or> q + length t < p"
  shows "\<exists>m'. strcat m p q = Some m' \<and> cstr m' p (s @ t) \<and> cstr m' q t \<and>
    (\<forall>a. a < p + length s \<or> p + length s + length t < a \<longrightarrow> m' a = m a)"
proof -
  let ?e = "p + length s" and ?n = "length t"
  let ?m' = "(copied m ?e q ?n)(?e + ?n := 0)"
  have disj: "?e + ?n < q \<or> q + ?n < ?e" using assms(3) by auto
  have zero: "copied m ?e q 0 = m" by (auto simp: copied_def fun_eq_iff)
  have "strcat m p q = Some ?m'"
    using strcat_loop_copied[OF assms(2) _ disj, of 0]
    by (simp add: strcat_def strlen_cstr[OF assms(1)] zero)
  moreover have same: "?m' a = m a" if "a < ?e \<or> ?e + ?n < a" for a
    using that by (auto simp: copied_def)
  moreover have "cstr ?m' p (s @ t)"
    by (rule cstr_concat[OF assms(1) cstr_copied[OF assms(2) refl]]) (rule same, simp)
  moreover have "cstr ?m' q t"
    using assms(2,3) by (subst cstr_frame[where m = m]) (auto simp: copied_def)
  ultimately show ?thesis by blast
qed

theorem strcat_appends_witness:
  "\<exists>m'. strcat sample_strings 5 1 = Some m' \<and> cstr m' 5 [104, 106, 104, 105]"
  using strcat_appends[of sample_strings 5 "[104, 106]" 1 "[104, 105]"]
  by (auto simp: sample_strings_def)

end
