(* ===== verification/Dyn_Array.thy ===== *)
theory Dyn_Array
  imports Prelude
begin

text \<open>
  \<open>ds::DynArray\<close> of \<open>src/ds/dyn_array.h\<close>, the growable array of the kernel, and the contract
  its clients use it under.

  \<open>arr_\<close> is a null pointer, a block of slots, or a dangling pointer to a block that was freed;
  a slot is \<open>None\<close> while it holds only zeroed memory. Allocation is taken to succeed, as the
  code takes it. An access outside the block, through a null or a dangling pointer does not
  return a value: \<open>None\<close>.
\<close>

section \<open>The code\<close>

datatype 'a storage = Null_arr | Dangling | Block "'a option list"

record 'a dyn_array =
  slots_used :: nat
  arr_capacity :: nat
  arr :: "'a storage"

definition DynArray :: "'a dyn_array" where
  "DynArray = \<lparr>slots_used = 0, arr_capacity = 0, arr = Null_arr\<rparr>"

definition DynArray_sized :: "nat \<Rightarrow> 'a dyn_array" where
  "DynArray_sized init_size =
     \<lparr>slots_used = 0, arr_capacity = init_size, arr = Block (replicate init_size None)\<rparr>"

text \<open>\<open>arr_[ind]\<close>, read and written.\<close>

definition slot_at :: "'a storage \<Rightarrow> int \<Rightarrow> 'a option" where
  "slot_at s ind =
     (case s of Block xs \<Rightarrow> if 0 \<le> ind \<and> ind < int (length xs) then xs ! nat ind else None
      | _ \<Rightarrow> None)"

definition store_at :: "'a storage \<Rightarrow> int \<Rightarrow> 'a \<Rightarrow> 'a storage option" where
  "store_at s ind el =
     (case s of
        Block xs \<Rightarrow> if 0 \<le> ind \<and> ind < int (length xs) then Some (Block (xs[nat ind := Some el])) else None
      | _ \<Rightarrow> None)"

text \<open>
  The allocator is a parameter of the template; its contract, as the code relies on it: \<open>Reallocate\<close> keeps the old
  contents (up to the old capacity), and the code then clears everything from \<open>slots_used_\<close> on. The kernel heap keeps
  this contract for small blocks only: a block that it has moved to the page allocator is lost by the next
  \<open>Reallocate\<close> (\<open>Kernel_Heap.Reallocate\<close>, line 310 of \<open>kheap.cpp\<close>), so with it \<open>grow\<close> stands for arrays below
  \<open>PMM_THRESHOLD\<close> bytes.
\<close>

definition grow :: "'a dyn_array \<Rightarrow> 'a dyn_array option" where
  "grow a =
     (let cap = (if arr_capacity a \<noteq> 0 then arr_capacity a * 2 else 1)
      in case arr a of
           Null_arr \<Rightarrow> Some (a\<lparr>arr_capacity := cap, arr := Block (replicate cap None)\<rparr>)
         | Block xs \<Rightarrow>
             Some (a\<lparr>arr_capacity := cap,
                     arr := Block (take (slots_used a) xs @ replicate (cap - slots_used a) None)\<rparr>)
         | Dangling \<Rightarrow> None)"

definition Append :: "'a dyn_array \<Rightarrow> 'a \<Rightarrow> 'a dyn_array option" where
  "Append a el =
     (case (if slots_used a = arr_capacity a then grow a else Some a) of
        None \<Rightarrow> None
      | Some a \<Rightarrow>
          (case store_at (arr a) (int (slots_used a)) el of
             None \<Rightarrow> None
           | Some s \<Rightarrow> Some (a\<lparr>arr := s, slots_used := slots_used a + 1\<rparr>)))"

text \<open>The index is a 32-bit \<open>int\<close>, here any integer; the arrays that fit the memory have fewer slots.\<close>

definition Lookup_arr :: "'a dyn_array \<Rightarrow> int \<Rightarrow> 'a option" where
  "Lookup_arr a ind =
     (if 0 \<le> ind then slot_at (arr a) ind else slot_at (arr a) (int (slots_used a) - ind))"

definition Size :: "'a dyn_array \<Rightarrow> nat" where
  "Size a = slots_used a"

definition Back :: "'a dyn_array \<Rightarrow> 'a option" where
  "Back a = slot_at (arr a) (int (slots_used a) - 1)"

definition index :: "'a dyn_array \<Rightarrow> int \<Rightarrow> 'a option" where
  "index a ind =
     (if 0 \<le> ind then slot_at (arr a) ind else slot_at (arr a) (int (slots_used a) + ind))"

text \<open>\<open>a[ind] = el\<close> through the reference that the second \<open>operator[]\<close> returns.\<close>

definition set_index :: "'a dyn_array \<Rightarrow> int \<Rightarrow> 'a \<Rightarrow> 'a dyn_array option" where
  "set_index a ind el =
     map_option (\<lambda>s. a\<lparr>arr := s\<rparr>)
       (if 0 \<le> ind then store_at (arr a) ind el else store_at (arr a) (int (slots_used a) + ind) el)"

text \<open>The copy constructor: a fresh block, filled through \<open>rhs[i]\<close>.\<close>

definition copied_slots :: "'a dyn_array \<Rightarrow> 'a option list" where
  "copied_slots rhs =
     map (\<lambda>i. index rhs (int i)) [0..<Size rhs] @ replicate (arr_capacity rhs - Size rhs) None"

definition copy_arr :: "'a dyn_array \<Rightarrow> 'a dyn_array" where
  "copy_arr rhs =
     \<lparr>slots_used = slots_used rhs, arr_capacity = arr_capacity rhs, arr = Block (copied_slots rhs)\<rparr>"

text \<open>
  The copy assignment frees the old block, and allocates a new one only when the new
  capacity is not zero; otherwise \<open>arr_\<close> still points at the freed block.
\<close>

definition assign_arr :: "'a dyn_array \<Rightarrow> 'a dyn_array \<Rightarrow> 'a dyn_array" where
  "assign_arr a rhs =
     (let s = (case arr a of Null_arr \<Rightarrow> Null_arr | _ \<Rightarrow> Dangling);
          a = a\<lparr>slots_used := slots_used rhs, arr_capacity := arr_capacity rhs, arr := s\<rparr>
      in if arr_capacity a \<noteq> 0 then a\<lparr>arr := Block (copied_slots rhs)\<rparr> else a)"

section \<open>Invariant and abstraction\<close>

definition arr_ok :: "'a dyn_array \<Rightarrow> bool" where
  "arr_ok a \<longleftrightarrow>
     (case arr a of
        Null_arr \<Rightarrow> arr_capacity a = 0 \<and> slots_used a = 0
      | Dangling \<Rightarrow> False
      | Block xs \<Rightarrow> length xs = arr_capacity a \<and> slots_used a \<le> arr_capacity a \<and>
                    (\<forall>i < slots_used a. xs ! i \<noteq> None))"

definition elems :: "'a dyn_array \<Rightarrow> 'a list" where
  "elems a =
     (case arr a of Block xs \<Rightarrow> map the (take (slots_used a) xs) | _ \<Rightarrow> [])"

lemma length_elems: "arr_ok a \<Longrightarrow> length (elems a) = slots_used a"
  by (auto simp: arr_ok_def elems_def split: storage.splits)

lemma slot_at_elems:
  assumes "arr_ok a" "i < slots_used a"
  shows "slot_at (arr a) (int i) = Some (elems a ! i)"
  using assms by (auto simp: arr_ok_def elems_def slot_at_def split: storage.splits)

lemma elems_DynArray: "arr_ok DynArray" "elems DynArray = []"
  by (simp_all add: DynArray_def arr_ok_def elems_def)

lemma elems_DynArray_sized: "arr_ok (DynArray_sized n)" "elems (DynArray_sized n) = []"
  by (simp_all add: DynArray_sized_def arr_ok_def elems_def)

lemma grow_ok:
  assumes "arr_ok a" "slots_used a = arr_capacity a"
  obtains a' xs where "grow a = Some a'" "arr_ok a'" "elems a' = elems a" "arr a' = Block xs"
    "slots_used a' = slots_used a" "slots_used a' < length xs"
    "arr_capacity a' \<le> max 1 (2 * slots_used a)"
proof (cases "arr a")
  case Null_arr
  then show thesis using assms
    by (intro that[of "a\<lparr>arr_capacity := 1, arr := Block (replicate 1 None)\<rparr>" "replicate 1 None"])
      (auto simp: grow_def arr_ok_def elems_def)
next
  case Dangling
  then show thesis using assms by (simp add: arr_ok_def)
next
  case (Block xs)
  define cap where "cap = (if arr_capacity a \<noteq> 0 then arr_capacity a * 2 else 1)"
  let ?ys = "xs @ replicate (cap - slots_used a) None"
  have xs: "length xs = slots_used a" "\<forall>i < slots_used a. xs ! i \<noteq> None"
    using assms Block by (simp_all add: arr_ok_def)
  have cap: "slots_used a < cap" "cap \<le> max 1 (2 * slots_used a)"
    using assms(2) by (auto simp: cap_def)
  have "grow a = Some (a\<lparr>arr_capacity := cap, arr := Block ?ys\<rparr>)"
    using Block xs(1) by (simp add: grow_def cap_def Let_def)
  moreover have "arr_ok (a\<lparr>arr_capacity := cap, arr := Block ?ys\<rparr>)"
    using xs cap(1) by (auto simp: arr_ok_def nth_append)
  moreover have "elems (a\<lparr>arr_capacity := cap, arr := Block ?ys\<rparr>) = elems a"
    using Block xs(1) by (simp add: elems_def)
  ultimately show thesis using that cap xs(1) by simp
qed

lemma store_ok:
  assumes "arr_ok a" "arr a = Block xs" "slots_used a < length xs"
  shows "\<exists>s. store_at (arr a) (int (slots_used a)) el = Some s \<and>
    arr_ok (a\<lparr>arr := s, slots_used := slots_used a + 1\<rparr>) \<and>
    elems (a\<lparr>arr := s, slots_used := slots_used a + 1\<rparr>) = elems a @ [el]"
  using assms
  by (auto simp: store_at_def arr_ok_def elems_def less_Suc_eq take_Suc_conv_app_nth nth_list_update)

lemma Append_ok:
  assumes "arr_ok a"
  shows "\<exists>a'. Append a el = Some a' \<and> arr_ok a' \<and> elems a' = elems a @ [el] \<and>
    arr_capacity a' \<le> max (arr_capacity a) (2 * slots_used a')"
proof (cases "slots_used a = arr_capacity a")
  case True
  obtain b xs where b: "grow a = Some b" "arr_ok b" "elems b = elems a" "arr b = Block xs"
    "slots_used b = slots_used a" "slots_used b < length xs"
    "arr_capacity b \<le> max 1 (2 * slots_used a)"
    by (rule grow_ok[OF assms True])
  obtain s where s: "store_at (arr b) (int (slots_used b)) el = Some s"
    "arr_ok (b\<lparr>arr := s, slots_used := slots_used b + 1\<rparr>)"
    "elems (b\<lparr>arr := s, slots_used := slots_used b + 1\<rparr>) = elems b @ [el]"
    using store_ok[OF b(2,4,6)] by blast
  then show ?thesis using True b by (auto simp: Append_def)
next
  case False
  then obtain xs where xs: "arr a = Block xs" "slots_used a < length xs"
    using assms by (auto simp: arr_ok_def split: storage.splits)
  obtain s where s: "store_at (arr a) (int (slots_used a)) el = Some s"
    "arr_ok (a\<lparr>arr := s, slots_used := slots_used a + 1\<rparr>)"
    "elems (a\<lparr>arr := s, slots_used := slots_used a + 1\<rparr>) = elems a @ [el]"
    using store_ok[OF assms xs] by blast
  then show ?thesis using False by (auto simp: Append_def)
qed

lemma index_elems:
  assumes "arr_ok a" "- int (slots_used a) \<le> i" "i < int (slots_used a)"
  shows "index a i = Some (elems a ! nat (if 0 \<le> i then i else int (slots_used a) + i))"
proof (cases "0 \<le> i")
  case True
  then show ?thesis
    using slot_at_elems[OF assms(1), of "nat i"] assms(3) by (simp add: index_def)
next
  case False
  then have "slot_at (arr a) (int (nat (int (slots_used a) + i))) =
      Some (elems a ! nat (int (slots_used a) + i))"
    using assms by (intro slot_at_elems) auto
  then show ?thesis using False assms(2) by (simp add: index_def)
qed

lemma copied_slots_elems:
  assumes "arr_ok a"
  shows "copied_slots a = map Some (elems a) @ replicate (arr_capacity a - slots_used a) None"
  using assms length_elems[OF assms]
  by (auto simp: copied_slots_def Size_def index_elems intro!: nth_equalityI)

lemma arr_ok_le: "arr_ok a \<Longrightarrow> slots_used a \<le> arr_capacity a"
  by (auto simp: arr_ok_def split: storage.splits)

lemma copy_arr_ok:
  assumes "arr_ok a"
  shows "arr_ok (copy_arr a)" "elems (copy_arr a) = elems a"
  using assms length_elems[OF assms] arr_ok_le[OF assms]
  by (auto simp: copy_arr_def arr_ok_def elems_def copied_slots_elems nth_append comp_def)

lemma assign_arr_ok:
  assumes "arr_ok b" "arr_capacity b \<noteq> 0"
  shows "arr_ok (assign_arr a b)" "elems (assign_arr a b) = elems b"
  using assms length_elems[OF assms(1)] arr_ok_le[OF assms(1)]
  by (auto simp: assign_arr_def arr_ok_def elems_def copied_slots_elems nth_append comp_def Let_def)

section \<open>The interface\<close>

text \<open>
  What the kernel's code relies on when it collects results in an array: appending adds at the
  end, and the index operator reads back, from the front or (with a negative index) the back.
\<close>

locale growable =
  fixes inv :: "'s \<Rightarrow> bool" and elts :: "'s \<Rightarrow> 'a list"
    and app :: "'s \<Rightarrow> 'a \<Rightarrow> 's option" and idx :: "'s \<Rightarrow> int \<Rightarrow> 'a option"
  assumes app_elts: "inv a \<Longrightarrow> \<exists>a'. app a x = Some a' \<and> inv a' \<and> elts a' = elts a @ [x]"
    and idx_elts: "inv a \<Longrightarrow> - int (length (elts a)) \<le> i \<Longrightarrow> i < int (length (elts a)) \<Longrightarrow>
      idx a i = Some (elts a ! nat (i mod int (length (elts a))))"
begin

lemma append_all:
  "inv a \<Longrightarrow> \<exists>a'. fold (\<lambda>x r. Option.bind r (\<lambda>a. app a x)) xs (Some a) = Some a' \<and>
     inv a' \<and> elts a' = elts a @ xs"
proof (induction xs arbitrary: a)
  case (Cons x xs)
  obtain b where "app a x = Some b" "inv b" "elts b = elts a @ [x]"
    using app_elts[OF Cons.prems] by blast
  then show ?case using Cons.IH[of b] by simp
qed simp

lemma last_index:
  assumes "inv a" "elts a \<noteq> []"
  shows "idx a (-1) = Some (last (elts a))"
proof -
  let ?n = "int (length (elts a))"
  have "0 < ?n" using assms(2) by simp
  then have "(-1) mod ?n = ?n - 1" by (simp add: zmod_minus1)
  then have "nat ((-1) mod ?n) = length (elts a) - 1" by simp
  then show ?thesis
    using idx_elts[OF assms(1), of "-1"] assms(2) \<open>0 < ?n\<close>
    by (simp add: last_conv_nth)
qed

end

interpretation darr: growable arr_ok elems Append index
proof unfold_locales
  fix a :: "'a dyn_array" and x i
  show "arr_ok a \<Longrightarrow> \<exists>a'. Append a x = Some a' \<and> arr_ok a' \<and> elems a' = elems a @ [x]"
    using Append_ok[of a x] by fast
  assume a: "arr_ok a" and i: "- int (length (elems a)) \<le> i" "i < int (length (elems a))"
  have "i mod int (slots_used a) = (if 0 \<le> i then i else int (slots_used a) + i)"
  proof (cases "0 \<le> i")
    case False
    have "i mod int (slots_used a) = (i + int (slots_used a)) mod int (slots_used a)" by simp
    also have "\<dots> = i + int (slots_used a)"
      using False i length_elems[OF a] by (intro mod_pos_pos_trivial) simp_all
    finally show ?thesis using False by simp
  qed (use i length_elems[OF a] in simp)
  then show "index a i = Some (elems a ! nat (i mod int (length (elems a))))"
    using index_elems[OF a, of i] i length_elems[OF a] by simp
qed

section \<open>Properties\<close>

text \<open>
  Appending any list of values to a well-formed array (through any number of
  reallocations) returns, keeps the array well formed, and afterwards the index operator
  reads exactly the old elements followed by the new ones.
\<close>

theorem dyn_array_append_all:
  assumes "arr_ok a"
  shows "\<exists>a'. fold (\<lambda>x r. Option.bind r (\<lambda>a. Append a x)) xs (Some a) = Some a' \<and> arr_ok a' \<and>
    Size a' = Size a + length xs \<and>
    (\<forall>i<Size a. index a' (int i) = index a (int i)) \<and>
    (\<forall>i<length xs. index a' (int (Size a + i)) = Some (xs ! i)) \<and>
    (xs \<noteq> [] \<longrightarrow> index a' (-1) = Some (last xs) \<and> Back a' = Some (last xs))"
proof -
  obtain a' where a': "fold (\<lambda>x r. Option.bind r (\<lambda>a. Append a x)) xs (Some a) = Some a'"
    "arr_ok a'" "elems a' = elems a @ xs"
    using darr.append_all[OF assms] by blast
  have n: "slots_used a' = slots_used a + length xs"
    using length_elems[OF a'(2)] length_elems[OF assms] a'(3) by simp
  have bk: "Back a' = index a' (-1)" if "xs \<noteq> []"
    by (simp add: Back_def index_def)
  have "index a' (-1) = Some (last xs)" if "xs \<noteq> []"
    using darr.last_index[OF a'(2)] a'(3) that by simp
  moreover have "index a' (int i) = Some ((elems a @ xs) ! i)" if "i < slots_used a + length xs" for i
    using that n a'(3) index_elems[OF a'(2), of "int i"] by simp
  moreover have "index a (int i) = Some (elems a ! i)" if "i < slots_used a" for i
    using that index_elems[OF assms, of "int i"] by simp
  ultimately show ?thesis
    using a' n bk length_elems[OF assms] by (auto simp: Size_def nth_append simp del: of_nat_add)
qed

theorem dyn_array_append_all_witness:
  "\<exists>a. fold (\<lambda>x r. Option.bind r (\<lambda>a. Append a x)) [3, 1, 4::nat] (Some DynArray) = Some a \<and>
       index a 1 = Some 1 \<and> Back a = Some 4"
  using dyn_array_append_all[OF elems_DynArray(1), of "[3, 1, 4::nat]"]
  by (fastforce simp: Size_def DynArray_def dest: spec[of _ "1 :: nat"])

text \<open>
  the capacity at most doubles: an array grown from empty by \<open>Append\<close> never holds more than
  twice as many slots as elements.
\<close>

theorem dyn_array_capacity_bound:
  assumes "arr_ok a" "arr_capacity a \<le> 2 * Size a" "Append a el = Some a'"
  shows "arr_capacity a' \<le> 2 * Size a'"
proof -
  have "slots_used a' = slots_used a + 1"
    using assms(3) by (auto simp: Append_def grow_def Let_def split: option.splits storage.splits if_splits)
  then show ?thesis using Append_ok[OF assms(1), of el] assms(2,3) by (auto simp: Size_def)
qed

theorem dyn_array_capacity_bound_witness:
  "arr_capacity (\<lparr>slots_used = 1, arr_capacity = 1, arr = Block [Some True]\<rparr>) = 1 \<and>
   (\<exists>a. Append \<lparr>slots_used = 1, arr_capacity = 1, arr = Block [Some True]\<rparr> False = Some a \<and>
        arr_capacity a \<le> 2 * Size a)"
proof -
  let ?a = "\<lparr>slots_used = 1, arr_capacity = 1, arr = Block [Some True]\<rparr>"
  have ok: "arr_ok ?a" by (simp add: arr_ok_def)
  obtain b where "Append ?a False = Some b" using Append_ok[OF ok] by blast
  then show ?thesis using dyn_array_capacity_bound[OF ok] by (auto simp: Size_def)
qed

text \<open>
  After the assignment \<open>a = b\<close> from an array without capacity, \<open>arr_\<close> still points to the
  block just freed: the next \<open>Append\<close> reallocates a dangling pointer. Every other copy of a
  well-formed array has the same elements.
\<close>

theorem dyn_array_assign:
  assumes "arr_ok a" "arr_ok b"
  shows "elems (copy_arr b) = elems b \<and>
    (arr_capacity b \<noteq> 0 \<longrightarrow> arr_ok (assign_arr a b) \<and> elems (assign_arr a b) = elems b) \<and>
    (arr_capacity b = 0 \<and> arr_capacity a \<noteq> 0 \<longrightarrow> Append (assign_arr a b) el = None)"
proof -
  have "arr (assign_arr a b) = Dangling" if "arr_capacity b = 0" "arr_capacity a \<noteq> 0"
    using that assms(1) by (auto simp: assign_arr_def Let_def arr_ok_def split: storage.splits)
  moreover have "arr_capacity (assign_arr a b) = 0" "slots_used (assign_arr a b) = 0"
    if "arr_capacity b = 0"
    using that arr_ok_le[OF assms(2)] by (simp_all add: assign_arr_def Let_def split: storage.splits)
  ultimately show ?thesis
    using copy_arr_ok[OF assms(2)] assign_arr_ok[OF assms(2), of a]
    by (simp add: Append_def grow_def Let_def)
qed

theorem dyn_array_assign_witness:
  "Append (assign_arr (DynArray_sized 4) DynArray) True = None"
  using dyn_array_assign[OF elems_DynArray_sized(1) elems_DynArray(1), of 4 True]
  by (simp add: DynArray_def DynArray_sized_def)

text \<open>
  \<open>Lookup\<close> with a negative index never reads an element: where \<open>operator[]\<close> counts from
  the back, \<open>Lookup\<close> adds the distance and reads above the used slots.
\<close>

theorem dyn_array_lookup_negative:
  assumes "arr_ok a" "0 < d" "d \<le> Size a"
  shows "index a (- int d) = Some (elems a ! (Size a - d)) \<and>
    Lookup_arr a (- int d) = slot_at (arr a) (int (Size a + d))"
proof -
  have "nat (int (slots_used a) - int d) = slots_used a - d" by simp
  then show ?thesis
    using assms index_elems[OF assms(1), of "- int d"]
    by (auto simp: Lookup_arr_def Size_def)
qed

theorem dyn_array_lookup_negative_witness:
  "index \<lparr>slots_used = 1, arr_capacity = 1, arr = Block [Some True]\<rparr> (-1) = Some True \<and>
   Lookup_arr \<lparr>slots_used = 1, arr_capacity = 1, arr = Block [Some True]\<rparr> (-1) = None"
  using dyn_array_lookup_negative[of "\<lparr>slots_used = 1, arr_capacity = 1, arr = Block [Some True]\<rparr>" 1]
  by (simp add: arr_ok_def Size_def slot_at_def elems_def)

end
