(* ===== verification/Ds_String.thy ===== *)
theory Ds_String
  imports Libc_String
begin

text \<open>
  \<open>ds::String\<close> of \<open>src/ds/string.h\<close>. A string object owns a block of exactly \<open>len_\<close> bytes, so
  the model of an object is that list of bytes, the final NUL included; \<open>len_\<close> is its length.
  Reads outside the block have the value \<open>None\<close>. The lemmas show that slicing and comparison
  are those of the text (the bytes before the NUL).
\<close>

type_synonym ds_string = "u8 list"

section \<open>The code\<close>

definition String_len :: "nat \<Rightarrow> ds_string" where
  "String_len len = replicate (len + 1) 0"

text \<open>\<open>BaseString(const char *)\<close>, from the characters before the NUL.\<close>

definition String_cstr :: "u8 list \<Rightarrow> ds_string" where
  "String_cstr str = map (\<lambda>i. if i < length str then str ! i else 0) [0..<length str + 1]"

text \<open>\<open>BaseString(const char *, size_t)\<close>, from the bytes at the pointer.\<close>

definition String_buf :: "u8 list \<Rightarrow> nat \<Rightarrow> ds_string option" where
  "String_buf str len =
     (if length str < len then None
      else let n = (if len \<noteq> 0 then if str ! (len - 1) = 0 then len else len + 1 else 1)
           in Some ((take len str @ replicate (n - len) 0)[n - 1 := 0]))"

definition copy_String :: "ds_string \<Rightarrow> ds_string" where
  "copy_String rhs = map (\<lambda>i. rhs ! i) [0..<length rhs]"

definition Len_str :: "ds_string \<Rightarrow> nat" where
  "Len_str s = length s"

text \<open>
  \<open>Substr\<close>: a negative position counts from the end of the text. The sums are in \<open>size_t\<close>.
\<close>

definition Substr_ind :: "nat \<Rightarrow> int \<Rightarrow> nat" where
  "Substr_ind len i = nat ((if 0 \<le> i then i else int len + i) mod 2 ^ 64)"

definition Substr :: "ds_string \<Rightarrow> int \<Rightarrow> int \<Rightarrow> ds_string option" where
  "Substr s start end1 =
     (let len = length s - 1;
          end_ind = Substr_ind len end1;
          start_ind = Substr_ind len start
      in if end_ind = start_ind then Some (String_cstr [])
         else if length s < start_ind then None
         else String_buf (drop start_ind s) (nat ((int end_ind - int start_ind) mod 2 ^ 64)))"

text \<open>
  \<open>operator ==\<close>: the two blocks are in one memory, \<open>lhs\<close> at address 0 and \<open>rhs\<close> after it.
\<close>

definition block_mem :: "u8 list \<Rightarrow> mem" where
  "block_mem bs = (\<lambda>a. if a < length bs then bs ! a else 0)"

definition String_eq :: "ds_string \<Rightarrow> ds_string \<Rightarrow> bool" where
  "String_eq lhs rhs \<longleftrightarrow>
     length lhs = length rhs \<and>
     strncmp (block_mem (lhs @ rhs)) 0 (length lhs) (length lhs) = 0"

text \<open>\<open>operator []\<close>, the const version and the value read through the other.\<close>

definition at_const :: "ds_string \<Rightarrow> int \<Rightarrow> u8 option" where
  "at_const s i =
     (if 0 \<le> i \<and> i < int (length s) then Some (s ! nat i)
      else if i < 0 \<and> i + int (length s) < 0 then None
      else Some 0)"

definition at_ref :: "ds_string \<Rightarrow> int \<Rightarrow> u8 option" where
  "at_ref s i =
     (let j = (if 0 \<le> i then i else int (length s) - i)
      in if j < int (length s) then Some (s ! nat j) else None)"

section \<open>Well-formed strings\<close>

definition str_ok :: "ds_string \<Rightarrow> bool" where
  "str_ok s \<longleftrightarrow> s \<noteq> [] \<and> last s = 0 \<and> 0 \<notin> set (butlast s)"

lemma String_cstr_eq: "String_cstr t = t @ [0]"
  by (auto simp: String_cstr_def intro!: nth_equalityI simp: nth_append)

lemma str_ok_cstr: "0 \<notin> set t \<Longrightarrow> str_ok (t @ [0])"
  by (simp add: str_ok_def)

lemma str_okE:
  assumes "str_ok s"
  obtains t where "s = t @ [0]" "0 \<notin> set t"
  using assms that[of "butlast s"] by (auto simp: str_ok_def) (metis append_butlast_last_id)

lemma copy_String_eq: "copy_String s = s"
  by (simp add: copy_String_def map_nth)

lemma Substr_ind_nonneg: "i < 2 ^ 64 \<Longrightarrow> Substr_ind len (int i) = i"
  by (simp add: Substr_ind_def)

lemma Substr_ind_neg: "d \<le> len \<Longrightarrow> len < 2 ^ 64 \<Longrightarrow> 0 < d \<Longrightarrow> Substr_ind len (- int d) = len - d"
  by (simp add: Substr_ind_def)

lemma String_buf_text:
  assumes "0 \<notin> set t"
  shows "n \<le> length t \<Longrightarrow> String_buf (t @ [0]) n = Some (take n t @ [0])"
    and "String_buf (t @ [0]) (length t + 1) = Some (t @ [0])"
proof -
  show "String_buf (t @ [0]) (length t + 1) = Some (t @ [0])"
    by (simp add: String_buf_def)
  assume n: "n \<le> length t"
  have "t ! (n - 1) \<noteq> 0" if "0 < n" using assms n that by (metis Suc_pred' less_eq_Suc_le nth_mem)
  then show "String_buf (t @ [0]) n = Some (take n t @ [0])"
    using n by (auto simp: String_buf_def nth_append Let_def list_update_append)
qed

lemma Substr_text:
  assumes "0 \<notin> set t" "i \<le> j" "j \<le> length t + 1" "i \<le> length t" "length t < 2 ^ 31"
  shows "Substr (t @ [0]) (int i) (int j) = Some (drop i (take j t) @ [0])"
proof (cases "i = j")
  case True
  with assms show ?thesis by (simp add: Substr_def Let_def Substr_ind_nonneg String_cstr_eq)
next
  case False
  have inds: "Substr_ind n (int i) = i" "Substr_ind n (int j) = j" for n
    using assms by (simp_all add: Substr_ind_nonneg)
  have "(int j - int i) mod 2 ^ 64 = int (j - i)" using assms by simp
  then have d: "nat ((int j - int i) mod 2 ^ 64) = j - i" by simp
  have no: "0 \<notin> set (drop i t)" using assms(1) set_drop_subset by fastforce
  have "String_buf (drop i t @ [0]) (j - i) = Some (drop i (take j t) @ [0])"
  proof (cases "j \<le> length t")
    case True
    then show ?thesis using String_buf_text(1)[OF no, of "j - i"] by (simp add: drop_take)
  next
    case False
    then have "j = length t + 1" using assms by simp
    then show ?thesis using String_buf_text(2)[OF no] assms by (simp add: Suc_diff_le)
  qed
  then show ?thesis
    unfolding Substr_def Let_def inds d using False assms by simp
qed

lemma cstr_block_mem:
  assumes "0 \<notin> set t"
  shows "cstr (block_mem (xs @ t @ 0 # ys)) (length xs) t"
  using assms
proof (induction t arbitrary: xs)
  case Nil
  then show ?case by (simp add: block_mem_def nth_append)
next
  case (Cons c t)
  then show ?case using Cons.IH[of "xs @ [c]"] by (simp add: block_mem_def nth_append)
qed

lemma String_eq_iff:
  assumes "str_ok s" "str_ok t" "length s < 2 ^ 64"
  shows "String_eq s t \<longleftrightarrow> s = t"
proof -
  obtain u v where s: "s = u @ [0]" "0 \<notin> set u" and t: "t = v @ [0]" "0 \<notin> set v"
    using assms(1,2) by (meson str_okE)
  let ?m = "block_mem (s @ t)"
  have u: "cstr ?m 0 u" and v: "cstr ?m (length s) v"
    using cstr_block_mem[OF s(2), of "[]" t] cstr_block_mem[OF t(2), of s "[]"] s t by simp_all
  have "(of_nat (length s) - 1 :: u64) = of_nat (length u)" using s(1) by simp
  moreover have "unat (of_nat (length u) :: u64) = length u"
    unfolding unat_of_nat using assms(3) s(1) by simp
  ultimately have "strncmp ?m 0 (length s) (length s) = strncmp_loop ?m 0 (length s) (length u)"
    by (simp add: strncmp_def)
  also have "\<dots> = lex_diff u (take (Suc (length u)) v)"
    using strncmp_loop_lex_diff[OF u v, of "length u"] by simp
  finally have "String_eq s t \<longleftrightarrow> length u = length v \<and> lex_diff u v = 0"
    using s(1) t(1) by (auto simp: String_eq_def)
  then show ?thesis using lex_diff_eq_0[OF s(2) t(2)] s(1) t(1) by auto
qed

section \<open>Properties\<close>

text \<open>
  Slicing. For a string holding the text \<open>t\<close>, \<open>Substr(i, j)\<close> with \<open>i \<le> j\<close>, where \<open>j\<close> may be
  \<open>Len()\<close> (which counts the NUL), is the string of the characters \<open>i\<close> to \<open>j - 1\<close> of the text,
  NUL-terminated; positions may equivalently be given from the end.
\<close>

theorem Substr_slices:
  assumes "0 \<notin> set t" "i \<le> j" "j \<le> length t + 1" "i \<le> length t" "length t < 2 ^ 31"
  shows "Substr (t @ [0]) (int i) (int j) = Some (drop i (take j t) @ [0]) \<and>
    (j < length t \<longrightarrow> Substr (t @ [0]) (int i) (int j - int (length t)) = Some (drop i (take j t) @ [0]))"
proof -
  have "Substr_ind (length t) (int j - int (length t)) = j" if "j < length t"
    using Substr_ind_neg[of "length t - j" "length t"] that assms(5) by simp
  then show ?thesis
    using Substr_text[OF assms] assms(5) by (auto simp: Substr_def Let_def Substr_ind_nonneg)
qed

theorem Substr_slices_witness:
  "Substr [47, 97, 47, 98, 0] 0 3 = Some [47, 97, 47, 0] \<and>
   Substr [47, 97, 47, 98, 0] 3 5 = Some [98, 0]"
  using Substr_slices[of "[47, 97, 47, 98]" 0 3] Substr_slices[of "[47, 97, 47, 98]" 3 5]
  by (simp add: numeral_3_eq_3)

text \<open>
  on NUL-terminated strings without embedded NULs \<open>operator ==\<close> is equality of the text,
  so file names compared through it (and keys of the maps indexed by names) are the same
  exactly when their bytes are.
\<close>

theorem String_eq_text:
  assumes "0 \<notin> set t" "0 \<notin> set u" "length t < 2 ^ 63"
  shows "String_eq (String_cstr t) (String_cstr u) \<longleftrightarrow> t = u"
  using String_eq_iff[of "t @ [0]" "u @ [0]"] str_ok_cstr assms by (simp add: String_cstr_eq)

theorem String_eq_text_witness:
  "\<not> String_eq (String_cstr [97]) (String_cstr [98])"
  using String_eq_text[of "[97]" "[98]"] by simp

text \<open>
  the index operator on a constant string returns the NUL character for every negative
  index inside the string, where the other version reads above the end of the block: neither
  counts from the back.
\<close>

theorem at_negative:
  assumes "0 < d" "d \<le> length s"
  shows "at_const s (- int d) = Some 0 \<and> at_ref s (- int d) = None"
  using assms by (simp add: at_const_def at_ref_def)

theorem at_negative_witness: "at_const [97, 98, 0] (-2) = Some 0"
  using at_negative[of 2 "[97, 98, 0]"] by simp

end
