(* ===== verification/Ref_Cnt.thy ===== *)
theory Ref_Cnt
  imports Prelude
begin

text \<open>
  \<open>ds::RefCntPtr\<close> of \<open>src/ds/ref_cnt_ptr.h\<close> and the assignment of a \<open>ds::Optional\<close> that holds one
  (\<open>src/ds/optional.h\<close>). The state is the heap of counters, the set of live pointees, and the
  pointer objects themselves, named by the variables (or fields) that hold them. A step that
  reads a freed counter or frees a block twice has no result: \<open>None\<close>.

  The invariant says that every counter is the number of pointer objects that share it. It is
  kept by every constructor, assignment, move and destructor, and gives memory safety: no
  operation touches a freed counter, and the pointee lives exactly as long as an owner.
\<close>

section \<open>The code\<close>

text \<open>\<open>raw_ptr\<close> and \<open>refs\<close> are addresses, \<open>None\<close> the null pointer.\<close>

record ptr_obj =
  raw_ptr :: "nat option"
  refs :: "nat option"

record rc_state =
  counters :: "nat \<Rightarrow> nat option"
  pointees :: "nat set"
  objs :: "nat \<Rightarrow> ptr_obj option"

definition null_ptr :: ptr_obj where "null_ptr = \<lparr>raw_ptr = None, refs = None\<rparr>"

text \<open>\<open>RefCntPtr()\<close> for the variable \<open>x\<close>.\<close>

definition new_null :: "nat \<Rightarrow> rc_state \<Rightarrow> rc_state" where
  "new_null x s = s\<lparr>objs := (objs s)(x \<mapsto> null_ptr)\<rparr>"

text \<open>
  \<open>RefCntPtr(T *ptr)\<close>: \<open>r\<close> is the address that the allocator returns for the counter.
\<close>

definition new_ptr :: "nat \<Rightarrow> nat option \<Rightarrow> nat \<Rightarrow> rc_state \<Rightarrow> rc_state" where
  "new_ptr x p r s =
     s\<lparr>counters := (counters s)(r \<mapsto> 1),
       objs := (objs s)(x \<mapsto> \<lparr>raw_ptr = p, refs = Some r\<rparr>)\<rparr>"

text \<open>\<open>++(*refs)\<close>: a null or freed counter traps.\<close>

definition increment :: "nat option \<Rightarrow> rc_state \<Rightarrow> rc_state option" where
  "increment r s =
     (case r of None \<Rightarrow> None
      | Some a \<Rightarrow> (case counters s a of None \<Rightarrow> None
                   | Some c \<Rightarrow> Some (s\<lparr>counters := (counters s)(a \<mapsto> c + 1)\<rparr>)))"

text \<open>\<open>allocator_t::Free(raw_ptr)\<close>, if it is not null.\<close>

definition free_pointee :: "nat option \<Rightarrow> rc_state \<Rightarrow> rc_state option" where
  "free_pointee p s =
     (case p of None \<Rightarrow> Some s
      | Some a \<Rightarrow> if a \<in> pointees s then Some (s\<lparr>pointees := pointees s - {a}\<rparr>) else None)"

text \<open>
  The block that the destructor and both assignments share: decrement the counter and free
  counter and pointee when it has become zero.
\<close>

definition release :: "ptr_obj \<Rightarrow> rc_state \<Rightarrow> rc_state option" where
  "release o1 s =
     (case refs o1 of
        None \<Rightarrow> Some s
      | Some a \<Rightarrow>
          (case counters s a of
             None \<Rightarrow> None
           | Some c \<Rightarrow>
               if c - 1 = 0
               then free_pointee (raw_ptr o1) (s\<lparr>counters := (counters s)(a := None)\<rparr>)
               else Some (s\<lparr>counters := (counters s)(a \<mapsto> c - 1)\<rparr>)))"

text \<open>\<open>RefCntPtr(const RefCntPtr &rhs)\<close>\<close>

definition copy_ptr :: "nat \<Rightarrow> nat \<Rightarrow> rc_state \<Rightarrow> rc_state option" where
  "copy_ptr x y s =
     (case objs s y of None \<Rightarrow> None
      | Some rhs \<Rightarrow>
          map_option (\<lambda>s. s\<lparr>objs := (objs s)(x \<mapsto> rhs)\<rparr>) (increment (refs rhs) s))"

text \<open>\<open>operator=(const RefCntPtr &rhs)\<close>\<close>

definition assign_ptr :: "nat \<Rightarrow> nat \<Rightarrow> rc_state \<Rightarrow> rc_state option" where
  "assign_ptr x y s =
     (if x = y then Some s
      else case (objs s x, objs s y) of
             (Some lhs, Some rhs) \<Rightarrow>
               (case release lhs s of None \<Rightarrow> None
                | Some s \<Rightarrow> map_option (\<lambda>s. s\<lparr>objs := (objs s)(x \<mapsto> rhs)\<rparr>) (increment (refs rhs) s))
           | _ \<Rightarrow> None)"

text \<open>\<open>RefCntPtr(RefCntPtr &&rhs)\<close> and the move assignment, which has no test for \<open>&rhs == this\<close>.\<close>

definition move_new :: "nat \<Rightarrow> nat \<Rightarrow> rc_state \<Rightarrow> rc_state option" where
  "move_new x y s =
     (case objs s y of None \<Rightarrow> None
      | Some rhs \<Rightarrow> Some (s\<lparr>objs := (objs s)(x \<mapsto> rhs, y \<mapsto> null_ptr)\<rparr>))"

definition move_assign :: "nat \<Rightarrow> nat \<Rightarrow> rc_state \<Rightarrow> rc_state option" where
  "move_assign x y s =
     (case (objs s x, objs s y) of
        (Some lhs, Some rhs) \<Rightarrow>
          map_option (\<lambda>s. s\<lparr>objs := (objs s)(x \<mapsto> rhs, y \<mapsto> null_ptr)\<rparr>) (release lhs s)
      | _ \<Rightarrow> None)"

text \<open>\<open>~RefCntPtr()\<close> does not reset the fields; the object then ends.\<close>

definition destroy :: "nat \<Rightarrow> rc_state \<Rightarrow> rc_state option" where
  "destroy x s =
     (case objs s x of None \<Rightarrow> None
      | Some o1 \<Rightarrow> map_option (\<lambda>s. s\<lparr>objs := (objs s)(x := None)\<rparr>) (release o1 s))"

text \<open>
  \<open>Optional<RefCntPtr>::operator =(const Optional &rhs)\<close>, both holding a value: the
  destructor runs on \<open>val_\<close>, whose fields stay, and then \<open>val_ = rhs.val_\<close> releases it again.
\<close>

definition optional_assign :: "nat \<Rightarrow> nat \<Rightarrow> rc_state \<Rightarrow> rc_state option" where
  "optional_assign x y s =
     (if x = y then Some s
      else case objs s x of None \<Rightarrow> None
           | Some o1 \<Rightarrow> Option.bind (release o1 s) (assign_ptr x y))"

section \<open>The invariant\<close>

definition owners :: "(nat \<Rightarrow> ptr_obj option) \<Rightarrow> nat \<Rightarrow> nat set" where
  "owners obs a = {x. \<exists>ob. obs x = Some ob \<and> refs ob = Some a}"

text \<open>Two owners share the pointee exactly when they share the counter.\<close>

definition shares :: "ptr_obj \<Rightarrow> ptr_obj \<Rightarrow> bool" where
  "shares ob1 ob2 \<longleftrightarrow>
     (refs ob1 \<noteq> None \<longrightarrow> refs ob2 \<noteq> None \<longrightarrow>
        (refs ob1 = refs ob2 \<longrightarrow> raw_ptr ob1 = raw_ptr ob2) \<and>
        (raw_ptr ob1 = raw_ptr ob2 \<longrightarrow> raw_ptr ob1 \<noteq> None \<longrightarrow> refs ob1 = refs ob2))"

definition sharing_ok :: "(nat \<Rightarrow> ptr_obj option) \<Rightarrow> bool" where
  "sharing_ok obs \<longleftrightarrow> (\<forall>ob1\<in>ran obs. \<forall>ob2\<in>ran obs. shares ob1 ob2)"

definition rc_inv :: "rc_state \<Rightarrow> bool" where
  "rc_inv s \<longleftrightarrow>
     finite (dom (objs s)) \<and> sharing_ok (objs s) \<and>
     (\<forall>a. counters s a = (if owners (objs s) a = {} then None else Some (card (owners (objs s) a)))) \<and>
     (\<forall>x ob p. objs s x = Some ob \<longrightarrow> refs ob \<noteq> None \<longrightarrow> raw_ptr ob = Some p \<longrightarrow> p \<in> pointees s)"

lemma owners_upd:
  "owners (obs(x := v)) a =
     (case v of None \<Rightarrow> owners obs a - {x}
      | Some ob \<Rightarrow> if refs ob = Some a then insert x (owners obs a) else owners obs a - {x})"
  by (auto simp: owners_def split: option.splits)

lemma finite_owners: "finite (dom obs) \<Longrightarrow> finite (owners obs a)"
  by (rule finite_subset[of _ "dom obs"]) (auto simp: owners_def)

lemma null_ptr_fields [simp]: "refs null_ptr = None" "raw_ptr null_ptr = None"
  by (simp_all add: null_ptr_def)

lemma shares_null [simp]: "shares null_ptr ob" "shares ob null_ptr"
  by (simp_all add: shares_def null_ptr_def)

lemma ran_upd_subset: "ran (obs(x := v)) \<subseteq> ran obs \<union> set_option v"
  by (auto simp: ran_def split: if_splits)

lemma sharing_ok_subset: "sharing_ok obs \<Longrightarrow> ran obs' \<subseteq> insert null_ptr (ran obs) \<Longrightarrow> sharing_ok obs'"
  unfolding sharing_ok_def by (metis insertE shares_null subsetD)

lemma sharing_ok_remove: "sharing_ok obs \<Longrightarrow> sharing_ok (obs(x := None))"
  by (rule sharing_ok_subset, assumption) (use ran_upd_subset[of obs x None] in auto)

lemma sharing_ok_copy: "obs y = Some ob \<Longrightarrow> sharing_ok obs \<Longrightarrow> sharing_ok (obs(x \<mapsto> ob))"
  by (rule sharing_ok_subset, assumption) (use ran_upd_subset[of obs x "Some ob"] ranI[of obs y ob] in auto)

lemma sharing_ok_null: "sharing_ok obs \<Longrightarrow> sharing_ok (obs(x \<mapsto> null_ptr))"
  by (rule sharing_ok_subset, assumption) (use ran_upd_subset[of obs x "Some null_ptr"] in auto)

lemma sharing_ok_insert:
  assumes "sharing_ok obs" "\<And>y ob'. obs y = Some ob' \<Longrightarrow> shares ob ob' \<and> shares ob' ob" "shares ob ob"
  shows "sharing_ok (obs(x \<mapsto> ob))"
proof -
  have "ran (obs(x \<mapsto> ob)) \<subseteq> insert ob (ran obs)" using ran_upd_subset[of obs x "Some ob"] by auto
  moreover have "\<forall>ob'\<in>ran obs. shares ob ob' \<and> shares ob' ob" using assms(2) by (auto simp: ran_def)
  ultimately show ?thesis using assms(1,3) unfolding sharing_ok_def by blast
qed

lemma sharing_okD:
  "sharing_ok obs \<Longrightarrow> obs x = Some ob1 \<Longrightarrow> obs y = Some ob2 \<Longrightarrow> shares ob1 ob2"
  unfolding sharing_ok_def by (metis ranI)

text \<open>Releasing the object in \<open>x\<close> never traps, and leaves a state that is right without \<open>x\<close>.\<close>

lemma release_inv:
  assumes inv: "rc_inv s" and x: "objs s x = Some ob"
  shows "\<exists>s'. release ob s = Some s' \<and> objs s' = objs s \<and>
    rc_inv (s'\<lparr>objs := (objs s)(x := None)\<rparr>) \<and>
    (\<forall>p. p \<in> pointees s' \<longleftrightarrow> p \<in> pointees s \<and>
         \<not> (raw_ptr ob = Some p \<and> (\<exists>a. refs ob = Some a \<and> owners (objs s) a = {x})))"
proof (cases "refs ob")
  case None
  then have "owners ((objs s)(x := None)) a = owners (objs s) a" for a
    using x by (auto simp: owners_def)
  then show ?thesis
    using None inv sharing_ok_remove by (auto simp: release_def rc_inv_def)
next
  case (Some a)
  have fin: "finite (owners (objs s) a)" using inv finite_owners by (simp add: rc_inv_def)
  have xa: "x \<in> owners (objs s) a" using x Some by (simp add: owners_def)
  have c: "counters s a = Some (card (owners (objs s) a))"
    using inv xa by (auto simp: rc_inv_def)
  have other: "owners ((objs s)(x := None)) b = (if b = a then owners (objs s) a - {x} else owners (objs s) b)" for b
    using x Some by (auto simp: owners_def)
  have alive: "p \<in> pointees s" if "raw_ptr ob = Some p" for p
    using inv x Some that by (simp add: rc_inv_def)
  show ?thesis
  proof (cases "owners (objs s) a = {x}")
    case True
    have sole: "p \<noteq> q" if "raw_ptr ob = Some p" "objs s y = Some ob'" "y \<noteq> x" "refs ob' \<noteq> None"
      "raw_ptr ob' = Some q" for p q y ob'
    proof
      assume "p = q"
      then have "refs ob' = Some a"
        using that inv Some sharing_okD[OF _ x that(2)] by (auto simp: rc_inv_def shares_def)
      then have "y \<in> owners (objs s) a" using that by (simp add: owners_def)
      with True that(3) show False by simp
    qed
    let ?s = "s\<lparr>counters := (counters s)(a := None), pointees := pointees s - set_option (raw_ptr ob)\<rparr>"
    have "release ob s = Some ?s"
      using Some c True alive by (auto simp: release_def free_pointee_def split: option.splits)
    moreover have "rc_inv (?s\<lparr>objs := (objs s)(x := None)\<rparr>)"
      unfolding rc_inv_def
    proof (intro conjI allI impI)
      fix y ob' p
      assume "objs (?s\<lparr>objs := (objs s)(x := None)\<rparr>) y = Some ob'" "refs ob' \<noteq> None" "raw_ptr ob' = Some p"
      then show "p \<in> pointees (?s\<lparr>objs := (objs s)(x := None)\<rparr>)"
        using inv sole[of _ y ob' p] by (auto simp: rc_inv_def split: if_splits)
    qed (use inv sharing_ok_remove other True in \<open>auto simp: rc_inv_def\<close>)
    ultimately show ?thesis using True Some by auto
  next
    case False
    then have ne: "owners (objs s) a - {x} \<noteq> {}" using xa by blast
    have cd: "card (owners (objs s) a - {x}) = card (owners (objs s) a) - 1"
      using fin xa by simp
    moreover have "card (owners (objs s) a - {x}) \<noteq> 0" using ne fin by simp
    ultimately have "release ob s = Some (s\<lparr>counters := (counters s)(a \<mapsto> card (owners (objs s) a) - 1)\<rparr>)"
      using Some c by (simp add: release_def)
    moreover have "rc_inv (s\<lparr>counters := (counters s)(a \<mapsto> card (owners (objs s) a) - 1),
        objs := (objs s)(x := None)\<rparr>)"
      using inv sharing_ok_remove ne cd other by (auto simp: rc_inv_def)
    ultimately show ?thesis using False Some by auto
  qed
qed

text \<open>Incrementing the counter of an owner and storing its copy in a fresh or released \<open>x\<close>.\<close>

lemma increment_inv:
  assumes inv: "rc_inv s" and x: "objs s x = None" and y: "objs s y = Some ob" and r: "refs ob = Some a"
  shows "\<exists>s'. increment (refs ob) s = Some s' \<and> objs s' = objs s \<and> pointees s' = pointees s \<and>
    rc_inv (s'\<lparr>objs := (objs s)(x \<mapsto> ob)\<rparr>)"
proof -
  have ya: "y \<in> owners (objs s) a" using y r by (simp add: owners_def)
  have fin: "finite (owners (objs s) a)" using inv finite_owners by (simp add: rc_inv_def)
  have c: "counters s a = Some (card (owners (objs s) a))" using inv ya by (auto simp: rc_inv_def)
  have xa: "x \<notin> owners (objs s) b" for b using x by (simp add: owners_def)
  have own: "owners ((objs s)(x \<mapsto> ob)) b =
      (if b = a then insert x (owners (objs s) a) else owners (objs s) b)" for b
    using r xa by (auto simp: owners_upd)
  let ?s = "s\<lparr>counters := (counters s)(a \<mapsto> card (owners (objs s) a) + 1)\<rparr>"
  have "increment (refs ob) s = Some ?s" using r c by (simp add: increment_def)
  moreover have "rc_inv (?s\<lparr>objs := (objs s)(x \<mapsto> ob)\<rparr>)"
    unfolding rc_inv_def
  proof (intro conjI allI impI)
    show "sharing_ok (objs (?s\<lparr>objs := (objs s)(x \<mapsto> ob)\<rparr>))"
      using inv sharing_ok_copy[of "objs s" y ob, OF y] by (simp add: rc_inv_def)
    show "counters (?s\<lparr>objs := (objs s)(x \<mapsto> ob)\<rparr>) b =
        (if owners (objs (?s\<lparr>objs := (objs s)(x \<mapsto> ob)\<rparr>)) b = {} then None
         else Some (card (owners (objs (?s\<lparr>objs := (objs s)(x \<mapsto> ob)\<rparr>)) b)))" for b
      using inv xa fin own by (simp add: rc_inv_def)
    fix z ob' p
    assume "objs (?s\<lparr>objs := (objs s)(x \<mapsto> ob)\<rparr>) z = Some ob'" "refs ob' \<noteq> None" "raw_ptr ob' = Some p"
    then show "p \<in> pointees (?s\<lparr>objs := (objs s)(x \<mapsto> ob)\<rparr>)"
      using inv y by (auto simp: rc_inv_def split: if_splits)
  qed (use inv in \<open>simp add: rc_inv_def\<close>)
  ultimately show ?thesis by simp
qed

section \<open>Every operation keeps the invariant\<close>

lemma new_null_inv:
  assumes inv: "rc_inv s" and x: "objs s x = None"
  shows "rc_inv (new_null x s)"
proof -
  have "owners ((objs s)(x \<mapsto> null_ptr)) a = owners (objs s) a" for a
    using x by (auto simp: owners_def null_ptr_def)
  then show ?thesis
    using inv sharing_ok_null by (auto simp: rc_inv_def new_null_def)
qed

lemma new_ptr_inv:
  assumes inv: "rc_inv s" and x: "objs s x = None" and r: "counters s r = None"
    and p: "p \<in> pointees s" "\<forall>y ob. objs s y = Some ob \<longrightarrow> raw_ptr ob = Some p \<longrightarrow> refs ob = None"
  shows "rc_inv (new_ptr x (Some p) r s)"
proof -
  let ?ob = "\<lparr>raw_ptr = Some p, refs = Some r\<rparr>"
  have none: "owners (objs s) r = {}" using inv r by (auto simp: rc_inv_def split: if_splits)
  have own: "owners ((objs s)(x \<mapsto> ?ob)) b = (if b = r then {x} else owners (objs s) b)" for b
    using none x by (auto simp: owners_upd owners_def)
  have "shares ?ob ob \<and> shares ob ?ob" if "objs s y = Some ob" for y ob
    using p(2) that none by (auto simp: shares_def owners_def)
  moreover have "shares ?ob ?ob" by (simp add: shares_def)
  ultimately have "sharing_ok ((objs s)(x \<mapsto> ?ob))"
    using inv by (intro sharing_ok_insert) (auto simp: rc_inv_def)
  then show ?thesis
    using inv p(1) own by (auto simp: rc_inv_def new_ptr_def split: if_splits)
qed

lemma copy_ptr_inv:
  assumes inv: "rc_inv s" and x: "objs s x = None" and s': "copy_ptr x y s = Some s'"
  shows "rc_inv s'"
proof -
  obtain ob a where y: "objs s y = Some ob" and a: "refs ob = Some a"
    using s' by (auto simp: copy_ptr_def increment_def split: option.splits)
  then show ?thesis
    using increment_inv[OF inv x y a] s' by (auto simp: copy_ptr_def)
qed

lemma assign_ptr_inv:
  assumes inv: "rc_inv s" and x: "objs s x = Some lhs" and y: "objs s y = Some rhs"
    and r: "x \<noteq> y \<Longrightarrow> refs rhs \<noteq> None"
  shows "\<exists>s'. assign_ptr x y s = Some s' \<and> rc_inv s' \<and> objs s' = (objs s)(x \<mapsto> rhs)"
proof (cases "x = y")
  case True
  with inv x y show ?thesis by (auto simp: assign_ptr_def)
next
  case False
  obtain a where a: "refs rhs = Some a" using r[OF False] by auto
  obtain s1 where s1: "release lhs s = Some s1" "objs s1 = objs s"
    "rc_inv (s1\<lparr>objs := (objs s)(x := None)\<rparr>)"
    using release_inv[OF inv x] by blast
  let ?s1 = "s1\<lparr>objs := (objs s)(x := None)\<rparr>"
  obtain s2 where s2: "increment (refs rhs) ?s1 = Some s2" "objs s2 = objs ?s1"
    "rc_inv (s2\<lparr>objs := (objs ?s1)(x \<mapsto> rhs)\<rparr>)"
    using increment_inv[OF s1(3), of x y rhs a] a y False by auto
  have "increment (refs rhs) s1 = Some (s2\<lparr>objs := objs s1\<rparr>)"
    using s2(1) by (auto simp: increment_def split: option.splits)
  then have "assign_ptr x y s = Some (s2\<lparr>objs := (objs s)(x \<mapsto> rhs)\<rparr>)"
    using False x y s1 by (simp add: assign_ptr_def)
  then show ?thesis using s2(3) by simp
qed

lemma rc_inv_null_upd:
  assumes "rc_inv (s\<lparr>objs := (objs s)(x := None)\<rparr>)"
  shows "rc_inv (s\<lparr>objs := (objs s)(x \<mapsto> null_ptr)\<rparr>)"
  using new_null_inv[OF assms, of x] by (simp add: new_null_def)

lemma rc_inv_move:
  assumes "rc_inv s" "objs s x = None" "objs s y = Some rhs"
  shows "rc_inv (s\<lparr>objs := (objs s)(x \<mapsto> rhs, y \<mapsto> null_ptr)\<rparr>)"
proof -
  let ?obs = "(objs s)(x \<mapsto> rhs, y \<mapsto> null_ptr)"
  have ne: "x \<noteq> y" using assms by auto
  define g where "g = (\<lambda>z. if z = y then x else z)"
  have own: "owners ?obs a = g ` owners (objs s) a" for a
    using assms(2,3) ne by (auto simp: owners_def null_ptr_def g_def image_iff)
  have inj: "inj_on g (owners (objs s) a)" for a
    using assms(2) by (auto simp: inj_on_def g_def owners_def)
  have "card (owners ?obs a) = card (owners (objs s) a)" "owners ?obs a = {} \<longleftrightarrow> owners (objs s) a = {}" for a
    using card_image[OF inj[of a]] own by auto
  moreover have "sharing_ok ?obs"
    using assms(1,3) by (intro sharing_ok_null sharing_ok_copy) (auto simp: rc_inv_def)
  ultimately show ?thesis
    using assms(1,3) by (auto simp: rc_inv_def null_ptr_def split: if_splits)
qed

lemma move_assign_inv:
  assumes inv: "rc_inv s" and x: "objs s x = Some lhs" and y: "objs s y = Some rhs"
  shows "\<exists>s'. move_assign x y s = Some s' \<and> rc_inv s' \<and>
    objs s' = (objs s)(x \<mapsto> rhs, y \<mapsto> null_ptr)"
proof -
  obtain s1 where s1: "release lhs s = Some s1" "objs s1 = objs s"
    "rc_inv (s1\<lparr>objs := (objs s)(x := None)\<rparr>)"
    using release_inv[OF inv x] by blast
  have "rc_inv (s1\<lparr>objs := (objs s)(x \<mapsto> rhs, y \<mapsto> null_ptr)\<rparr>)"
  proof (cases "x = y")
    case True
    then show ?thesis using rc_inv_null_upd[of s1 x] s1(2,3) by simp
  next
    case False
    then show ?thesis using rc_inv_move[OF s1(3), of x y rhs] y by simp
  qed
  then show ?thesis using x y s1 by (simp add: move_assign_def)
qed

lemma destroy_inv:
  assumes inv: "rc_inv s" and x: "objs s x = Some ob"
  shows "\<exists>s'. destroy x s = Some s' \<and> rc_inv s' \<and> objs s' = (objs s)(x := None) \<and>
    (\<forall>p. p \<in> pointees s' \<longleftrightarrow> p \<in> pointees s \<and>
         \<not> (raw_ptr ob = Some p \<and> (\<exists>a. refs ob = Some a \<and> owners (objs s) a = {x})))"
  using release_inv[OF assms] x by (auto simp: destroy_def)

section \<open>Reachable states\<close>

text \<open>
  All programs over these operations: construction takes a pointee that no counter owns yet
  and a counter cell that is free, as a fresh allocation returns it.
\<close>

inductive rc_step :: "rc_state \<Rightarrow> rc_state \<Rightarrow> bool" where
  allocate: "p \<notin> pointees s \<Longrightarrow> \<forall>y ob. objs s y = Some ob \<longrightarrow> raw_ptr ob = Some p \<longrightarrow> refs ob = None \<Longrightarrow>
    rc_step s (s\<lparr>pointees := insert p (pointees s)\<rparr>)"
| null: "objs s x = None \<Longrightarrow> rc_step s (new_null x s)"
| construct: "objs s x = None \<Longrightarrow> counters s r = None \<Longrightarrow> p \<in> pointees s \<Longrightarrow>
    \<forall>y ob. objs s y = Some ob \<longrightarrow> raw_ptr ob = Some p \<longrightarrow> refs ob = None \<Longrightarrow>
    rc_step s (new_ptr x (Some p) r s)"
| copy: "objs s x = None \<Longrightarrow> copy_ptr x y s = Some s' \<Longrightarrow> rc_step s s'"
| assign: "x \<in> dom (objs s) \<Longrightarrow> assign_ptr x y s = Some s' \<Longrightarrow> rc_step s s'"
| move: "objs s x = None \<Longrightarrow> move_new x y s = Some s' \<Longrightarrow> rc_step s s'"
| moved: "x \<in> dom (objs s) \<Longrightarrow> move_assign x y s = Some s' \<Longrightarrow> rc_step s s'"
| destroyed: "destroy x s = Some s' \<Longrightarrow> rc_step s s'"

inductive_cases rc_stepE: "rc_step s s'"

lemma assign_ptr_source:
  "assign_ptr x y s = Some s' \<Longrightarrow> x \<in> dom (objs s) \<Longrightarrow>
     \<exists>rhs. objs s y = Some rhs \<and> (x \<noteq> y \<longrightarrow> refs rhs \<noteq> None)"
  by (auto simp: assign_ptr_def increment_def split: if_splits option.splits)

lemma rc_step_inv: "rc_step s s' \<Longrightarrow> rc_inv s \<Longrightarrow> rc_inv s'"
proof (induction rule: rc_step.induct)
  case (allocate p s)
  then show ?case by (simp add: rc_inv_def)
next
  case (assign x s y s')
  then obtain lhs rhs where "objs s x = Some lhs" "objs s y = Some rhs" "x \<noteq> y \<Longrightarrow> refs rhs \<noteq> None"
    using assign_ptr_source by blast
  then show ?case using assign_ptr_inv[OF assign.prems] assign.hyps(2) by fastforce
next
  case (move s x y s')
  then show ?case using rc_inv_move by (auto simp: move_new_def split: option.splits)
next
  case (moved x s y s')
  then obtain lhs rhs where "objs s x = Some lhs" "objs s y = Some rhs"
    by (auto simp: move_assign_def split: option.splits)
  then show ?case using move_assign_inv[OF moved.prems] moved.hyps(2) by fastforce
next
  case (destroyed x s s')
  then obtain ob where "objs s x = Some ob" by (auto simp: destroy_def split: option.splits)
  then show ?case using destroy_inv[OF destroyed.prems] destroyed.hyps by fastforce
qed (blast intro: new_null_inv new_ptr_inv copy_ptr_inv)+

definition rc_start :: rc_state where
  "rc_start = \<lparr>counters = Map.empty, pointees = {}, objs = Map.empty\<rparr>"

lemma rc_start_inv: "rc_inv rc_start"
  by (simp add: rc_inv_def rc_start_def owners_def sharing_ok_def)

lemma rc_reach_inv: "rc_step\<^sup>*\<^sup>* rc_start s \<Longrightarrow> rc_inv s"
  by (induction rule: rtranclp_induct) (auto intro: rc_start_inv rc_step_inv)

section \<open>Properties\<close>

text \<open>
  C13: in every state that any sequence of constructions, copies, assignments, moves and
  destructions reaches, each counter is exactly the number of pointer objects sharing it, and
  whoever owns a pointee finds it alive: no use after free.
\<close>

theorem ref_counts_exact:
  assumes "rc_step\<^sup>*\<^sup>* rc_start s"
  shows "(\<forall>a. counters s a = (if owners (objs s) a = {} then None else Some (card (owners (objs s) a)))) \<and>
    (\<forall>x ob p. objs s x = Some ob \<longrightarrow> refs ob \<noteq> None \<longrightarrow> raw_ptr ob = Some p \<longrightarrow> p \<in> pointees s)"
  using rc_reach_inv[OF assms] by (simp add: rc_inv_def)

theorem ref_counts_exact_witness:
  "\<exists>s. rc_step\<^sup>*\<^sup>* rc_start s \<and> objs s 0 = Some null_ptr \<and> counters s 0 = None"
proof -
  have r: "rc_step\<^sup>*\<^sup>* rc_start (new_null 0 rc_start)"
    by (intro r_into_rtranclp rc_step.null) (simp add: rc_start_def)
  moreover have "owners (objs (new_null 0 rc_start)) 0 = {}"
    by (simp add: new_null_def rc_start_def owners_def null_ptr_def)
  ultimately show ?thesis
    using ref_counts_exact[OF r] by (intro exI[of _ "new_null 0 rc_start"]) (simp add: new_null_def)
qed

text \<open>
  destroying a pointer object never traps in a reachable state, and frees the pointee
  exactly when the object was its last owner: nothing is freed early, and nothing leaks.
\<close>

theorem destroy_frees_last:
  assumes "rc_step\<^sup>*\<^sup>* rc_start s" "objs s x = Some ob"
  shows "\<exists>s'. destroy x s = Some s' \<and> objs s' = (objs s)(x := None) \<and>
    (\<forall>p. p \<in> pointees s' \<longleftrightarrow> p \<in> pointees s \<and>
         \<not> (raw_ptr ob = Some p \<and> (\<exists>a. refs ob = Some a \<and> owners (objs s) a = {x})))"
  using destroy_inv[OF rc_reach_inv[OF assms(1)] assms(2)] by blast

theorem destroy_frees_last_witness:
  "\<exists>s. destroy 0 (new_null 0 rc_start) = Some s \<and> objs s = Map.empty"
proof -
  have "rc_step\<^sup>*\<^sup>* rc_start (new_null 0 rc_start)"
    by (intro r_into_rtranclp rc_step.null) (simp add: rc_start_def)
  from destroy_frees_last[OF this, of 0 null_ptr] show ?thesis
    by (auto simp: new_null_def rc_start_def)
qed

text \<open>
  Assigning to a \<open>ds::Optional\<close> that holds the last owner releases it twice: the explicit
  destructor call has freed the counter that the following assignment decrements again.
\<close>

theorem optional_assign_double_release:
  assumes "rc_step\<^sup>*\<^sup>* rc_start s" "objs s x = Some ob" "refs ob = Some a" "owners (objs s) a = {x}"
    and "x \<noteq> y"
  shows "optional_assign x y s = None"
proof -
  have inv: "rc_inv s" using assms(1) by (rule rc_reach_inv)
  obtain s1 where s1: "release ob s = Some s1" "objs s1 = objs s"
    "rc_inv (s1\<lparr>objs := (objs s)(x := None)\<rparr>)"
    using release_inv[OF inv assms(2)] by blast
  have "owners ((objs s)(x := None)) a = {}" using assms(4) by (simp add: owners_upd)
  then have "counters s1 a = None" using s1(3) by (auto simp: rc_inv_def)
  then have "release ob s1 = None" using assms(3) by (simp add: release_def)
  then show ?thesis
    using assms(2,5) s1(1,2) by (auto simp: optional_assign_def assign_ptr_def split: option.splits)
qed

theorem optional_assign_double_release_witness:
  "optional_assign 0 1 (new_ptr 0 (Some 7) 9 (rc_start\<lparr>pointees := {7}\<rparr>)) = None"
proof -
  let ?s = "rc_start\<lparr>pointees := insert 7 (pointees rc_start)\<rparr>"
  have "rc_step rc_start ?s" by (rule rc_step.allocate) (simp_all add: rc_start_def)
  moreover have "rc_step ?s (new_ptr 0 (Some 7) 9 ?s)"
    by (rule rc_step.construct) (simp_all add: rc_start_def)
  ultimately have "rc_step\<^sup>*\<^sup>* rc_start (new_ptr 0 (Some 7) 9 ?s)"
    by (meson converse_rtranclp_into_rtranclp r_into_rtranclp)
  from optional_assign_double_release[OF this, of 0 "\<lparr>raw_ptr = Some 7, refs = Some 9\<rparr>" 9 1]
  have "optional_assign 0 1 (new_ptr 0 (Some 7) 9 ?s) = None"
    by (simp add: new_ptr_def rc_start_def owners_def)
  then show ?thesis by (simp add: rc_start_def)
qed

end
