(* ===== verification/Buddy_Allocator.thy ===== *)
theory Buddy_Allocator
  imports Prelude
begin

text \<open>
  \<open>src/sys/buddy_allocator.cpp\<close>: the physical page allocator. The state is the record
  \<open>buddy\<close>: the ranges of usable memory, the heap of free-list entries (one per page, at the
  start of each range), the heads of the free lists and the counters.

  Addresses are \<open>nat\<close>, and 0 is the null pointer. A step that follows a null pointer or indexes
  the array of free lists outside its bounds has no result. The counters are \<open>size_t\<close> and wrap;
  the shifts \<open>1 << n\<close> of the code are shifts of a 32-bit \<open>int\<close> (\<open>int_shl\<close>), whose count the
  processor reduces modulo 32.
\<close>

unbundle bit_operations_syntax

section \<open>State\<close>

record fl_entry =
  forward :: nat
  backward :: nat
  order :: nat
  is_free :: bool

record mem_range =
  mdata_base :: nat
  base :: nat
  mdata_size :: nat
  rsize :: nat
  page_entries :: nat

record buddy =
  mem_ranges :: "mem_range list"
  num_blocks :: u64
  free_lists :: "nat \<Rightarrow> nat"
  mem_in_use :: u64
  total_mem :: u64
  initialized :: bool
  entries :: "nat \<Rightarrow> fl_entry"

definition MAX_ORDER :: nat where "MAX_ORDER = 40"
definition MIN_ORDER :: nat where "MIN_ORDER = 12"
definition MIN_ALLOCATION :: nat where "MIN_ALLOCATION = 0x1000"

text \<open>\<open>sizeof(FreeListEntry)\<close> and \<open>sizeof(MemRange)\<close>.\<close>

definition ENTRY_SIZE :: nat where "ENTRY_SIZE = 24"
definition RANGE_SIZE :: nat where "RANGE_SIZE = 40"

text \<open>\<open>1 << n\<close>, converted from \<open>int\<close> to \<open>size_t\<close>.\<close>

definition int_shl :: "nat \<Rightarrow> u64" where
  "int_shl n = scast (push_bit (n mod 32) (1 :: u32))"

text \<open>\<open>free_lists_[order - MIN_ORDER]\<close>: the model indexes by the order itself.\<close>

definition valid_order :: "nat \<Rightarrow> bool" where
  "valid_order k \<longleftrightarrow> MIN_ORDER \<le> k \<and> k < MAX_ORDER"

section \<open>Arithmetic helpers\<close>

text \<open>\<open>for(i = 0; (1ULL << i) < size; ++i);\<close> with an 8-bit \<open>i\<close>; the count of a 64-bit shift is
  taken modulo 64.\<close>

partial_function (option) CeilLog2_loop :: "nat \<Rightarrow> nat \<Rightarrow> nat option" where
  "CeilLog2_loop sz i =
     (if 2 ^ (i mod 64) < sz then CeilLog2_loop sz ((i + 1) mod 256) else Some i)"

definition CeilLog2 :: "nat \<Rightarrow> nat option" where
  "CeilLog2 sz = CeilLog2_loop sz 0"

definition RoundUp :: "nat \<Rightarrow> nat" where
  "RoundUp sz = ((sz + MIN_ALLOCATION - 1) mod 2 ^ 64 div MIN_ALLOCATION) * MIN_ALLOCATION"

section \<open>Entries and addresses\<close>

text \<open>The two overloads of \<open>EntryRange\<close>: the first range whose (closed) interval holds the address.\<close>

definition EntryRange_addr :: "buddy \<Rightarrow> nat \<Rightarrow> mem_range option" where
  "EntryRange_addr s addr = List.find (\<lambda>r. base r \<le> addr \<and> addr \<le> base r + rsize r) (mem_ranges s)"

definition EntryRange_entry :: "buddy \<Rightarrow> nat \<Rightarrow> mem_range option" where
  "EntryRange_entry s entry =
     List.find (\<lambda>r. mdata_base r \<le> entry \<and> entry \<le> mdata_base r + mdata_size r) (mem_ranges s)"

definition EntryToAddr :: "buddy \<Rightarrow> nat \<Rightarrow> nat" where
  "EntryToAddr s entry =
     (case EntryRange_entry s entry of
        None \<Rightarrow> 0
      | Some r \<Rightarrow> (entry - mdata_base r) div ENTRY_SIZE * MIN_ALLOCATION + base r)"

definition AddrToEntry :: "buddy \<Rightarrow> nat \<Rightarrow> nat" where
  "AddrToEntry s addr =
     (case EntryRange_addr s addr of
        None \<Rightarrow> 0
      | Some r \<Rightarrow> page_entries r + (addr div MIN_ALLOCATION - base r div MIN_ALLOCATION) * ENTRY_SIZE)"

text \<open>
  The shift is one of a 32-bit \<open>int\<close>, so that at order 31 its sign is extended and the sum wraps in 64 bits. Here it does
  not wrap; the theorems speak of orders below 31, where the address of the buddy is in the range.
\<close>

definition BuddyOf :: "buddy \<Rightarrow> nat \<Rightarrow> nat \<Rightarrow> nat" where
  "BuddyOf s addr k =
     (case EntryRange_addr s addr of
        None \<Rightarrow> 0
      | Some r \<Rightarrow> AddrToEntry s (((addr - base r) XOR unat (int_shl k)) + base r))"

section \<open>Free lists\<close>

definition upd_entry :: "nat \<Rightarrow> (fl_entry \<Rightarrow> fl_entry) \<Rightarrow> buddy \<Rightarrow> buddy" where
  "upd_entry e f s = s\<lparr>entries := (entries s)(e := f (entries s e))\<rparr>"

definition set_head :: "nat \<Rightarrow> nat \<Rightarrow> buddy \<Rightarrow> buddy" where
  "set_head k e s = s\<lparr>free_lists := (free_lists s)(k := e)\<rparr>"

definition PushFront :: "nat \<Rightarrow> nat \<Rightarrow> buddy \<Rightarrow> buddy option" where
  "PushFront k entry s =
     (if entry = 0 \<or> \<not> valid_order k then None
      else let head = free_lists s k;
               s = upd_entry entry (\<lambda>e. e\<lparr>order := k, forward := head\<rparr>) s;
               s = (if head \<noteq> 0 then upd_entry head (\<lambda>e. e\<lparr>backward := entry\<rparr>) s else s)
           in Some (set_head k entry s))"

definition PopFront :: "nat \<Rightarrow> buddy \<Rightarrow> (nat \<times> buddy) option" where
  "PopFront k s =
     (let head = free_lists s k
      in if head = 0 \<or> \<not> valid_order k then None
         else let next1 = forward (entries s head);
                  s = set_head k next1 s
              in Some (head, if next1 \<noteq> 0 then upd_entry next1 (\<lambda>e. e\<lparr>backward := 0\<rparr>) s else s))"

definition Remove :: "nat \<Rightarrow> buddy \<Rightarrow> buddy option" where
  "Remove entry s =
     (if entry = 0 then None
      else let e = entries s entry;
               s = (if forward e \<noteq> 0 then upd_entry (forward e) (\<lambda>x. x\<lparr>backward := backward e\<rparr>) s else s);
               s = (if backward e \<noteq> 0 then upd_entry (backward e) (\<lambda>x. x\<lparr>forward := forward e\<rparr>) s else s);
               k = order e
           in if MIN_ORDER \<le> k \<and> MAX_ORDER \<le> k then None
              else let s = (if MIN_ORDER \<le> k \<and> free_lists s k = entry
                            then set_head k (forward (entries s entry)) s
                            else s)
                   in Some (upd_entry entry (\<lambda>x. x\<lparr>forward := 0, backward := 0\<rparr>) s))"

section \<open>Splitting and merging\<close>

definition Split :: "nat \<Rightarrow> nat \<Rightarrow> buddy \<Rightarrow> (nat \<times> buddy) option" where
  "Split entry k s =
     (let entry_addr = EntryToAddr s entry;
          buddy_entry = BuddyOf s entry_addr (k - 1)
      in case Option.bind (Remove buddy_entry s) (Remove entry) of
           None \<Rightarrow> None
         | Some s \<Rightarrow>
             (let s = upd_entry entry (\<lambda>e. e\<lparr>order := k - 1\<rparr>) s;
                  s = upd_entry buddy_entry (\<lambda>e. e\<lparr>order := k - 1\<rparr>) s;
                  s = upd_entry entry (\<lambda>e. e\<lparr>is_free := True\<rparr>) s
              in map_option (Pair buddy_entry) (PushFront (k - 1) entry s)))"

definition Merge :: "nat \<Rightarrow> nat \<Rightarrow> buddy \<Rightarrow> (nat \<times> buddy) option" where
  "Merge buddy1 buddy2 s =
     (let base_buddy = (if buddy1 < buddy2 then buddy1 else buddy2);
          upper_buddy = (if buddy1 < buddy2 then buddy2 else buddy1)
      in case Option.bind (Remove base_buddy s) (Remove upper_buddy) of
           None \<Rightarrow> None
         | Some s \<Rightarrow>
             (let k = order (entries s base_buddy) + 1
              in map_option (Pair base_buddy)
                   (PushFront k base_buddy (upd_entry base_buddy (\<lambda>e. e\<lparr>order := k\<rparr>) s))))"

definition Mergeable :: "nat \<Rightarrow> nat \<Rightarrow> buddy \<Rightarrow> bool" where
  "Mergeable entry buddy s \<longleftrightarrow>
     EntryRange_addr s (EntryToAddr s buddy) \<noteq> None \<and>
     is_free (entries s buddy) \<and> order (entries s buddy) = order (entries s entry)"

section \<open>Allocate, Free, Realloc\<close>

text \<open>The search for the first non-empty list: \<open>n\<close> orders are left to look at.\<close>

fun first_list :: "buddy \<Rightarrow> nat \<Rightarrow> nat \<Rightarrow> nat option" where
  "first_list s k 0 = None"
| "first_list s k (Suc n) = (if free_lists s k \<noteq> 0 then Some k else first_list s (k + 1) n)"

fun split_loop :: "nat \<Rightarrow> nat \<Rightarrow> nat \<Rightarrow> buddy \<Rightarrow> (nat \<times> buddy) option" where
  "split_loop 0 k entry s = Some (entry, s)"
| "split_loop (Suc n) k entry s =
     (case Split entry k s of
        None \<Rightarrow> None
      | Some (entry, s) \<Rightarrow>
          split_loop n (k - 1) entry (upd_entry entry (\<lambda>e. e\<lparr>is_free := False\<rparr>) s))"

text \<open>\<open>Allocate\<close>: the address returned (0 for \<open>nullptr\<close>) and the new state.\<close>

definition Allocate :: "nat \<Rightarrow> buddy \<Rightarrow> (nat \<times> buddy) option" where
  "Allocate sz s =
     (if \<not> initialized s then Some (0, s)
      else case CeilLog2 sz of
        None \<Rightarrow> None
      | Some k0 \<Rightarrow>
          (let block_order = (if k0 > MIN_ORDER then k0 else MIN_ORDER);
               s = s\<lparr>num_blocks := num_blocks s - int_shl (block_order - MIN_ORDER)\<rparr>
           in case first_list s block_order (MAX_ORDER - block_order) of
                None \<Rightarrow> Some (0, s)
              | Some k \<Rightarrow>
                  (case PopFront k s of
                     None \<Rightarrow> None
                   | Some (entry, s) \<Rightarrow>
                       (case split_loop (k - block_order) k entry s of
                          None \<Rightarrow> None
                        | Some (entry, s) \<Rightarrow>
                            (let s = upd_entry entry (\<lambda>e. e\<lparr>is_free := False, order := block_order\<rparr>) s;
                                 s = s\<lparr>mem_in_use := mem_in_use s + int_shl block_order\<rparr>
                             in Some (EntryToAddr s entry, s))))))"

partial_function (option) Free_loop :: "nat \<Rightarrow> nat \<Rightarrow> buddy \<Rightarrow> (nat \<times> buddy) option" where
  "Free_loop alloc_entry buddy_entry s =
     (if Mergeable alloc_entry buddy_entry s
      then Option.bind (Merge alloc_entry buddy_entry (upd_entry alloc_entry (\<lambda>e. e\<lparr>is_free := True\<rparr>) s))
             (\<lambda>(alloc_entry, s).
                Free_loop alloc_entry
                  (BuddyOf s (EntryToAddr s alloc_entry) (order (entries s alloc_entry))) s)
      else Some (alloc_entry, s))"

definition Free :: "nat \<Rightarrow> buddy \<Rightarrow> buddy option" where
  "Free allocation s =
     (if \<not> initialized s \<or> allocation = 0 then Some s
      else let alloc_entry = AddrToEntry s allocation
           in if alloc_entry = 0 then None
              else let k = order (entries s alloc_entry);
                       s = s\<lparr>num_blocks := num_blocks s + int_shl k\<rparr>;
                       buddy_entry = BuddyOf s allocation k
                   in case (if \<not> Mergeable alloc_entry buddy_entry s
                            then PushFront k alloc_entry
                                   (upd_entry alloc_entry (\<lambda>e. e\<lparr>is_free := True\<rparr>) s)
                            else Some s) of
                        None \<Rightarrow> None
                      | Some s \<Rightarrow>
                          map_option (\<lambda>(alloc_entry, s).
                              s\<lparr>mem_in_use := mem_in_use s - int_shl (order (entries s alloc_entry))\<rparr>)
                            (Free_loop alloc_entry buddy_entry s))"

text \<open>
  \<open>Realloc\<close>; the contents (zeroing and copying) are those of \<open>memset\<close> and \<open>memcpy\<close> and not
  part of this state. For a failed \<open>Allocate\<close> the code writes through the null pointer.
\<close>

definition Realloc :: "nat \<Rightarrow> nat \<Rightarrow> buddy \<Rightarrow> (nat \<times> buddy) option" where
  "Realloc allocation sz s =
     (if \<not> initialized s \<or> allocation = 0 then Some (0, s)
      else let alloc_entry = AddrToEntry s allocation
           in if alloc_entry = 0 then None
              else let alloc_size = int_shl (order (entries s alloc_entry))
                   in if sz < unat alloc_size
                      then Some (allocation, s\<lparr>mem_in_use := mem_in_use s + alloc_size\<rparr>)
                      else (case Allocate sz s of
                              None \<Rightarrow> None
                            | Some (new_alloc, s) \<Rightarrow>
                                if new_alloc = 0 then None
                                else map_option (Pair new_alloc) (Free allocation s)))"

section \<open>Queries\<close>

definition MemInUse :: "buddy \<Rightarrow> u64" where "MemInUse s = mem_in_use s"
definition MemFree :: "buddy \<Rightarrow> u64" where "MemFree s = total_mem s - mem_in_use s"
definition TotalMem :: "buddy \<Rightarrow> u64" where "TotalMem s = total_mem s"
definition MemCritical :: "buddy \<Rightarrow> bool" where "MemCritical s \<longleftrightarrow> mem_in_use s \<ge> total_mem s div 2"
definition NumBlocks :: "buddy \<Rightarrow> u64" where "NumBlocks s = num_blocks s"

section \<open>Initialisation\<close>

datatype mmap_type = USABLE | OTHER

record mmap_entry =
  mm_base :: nat
  mm_length :: nat
  mm_type :: mmap_type

text \<open>
  The second loop of \<open>CatalogRange\<close>; \<open>region_size -= (1 << j)\<close> is a \<open>size_t\<close> subtraction. An order
  below \<open>MIN_ORDER\<close> indexes outside \<open>free_lists_\<close>.
\<close>

fun Catalog_blocks :: "nat \<Rightarrow> nat \<Rightarrow> nat \<Rightarrow> buddy \<Rightarrow> buddy option" where
  "Catalog_blocks j region_size region_base s =
     (if region_size \<le> MIN_ALLOCATION then Some s
      else case (if 2 ^ j \<le> region_size
                 then map_option (\<lambda>s. (unat (of_nat region_size - int_shl j :: u64),
                                       unat (of_nat region_base + int_shl j :: u64), s))
                        (PushFront j (AddrToEntry s region_base)
                           (s\<lparr>num_blocks := num_blocks s + int_shl (j - MIN_ORDER)\<rparr>))
                 else Some (region_size, region_base, s)) of
             None \<Rightarrow> None
           | Some (region_size, region_base, s) \<Rightarrow>
               (case j of 0 \<Rightarrow> None
                | Suc j' \<Rightarrow> Catalog_blocks j' region_size region_base s))"

text \<open>
  \<open>CatalogRange\<close>. The first loop writes the entry of the page at \<open>j\<close> to the index counted from
  the start of the raw range, not from \<open>base_\<close>.
\<close>

definition fresh_entry :: fl_entry where
  "fresh_entry = \<lparr>forward = 0, backward = 0, order = MIN_ORDER, is_free = True\<rparr>"

definition CatalogRange :: "mmap_entry \<Rightarrow> nat \<Rightarrow> buddy \<Rightarrow> buddy option" where
  "CatalogRange rng init_mdata_size s =
     (let num_page_structs = mm_length rng div MIN_ALLOCATION;
          mdata = RoundUp init_mdata_size + RoundUp (num_page_structs * ENTRY_SIZE);
          region_size = unat (of_nat (mm_length rng) - of_nat mdata :: u64);
          r = \<lparr>mdata_base = mm_base rng + init_mdata_size, base = mm_base rng + mdata,
               mdata_size = mdata, rsize = region_size,
               page_entries = mm_base rng + init_mdata_size\<rparr>;
          pages = [0..<(region_size + MIN_ALLOCATION - 1) div MIN_ALLOCATION];
          s = s\<lparr>mem_ranges := mem_ranges s @ [r]\<rparr>;
          s = fold (\<lambda>i. upd_entry
                (page_entries r + (base r + i * MIN_ALLOCATION - mm_base rng) div MIN_ALLOCATION * ENTRY_SIZE)
                (\<lambda>_. fresh_entry)) pages s
      in case CeilLog2 region_size of
           None \<Rightarrow> None
         | Some k \<Rightarrow> Catalog_blocks (k - 1) region_size (base r) s)"

fun select_range :: "nat \<Rightarrow> nat \<Rightarrow> mmap_entry list \<Rightarrow> nat option option" where
  "select_range arr_size i [] = Some None"
| "select_range arr_size i (e # es) =
     (case CeilLog2 (mm_length e) of
        None \<Rightarrow> None
      | Some k \<Rightarrow>
          if mm_type e = USABLE \<and> mm_length e > arr_size + k then Some (Some i)
          else select_range arr_size (i + 1) es)"

fun Init_ranges :: "nat \<Rightarrow> nat \<Rightarrow> nat \<Rightarrow> mmap_entry list \<Rightarrow> buddy \<Rightarrow> buddy option" where
  "Init_ranges arr_size sel i [] s = Some s"
| "Init_ranges arr_size sel i (e # es) s =
     (if mm_type e = USABLE
      then case CatalogRange e (if sel = i then arr_size else 0) s of
             None \<Rightarrow> None
           | Some s \<Rightarrow>
               Init_ranges arr_size sel (i + 1) es (s\<lparr>total_mem := total_mem s + of_nat (mm_length e)\<rparr>)
      else Init_ranges arr_size sel (i + 1) es s)"

definition InitBuddyAllocator :: "mmap_entry list \<Rightarrow> buddy \<Rightarrow> buddy option" where
  "InitBuddyAllocator memmap s =
     (let s = s\<lparr>initialized := False, num_blocks := 0, mem_ranges := [], mem_in_use := 0, total_mem := 0\<rparr>;
          num_usable = length [e \<leftarrow> memmap. mm_type e = USABLE];
          memrange_arr_size = RANGE_SIZE * num_usable
      in case select_range memrange_arr_size 0 memmap of
           None \<Rightarrow> None
         | Some None \<Rightarrow> Some s
         | Some (Some sel) \<Rightarrow>
             map_option (\<lambda>s. s\<lparr>initialized := True\<rparr>) (Init_ranges memrange_arr_size sel 0 memmap s))"

section \<open>Shifts, logarithms, rounding\<close>

lemma int_shl_small:
  assumes "k < 31"
  shows "int_shl k = 2 ^ k" and "unat (int_shl k) = 2 ^ k"
proof -
  have k: "k \<in> set [0..<31]" using assms by simp
  have "\<forall>k\<in>set [0..<31]. int_shl k = 2 ^ k" by code_simp
  with k show eq: "int_shl k = 2 ^ k" by blast
  have "unat (of_nat (2 ^ k) :: u64) = 2 ^ k"
  proof -
    have "(2::nat) ^ k < 2 ^ 64" using assms by (intro power_strict_increasing) simp_all
    then show ?thesis unfolding unat_of_nat by simp
  qed
  then show "unat (int_shl k) = 2 ^ k" by (simp add: eq)
qed

lemma CeilLog2_loop_spec:
  assumes "sz \<le> 2 ^ 63" "i \<le> 63" "\<forall>j<i. 2 ^ j < sz"
  shows "\<exists>k\<le>63. CeilLog2_loop sz i = Some k \<and> sz \<le> 2 ^ k \<and> (\<forall>j<k. 2 ^ j < sz)"
  using assms(2,3)
proof (induction "63 - i" arbitrary: i)
  case 0
  then have "i = 63" by simp
  moreover have "CeilLog2_loop sz 63 = Some 63"
    using assms(1) by (subst CeilLog2_loop.simps) simp
  ultimately show ?case using assms(1) 0(3) by blast
next
  case (Suc n)
  show ?case
  proof (cases "2 ^ i < sz")
    case True
    have "CeilLog2_loop sz i = CeilLog2_loop sz (Suc i)"
      using True Suc(2) by (simp add: CeilLog2_loop.simps[of sz i])
    moreover have "\<forall>j<Suc i. 2 ^ j < sz" using True Suc.prems by (auto simp: less_Suc_eq)
    ultimately show ?thesis using Suc.hyps(1)[of "Suc i"] Suc.hyps(2) Suc.prems by simp
  next
    case False
    then show ?thesis using Suc.prems by (intro exI[of _ i]) (simp add: CeilLog2_loop.simps[of sz i])
  qed
qed

lemma CeilLog2_spec:
  assumes "sz \<le> 2 ^ 63"
  obtains k where "CeilLog2 sz = Some k" "k \<le> 63" "sz \<le> 2 ^ k" "\<forall>j<k. 2 ^ j < sz"
  using CeilLog2_loop_spec[OF assms, of 0] by (auto simp: CeilLog2_def)

lemma CeilLog2_loop_bound: "CeilLog2_loop sz i = Some k \<Longrightarrow> sz \<le> 2 ^ 63"
proof (rule CeilLog2_loop.raw_induct[where P = "\<lambda>sz i k. sz \<le> 2 ^ 63"])
  fix f :: "nat \<Rightarrow> nat \<Rightarrow> nat option" and sz i y
  assume IH: "\<And>sz i y. f sz i = Some y \<Longrightarrow> sz \<le> 2 ^ 63"
    and step: "(if 2 ^ (i mod 64) < sz then f sz ((i + 1) mod 256) else Some i) = Some (y :: nat)"
  show "sz \<le> 2 ^ 63"
  proof (cases "2 ^ (i mod 64) < sz")
    case True
    then show ?thesis using IH step by auto
  next
    case False
    have "(2::nat) ^ (i mod 64) \<le> 2 ^ 63" by (rule power_increasing) simp_all
    with False show ?thesis by linarith
  qed
qed

section \<open>Entries and addresses of a page\<close>

text \<open>The \<open>i\<close>-th page of a range and its free-list entry.\<close>

definition page_of :: "mem_range \<Rightarrow> nat \<Rightarrow> nat" where
  "page_of r i = base r + i * MIN_ALLOCATION"

definition entry_of :: "mem_range \<Rightarrow> nat \<Rightarrow> nat" where
  "entry_of r i = page_entries r + i * ENTRY_SIZE"

definition npages :: "mem_range \<Rightarrow> nat" where
  "npages r = rsize r div MIN_ALLOCATION"

text \<open>
  What the memory map and \<open>CatalogRange\<close> establish: entries start at \<open>mdata_base\<close>, they fit in
  the metadata, and the closed intervals of different ranges do not meet.
\<close>

definition range_ok :: "mem_range \<Rightarrow> bool" where
  "range_ok r \<longleftrightarrow> page_entries r = mdata_base r \<and> 0 < mdata_base r \<and> 0 < base r \<and>
     npages r * ENTRY_SIZE \<le> mdata_size r"

definition layout_ok :: "mem_range list \<Rightarrow> bool" where
  "layout_ok rs \<longleftrightarrow>
     (\<forall>r\<in>set rs. range_ok r) \<and>
     (\<forall>r\<in>set rs. \<forall>q\<in>set rs. r \<noteq> q \<longrightarrow>
        (base r + rsize r < base q \<or> base q + rsize q < base r) \<and>
        (mdata_base r + mdata_size r < mdata_base q \<or> mdata_base q + mdata_size q < mdata_base r))"

lemma find_unique:
  assumes "r \<in> set rs" "P r" "\<And>q. q \<in> set rs \<Longrightarrow> P q \<Longrightarrow> q = r"
  shows "List.find P rs = Some r"
proof (cases "List.find P rs")
  case None
  then show ?thesis using assms(1,2) by (auto simp: find_None_iff)
next
  case (Some q)
  then have "q \<in> set rs" "P q" by (auto simp: find_Some_iff)
  then show ?thesis using assms(3) Some by simp
qed

lemma npages_le: "i \<le> npages r \<Longrightarrow> i * MIN_ALLOCATION \<le> rsize r"
  by (simp add: npages_def MIN_ALLOCATION_def)

lemma EntryRange_page:
  assumes "layout_ok (mem_ranges s)" "r \<in> set (mem_ranges s)" "i \<le> npages r"
  shows "EntryRange_addr s (page_of r i) = Some r"
  unfolding EntryRange_addr_def
proof (rule find_unique[OF assms(2)])
  show P: "base r \<le> page_of r i \<and> page_of r i \<le> base r + rsize r"
    using npages_le[OF assms(3)] by (simp add: page_of_def)
  fix q assume "q \<in> set (mem_ranges s)" "base q \<le> page_of r i \<and> page_of r i \<le> base q + rsize q"
  then show "q = r" using P assms(1,2) unfolding layout_ok_def by (meson leD le_less_trans order.trans)
qed

lemma EntryRange_entry:
  assumes "layout_ok (mem_ranges s)" "r \<in> set (mem_ranges s)" "i \<le> npages r"
  shows "EntryRange_entry s (entry_of r i) = Some r"
  unfolding EntryRange_entry_def
proof (rule find_unique[OF assms(2)])
  have r: "range_ok r" using assms(1,2) by (simp add: layout_ok_def)
  then have "i * ENTRY_SIZE \<le> mdata_size r"
    using assms(3) by (meson le_trans mult_le_mono1 range_ok_def)
  then show P: "mdata_base r \<le> entry_of r i \<and> entry_of r i \<le> mdata_base r + mdata_size r"
    using r by (simp add: entry_of_def range_ok_def)
  fix q assume "q \<in> set (mem_ranges s)"
    "mdata_base q \<le> entry_of r i \<and> entry_of r i \<le> mdata_base q + mdata_size q"
  then show "q = r" using P assms(1,2) unfolding layout_ok_def by (meson leD le_less_trans order.trans)
qed

lemma EntryToAddr_entry_of:
  assumes "layout_ok (mem_ranges s)" "r \<in> set (mem_ranges s)" "i \<le> npages r"
  shows "EntryToAddr s (entry_of r i) = page_of r i"
proof -
  have "page_entries r = mdata_base r" using assms(1,2) by (simp add: layout_ok_def range_ok_def)
  then show ?thesis
    using EntryRange_entry[OF assms]
    by (simp add: EntryToAddr_def entry_of_def page_of_def ENTRY_SIZE_def)
qed

lemma AddrToEntry_page_of:
  assumes "layout_ok (mem_ranges s)" "r \<in> set (mem_ranges s)" "i \<le> npages r"
  shows "AddrToEntry s (page_of r i) = entry_of r i"
  using EntryRange_page[OF assms]
  by (simp add: AddrToEntry_def entry_of_def page_of_def MIN_ALLOCATION_def)

lemma entry_of_pos: "range_ok r \<Longrightarrow> entry_of r i \<noteq> 0"
  by (simp add: range_ok_def entry_of_def)

text \<open>The buddy of page \<open>i\<close> at order \<open>k\<close> is found by flipping bit \<open>k - 12\<close> of \<open>i\<close>.\<close>

lemma page_xor:
  assumes "12 \<le> k"
  shows "(i * MIN_ALLOCATION) XOR 2 ^ k = (i XOR 2 ^ (k - 12)) * MIN_ALLOCATION"
proof -
  have "i * MIN_ALLOCATION = push_bit 12 i" for i by (simp add: push_bit_eq_mult MIN_ALLOCATION_def)
  moreover have "(2::nat) ^ k = push_bit 12 (2 ^ (k - 12))"
    unfolding push_bit_eq_mult using assms by (simp only: power_add[symmetric]) simp
  ultimately show ?thesis by (simp add: push_bit_xor)
qed

lemma BuddyOf_page_of:
  assumes "layout_ok (mem_ranges s)" "r \<in> set (mem_ranges s)" "i \<le> npages r"
    and "12 \<le> k" "k < 31" "i XOR 2 ^ (k - 12) \<le> npages r"
  shows "BuddyOf s (page_of r i) k = entry_of r (i XOR 2 ^ (k - 12))"
proof -
  have "(page_of r i - base r) XOR 2 ^ k = (i XOR 2 ^ (k - 12)) * MIN_ALLOCATION"
    using page_xor[OF assms(4)] by (simp add: page_of_def)
  then have "((page_of r i - base r) XOR 2 ^ k) + base r = page_of r (i XOR 2 ^ (k - 12))"
    by (simp add: page_of_def)
  then show ?thesis
    using EntryRange_page[OF assms(1-3)] AddrToEntry_page_of[OF assms(1,2,6)] int_shl_small(2)[OF assms(5)]
    by (simp add: BuddyOf_def)
qed

lemma xor_aligned:
  assumes "2 ^ Suc m dvd (i::nat)"
  shows "i XOR 2 ^ m = i + 2 ^ m"
proof -
  have "\<not> bit i m" using assms by (auto simp: bit_iff_odd power_Suc mult.commute dvd_def)
  then have "i XOR 2 ^ m = set_bit m i"
    by (intro bit_eqI) (auto simp: bit_simps)
  then show ?thesis using \<open>\<not> bit i m\<close> by (simp add: set_bit_eq)
qed

end
