(* ===== verification/Buddy_Blocks.thy ===== *)
theory Buddy_Blocks
  imports Buddy_Allocator
begin

text \<open>
  The invariant of the buddy allocator (\<open>src/sys/buddy_allocator.cpp\<close>): the doubly linked free
  lists as lists of entries, blocks as sets of pages, and the proof that \<open>Allocate\<close> carves an
  aligned block out of the free memory and loses none of the rest. The last section runs the
  allocator on a small machine and shows where its bookkeeping goes wrong.
\<close>

section \<open>Free lists as lists\<close>

text \<open>\<open>linked E p xs\<close>: the entries \<open>xs\<close> are chained through \<open>forward\<close> and \<open>backward\<close>, after \<open>p\<close>.\<close>

fun hd0 :: "nat list \<Rightarrow> nat" where
  "hd0 [] = 0"
| "hd0 (x # xs) = x"

fun linked :: "(nat \<Rightarrow> fl_entry) \<Rightarrow> nat \<Rightarrow> nat list \<Rightarrow> bool" where
  "linked E p [] \<longleftrightarrow> True"
| "linked E p (x # xs) \<longleftrightarrow> x \<noteq> 0 \<and> backward (E x) = p \<and> forward (E x) = hd0 xs \<and> linked E x xs"

text \<open>\<open>f k\<close> is the contents of the free list of order \<open>k\<close>.\<close>

definition fl_inv :: "buddy \<Rightarrow> (nat \<Rightarrow> nat list) \<Rightarrow> bool" where
  "fl_inv s f \<longleftrightarrow>
     (\<forall>k. valid_order k \<longrightarrow> free_lists s k = hd0 (f k) \<and> linked (entries s) 0 (f k) \<and>
          distinct (f k) \<and> (\<forall>x\<in>set (f k). order (entries s x) = k)) \<and>
     (\<forall>k. \<not> valid_order k \<longrightarrow> f k = [])"

definition members :: "(nat \<Rightarrow> nat list) \<Rightarrow> nat set" where
  "members f = (\<Union>k. set (f k))"

lemma linked_cong:
  "(\<And>x. x \<in> set xs \<Longrightarrow> forward (E' x) = forward (E x) \<and> backward (E' x) = backward (E x)) \<Longrightarrow>
     linked E' p xs = linked E p xs"
  by (induction xs arbitrary: p) auto

lemma linked_not_null: "linked E p xs \<Longrightarrow> 0 \<notin> set xs"
  by (induction xs arbitrary: p) auto

lemma linked_rehead:
  assumes "linked E p xs" "distinct xs"
  shows "linked (E(hd0 xs := (E (hd0 xs))\<lparr>backward := q\<rparr>)) q xs"
proof (cases xs)
  case (Cons x ys)
  then have "linked (E(x := (E x)\<lparr>backward := q\<rparr>)) x ys = linked E x ys"
    using assms by (intro linked_cong) auto
  then show ?thesis using Cons assms by simp
qed simp

lemma fl_inv_order: "fl_inv s f \<Longrightarrow> x \<in> set (f k) \<Longrightarrow> order (entries s x) = k \<and> valid_order k"
  unfolding fl_inv_def by (metis empty_iff empty_set)

lemma fl_inv_not_null: "fl_inv s f \<Longrightarrow> x \<in> members f \<Longrightarrow> x \<noteq> 0"
proof -
  assume inv: "fl_inv s f" and "x \<in> members f"
  then obtain k where "x \<in> set (f k)" by (auto simp: members_def)
  moreover from this have "valid_order k" using fl_inv_order[OF inv] by blast
  ultimately show "x \<noteq> 0" using inv linked_not_null unfolding fl_inv_def by metis
qed

lemma fl_inv_unique: "fl_inv s f \<Longrightarrow> x \<in> set (f k) \<Longrightarrow> x \<in> set (f j) \<Longrightarrow> j = k"
  using fl_inv_order by blast

lemma upd_entry_simps [simp]:
  "entries (upd_entry e g s) = (entries s)(e := g (entries s e))"
  "free_lists (upd_entry e g s) = free_lists s" "mem_ranges (upd_entry e g s) = mem_ranges s"
  "initialized (upd_entry e g s) = initialized s" "num_blocks (upd_entry e g s) = num_blocks s"
  "mem_in_use (upd_entry e g s) = mem_in_use s" "total_mem (upd_entry e g s) = total_mem s"
  by (simp_all add: upd_entry_def)

lemma set_head_simps [simp]:
  "entries (set_head k e s) = entries s"
  "free_lists (set_head k e s) = (free_lists s)(k := e)" "mem_ranges (set_head k e s) = mem_ranges s"
  "initialized (set_head k e s) = initialized s" "num_blocks (set_head k e s) = num_blocks s"
  "mem_in_use (set_head k e s) = mem_in_use s" "total_mem (set_head k e s) = total_mem s"
  by (simp_all add: set_head_def)

text \<open>The parts of the state that the list operations never touch.\<close>

definition same_rest :: "buddy \<Rightarrow> buddy \<Rightarrow> bool" where
  "same_rest s s' \<longleftrightarrow> mem_ranges s' = mem_ranges s \<and> initialized s' = initialized s \<and>
     num_blocks s' = num_blocks s \<and> mem_in_use s' = mem_in_use s \<and> total_mem s' = total_mem s"

lemma same_rest_refl [simp]: "same_rest s s"
  by (simp add: same_rest_def)

lemma same_rest_trans: "same_rest s t \<Longrightarrow> same_rest t u \<Longrightarrow> same_rest s u"
  by (simp add: same_rest_def)

text \<open>An update that leaves links and order of every listed entry alone keeps the lists.\<close>

lemma fl_inv_upd:
  assumes "fl_inv s f"
    and "x \<in> members f \<Longrightarrow> forward (g (entries s x)) = forward (entries s x) \<and>
      backward (g (entries s x)) = backward (entries s x) \<and> order (g (entries s x)) = order (entries s x)"
  shows "fl_inv (upd_entry x g s) f"
proof -
  have "linked (entries (upd_entry x g s)) 0 (f k) = linked (entries s) 0 (f k)" for k
    using assms(2) by (intro linked_cong) (auto simp: members_def)
  moreover have "order (entries (upd_entry x g s) y) = k" if "y \<in> set (f k)" for y k
    using assms(2) fl_inv_order[OF assms(1) that] that by (auto simp: members_def)
  ultimately show ?thesis using assms(1) by (simp add: fl_inv_def)
qed

lemma fl_inv_relist:
  assumes "fl_inv s f" "valid_order k" "free_lists s' = (free_lists s)(k := hd0 ys)"
    and "linked (entries s') 0 ys" "distinct ys" "\<And>x. x \<in> set ys \<Longrightarrow> order (entries s' x) = k"
    and "\<And>j. j \<noteq> k \<Longrightarrow> linked (entries s') 0 (f j) = linked (entries s) 0 (f j)"
    and "\<And>j x. j \<noteq> k \<Longrightarrow> x \<in> set (f j) \<Longrightarrow> order (entries s' x) = order (entries s x)"
  shows "fl_inv s' (f(k := ys))"
  using assms unfolding fl_inv_def by (auto simp del: linked.simps)

lemma PushFront_inv:
  assumes inv: "fl_inv s f" and k: "valid_order k" and x: "x \<noteq> 0" "x \<notin> members f"
    and bk: "backward (entries s x) = 0"
  shows "\<exists>s'. PushFront k x s = Some s' \<and> fl_inv s' (f(k := x # f k)) \<and> same_rest s s' \<and>
    (\<forall>y. y \<noteq> x \<longrightarrow> y \<notin> members f \<longrightarrow> entries s' y = entries s y) \<and>
    (\<forall>y. y \<noteq> x \<longrightarrow> order (entries s' y) = order (entries s y) \<and> is_free (entries s' y) = is_free (entries s y)) \<and>
    is_free (entries s' x) = is_free (entries s x)"
proof -
  let ?s1 = "upd_entry x (\<lambda>e. e\<lparr>order := k, forward := hd0 (f k)\<rparr>) s"
  let ?s2 = "if hd0 (f k) \<noteq> 0 then upd_entry (hd0 (f k)) (\<lambda>e. e\<lparr>backward := x\<rparr>) ?s1 else ?s1"
  have head: "free_lists s k = hd0 (f k)" and lk: "linked (entries s) 0 (f k)" and dk: "distinct (f k)"
    using inv k by (auto simp: fl_inv_def)
  have nx: "x \<notin> set (f j)" for j using x(2) by (auto simp: members_def)
  have hm: "hd0 (f k) \<in> members f" if "hd0 (f k) \<noteq> 0"
    using that by (cases "f k") (auto simp: members_def intro!: exI[of _ k])
  have run: "PushFront k x s = Some (set_head k x ?s2)"
    using k x(1) head by (simp add: PushFront_def Let_def)
  have E: "entries ?s2 = (if hd0 (f k) \<noteq> 0
      then (entries ?s1)(hd0 (f k) := (entries ?s1 (hd0 (f k)))\<lparr>backward := x\<rparr>) else entries ?s1)"
    by simp
  have new: "linked (entries ?s2) 0 (x # f k)"
  proof (cases "f k")
    case Nil
    then show ?thesis using x(1) bk by simp
  next
    case (Cons y ys)
    have y: "y \<noteq> 0" "y \<noteq> x" using Cons lk nx[of k] by auto
    have "linked (entries ?s1) 0 (f k)"
      using lk nx[of k] by (subst linked_cong[where E = "entries s"]) auto
    then have "linked ((entries ?s1)(hd0 (f k) := (entries ?s1 (hd0 (f k)))\<lparr>backward := x\<rparr>)) x (f k)"
      using dk by (rule linked_rehead)
    then show ?thesis using Cons y x(1) bk by simp
  qed
  have old: "linked (entries ?s2) 0 (f j) = linked (entries s) 0 (f j)" if "j \<noteq> k" for j
  proof (rule linked_cong)
    fix z assume z: "z \<in> set (f j)"
    then have "z \<noteq> x" using nx by blast
    moreover have "z \<noteq> hd0 (f k)"
    proof
      assume "z = hd0 (f k)"
      moreover have "z \<noteq> 0" using fl_inv_not_null[OF inv] z by (auto simp: members_def)
      ultimately have "z \<in> set (f k)" by (cases "f k") auto
      then show False using fl_inv_unique[OF inv z] that by blast
    qed
    ultimately show "forward (entries ?s2 z) = forward (entries s z) \<and>
        backward (entries ?s2 z) = backward (entries s z)" by simp
  qed
  have ord: "order (entries ?s2 z) = order (entries s z)" if "z \<noteq> x" for z
    using that by simp
  have "fl_inv (set_head k x ?s2) (f(k := x # f k))"
  proof (rule fl_inv_relist[OF inv k])
    show "order (entries (set_head k x ?s2) z) = k" if "z \<in> set (x # f k)" for z
      using that ord[of z] fl_inv_order[OF inv, of z k] by (cases "z = x") auto
    show "order (entries (set_head k x ?s2) z) = order (entries s z)" if "z \<in> set (f j)" for z j
      using that ord[of z] nx[of j] by (cases "z = x") auto
  qed (use new old dk nx in \<open>simp_all del: linked.simps upd_entry_simps(1)\<close>)
  then show ?thesis
    using run hm x(2) by (auto simp: same_rest_def)
qed

lemma PopFront_inv:
  assumes inv: "fl_inv s f" and k: "valid_order k" and fk: "f k = x # xs"
  shows "\<exists>s'. PopFront k s = Some (x, s') \<and> fl_inv s' (f(k := xs)) \<and> same_rest s s' \<and>
    entries s' x = entries s x \<and> backward (entries s' x) = 0 \<and> forward (entries s' x) = hd0 xs \<and>
    (\<forall>y. y \<notin> members f \<longrightarrow> entries s' y = entries s y) \<and>
    (\<forall>y. order (entries s' y) = order (entries s y) \<and> is_free (entries s' y) = is_free (entries s y))"
proof -
  have head: "free_lists s k = x" and lk: "linked (entries s) 0 (x # xs)" and dk: "distinct (x # xs)"
    using inv k fk unfolding fl_inv_def by (metis hd0.simps(2))+
  let ?s2 = "if hd0 xs \<noteq> 0 then upd_entry (hd0 xs) (\<lambda>e. e\<lparr>backward := 0\<rparr>) (set_head k (hd0 xs) s)
    else set_head k (hd0 xs) s"
  have run: "PopFront k s = Some (x, ?s2)"
    using k head lk by (simp add: PopFront_def Let_def)
  have hx: "hd0 xs \<noteq> x" "hd0 xs \<noteq> 0 \<Longrightarrow> hd0 xs \<in> members f"
    using lk dk fk by (cases xs; auto simp: members_def intro!: exI[of _ k])+
  have new: "linked (entries ?s2) 0 xs"
  proof (cases xs)
    case (Cons y ys)
    have "linked (entries s) x xs" using lk by simp
    then have "linked ((entries s)(hd0 xs := (entries s (hd0 xs))\<lparr>backward := 0\<rparr>)) 0 xs"
      using dk by (intro linked_rehead) auto
    then show ?thesis using Cons by simp
  qed simp
  have old: "linked (entries ?s2) 0 (f j) = linked (entries s) 0 (f j)" if "j \<noteq> k" for j
  proof (rule linked_cong)
    fix z assume z: "z \<in> set (f j)"
    have "z \<noteq> hd0 xs"
    proof
      assume "z = hd0 xs"
      moreover have "z \<noteq> 0" using fl_inv_not_null[OF inv] z by (auto simp: members_def)
      ultimately have "z \<in> set (f k)" using fk by (cases xs) auto
      then show False using fl_inv_unique[OF inv z] that by blast
    qed
    then show "forward (entries ?s2 z) = forward (entries s z) \<and>
        backward (entries ?s2 z) = backward (entries s z)" by simp
  qed
  have ord: "order (entries ?s2 z) = order (entries s z)" for z by simp
  have "fl_inv ?s2 (f(k := xs))"
  proof (rule fl_inv_relist[OF inv k])
    show "order (entries ?s2 z) = k" if "z \<in> set xs" for z
      using that fk ord[of z] fl_inv_order[OF inv, of z k] by simp
  qed (use new old dk ord in \<open>simp_all del: linked.simps upd_entry_simps(1)\<close>)
  then show ?thesis using run hx lk by (auto simp: same_rest_def)
qed

text \<open>
  An entry outside the lists whose links are harmless: \<open>Allocate\<close> leaves the stale \<open>forward\<close>
  pointer of the entry it pops in place, and \<open>Remove\<close> later writes through it.
\<close>

definition loose :: "buddy \<Rightarrow> (nat \<Rightarrow> nat list) \<Rightarrow> nat \<Rightarrow> bool" where
  "loose s f x \<longleftrightarrow> x \<noteq> 0 \<and> x \<notin> members f \<and> backward (entries s x) = 0 \<and>
     order (entries s x) < MAX_ORDER \<and>
     (let y = forward (entries s x) in y = 0 \<or> (y \<noteq> x \<and> backward (entries s y) = 0))"

definition clean :: "buddy \<Rightarrow> nat \<Rightarrow> bool" where
  "clean s x \<longleftrightarrow> forward (entries s x) = 0 \<and> backward (entries s x) = 0 \<and>
     order (entries s x) < MAX_ORDER"

lemma clean_loose: "clean s x \<Longrightarrow> x \<noteq> 0 \<Longrightarrow> x \<notin> members f \<Longrightarrow> loose s f x"
  by (simp add: clean_def loose_def)

lemma upd_entry_id: "g (entries s x) = entries s x \<Longrightarrow> upd_entry x g s = s"
  by (simp add: upd_entry_def)

lemma fl_inv_head: "fl_inv s f \<Longrightarrow> valid_order k \<Longrightarrow> free_lists s k = 0 \<or> free_lists s k \<in> members f"
  unfolding fl_inv_def members_def by (cases "f k") (auto intro: exI[of _ k])

lemma Remove_loose:
  assumes inv: "fl_inv s f" and l: "loose s f x"
  shows "Remove x s = Some (upd_entry x (\<lambda>e. e\<lparr>forward := 0\<rparr>) s)"
proof -
  let ?e = "entries s x"
  have bk: "backward ?e = 0" and x: "x \<noteq> 0" "x \<notin> members f" and k: "order ?e < MAX_ORDER"
    using l by (auto simp: loose_def)
  have nop: "(if forward ?e \<noteq> 0 then upd_entry (forward ?e) (\<lambda>z. z\<lparr>backward := 0\<rparr>) s else s) = s"
    using l by (auto simp: loose_def Let_def upd_entry_id)
  have head: "\<not> (MIN_ORDER \<le> order ?e \<and> free_lists s (order ?e) = x)"
    using fl_inv_head[OF inv, of "order ?e"] k x by (auto simp: valid_order_def)
  have "Remove x s = Some (upd_entry x (\<lambda>e. e\<lparr>forward := 0, backward := 0\<rparr>) s)"
    unfolding Remove_def Let_def bk nop using x(1) k head by auto
  moreover have "?e\<lparr>forward := 0, backward := 0\<rparr> = ?e\<lparr>forward := 0\<rparr>" using bk by simp
  ultimately show ?thesis by (simp only: upd_entry_def)
qed

lemma Split_step:
  assumes inv: "fl_inv s f" and e: "loose s f e" and b: "loose s f b" "clean s b" "b \<noteq> e"
    and k: "valid_order (k - 1)" and buddy: "BuddyOf s (EntryToAddr s e) (k - 1) = b"
  shows "\<exists>s'. Split e k s = Some (b, s') \<and> fl_inv s' (f(k - 1 := e # f (k - 1))) \<and> same_rest s s' \<and>
    clean s' b \<and> (\<forall>y. y \<notin> insert e (insert b (members f)) \<longrightarrow> entries s' y = entries s y)"
proof -
  have "Remove b s = Some (upd_entry b (\<lambda>e. e\<lparr>forward := 0\<rparr>) s)" by (rule Remove_loose[OF inv b(1)])
  also have "upd_entry b (\<lambda>e. e\<lparr>forward := 0\<rparr>) s = s"
    using b(2) by (intro upd_entry_id) (simp add: clean_def)
  finally have rb: "Remove b s = Some s" .
  have re: "Remove e s = Some (upd_entry e (\<lambda>e. e\<lparr>forward := 0\<rparr>) s)" by (rule Remove_loose[OF inv e])
  define t where "t = upd_entry e (\<lambda>z. z\<lparr>is_free := True\<rparr>) (upd_entry b (\<lambda>z. z\<lparr>order := k - 1\<rparr>)
      (upd_entry e (\<lambda>z. z\<lparr>order := k - 1\<rparr>) (upd_entry e (\<lambda>z. z\<lparr>forward := 0\<rparr>) s)))"
  have ne: "e \<noteq> 0" "e \<notin> members f" "b \<notin> members f" using e b by (auto simp: loose_def)
  have inv_t: "fl_inv t f" unfolding t_def using ne by (intro fl_inv_upd inv) simp_all
  have Et: "entries t y = entries s y" if "y \<noteq> e" "y \<noteq> b" for y using that by (simp add: t_def)
  have "backward (entries t e) = 0" using e b(3) by (simp add: t_def loose_def)
  then obtain s' where s': "PushFront (k - 1) e t = Some s'" "fl_inv s' (f(k - 1 := e # f (k - 1)))"
    "same_rest t s'" "\<forall>y. y \<noteq> e \<longrightarrow> y \<notin> members f \<longrightarrow> entries s' y = entries t y"
    using PushFront_inv[OF inv_t k ne(1,2)] by blast
  have "Split e k s = Some (b, s')"
    unfolding Split_def Let_def buddy using rb re s'(1) by (simp add: t_def)
  moreover have "same_rest s s'" using s'(3) by (simp add: same_rest_def t_def)
  moreover have "entries s' b = (entries s b)\<lparr>order := k - 1\<rparr>"
    using s'(4) b(3) ne(3) by (simp add: t_def)
  then have "clean s' b" using b(2) k by (simp add: clean_def valid_order_def)
  ultimately show ?thesis using s'(2,4) Et by auto
qed

section \<open>Blocks\<close>

text \<open>The number of pages of a block of order \<open>k\<close>, and the entries of its pages.\<close>

definition pages :: "nat \<Rightarrow> nat" where
  "pages k = 2 ^ (k - MIN_ORDER)"

definition span :: "nat \<Rightarrow> nat \<Rightarrow> nat set" where
  "span x k = {x + j * ENTRY_SIZE |j. j < pages k}"

definition block_ok :: "buddy \<Rightarrow> mem_range \<Rightarrow> nat \<Rightarrow> nat \<Rightarrow> bool" where
  "block_ok s r i k \<longleftrightarrow> r \<in> set (mem_ranges s) \<and> MIN_ORDER \<le> k \<and> k < 31 \<and>
     pages k dvd i \<and> i + pages k \<le> npages r"

definition all_span :: "(nat \<Rightarrow> nat list) \<Rightarrow> nat set" where
  "all_span f = (\<Union>k. \<Union>x\<in>set (f k). span x k)"

text \<open>
  The invariant of the allocator: well-linked free lists of aligned blocks inside the ranges,
  no page in two blocks, and clean entries for the pages inside a free block.
\<close>

definition bk_inv :: "buddy \<Rightarrow> (nat \<Rightarrow> nat list) \<Rightarrow> bool" where
  "bk_inv s f \<longleftrightarrow>
     layout_ok (mem_ranges s) \<and> fl_inv s f \<and>
     (\<forall>k. \<forall>x\<in>set (f k). \<exists>r i. x = entry_of r i \<and> block_ok s r i k) \<and>
     (\<forall>k j. \<forall>x\<in>set (f k). \<forall>y\<in>set (f j). x \<noteq> y \<longrightarrow> span x k \<inter> span y j = {}) \<and>
     (\<forall>k. \<forall>x\<in>set (f k). \<forall>y\<in>span x k - {x}. clean s y)"

lemma span_self: "x \<in> span x k"
  by (force simp: span_def pages_def)

lemma members_all_span: "members f \<subseteq> all_span f"
  using span_self by (fastforce simp: members_def all_span_def)

lemma pages_halves: "MIN_ORDER < k \<Longrightarrow> pages k = pages (k - 1) + pages (k - 1)"
proof -
  assume "MIN_ORDER < k"
  then obtain m where "k = MIN_ORDER + Suc m" by (metis less_iff_Suc_add add_Suc_right)
  then show ?thesis by (simp add: pages_def)
qed

lemma span_halves:
  assumes "MIN_ORDER < k"
  shows "span x k = span x (k - 1) \<union> span (x + pages (k - 1) * ENTRY_SIZE) (k - 1)"
    and "span x (k - 1) \<inter> span (x + pages (k - 1) * ENTRY_SIZE) (k - 1) = {}"
proof -
  let ?n = "pages (k - 1)"
  show "span x k = span x (k - 1) \<union> span (x + ?n * ENTRY_SIZE) (k - 1)"
  proof (intro equalityI subsetI)
    fix y assume "y \<in> span x k"
    then obtain j where j: "y = x + j * ENTRY_SIZE" "j < ?n + ?n"
      using pages_halves[OF assms] by (auto simp: span_def)
    show "y \<in> span x (k - 1) \<union> span (x + ?n * ENTRY_SIZE) (k - 1)"
    proof (cases "j < ?n")
      case True then show ?thesis using j by (auto simp: span_def)
    next
      case False
      then have "y = x + ?n * ENTRY_SIZE + (j - ?n) * ENTRY_SIZE" "j - ?n < ?n"
        using j by (auto simp: diff_mult_distrib)
      then show ?thesis by (auto simp: span_def)
    qed
  next
    fix y assume "y \<in> span x (k - 1) \<union> span (x + ?n * ENTRY_SIZE) (k - 1)"
    then consider (lo) j where "y = x + j * ENTRY_SIZE" "j < ?n"
      | (hi) j where "y = x + (?n + j) * ENTRY_SIZE" "j < ?n"
      by (auto simp: span_def add_mult_distrib add.assoc)
    then show "y \<in> span x k"
      by cases (force simp: span_def pages_halves[OF assms])+
  qed
  show "span x (k - 1) \<inter> span (x + ?n * ENTRY_SIZE) (k - 1) = {}"
    by (auto simp: span_def ENTRY_SIZE_def)
qed

lemma bk_inv_disjoint:
  "bk_inv s f \<Longrightarrow> x \<in> set (f k) \<Longrightarrow> y \<in> set (f j) \<Longrightarrow> x \<noteq> y \<Longrightarrow> span x k \<inter> span y j = {}"
  unfolding bk_inv_def by blast

lemma interior_not_member:
  assumes "bk_inv s f" "x \<in> set (f k)" "y \<in> span x k - {x}"
  shows "y \<notin> members f"
proof
  assume "y \<in> members f"
  then obtain j where "y \<in> set (f j)" by (auto simp: members_def)
  then have "span x k \<inter> span y j = {}" using assms unfolding bk_inv_def by blast
  then show False using assms(3) span_self by blast
qed

lemma bk_inv_cong:
  assumes "bk_inv s f" "mem_ranges s' = mem_ranges s" "fl_inv s' f"
    and "\<And>y. y \<in> all_span f - members f \<Longrightarrow> clean s y \<Longrightarrow> clean s' y"
  shows "bk_inv s' f"
proof -
  have "clean s' y" if x: "x \<in> set (f k)" and y: "y \<in> span x k - {x}" for k x y
  proof -
    have "y \<in> all_span f" using x y by (auto simp: all_span_def)
    then show ?thesis
      using assms(4) interior_not_member[OF assms(1) x y] assms(1) x y unfolding bk_inv_def by blast
  qed
  then show ?thesis using assms(1-3) unfolding bk_inv_def block_ok_def by auto
qed

text \<open>Adding a block that lies outside all others.\<close>

lemma bk_inv_add:
  assumes inv: "bk_inv s f" and rest: "mem_ranges s' = mem_ranges s"
    and fl: "fl_inv s' (f(k := x # f k))"
    and x: "x = entry_of r i" "block_ok s r i k" "span x k \<inter> all_span f = {}"
    and cl: "\<And>y. y \<in> span x k - {x} \<Longrightarrow> clean s' y"
    and old: "\<And>y. y \<in> all_span f - members f \<Longrightarrow> clean s y \<Longrightarrow> clean s' y"
  shows "bk_inv s' (f(k := x # f k))"
proof -
  have mem: "y \<in> set ((f(k := x # f k)) j) \<longleftrightarrow> y \<in> set (f j) \<or> y = x \<and> j = k" for y j by auto
  have dis: "span x k \<inter> span y j = {}" if "y \<in> set (f j)" for y j
    using x(3) that by (auto simp: all_span_def)
  have xf: "x \<notin> set (f j)" for j
    using dis[of x j] span_self by blast
  have clf: "clean s' z" if y: "y \<in> set (f j)" and z: "z \<in> span y j - {y}" for y j z
  proof -
    have "z \<in> all_span f" using y z by (auto simp: all_span_def)
    then show ?thesis
      using old interior_not_member[OF inv y z] inv y z unfolding bk_inv_def by blast
  qed
  show ?thesis
    unfolding bk_inv_def mem
  proof (intro conjI allI ballI impI)
    show "layout_ok (mem_ranges s')" using inv rest by (simp add: bk_inv_def)
    fix j y assume y: "y \<in> set ((f(k := x # f k)) j)"
    show "\<exists>r i. y = entry_of r i \<and> block_ok s' r i j"
      using y x inv rest unfolding mem bk_inv_def block_ok_def by auto
    show "clean s' z" if "z \<in> span y j - {y}" for z
      using y that cl clf unfolding mem by blast
    fix l z assume z: "z \<in> set ((f(k := x # f k)) l)" and ne: "y \<noteq> z"
    have "span y j \<inter> span z l = {}" if "y \<in> set (f j)" "z \<in> set (f l)"
      using that ne inv unfolding bk_inv_def by blast
    then show "span y j \<inter> span z l = {}"
      using y z ne dis[of y j] dis[of z l] unfolding mem by (auto simp: Int_commute)
  qed (rule fl)
qed

section \<open>Allocate carves a block\<close>

lemma valid_order_31: "MIN_ORDER \<le> k \<Longrightarrow> k < 31 \<Longrightarrow> valid_order k"
  by (simp add: valid_order_def MAX_ORDER_def)

lemma block_ok_entry:
  assumes "layout_ok (mem_ranges s)" "block_ok s r i k"
  shows "EntryToAddr s (entry_of r i) = page_of r i" "entry_of r i \<noteq> 0"
  using assms EntryToAddr_entry_of[of s r i] entry_of_pos[of r i]
  by (simp_all add: block_ok_def layout_ok_def)

lemma buddy_upper:
  assumes lay: "layout_ok (mem_ranges s)" and ok: "block_ok s r i k" and k: "MIN_ORDER < k"
  shows "BuddyOf s (page_of r i) (k - 1) = entry_of r (i + pages (k - 1))"
    and "block_ok s r i (k - 1)" and "block_ok s r (i + pages (k - 1)) (k - 1)"
    and "entry_of r (i + pages (k - 1)) = entry_of r i + pages (k - 1) * ENTRY_SIZE"
    and "entry_of r (i + pages (k - 1)) \<noteq> entry_of r i"
proof -
  have two: "pages k = pages (k - 1) + pages (k - 1)" using pages_halves[OF k] .
  have d: "pages (k - 1) dvd i" using ok two unfolding block_ok_def by (metis dvd_add_right_iff dvd_trans dvd_refl)
  have r: "r \<in> set (mem_ranges s)" "i + pages k \<le> npages r" "k < 31" "pages k dvd i"
    using ok by (simp_all add: block_ok_def)
  have "Suc (k - 1 - 12) = k - MIN_ORDER" using k by (simp add: MIN_ORDER_def)
  then have "2 ^ Suc (k - 1 - 12) dvd i" using r(4) by (simp only: pages_def)
  then have x: "i XOR 2 ^ (k - 1 - 12) = i + pages (k - 1)"
    using xor_aligned by (simp add: pages_def MIN_ORDER_def)
  show "BuddyOf s (page_of r i) (k - 1) = entry_of r (i + pages (k - 1))"
    using BuddyOf_page_of[OF lay r(1), of i "k - 1"] r two k x by (simp add: MIN_ORDER_def)
  show "block_ok s r i (k - 1)" "block_ok s r (i + pages (k - 1)) (k - 1)"
    using r d two k by (auto simp: block_ok_def)
  show "entry_of r (i + pages (k - 1)) = entry_of r i + pages (k - 1) * ENTRY_SIZE"
    by (simp add: entry_of_def add_mult_distrib)
  show "entry_of r (i + pages (k - 1)) \<noteq> entry_of r i"
    by (simp add: entry_of_def pages_def ENTRY_SIZE_def)
qed

text \<open>A block of order \<open>k\<close> at entry \<open>e\<close> that is in no free list and whose inside is clean.\<close>

definition held :: "buddy \<Rightarrow> (nat \<Rightarrow> nat list) \<Rightarrow> mem_range \<Rightarrow> nat \<Rightarrow> nat \<Rightarrow> bool" where
  "held s f r i k \<longleftrightarrow>
     block_ok s r i k \<and> loose s f (entry_of r i) \<and> span (entry_of r i) k \<inter> all_span f = {} \<and>
     (\<forall>y\<in>span (entry_of r i) k - {entry_of r i}. clean s y)"

lemma all_spanI: "z \<in> set (f j) \<Longrightarrow> y \<in> span z j \<Longrightarrow> y \<in> all_span f"
  by (auto simp: all_span_def)

lemma all_span_upd: "all_span (f(k := x # f k)) = span x k \<union> all_span f"
proof (intro equalityI subsetI)
  fix y assume "y \<in> all_span (f(k := x # f k))"
  then obtain j z where "z \<in> set ((f(k := x # f k)) j)" "y \<in> span z j" by (auto simp: all_span_def)
  then show "y \<in> span x k \<union> all_span f" using all_spanI[of z f j y] by (auto split: if_splits)
next
  fix y assume "y \<in> span x k \<union> all_span f"
  then consider "y \<in> span x k" | j z where "z \<in> set (f j)" "y \<in> span z j" by (auto simp: all_span_def)
  then show "y \<in> all_span (f(k := x # f k))"
    by cases (auto intro: all_spanI[of x _ k] all_spanI)
qed

lemma all_span_mono: "(\<And>j. set (g j) \<subseteq> set (f j)) \<Longrightarrow> all_span g \<subseteq> all_span f"
  unfolding all_span_def by (rule UN_mono) auto

lemma members_upd: "members (f(k := x # f k)) = insert x (members f)"
  by (auto simp: members_def split: if_splits)

lemma Split_held:
  assumes inv: "bk_inv s f" and h: "held s f r i k" and k: "MIN_ORDER < k"
  shows "\<exists>s' f'. Split (entry_of r i) k s = Some (entry_of r (i + pages (k - 1)), s') \<and>
    bk_inv s' f' \<and> held s' f' r (i + pages (k - 1)) (k - 1) \<and> same_rest s s' \<and>
    clean s' (entry_of r (i + pages (k - 1))) \<and>
    span (entry_of r (i + pages (k - 1))) (k - 1) \<union> all_span f' = span (entry_of r i) k \<union> all_span f \<and>
    (\<forall>y. y \<notin> span (entry_of r i) k \<union> all_span f \<longrightarrow> entries s' y = entries s y)"
proof -
  let ?e = "entry_of r i" and ?b = "entry_of r (i + pages (k - 1))"
  let ?f = "f(k - 1 := ?e # f (k - 1))"
  have lay: "layout_ok (mem_ranges s)" and fl: "fl_inv s f" using inv by (auto simp: bk_inv_def)
  have ok: "block_ok s r i k" and lo: "loose s f ?e" and dis: "span ?e k \<inter> all_span f = {}"
    and cl: "\<forall>y\<in>span ?e k - {?e}. clean s y" using h by (auto simp: held_def)
  note up = buddy_upper[OF lay ok k]
  have sp: "span ?e k = span ?e (k - 1) \<union> span ?b (k - 1)" "span ?e (k - 1) \<inter> span ?b (k - 1) = {}"
    using span_halves[OF k, of ?e] up(4) by simp_all
  have b: "?b \<in> span ?e k - {?e}" using sp(1) span_self[of ?b] up(5) by auto
  have nm: "y \<notin> members f" if "y \<in> span ?e k" for y
    using dis that members_all_span[of f] by blast
  have b0: "?b \<noteq> 0" using block_ok_entry(2)[OF lay up(3)] .
  have "loose s f ?b" using clean_loose cl b b0 nm by blast
  moreover have "valid_order (k - 1)" using ok k by (intro valid_order_31) (auto simp: block_ok_def)
  ultimately obtain s' where s': "Split ?e k s = Some (?b, s')" "fl_inv s' ?f" "same_rest s s'"
    "clean s' ?b" "\<forall>y. y \<notin> insert ?e (insert ?b (members f)) \<longrightarrow> entries s' y = entries s y"
    using Split_step[OF fl lo, of ?b k] cl b up(1,5) block_ok_entry(1)[OF lay ok] by force
  have frame: "entries s' y = entries s y" if "y \<noteq> ?e" "y \<noteq> ?b" "y \<notin> members f" for y
    using s'(5) that by simp
  have keep: "clean s' y" if "clean s y" "y \<noteq> ?e" "y \<notin> members f" for y
    using that s'(4) frame[of y] by (cases "y = ?b") (auto simp: clean_def)
  have e1: "?e \<in> span ?e k" by (rule span_self)
  have "bk_inv s' ?f"
  proof (rule bk_inv_add[OF inv _ s'(2) refl up(2)])
    show "mem_ranges s' = mem_ranges s" using s'(3) by (simp add: same_rest_def)
    show "span ?e (k - 1) \<inter> all_span f = {}" using dis sp(1) by blast
    show "clean s' y" if "y \<in> span ?e (k - 1) - {?e}" for y
      using that sp(1) cl nm keep by blast
    show "clean s' y" if "y \<in> all_span f - members f" "clean s y" for y
      using that dis e1 keep by blast
  qed
  moreover have "held s' ?f r (i + pages (k - 1)) (k - 1)"
    unfolding held_def
  proof (intro conjI ballI)
    show "block_ok s' r (i + pages (k - 1)) (k - 1)"
      using up(3) s'(3) by (simp add: block_ok_def same_rest_def)
    show "loose s' ?f ?b"
      using s'(4) b0 nm[of ?b] b up(5) by (intro clean_loose) (auto simp: members_upd)
    show "span ?b (k - 1) \<inter> all_span ?f = {}"
      unfolding all_span_upd using dis sp by blast
    show "clean s' y" if "y \<in> span ?b (k - 1) - {?b}" for y
      using that sp cl nm keep e1 span_self[of ?e "k - 1"] by blast
  qed
  moreover have "span ?b (k - 1) \<union> all_span ?f = span ?e k \<union> all_span f"
    unfolding all_span_upd using sp(1) by blast
  moreover have "entries s' y = entries s y" if "y \<notin> span ?e k \<union> all_span f" for y
    using that frame[of y] b e1 members_all_span[of f] by blast
  ultimately show ?thesis using s'(1,3,4) by blast
qed

lemma upd_flag_inv:
  assumes "bk_inv s f" "held s f r i k" "e = entry_of r i"
    and s'_def: "s' = upd_entry e (\<lambda>x. x\<lparr>is_free := v\<rparr>) s"
  shows "bk_inv s' f" "held s' f r i k" "same_rest s s'"
proof -
  have e: "e \<notin> members f" using assms(2,3) by (auto simp: held_def loose_def)
  have cl: "clean s' y = clean s y" for y by (simp add: clean_def s'_def)
  have "fl_inv s' f" unfolding s'_def using assms(1) e by (intro fl_inv_upd) (auto simp: bk_inv_def)
  then show "bk_inv s' f" using assms(1) cl by (intro bk_inv_cong[OF assms(1)]) (auto simp: s'_def)
  have "loose s' f x = loose s f x" for x by (simp add: loose_def s'_def Let_def)
  then show "held s' f r i k" using assms(2) cl by (simp add: held_def block_ok_def s'_def)
  show "same_rest s s'" by (simp add: same_rest_def s'_def)
qed

lemma split_loop_held:
  assumes "bk_inv s f" "held s f r i k" "MIN_ORDER + n \<le> k"
  shows "\<exists>s' f' i'. split_loop n k (entry_of r i) s = Some (entry_of r i', s') \<and> bk_inv s' f' \<and>
    held s' f' r i' (k - n) \<and> same_rest s s' \<and> i \<le> i' \<and>
    span (entry_of r i') (k - n) \<union> all_span f' = span (entry_of r i) k \<union> all_span f \<and>
    (\<forall>y. y \<notin> span (entry_of r i) k \<union> all_span f \<longrightarrow> entries s' y = entries s y)"
  using assms
proof (induction n arbitrary: k i s f)
  case 0
  then show ?case by auto
next
  case (Suc n)
  let ?b = "i + pages (k - 1)"
  obtain s1 f1 where 1: "Split (entry_of r i) k s = Some (entry_of r ?b, s1)" "bk_inv s1 f1"
    "held s1 f1 r ?b (k - 1)" "same_rest s s1"
    "span (entry_of r ?b) (k - 1) \<union> all_span f1 = span (entry_of r i) k \<union> all_span f"
    "\<forall>y. y \<notin> span (entry_of r i) k \<union> all_span f \<longrightarrow> entries s1 y = entries s y"
    using Split_held[OF Suc.prems(1,2)] Suc.prems(3) by auto
  let ?s1 = "upd_entry (entry_of r ?b) (\<lambda>x. x\<lparr>is_free := False\<rparr>) s1"
  have 2: "bk_inv ?s1 f1" "held ?s1 f1 r ?b (k - 1)" "same_rest s1 ?s1"
    using upd_flag_inv[OF 1(2,3) refl refl] by simp_all
  have "MIN_ORDER + n \<le> k - 1" using Suc.prems(3) by simp
  then obtain s2 f2 i2 where 3: "split_loop n (k - 1) (entry_of r ?b) ?s1 = Some (entry_of r i2, s2)"
    "bk_inv s2 f2" "held s2 f2 r i2 (k - 1 - n)" "same_rest ?s1 s2" "?b \<le> i2"
    "span (entry_of r i2) (k - 1 - n) \<union> all_span f2 = span (entry_of r ?b) (k - 1) \<union> all_span f1"
    "\<forall>y. y \<notin> span (entry_of r ?b) (k - 1) \<union> all_span f1 \<longrightarrow> entries s2 y = entries ?s1 y"
    using Suc.IH[OF 2(1,2)] by blast
  have "split_loop (Suc n) k (entry_of r i) s = Some (entry_of r i2, s2)"
    using 1(1) 3(1) by simp
  moreover have "same_rest s s2" using 1(4) 2(3) 3(4) same_rest_trans by blast
  moreover have "entries s2 y = entries s y" if "y \<notin> span (entry_of r i) k \<union> all_span f" for y
  proof -
    have "y \<noteq> entry_of r ?b" using that 1(5) span_self by blast
    then show ?thesis using that 1(5,6) 3(7) by simp
  qed
  ultimately show ?case using 3 1(5) by (intro exI[of _ s2] exI[of _ f2] exI[of _ i2]) simp
qed

text \<open>Popping a block makes it held.\<close>

lemma PopFront_held:
  assumes inv: "bk_inv s f" and k: "valid_order k" and fk: "f k = x # xs"
  shows "\<exists>s' r i. PopFront k s = Some (x, s') \<and> x = entry_of r i \<and> bk_inv s' (f(k := xs)) \<and>
    held s' (f(k := xs)) r i k \<and> same_rest s s' \<and>
    span x k \<union> all_span (f(k := xs)) = all_span f \<and>
    (\<forall>y. y \<notin> all_span f \<longrightarrow> entries s' y = entries s y)"
proof -
  let ?f = "f(k := xs)"
  have fl: "fl_inv s f" using inv by (simp add: bk_inv_def)
  obtain s' where s': "PopFront k s = Some (x, s')" "fl_inv s' ?f" "same_rest s s'"
    "entries s' x = entries s x" "backward (entries s' x) = 0" "forward (entries s' x) = hd0 xs"
    "\<forall>y. y \<notin> members f \<longrightarrow> entries s' y = entries s y"
    "\<forall>y. order (entries s' y) = order (entries s y) \<and> is_free (entries s' y) = is_free (entries s y)"
    using PopFront_inv[OF fl k fk] by blast
  have xk: "x \<in> set (f k)" using fk by simp
  obtain r i where ri: "x = entry_of r i" "block_ok s r i k"
    using inv xk unfolding bk_inv_def by blast
  have dist: "x \<notin> set xs" using fl k fk unfolding fl_inv_def by (metis distinct.simps(2))
  have sub: "set (?f j) \<subseteq> set (f j)" for j using fk by auto
  have xf: "x \<notin> set (?f j)" for j
    using dist fl_inv_unique[OF fl xk, of j] by (cases "j = k") auto
  have cl: "clean s' y" if "clean s y" "y \<notin> members f" for y
    using that s'(7) by (simp add: clean_def)
  have nm: "members ?f \<subseteq> members f" using sub by (auto simp: members_def)
  have clf: "clean s' z" if y: "y \<in> set (f j)" and z: "z \<in> span y j - {y}" for y j z
    using cl interior_not_member[OF inv y z] inv y z unfolding bk_inv_def by blast
  have "bk_inv s' ?f"
    unfolding bk_inv_def
  proof (intro conjI allI ballI impI)
    show "layout_ok (mem_ranges s')" using inv s'(3) by (simp add: bk_inv_def same_rest_def)
    fix j y assume y: "y \<in> set (?f j)"
    then have yf: "y \<in> set (f j)" using sub by blast
    show "\<exists>r i. y = entry_of r i \<and> block_ok s' r i j"
      using inv yf s'(3) unfolding bk_inv_def block_ok_def same_rest_def by simp
    show "clean s' z" if "z \<in> span y j - {y}" for z using clf[OF yf that] .
    fix l z assume "z \<in> set (?f l)" "y \<noteq> z"
    then show "span y j \<inter> span z l = {}" using inv yf sub unfolding bk_inv_def by blast
  qed (rule s'(2))
  moreover have dis: "span x k \<inter> all_span ?f = {}"
  proof -
    have "span x k \<inter> span y j = {}" if "y \<in> set (?f j)" for y j
    proof -
      have "y \<in> set (f j)" "x \<noteq> y" using that sub[of j] xf[of j] by auto
      then show ?thesis using bk_inv_disjoint[OF inv xk] by blast
    qed
    then show ?thesis by (auto simp: all_span_def)
  qed
  moreover have "loose s' ?f x"
  proof -
    have "x \<noteq> 0" using fl_inv_not_null[OF fl] xk by (auto simp: members_def)
    moreover have "x \<notin> members ?f" using xf by (auto simp: members_def)
    moreover have "order (entries s' x) < MAX_ORDER"
      using s'(8) fl_inv_order[OF fl xk] by (simp add: valid_order_def)
    moreover have "hd0 xs = 0 \<or> hd0 xs \<noteq> x \<and> backward (entries s' (hd0 xs)) = 0"
    proof (cases xs)
      case (Cons y ys)
      have "linked (entries s') 0 xs" using s'(2) k unfolding fl_inv_def by (metis fun_upd_same)
      then show ?thesis using Cons dist by auto
    qed simp
    ultimately show ?thesis using s'(5,6) by (simp add: loose_def Let_def)
  qed
  then have "held s' ?f r i k"
    using dis ri clf[OF xk] s'(3) by (auto simp: held_def block_ok_def same_rest_def)
  moreover have "span x k \<union> all_span ?f = all_span f"
  proof
    show "span x k \<union> all_span ?f \<subseteq> all_span f"
      using all_span_mono[of ?f f] sub all_spanI[of x f k, OF xk] by blast
    show "all_span f \<subseteq> span x k \<union> all_span ?f"
    proof
      fix y assume "y \<in> all_span f"
      then obtain j z where z: "z \<in> set (f j)" "y \<in> span z j" by (auto simp: all_span_def)
      then have "z = x \<and> j = k \<or> z \<in> set (?f j)" using fk by auto
      then show "y \<in> span x k \<union> all_span ?f" using z(2) all_spanI[of z ?f j y] by blast
    qed
  qed
  moreover have "entries s' y = entries s y" if "y \<notin> all_span f" for y
    using that s'(7) members_all_span by blast
  ultimately show ?thesis using s'(1,3) ri(1) by blast
qed

end
