(* ===== verification/Buddy_Theorems.thy ===== *)
theory Buddy_Theorems
  imports Buddy_Blocks
begin

text \<open>
  What the block invariant gives: \<open>Allocate\<close> hands out an aligned block of the right size that no
  free list holds any more, addresses and entries correspond, and the logarithm and the rounding
  are right. Then the runs on a small concrete heap that show what \<open>Free\<close> does to the lists and
  to the counters.
\<close>

section \<open>Allocation\<close>

lemma first_list_Some: "first_list s k n = Some j \<Longrightarrow> free_lists s j \<noteq> 0 \<and> k \<le> j \<and> j < k + n"
  by (induction s k n rule: first_list.induct) (auto split: if_splits)

lemma first_list_None: "first_list s k n = None \<longleftrightarrow> (\<forall>j. k \<le> j \<and> j < k + n \<longrightarrow> free_lists s j = 0)"
proof (induction s k n rule: first_list.induct)
  case (2 s k n)
  have "(\<forall>j. k \<le> j \<and> j < k + Suc n \<longrightarrow> free_lists s j = 0) \<longleftrightarrow>
    free_lists s k = 0 \<and> (\<forall>j. k + 1 \<le> j \<and> j < k + 1 + n \<longrightarrow> free_lists s j = 0)"
    (is "?l = ?r")
  proof
    show ?r if ?l using that by auto
    show ?l if ?r
    proof (intro allI impI)
      fix j assume "k \<le> j \<and> j < k + Suc n"
      then show "free_lists s j = 0" using \<open>?r\<close> by (cases "j = k") auto
    qed
  qed
  then show ?case using 2 by simp
qed simp

lemma bk_inv_counters:
  "bk_inv (s\<lparr>num_blocks := n\<rparr>) f = bk_inv s f" "bk_inv (s\<lparr>mem_in_use := m\<rparr>) f = bk_inv s f"
  by (simp_all add: bk_inv_def fl_inv_def block_ok_def clean_def)

lemma EntryToAddr_counters:
  "EntryToAddr (s\<lparr>mem_in_use := m\<rparr>) e = EntryToAddr s e" "EntryToAddr (upd_entry x g s) e = EntryToAddr s e"
  by (simp_all add: EntryToAddr_def EntryRange_entry_def)

lemma upd_outside_inv:
  assumes inv: "bk_inv s f" and e: "e \<notin> all_span f"
  shows "bk_inv (upd_entry e g s) f"
proof (rule bk_inv_cong[OF inv])
  have "e \<notin> members f" using e members_all_span by blast
  then show "fl_inv (upd_entry e g s) f" using inv by (intro fl_inv_upd) (auto simp: bk_inv_def)
  fix y assume "y \<in> all_span f - members f" "clean s y"
  then show "clean (upd_entry e g s) y" using e by (cases "y = e") (simp_all add: clean_def)
qed simp

lemma first_list_counters: "first_list (s\<lparr>num_blocks := m\<rparr>) k n = first_list s k n"
  by (induction n arbitrary: k) auto

text \<open>
  C9: On a well-formed heap with a non-empty list at or above the order of the request, \<open>Allocate\<close>
  returns the address of an aligned block of \<open>2 ^ b\<close> bytes that holds the request; the free
  lists are well formed afterwards and hold exactly the pages they held before without those of the
  block.
\<close>
theorem Allocate_block:
  assumes inv: "bk_inv s f" and ini: "initialized s" and sz: "CeilLog2 sz = Some k0"
    and b: "b = max k0 MIN_ORDER" and k: "first_list s b (MAX_ORDER - b) = Some k"
  shows "\<exists>r i s' f'. Allocate sz s = Some (page_of r i, s') \<and> page_of r i \<noteq> 0 \<and>
    bk_inv s' f' \<and> block_ok s' r i b \<and> sz \<le> 2 ^ b \<and>
    span (entry_of r i) b \<inter> all_span f' = {} \<and> span (entry_of r i) b \<union> all_span f' = all_span f \<and>
    order (entries s' (entry_of r i)) = b \<and> \<not> is_free (entries s' (entry_of r i))"
proof -
  let ?s1 = "s\<lparr>num_blocks := num_blocks s - int_shl (b - MIN_ORDER)\<rparr>"
  have inv1: "bk_inv ?s1 f" using inv by (simp add: bk_inv_counters)
  have vk: "valid_order k" and bk: "b \<le> k" and nz: "free_lists ?s1 k \<noteq> 0"
    using first_list_Some[OF k] b by (auto simp: valid_order_def MAX_ORDER_def)
  have "free_lists ?s1 k = hd0 (f k)" using inv1 vk by (simp add: bk_inv_def fl_inv_def)
  then obtain x xs where fk: "f k = x # xs" using nz by (cases "f k") auto
  obtain s2 r i where 2: "PopFront k ?s1 = Some (x, s2)" "x = entry_of r i" "bk_inv s2 (f(k := xs))"
    "held s2 (f(k := xs)) r i k" "same_rest ?s1 s2" "span x k \<union> all_span (f(k := xs)) = all_span f"
    using PopFront_held[OF inv1 vk fk] by blast
  have "MIN_ORDER + (k - b) \<le> k" using b bk by simp
  then obtain s3 f3 j where 3: "split_loop (k - b) k (entry_of r i) s2 = Some (entry_of r j, s3)"
    "bk_inv s3 f3" "held s3 f3 r j (k - (k - b))" "same_rest s2 s3"
    "span (entry_of r j) (k - (k - b)) \<union> all_span f3 = span (entry_of r i) k \<union> all_span (f(k := xs))"
    using split_loop_held[OF 2(3,4)] by blast
  have kb: "k - (k - b) = b" using bk by simp
  let ?e = "entry_of r j"
  let ?s4 = "upd_entry ?e (\<lambda>e. e\<lparr>is_free := False, order := b\<rparr>) s3"
  let ?s5 = "?s4\<lparr>mem_in_use := mem_in_use ?s4 + int_shl b\<rparr>"
  have ok: "block_ok s3 r j b" and dis: "span ?e b \<inter> all_span f3 = {}"
    using 3(3) kb by (simp_all add: held_def)
  have lay: "layout_ok (mem_ranges s3)" using 3(2) by (simp add: bk_inv_def)
  have rj: "r \<in> set (mem_ranges s3)" "j \<le> npages r" using ok by (auto simp: block_ok_def)
  have addr: "EntryToAddr ?s5 ?e = page_of r j"
    using EntryToAddr_entry_of[OF lay rj] by (simp add: EntryToAddr_counters)
  have "Allocate sz s = Some (page_of r j, ?s5)"
    using addr ini sz k 2(1,2) 3(1) b
    by (simp add: Allocate_def Let_def first_list_counters max_def EntryToAddr_counters split: if_splits)
  moreover have "range_ok r" using lay rj(1) by (simp add: layout_ok_def)
  then have "page_of r j \<noteq> 0" by (simp add: range_ok_def page_of_def)
  moreover have "bk_inv ?s5 f3"
    using upd_outside_inv[OF 3(2)] dis span_self[of ?e b] by (auto simp: bk_inv_counters)
  moreover have "block_ok ?s5 r j b" using ok by (simp add: block_ok_def)
  moreover have "sz \<le> 2 ^ b"
  proof -
    have "sz \<le> 2 ^ 63" using sz CeilLog2_loop_bound by (simp add: CeilLog2_def)
    then obtain k' where k': "CeilLog2 sz = Some k'" "sz \<le> 2 ^ k'" using CeilLog2_spec by metis
    have "(2::nat) ^ k' \<le> 2 ^ b" using k'(1) sz b by (intro power_increasing) simp_all
    then show ?thesis using k'(2) by linarith
  qed
  moreover have "span ?e b \<union> all_span f3 = all_span f" using 3(5) 2(2,6) kb by simp
  ultimately show ?thesis using dis by (intro exI[of _ r] exI[of _ j] exI[of _ ?s5] exI[of _ f3]) simp
qed

text \<open>A heap of one free block of two pages.\<close>

definition two_page_range :: mem_range where
  "two_page_range = \<lparr>mdata_base = 0x1000, base = 0x2000, mdata_size = 0x1000, rsize = 0x2000,
     page_entries = 0x1000\<rparr>"

definition two_page_heap :: buddy where
  "two_page_heap = \<lparr>mem_ranges = [two_page_range], num_blocks = 2,
     free_lists = (\<lambda>k. if k = 13 then 0x1000 else 0), mem_in_use = 0, total_mem = 0x3000,
     initialized = True,
     entries = (\<lambda>a. fresh_entry\<lparr>order := if a = 0x1000 then 13 else 12\<rparr>)\<rparr>"

definition two_page_lists :: "nat \<Rightarrow> nat list" where
  "two_page_lists k = (if k = 13 then [0x1000] else [])"

lemma two_page_inv: "bk_inv two_page_heap two_page_lists"
  unfolding bk_inv_def
proof (intro conjI allI ballI impI)
  show "layout_ok (mem_ranges two_page_heap)"
    by (simp add: two_page_heap_def layout_ok_def range_ok_def two_page_range_def npages_def
      MIN_ALLOCATION_def ENTRY_SIZE_def)
  show "fl_inv two_page_heap two_page_lists"
    by (simp add: fl_inv_def two_page_heap_def two_page_lists_def fresh_entry_def valid_order_def
      MIN_ORDER_def MAX_ORDER_def)
  fix k x assume x: "x \<in> set (two_page_lists k)"
  then have kx: "k = 13" "x = 0x1000" by (auto simp: two_page_lists_def split: if_splits)
  have "x = entry_of two_page_range 0" "block_ok two_page_heap two_page_range 0 k"
    by (simp_all add: kx entry_of_def two_page_range_def block_ok_def two_page_heap_def npages_def
      pages_def MIN_ORDER_def MIN_ALLOCATION_def)
  then show "\<exists>r i. x = entry_of r i \<and> block_ok two_page_heap r i k" by blast
  show "clean two_page_heap y" if "y \<in> span x k - {x}" for y
    by (simp add: clean_def two_page_heap_def fresh_entry_def MAX_ORDER_def)
  show "span x k \<inter> span y j = {}" if "y \<in> set (two_page_lists j)" "x \<noteq> y" for j y
    using that kx by (auto simp: two_page_lists_def split: if_splits)
qed

lemma Allocate_block_witness:
  "\<exists>r i s' f'. Allocate 100 two_page_heap = Some (page_of r i, s') \<and> page_of r i \<noteq> 0 \<and>
    bk_inv s' f' \<and> block_ok s' r i 12 \<and> (100::nat) \<le> 2 ^ 12 \<and>
    span (entry_of r i) 12 \<inter> all_span f' = {} \<and>
    span (entry_of r i) 12 \<union> all_span f' = all_span two_page_lists \<and>
    order (entries s' (entry_of r i)) = 12 \<and> \<not> is_free (entries s' (entry_of r i))"
proof -
  obtain k0 where k0: "CeilLog2 100 = Some k0" "k0 \<le> 7"
  proof (rule CeilLog2_spec[of 100])
    fix k assume k: "CeilLog2 100 = Some k" "\<forall>j<k. 2 ^ j < (100::nat)"
    have "k \<le> 7" using k(2)[rule_format, of 7] by (cases "7 < k") auto
    with k(1) show thesis by (rule that)
  qed simp
  have "(12::nat) = max k0 MIN_ORDER" using k0(2) by (simp add: MIN_ORDER_def)
  moreover have "first_list two_page_heap 12 (MAX_ORDER - 12) = Some 13"
    by (simp add: two_page_heap_def MAX_ORDER_def numeral_eq_Suc)
  ultimately show ?thesis using Allocate_block[OF two_page_inv _ k0(1)] by (simp add: two_page_heap_def)
qed

text \<open>
  When no list of the order of the request or above holds a block, \<open>Allocate\<close> returns the null
  pointer and leaves lists, entries and \<open>mem_in_use_\<close> alone, but \<open>num_blocks_\<close> is lowered by the
  size of the block that was not handed out.
\<close>
theorem Allocate_out_of_memory:
  assumes "initialized s" "CeilLog2 sz = Some k0" "b = max k0 MIN_ORDER"
    and "\<forall>j. b \<le> j \<and> j < MAX_ORDER \<longrightarrow> free_lists s j = 0"
  shows "Allocate sz s = Some (0, s\<lparr>num_blocks := num_blocks s - int_shl (b - MIN_ORDER)\<rparr>)"
proof -
  have "first_list s b (MAX_ORDER - b) = None" unfolding first_list_None using assms(4) by auto
  then show ?thesis
    using assms(1-3) by (simp add: Allocate_def Let_def first_list_counters max_def split: if_splits)
qed

lemma Allocate_out_of_memory_witness:
  "Allocate 0x4000 two_page_heap = Some (0, two_page_heap\<lparr>num_blocks := - 2\<rparr>)"
proof -
  have c: "CeilLog2 0x4000 = Some 14"
  proof -
    obtain k where k: "CeilLog2 0x4000 = Some k" "0x4000 \<le> (2::nat) ^ k" "\<forall>j<k. 2 ^ j < (0x4000::nat)"
      using CeilLog2_spec[of "0x4000"] by auto
    have "\<not> 14 < k" using k(3)[rule_format, of 14] by auto
    moreover have "\<not> k < 14"
    proof
      assume "k < 14"
      then have "(2::nat) ^ k < 2 ^ 14" by (intro power_strict_increasing) simp_all
      then show False using k(2) by simp
    qed
    ultimately show ?thesis using k(1) by (simp add: not_less)
  qed
  have "14 = max 14 MIN_ORDER" by (simp add: MIN_ORDER_def)
  moreover have "initialized two_page_heap" "\<forall>j. 14 \<le> j \<and> j < MAX_ORDER \<longrightarrow> free_lists two_page_heap j = 0"
    by (simp_all add: two_page_heap_def)
  ultimately have "Allocate 0x4000 two_page_heap =
    Some (0, two_page_heap\<lparr>num_blocks := num_blocks two_page_heap - int_shl (14 - MIN_ORDER)\<rparr>)"
    using Allocate_out_of_memory[OF _ c] by simp
  then show ?thesis by (simp add: MIN_ORDER_def two_page_heap_def int_shl_small)
qed

section \<open>Addresses and sizes\<close>

text \<open>
  On ranges that do not overlap, the entry of a page and the page of an entry determine each
  other, and the buddy of the buddy of a block is the block.
\<close>
theorem entry_addr_roundtrip:
  assumes lay: "layout_ok (mem_ranges s)" and r: "r \<in> set (mem_ranges s)" and i: "i \<le> npages r"
    and k: "12 \<le> k" "k < 31" "i XOR 2 ^ (k - 12) \<le> npages r"
  shows "EntryToAddr s (AddrToEntry s (page_of r i)) = page_of r i \<and>
    AddrToEntry s (EntryToAddr s (entry_of r i)) = entry_of r i \<and>
    BuddyOf s (EntryToAddr s (BuddyOf s (page_of r i) k)) k = AddrToEntry s (page_of r i)"
proof -
  let ?j = "i XOR 2 ^ (k - 12)"
  have "?j XOR 2 ^ (k - 12) = i" by (simp add: xor.assoc)
  then have "BuddyOf s (page_of r ?j) k = entry_of r i"
    using BuddyOf_page_of[OF lay r k(3,1,2)] i by simp
  then show ?thesis
    using EntryToAddr_entry_of[OF lay r i] AddrToEntry_page_of[OF lay r i]
      BuddyOf_page_of[OF lay r i k] EntryToAddr_entry_of[OF lay r k(3)] by simp
qed

lemma entry_addr_roundtrip_witness:
  "EntryToAddr two_page_heap (AddrToEntry two_page_heap 0x3000) = 0x3000 \<and>
    AddrToEntry two_page_heap (EntryToAddr two_page_heap 0x1018) = 0x1018 \<and>
    BuddyOf two_page_heap (EntryToAddr two_page_heap (BuddyOf two_page_heap 0x3000 12)) 12 =
      AddrToEntry two_page_heap 0x3000"
proof -
  have "layout_ok (mem_ranges two_page_heap)" using two_page_inv by (simp add: bk_inv_def)
  moreover have "two_page_range \<in> set (mem_ranges two_page_heap)" by (simp add: two_page_heap_def)
  ultimately show ?thesis
    using entry_addr_roundtrip[of two_page_heap two_page_range 1 12]
    by (simp add: page_of_def entry_of_def two_page_range_def npages_def MIN_ALLOCATION_def ENTRY_SIZE_def)
qed

text \<open>
  C10: \<open>CeilLog2\<close> of a size up to \<open>2 ^ 63\<close> returns the least exponent whose power of two holds the size,
  above \<open>2 ^ 63\<close> it does not return; \<open>RoundUp\<close> is the least multiple of the page size that is not
  below its argument, except for the last page of the 64-bit sizes, where the sum wraps and the result is 0.
\<close>
theorem CeilLog2_RoundUp_spec:
  fixes w :: u64
  shows "(unat w \<le> 2 ^ 63 \<longleftrightarrow> (\<exists>k. CeilLog2 (unat w) = Some k)) \<and>
   (CeilLog2 (unat w) = Some k \<longleftrightarrow> unat w \<le> 2 ^ 63 \<and> k = (LEAST k. unat w \<le> 2 ^ k)) \<and>
   (if unat w + MIN_ALLOCATION \<le> 2 ^ 64
    then MIN_ALLOCATION dvd RoundUp (unat w) \<and> unat w \<le> RoundUp (unat w) \<and> RoundUp (unat w) < unat w + MIN_ALLOCATION
    else RoundUp (unat w) = 0)"
proof -
  define sz where "sz = unat w"
  have sz64: "sz < 2 ^ 64" unfolding sz_def using unsigned_less[of w, where 'a = nat] by simp
  have least: "k' = (LEAST k. sz \<le> 2 ^ k)" if "sz \<le> 2 ^ k'" "\<forall>j<k'. 2 ^ j < sz" for k' :: nat
    by (rule Least_equality[of "\<lambda>k. sz \<le> 2 ^ k" k', OF that(1), symmetric])
      (use that(2) in \<open>force simp: not_le[symmetric]\<close>)
  have bound: "sz \<le> 2 ^ 63" if "CeilLog2 sz = Some k'" for k'
    using that CeilLog2_loop_bound by (simp add: CeilLog2_def)
  have ok: "CeilLog2 sz = Some (LEAST k. sz \<le> 2 ^ k)" if sz: "sz \<le> 2 ^ 63"
    using CeilLog2_spec[OF sz] least by metis
  have "if sz + MIN_ALLOCATION \<le> 2 ^ 64
    then MIN_ALLOCATION dvd RoundUp sz \<and> sz \<le> RoundUp sz \<and> RoundUp sz < sz + MIN_ALLOCATION else RoundUp sz = 0"
  proof (cases "sz + 4096 \<le> 2 ^ 64")
    case True
    then have "RoundUp sz = (sz + 4095) div 4096 * 4096" by (simp add: RoundUp_def MIN_ALLOCATION_def)
    then have "sz \<le> RoundUp sz \<and> RoundUp sz < sz + 4096"
      using div_mult_mod_eq[of "sz + 4095" 4096] mod_less_divisor[of 4096 "sz + 4095"] by linarith
    moreover have "MIN_ALLOCATION dvd RoundUp sz" by (simp add: RoundUp_def)
    ultimately show ?thesis using True by (simp add: MIN_ALLOCATION_def)
  next
    case False
    then have "(sz + 4095) mod 2 ^ 64 = sz + 4095 - 2 ^ 64" using sz64 by (simp add: le_mod_geq)
    then have "(sz + 4095) mod 2 ^ 64 div 4096 = 0" using sz64 by simp
    then show ?thesis using False by (simp add: RoundUp_def MIN_ALLOCATION_def add.commute)
  qed
  moreover have "(sz \<le> 2 ^ 63) = (\<exists>k. CeilLog2 sz = Some k)" using bound ok by blast
  moreover have "(CeilLog2 sz = Some k) = (sz \<le> 2 ^ 63 \<and> k = (LEAST k. sz \<le> 2 ^ k))"
  proof
    assume c: "CeilLog2 sz = Some k"
    then have "sz \<le> 2 ^ 63" by (rule bound)
    then show "sz \<le> 2 ^ 63 \<and> k = (LEAST k. sz \<le> 2 ^ k)" using ok c by simp
  next
    assume "sz \<le> 2 ^ 63 \<and> k = (LEAST k. sz \<le> 2 ^ k)"
    then show "CeilLog2 sz = Some k" using ok by simp
  qed
  ultimately show ?thesis unfolding sz_def[symmetric] by blast
qed

section \<open>Runs on a small heap\<close>

text \<open>One rewriting rule per outcome of a step, so that a run is evaluated a step at a time.\<close>

lemma CeilLog2_loop_eval:
  "sz \<le> 2 ^ (i mod 64) \<Longrightarrow> CeilLog2_loop sz i = Some i"
  "2 ^ (i mod 64) < sz \<Longrightarrow> CeilLog2_loop sz i = CeilLog2_loop sz ((i + 1) mod 256)"
  by (simp_all add: CeilLog2_loop.simps[of sz i])

lemma Free_loop_eval:
  "\<not> Mergeable e b s \<Longrightarrow> Free_loop e b s = Some (e, s)"
  "Mergeable e b s \<Longrightarrow> Merge e b (upd_entry e (\<lambda>e. e\<lparr>is_free := True\<rparr>) s) = Some (e', s') \<Longrightarrow>
     Free_loop e b s = Free_loop e' (BuddyOf s' (EntryToAddr s' e') (order (entries s' e'))) s'"
  by (simp_all add: Free_loop.simps[of e b s])

lemma first_list_eval:
  "0 < n \<Longrightarrow> free_lists s k \<noteq> 0 \<Longrightarrow> first_list s k n = Some k"
  "0 < n \<Longrightarrow> free_lists s k = 0 \<Longrightarrow> first_list s k n = first_list s (k + 1) (n - 1)"
  by (cases n; simp)+

lemma split_loop_eval:
  "0 < n \<Longrightarrow> Split e k s = Some (e', s') \<Longrightarrow>
     split_loop n k e s = split_loop (n - 1) (k - 1) e' (upd_entry e' (\<lambda>x. x\<lparr>is_free := False\<rparr>) s')"
  by (cases n; simp)

lemma Catalog_blocks_eval:
  "sz \<le> MIN_ALLOCATION \<Longrightarrow> Catalog_blocks j sz b s = Some s"
  "MIN_ALLOCATION < sz \<Longrightarrow> sz < 2 ^ j \<Longrightarrow> 0 < j \<Longrightarrow> Catalog_blocks j sz b s = Catalog_blocks (j - 1) sz b s"
  "MIN_ALLOCATION < sz \<Longrightarrow> 2 ^ j \<le> sz \<Longrightarrow> 0 < j \<Longrightarrow> Catalog_blocks j sz b s =
     Option.bind (PushFront j (AddrToEntry s b) (s\<lparr>num_blocks := num_blocks s + int_shl (j - MIN_ORDER)\<rparr>))
       (\<lambda>s. Catalog_blocks (j - 1) (unat (of_nat sz - int_shl j :: u64)) (unat (of_nat b + int_shl j :: u64)) s)"
  by (cases j; simp add: Catalog_blocks.simps[of j] split: option.splits)+

text \<open>A compact form of the states of an allocator with one range of six pages at \<open>0x102000\<close>.\<close>

definition demo_range :: mem_range where
  "demo_range = \<lparr>mdata_base = 0x100028, base = 0x102000, mdata_size = 0x2000, rsize = 0x6000,
     page_entries = 0x100028\<rparr>"

definition demo_state :: "nat list \<Rightarrow> fl_entry list \<Rightarrow> u64 \<Rightarrow> u64 \<Rightarrow> buddy" where
  "demo_state fl es nb mu =
     \<lparr>mem_ranges = [demo_range], num_blocks = nb,
      free_lists = (\<lambda>k. if 12 \<le> k \<and> k - 12 < length fl then fl ! (k - 12) else 0),
      mem_in_use = mu, total_mem = 0x8000, initialized = True,
      entries = (\<lambda>a. if 0x100028 \<le> a \<and> 24 dvd (a - 0x100028) \<and> (a - 0x100028) div 24 < length es
                     then es ! ((a - 0x100028) div 24)
                     else \<lparr>forward = 0, backward = 0, order = 0, is_free = False\<rparr>)\<rparr>"

lemma demo_state_simps:
  "mem_ranges (demo_state fl es nb mu) = [demo_range]" "num_blocks (demo_state fl es nb mu) = nb"
  "mem_in_use (demo_state fl es nb mu) = mu" "total_mem (demo_state fl es nb mu) = 0x8000"
  "initialized (demo_state fl es nb mu) = True"
  "(demo_state fl es nb mu)\<lparr>num_blocks := nb'\<rparr> = demo_state fl es nb' mu"
  "(demo_state fl es nb mu)\<lparr>mem_in_use := mu'\<rparr> = demo_state fl es nb mu'"
  "free_lists (demo_state fl es nb mu) k = (if 12 \<le> k \<and> k - 12 < length fl then fl ! (k - 12) else 0)"
  by (simp_all add: demo_state_def)

lemma demo_entries:
  "0x100028 \<le> a \<Longrightarrow> 24 dvd (a - 0x100028) \<Longrightarrow> (a - 0x100028) div 24 < length es \<Longrightarrow>
     entries (demo_state fl es nb mu) a = es ! ((a - 0x100028) div 24)"
  by (simp add: demo_state_def)

lemma demo_upd_entry:
  "0x100028 \<le> a \<Longrightarrow> 24 dvd (a - 0x100028) \<Longrightarrow> (a - 0x100028) div 24 < length es \<Longrightarrow>
     upd_entry a f (demo_state fl es nb mu) =
     demo_state fl (es[(a - 0x100028) div 24 := f (es ! ((a - 0x100028) div 24))]) nb mu"
  by (auto simp: demo_state_def upd_entry_def fun_eq_iff nth_list_update dvd_div_eq_iff)

lemma demo_set_head:
  "12 \<le> k \<Longrightarrow> k - 12 < length fl \<Longrightarrow> set_head k e (demo_state fl es nb mu) = demo_state (fl[k - 12 := e]) es nb mu"
  by (auto simp: demo_state_def set_head_def fun_eq_iff nth_list_update)


lemma Split_eval:
  "BuddyOf s (EntryToAddr s e) (k - 1) = b \<Longrightarrow> Remove b s = Some s1 \<Longrightarrow> Remove e s1 = Some s2 \<Longrightarrow>
     PushFront (k - 1) e (upd_entry e (\<lambda>x. x\<lparr>is_free := True\<rparr>) (upd_entry b (\<lambda>x. x\<lparr>order := k - 1\<rparr>)
       (upd_entry e (\<lambda>x. x\<lparr>order := k - 1\<rparr>) s2))) = Some s3 \<Longrightarrow>
     Split e k s = Some (b, s3)"
  by (simp add: Split_def Let_def)

lemma Merge_eval:
  "(if b1 < b2 then b1 else b2) = lo \<Longrightarrow> (if b1 < b2 then b2 else b1) = hi \<Longrightarrow>
     Remove lo s = Some s1 \<Longrightarrow> Remove hi s1 = Some s2 \<Longrightarrow> order (entries s2 lo) + 1 = k \<Longrightarrow>
     PushFront k lo (upd_entry lo (\<lambda>x. x\<lparr>order := k\<rparr>) s2) = Some s3 \<Longrightarrow>
     Merge b1 b2 s = Some (lo, s3)"
  by (simp add: Merge_def Let_def split: if_splits)

lemma Allocate_eval:
  "initialized s \<Longrightarrow> CeilLog2 sz = Some k0 \<Longrightarrow> (if k0 > MIN_ORDER then k0 else MIN_ORDER) = k1 \<Longrightarrow>
     s\<lparr>num_blocks := num_blocks s - int_shl (k1 - MIN_ORDER)\<rparr> = s1 \<Longrightarrow>
     first_list s1 k1 (MAX_ORDER - k1) = Some k \<Longrightarrow> PopFront k s1 = Some (e2, s2) \<Longrightarrow>
     split_loop (k - k1) k e2 s2 = Some (e3, s3) \<Longrightarrow>
     upd_entry e3 (\<lambda>x. x\<lparr>is_free := False, order := k1\<rparr>) s3 = s4 \<Longrightarrow>
     Allocate sz s = Some (EntryToAddr s4 e3, s4\<lparr>mem_in_use := mem_in_use s4 + int_shl k1\<rparr>)"
  by (auto simp: Allocate_def Let_def EntryToAddr_def EntryRange_entry_def)

lemma Free_eval:
  "initialized s \<Longrightarrow> a \<noteq> 0 \<Longrightarrow> AddrToEntry s a = e \<Longrightarrow> e \<noteq> 0 \<Longrightarrow> order (entries s e) = k \<Longrightarrow>
     s\<lparr>num_blocks := num_blocks s + int_shl k\<rparr> = s1 \<Longrightarrow> BuddyOf s1 a k = b \<Longrightarrow>
     (if \<not> Mergeable e b s1 then PushFront k e (upd_entry e (\<lambda>x. x\<lparr>is_free := True\<rparr>) s1) else Some s1) = Some s2 \<Longrightarrow>
     Free_loop e b s2 = Some (e3, s3) \<Longrightarrow>
     Free a s = Some (s3\<lparr>mem_in_use := mem_in_use s3 - int_shl (order (entries s3 e3))\<rparr>)"
  by (auto simp: Free_def Let_def)

lemmas beval = first_list_eval split_loop_eval CeilLog2_loop_eval CeilLog2_def Free_loop_eval Catalog_blocks_eval int_shl_def
  MIN_ALLOCATION_def MIN_ORDER_def MAX_ORDER_def RANGE_SIZE_def ENTRY_SIZE_def Let_def
 PushFront_def PopFront_def Remove_def Split_eval Merge_eval Mergeable_def Allocate_eval Free_eval valid_order_def
 EntryRange_addr_def EntryRange_entry_def EntryToAddr_def AddrToEntry_def BuddyOf_def

datatype call = Alloc nat | Release nat

fun run_calls :: "call list \<Rightarrow> buddy \<Rightarrow> (nat list \<times> buddy) option" where
  "run_calls [] s = Some ([], s)"
| "run_calls (Alloc n # cs) s =
     Option.bind (Allocate n s) (\<lambda>(a, s). map_option (\<lambda>(as, s). (a # as, s)) (run_calls cs s))"
| "run_calls (Release a # cs) s = Option.bind (Free a s) (run_calls cs)"


lemma run_calls_eval:
  "Allocate n s = Some (a, s') \<Longrightarrow>
     run_calls (Alloc n # cs) s = map_option (\<lambda>(as, s). (a # as, s)) (run_calls cs s')"
  "Free b s = Some s' \<Longrightarrow> run_calls (Release b # cs) s = run_calls cs s'"
  by simp_all
declare run_calls.simps(2,3)[simp del]

definition demo0 where "demo0 = demo_state [0, 0x100028 + 24*4, 0x100028, 0]
   [\<lparr>forward = 0, backward = 0, order = 14, is_free = False\<rparr>,
    \<lparr>forward = 0, backward = 0, order = 0, is_free = False\<rparr>,
    fresh_entry, fresh_entry, fresh_entry\<lparr>order := 13\<rparr>, fresh_entry, fresh_entry, fresh_entry] 6 0"

text \<open>
  The heap is the one \<open>InitBuddyAllocator\<close> builds for a memory map with one usable range of eight
  pages at \<open>0x100000\<close>: two pages of metadata, a block of four pages and one of two.
\<close>

definition demo_boot :: buddy where
  "demo_boot = \<lparr>mem_ranges = [], num_blocks = 0, free_lists = (\<lambda>_. 0), mem_in_use = 0, total_mem = 0,
     initialized = False, entries = (\<lambda>_. \<lparr>forward = 0, backward = 0, order = 0, is_free = False\<rparr>)\<rparr>"



lemma demo_entries_upd:
  assumes "length es = 8"
  shows "(if 0x100028 \<le> a \<and> 24 dvd (a - 0x100028) \<and> (a - 0x100028) div 24 < length es
              then es ! ((a - 0x100028) div 24) else z) =
    ((\<lambda>_. z)(0x100028 := es ! 0, 0x100040 := es ! 1, 0x100058 := es ! 2, 0x100070 := es ! 3,
      0x100088 := es ! 4, 0x1000a0 := es ! 5, 0x1000b8 := es ! 6, 0x1000d0 := es ! 7)) (a :: nat)"
proof (cases "\<exists>j<8. a = 0x100028 + 24 * j")
  case True
  then obtain j where a: "a = 0x100028 + 24 * j" and "j < 8" by blast
  then consider "j = 0" | "j = 1" | "j = 2" | "j = 3" | "j = 4" | "j = 5" | "j = 6" | "j = 7"
    by linarith
  then show ?thesis by cases (simp_all add: a assms)
next
  case False
  have "\<not> (0x100028 \<le> a \<and> 24 dvd (a - 0x100028) \<and> (a - 0x100028) div 24 < 8)"
  proof
    assume a: "0x100028 \<le> a \<and> 24 dvd (a - 0x100028) \<and> (a - 0x100028) div 24 < 8"
    then have "a = 0x100028 + 24 * ((a - 0x100028) div 24)" by (metis dvd_mult_div_cancel le_add_diff_inverse)
    then show False using False a by blast
  qed
  moreover have "a \<noteq> 0x100028 + 24 * j" if "j < 8" for j using that False by blast
  from this[of 0] this[of 1] this[of 2] this[of 3] this[of 4] this[of 5] this[of 6] this[of 7]
  have "a \<notin> {0x100028, 0x100040, 0x100058, 0x100070, 0x100088, 0x1000a0, 0x1000b8, 0x1000d0}" by simp
  ultimately show ?thesis using assms by auto
qed

lemma demo_heads_upd:
  "(if 12 \<le> k \<and> k - 12 < length [0, a, b, 0] then [0, a, b, 0] ! (k - 12) else 0) =
     ((\<lambda>_. 0)(13 := a, 14 := b)) (k :: nat)"
proof -
  consider "k < 12" | "k = 12" | "k = 13" | "k = 14" | "k = 15" | "15 < k" by linarith
  then show ?thesis by cases simp_all
qed

lemma demo0_is_initial:
  "InitBuddyAllocator [\<lparr>mm_base = 0x100000, mm_length = 0x8000, mm_type = USABLE\<rparr>] demo_boot = Some demo0"
proof -
  have "InitBuddyAllocator [\<lparr>mm_base = 0x100000, mm_length = 0x8000, mm_type = USABLE\<rparr>] demo_boot =
    Some \<lparr>mem_ranges = [demo_range], num_blocks = 6,
      free_lists = (\<lambda>_. 0)(14 := 1048616, 13 := 1048712),
      mem_in_use = 0, total_mem = 32768, initialized = True,
      entries = (\<lambda>_. \<lparr>forward = 0, backward = 0, order = 0, is_free = False\<rparr>)
        (1048664 := fresh_entry, 1048688 := fresh_entry, 1048736 := fresh_entry,
         1048760 := fresh_entry, 1048784 := fresh_entry,
         1048616 := \<lparr>forward = 0, backward = 0, order = 14, is_free = False\<rparr>,
         1048712 := fresh_entry\<lparr>order := 13, forward := 0\<rparr>)\<rparr>"
    by (simp add: InitBuddyAllocator_def demo_boot_def CatalogRange_def beval RoundUp_def upt_rec_eval
      upd_entry_def set_head_def demo_range_def)
  also have "\<dots> = Some demo0"
    unfolding demo0_def demo_state_def demo_heads_upd
    by (subst demo_entries_upd) (simp_all add: fun_eq_iff fresh_entry_def)
  finally show ?thesis .
qed

lemma demo0_counts: "MemInUse demo0 = 0" "TotalMem demo0 = 0x8000" "\<not> MemCritical demo0"
  by (simp_all add: MemInUse_def TotalMem_def MemCritical_def demo0_def demo_state_simps)

text \<open>
  Every address passed to \<open>Free\<close> below was returned by \<open>Allocate\<close> and is freed once per
  allocation, yet the heap ends up handing out the block \<open>0x102000\<close> twice without a \<open>Free\<close>
  in between: \<open>PopFront\<close> leaves the \<open>forward_\<close> field of the popped entry, and a later \<open>Remove\<close> of
  that entry follows it into the free list.
\<close>
theorem Free_reuse_double_allocation:
  "map_option fst (run_calls
     [Alloc 4096, Alloc 4096, Alloc 4096, Alloc 4096, Alloc 4096, Release 0x107000, Alloc 4096,
      Release 0x106000, Release 0x105000, Release 0x107000, Release 0x103000,
      Alloc 4096, Alloc 4096, Alloc 8192] demo0) =
   Some [0x107000, 0x106000, 0x105000, 0x104000, 0x103000, 0x107000, 0x105000, 0x102000, 0x102000]"
  by (simp add: run_calls_eval beval demo0_def demo_entries demo_upd_entry demo_set_head
    demo_state_simps demo_range_def list_update_numeral fresh_entry_def)

text \<open>
  One allocation of a page and its release do not restore the counters: the merged block is
  subtracted from \<open>mem_in_use_\<close>, which wraps below zero so that \<open>MemCritical\<close> holds on an empty
  heap, and \<open>num_blocks_\<close> grows by the bytes of the block instead of its pages.
\<close>
theorem Free_counters:
  "map_option (\<lambda>(as, s). (as, MemInUse s, NumBlocks s, MemCritical s))
     (run_calls [Alloc 4096, Release 0x107000] demo0) =
   Some ([0x107000], - 0x1000, 5 + 0x1000, True)"
  by (simp add: run_calls_eval beval demo0_def demo_entries demo_upd_entry demo_set_head
    demo_state_simps demo_range_def list_update_numeral fresh_entry_def MemInUse_def NumBlocks_def
    MemCritical_def TotalMem_def)

end
