(* ===== verification/Lru_Cache.thy ===== *)
theory Lru_Cache
  imports Hash_Map "HOL-Library.Monad_Syntax"
begin

text \<open>
  \<open>ds::LRUCache\<close> of \<open>src/ds/cache.h\<close>: a doubly linked list of entries in order of use, the head the
  most recent, and a \<open>HashMap\<close> from keys to entries. The entries live in a heap, a finite map from
  addresses; 0 is the null pointer, and following a pointer to no entry has no result.

  The address the allocator returns and the answer of \<open>BuddyAllocator::MemCritical()\<close> are arguments
  of \<open>Insert\<close>; the calls of the eviction handler are logged in \<open>evicted\<close>. The hash table is used
  through its contract \<open>kv_map\<close> only.
\<close>

section \<open>The code\<close>

record ('k, 'v) lentry =
  key_of :: 'k
  val_of :: 'v
  prev :: nat
  next_entry :: nat

record ('k, 'v) cache =
  mru :: nat
  lru :: nat
  cache_entries :: "('k, nat) hash_map"
  cache_num :: nat
  heap :: "nat \<rightharpoonup> ('k, 'v) lentry"
  evicted :: "('k \<times> 'v) list"

definition LRUCache :: "nat \<Rightarrow> ('k, 'v) cache" where
  "LRUCache initial_size =
     \<lparr>mru = 0, lru = 0, cache_entries = HashMap initial_size, cache_num = 0, heap = Map.empty, evicted = []\<rparr>"

definition get :: "nat \<Rightarrow> ('k, 'v) cache \<Rightarrow> ('k, 'v) lentry option" where
  "get a s = (if a = 0 then None else heap s a)"

definition modify :: "nat \<Rightarrow> (('k, 'v) lentry \<Rightarrow> ('k, 'v) lentry) \<Rightarrow> ('k, 'v) cache \<Rightarrow> ('k, 'v) cache option" where
  "modify a f s = map_option (\<lambda>e. s\<lparr>heap := (heap s)(a \<mapsto> f e)\<rparr>) (get a s)"

text \<open>\<open>if(p) p->field = ...;\<close>\<close>

definition modify_nn :: "nat \<Rightarrow> (('k, 'v) lentry \<Rightarrow> ('k, 'v) lentry) \<Rightarrow> ('k, 'v) cache \<Rightarrow> ('k, 'v) cache option" where
  "modify_nn a f s = (if a = 0 then Some s else modify a f s)"

definition Evict_one :: "('k \<Rightarrow> u32) \<Rightarrow> ('k, 'v) cache \<Rightarrow> ('k, 'v) cache option" where
  "Evict_one hash s =
     do { let entry_to_evict = lru s;
          e \<leftarrow> get entry_to_evict s;
          let s = s\<lparr>lru := prev e\<rparr>;
          s \<leftarrow> modify_nn (lru s) (\<lambda>e. e\<lparr>next_entry := 0\<rparr>) s;
          e \<leftarrow> get entry_to_evict s;
          (_, m) \<leftarrow> Delete hash (cache_entries s) (key_of e);
          Some (s\<lparr>cache_entries := m, cache_num := cache_num s - 1,
                  evicted := evicted s @ [(key_of e, val_of e)],
                  heap := (heap s)(entry_to_evict := None)\<rparr>) }"

text \<open>The loop runs while \<open>i < entries_to_evict && num_entries_\<close>; its result is the final \<open>i\<close>.\<close>

fun Evict :: "('k \<Rightarrow> u32) \<Rightarrow> nat \<Rightarrow> ('k, 'v) cache \<Rightarrow> (nat \<times> ('k, 'v) cache) option" where
  "Evict hash 0 s = Some (0, s)"
| "Evict hash (Suc n) s =
     (if cache_num s = 0 then Some (0, s)
      else do { s \<leftarrow> Evict_one hash s;
                (i, s) \<leftarrow> Evict hash n s;
                Some (i + 1, s) })"

definition Flush :: "('k \<Rightarrow> u32) \<Rightarrow> ('k, 'v) cache \<Rightarrow> ('k, 'v) cache option" where
  "Flush hash s = map_option snd (Evict hash (cache_num s) s)"

definition NumEntries :: "('k, 'v) cache \<Rightarrow> nat" where
  "NumEntries s = cache_num s"

text \<open>
  \<open>LRUCache::Insert\<close>. \<open>critical\<close> is the answer of \<open>MemCritical\<close>, \<open>new_entry\<close> the address the
  allocator returns.
\<close>

definition Cache_Insert ::
  "('k \<Rightarrow> u32) \<Rightarrow> bool \<Rightarrow> nat \<Rightarrow> 'k \<Rightarrow> 'v \<Rightarrow> ('k, 'v) cache \<Rightarrow> (bool \<times> ('k, 'v) cache) option" where
  "Cache_Insert hash critical new_entry key val s =
     do { s \<leftarrow> (if critical then map_option snd (Evict hash 1 s) else Some s);
          let s = s\<lparr>heap := (heap s)(new_entry \<mapsto>
                    \<lparr>key_of = key, val_of = val, prev = 0, next_entry = mru s\<rparr>)\<rparr>;
          s \<leftarrow> modify_nn (mru s) (\<lambda>e. e\<lparr>prev := new_entry\<rparr>) s;
          (fresh, m) \<leftarrow> Insert hash (cache_entries s) key new_entry;
          let s = s\<lparr>cache_entries := m\<rparr>;
          if \<not> fresh then Some (False, s)
          else Some (True, s\<lparr>mru := new_entry, lru := (if lru s = 0 then new_entry else lru s),
                             cache_num := cache_num s + 1\<rparr>) }"

definition Cache_Lookup ::
  "('k \<Rightarrow> u32) \<Rightarrow> 'k \<Rightarrow> ('k, 'v) cache \<Rightarrow> ('v option \<times> ('k, 'v) cache) option" where
  "Cache_Lookup hash key s =
     do { opt_entry \<leftarrow> Lookup hash (cache_entries s) key;
          case opt_entry of
            None \<Rightarrow> Some (None, s)
          | Some entry \<Rightarrow>
              do { e \<leftarrow> get entry s;
                   s \<leftarrow> modify_nn (prev e) (\<lambda>x. x\<lparr>next_entry := next_entry e\<rparr>) s;
                   e \<leftarrow> get entry s;
                   s \<leftarrow> modify_nn (next_entry e) (\<lambda>x. x\<lparr>prev := prev e\<rparr>) s;
                   e \<leftarrow> get entry s;
                   let s = (if 1 < cache_num s \<and> lru s = entry then s\<lparr>lru := prev e\<rparr> else s);
                   s \<leftarrow> modify entry (\<lambda>x. x\<lparr>prev := 0\<rparr>) s;
                   s \<leftarrow> (if mru s \<noteq> entry
                         then map_option (\<lambda>t. t\<lparr>mru := entry\<rparr>)
                                (modify entry (\<lambda>x. x\<lparr>next_entry := mru s\<rparr>) s)
                         else Some s);
                   e \<leftarrow> get entry s;
                   s \<leftarrow> modify_nn (next_entry e) (\<lambda>x. x\<lparr>prev := entry\<rparr>) s;
                   e \<leftarrow> get entry s;
                   Some (Some (val_of e), s) } }"

section \<open>Doubly linked lists\<close>

text \<open>
  \<open>dl h p xs q\<close>: the entries \<open>xs\<close> are chained, the first one points back to \<open>p\<close>, the last one
  forward to \<open>q\<close>.
\<close>

definition head_of :: "nat list \<Rightarrow> nat \<Rightarrow> nat" where
  "head_of xs q = (case xs of [] \<Rightarrow> q | x # _ \<Rightarrow> x)"

definition last_of :: "nat \<Rightarrow> nat list \<Rightarrow> nat" where
  "last_of p xs = (if xs = [] then p else last xs)"

fun dl :: "(nat \<rightharpoonup> ('k, 'v) lentry) \<Rightarrow> nat \<Rightarrow> nat list \<Rightarrow> nat \<Rightarrow> bool" where
  "dl h p [] q \<longleftrightarrow> True"
| "dl h p (x # xs) q \<longleftrightarrow>
     x \<noteq> 0 \<and> (\<exists>e. h x = Some e \<and> prev e = p \<and> next_entry e = head_of xs q) \<and> dl h x xs q"

lemma head_of_simps [simp]: "head_of [] q = q" "head_of (x # xs) q = x"
  by (simp_all add: head_of_def)

lemma last_of_simps [simp]: "last_of p [] = p" "last_of p (x # xs) = last_of x xs"
  "last_of p (xs @ [y]) = y"
  by (simp_all add: last_of_def)

lemma last_of_in: "xs \<noteq> [] \<Longrightarrow> last_of p xs \<in> set xs"
  by (simp add: last_of_def)

lemma head_of_in: "xs \<noteq> [] \<Longrightarrow> head_of xs q \<in> set xs"
  by (cases xs) simp_all

lemma head_of_append: "head_of (xs @ ys) q = head_of xs (head_of ys q)"
  by (cases xs) simp_all

lemma last_of_append: "last_of p (xs @ ys) = last_of (last_of p xs) ys"
  by (simp add: last_of_def)

lemma dl_append: "dl h p (xs @ ys) q \<longleftrightarrow> dl h p xs (head_of ys q) \<and> dl h (last_of p xs) ys q"
  by (induction xs arbitrary: p) (auto simp: head_of_append)

lemma dl_frame [simp]: "a \<notin> set xs \<Longrightarrow> dl (h(a := e)) p xs q = dl h p xs q"
  by (induction xs arbitrary: p) auto

lemma dl_cong: "(\<And>b. b \<in> set xs \<Longrightarrow> h b = h' b) \<Longrightarrow> dl h p xs q = dl h' p xs q"
  by (induction xs arbitrary: p) auto

lemma dl_nonnull: "dl h p xs q \<Longrightarrow> x \<in> set xs \<Longrightarrow> x \<noteq> 0 \<and> h x \<noteq> None"
  by (induction xs arbitrary: p) (auto split: option.splits)

lemma dl_set_head:
  "dl h p xs q \<Longrightarrow> distinct xs \<Longrightarrow> xs \<noteq> [] \<Longrightarrow> h (head_of xs r) = Some e \<Longrightarrow>
     dl (h(head_of xs r \<mapsto> e\<lparr>prev := p'\<rparr>)) p' xs q"
  by (cases xs) auto

lemma dl_set_last:
  "dl h p xs q \<Longrightarrow> distinct xs \<Longrightarrow> xs \<noteq> [] \<Longrightarrow> h (last_of r xs) = Some e \<Longrightarrow>
     dl (h(last_of r xs \<mapsto> e\<lparr>next_entry := q'\<rparr>)) p xs q'"
proof (induction xs arbitrary: p r)
  case (Cons x xs)
  show ?case
  proof (cases "xs = []")
    case True
    then show ?thesis using Cons.prems by (auto split: option.splits)
  next
    case False
    have "last_of x xs \<in> set xs" using False by (rule last_of_in)
    then have "last_of x xs \<noteq> x" using Cons.prems(2) by auto
    moreover have "head_of xs q' = head_of xs q" using False by (cases xs) simp_all
    ultimately show ?thesis
      using Cons.prems Cons.IH[of x x] False by (auto split: option.splits)
  qed
qed simp

text \<open>What an entry stores, and that changing links does not change it.\<close>

definition stored :: "(nat \<rightharpoonup> ('k, 'v) lentry) \<Rightarrow> nat \<Rightarrow> ('k \<times> 'v) option" where
  "stored h a = map_option (\<lambda>e. (key_of e, val_of e)) (h a)"

lemma stored_link [simp]:
  "h a = Some e \<Longrightarrow> stored (h(a \<mapsto> e\<lparr>prev := p\<rparr>)) = stored h"
  "h a = Some e \<Longrightarrow> stored (h(a \<mapsto> e\<lparr>next_entry := p\<rparr>)) = stored h"
  "h a = Some e \<Longrightarrow> stored (h(a \<mapsto> e\<lparr>prev := p, next_entry := q\<rparr>)) = stored h"
  by (auto simp: stored_def fun_eq_iff)

lemma link_next:
  assumes "dl (heap s) p ys q" "distinct ys"
  shows "\<exists>s'. modify_nn (last_of 0 ys) (\<lambda>x. x\<lparr>next_entry := q'\<rparr>) s = Some s' \<and> dl (heap s') p ys q' \<and>
    (\<forall>a. a \<notin> set ys \<longrightarrow> heap s' a = heap s a) \<and> stored (heap s') = stored (heap s) \<and>
    s' = s\<lparr>heap := heap s'\<rparr>"
proof (cases "ys = []")
  case False
  have l: "last_of 0 ys \<in> set ys" using False by (rule last_of_in)
  then obtain e where "heap s (last_of 0 ys) = Some e" "last_of 0 ys \<noteq> 0"
    using dl_nonnull[OF assms(1)] by blast
  then show ?thesis
    using dl_set_last[OF assms False] l by (auto simp: modify_nn_def modify_def get_def)
qed (simp add: modify_nn_def)

lemma link_prev:
  assumes "dl (heap s) p ys q" "distinct ys"
  shows "\<exists>s'. modify_nn (head_of ys 0) (\<lambda>x. x\<lparr>prev := p'\<rparr>) s = Some s' \<and> dl (heap s') p' ys q \<and>
    (\<forall>a. a \<notin> set ys \<longrightarrow> heap s' a = heap s a) \<and> stored (heap s') = stored (heap s) \<and>
    s' = s\<lparr>heap := heap s'\<rparr>"
proof (cases "ys = []")
  case False
  have l: "head_of ys 0 \<in> set ys" using False by (rule head_of_in)
  then obtain e where "heap s (head_of ys 0) = Some e" "head_of ys 0 \<noteq> 0"
    using dl_nonnull[OF assms(1)] by blast
  then show ?thesis
    using dl_set_head[OF assms False] l by (auto simp: modify_nn_def modify_def get_def)
qed (simp add: modify_nn_def)

lemma stored_dom: "stored h = stored h' \<Longrightarrow> dom h = dom h'"
proof -
  have "dom g = dom (stored g)" for g :: "nat \<rightharpoonup> ('a, 'b) lentry" by (auto simp: stored_def dom_def)
  then show "stored h = stored h' \<Longrightarrow> dom h = dom h'" by metis
qed

section \<open>Invariant\<close>

text \<open>\<open>xs\<close> is the list of the addresses of the entries, most recently used first.\<close>

definition index_ok :: "('k, 'v) cache \<Rightarrow> nat list \<Rightarrow> bool" where
  "index_ok s xs \<longleftrightarrow>
     (\<forall>k a. hm_abs (cache_entries s) k = Some a \<longleftrightarrow> a \<in> set xs \<and> map_option fst (stored (heap s) a) = Some k)"

definition lru_inv :: "('k \<Rightarrow> u32) \<Rightarrow> ('k, 'v) cache \<Rightarrow> nat list \<Rightarrow> bool" where
  "lru_inv hash s xs \<longleftrightarrow>
     dl (heap s) 0 xs 0 \<and> distinct xs \<and> dom (heap s) = set xs \<and> cache_num s = length xs \<and>
     (xs \<noteq> [] \<longrightarrow> mru s = head_of xs 0) \<and> lru s = last_of 0 xs \<and>
     hm_inv hash (cache_entries s) \<and> index_ok s xs"

definition items :: "('k, 'v) cache \<Rightarrow> nat list \<Rightarrow> ('k \<times> 'v) list" where
  "items s xs = map (\<lambda>a. the (stored (heap s) a)) xs"

lemma lru_inv_entry:
  assumes "lru_inv hash s xs" "a \<in> set xs"
  obtains e where "heap s a = Some e" "a \<noteq> 0"
  using assms dl_nonnull[of "heap s" 0 xs 0 a] unfolding lru_inv_def by blast

lemma items_distinct:
  assumes "lru_inv hash s xs"
  shows "distinct (map fst (items s xs))"
  unfolding items_def map_map distinct_map
proof
  show "distinct xs" using assms by (simp add: lru_inv_def)
  show "inj_on (fst \<circ> (\<lambda>a. the (stored (heap s) a))) (set xs)"
  proof (rule inj_onI)
    fix a b assume ab: "a \<in> set xs" "b \<in> set xs"
      and eq: "(fst \<circ> (\<lambda>a. the (stored (heap s) a))) a = (fst \<circ> (\<lambda>a. the (stored (heap s) a))) b"
    obtain e f where "heap s a = Some e" "heap s b = Some f"
      using lru_inv_entry[OF assms] ab by metis
    then have "hm_abs (cache_entries s) (key_of e) = Some a" "hm_abs (cache_entries s) (key_of e) = Some b"
      using assms ab eq by (simp_all add: lru_inv_def index_ok_def stored_def)
    then show "a = b" by simp
  qed
qed

lemma map_of_items:
  assumes "lru_inv hash s xs"
  shows "map_of (items s xs) k =
    (case hm_abs (cache_entries s) k of None \<Rightarrow> None | Some a \<Rightarrow> map_option snd (stored (heap s) a))"
proof (cases "hm_abs (cache_entries s) k")
  case None
  have "k \<notin> fst ` set (items s xs)"
  proof
    assume "k \<in> fst ` set (items s xs)"
    then obtain a where a: "a \<in> set xs" "k = fst (the (stored (heap s) a))" by (auto simp: items_def)
    moreover obtain e where "heap s a = Some e" using lru_inv_entry[OF assms a(1)] by blast
    ultimately have "hm_abs (cache_entries s) k = Some a"
      using assms by (simp add: lru_inv_def index_ok_def stored_def)
    then show False using None by simp
  qed
  then show ?thesis using None by (simp add: map_of_eq_None_iff)
next
  case (Some a)
  then have a: "a \<in> set xs" "map_option fst (stored (heap s) a) = Some k"
    using assms by (simp_all add: lru_inv_def index_ok_def)
  then obtain v where v: "stored (heap s) a = Some (k, v)" by auto
  then have "(k, v) \<in> set (items s xs)" using a(1) by (force simp: items_def)
  then have "map_of (items s xs) k = Some v" using items_distinct[OF assms] by simp
  then show ?thesis using Some v by simp
qed

section \<open>Lookup\<close>

lemma lookup_front:
  assumes inv: "lru_inv hash s xs"
  shows "case map_of (items s xs) key of
      None \<Rightarrow> Cache_Lookup hash key s = Some (None, s)
    | Some v \<Rightarrow> \<exists>s' xs'. Cache_Lookup hash key s = Some (Some v, s') \<and> lru_inv hash s' xs' \<and>
        items s' xs' = (key, v) # filter (\<lambda>kv. fst kv \<noteq> key) (items s xs) \<and> evicted s' = evicted s \<and>
        cache_entries s' = cache_entries s \<and> set xs' = set xs"
proof (cases "hm_abs (cache_entries s) key")
  case None
  have "Lookup hash (cache_entries s) key = Some None"
    using hmap.lookup_abs[of hash "cache_entries s" key] inv None by (simp add: lru_inv_def)
  then show ?thesis using None by (simp add: Cache_Lookup_def map_of_items[OF inv])
next
  case (Some a)
  have look: "Lookup hash (cache_entries s) key = Some (Some a)"
    using hmap.lookup_abs[of hash "cache_entries s" key] inv Some by (simp add: lru_inv_def)
  have axs: "a \<in> set xs" and ak: "map_option fst (stored (heap s) a) = Some key"
    using inv Some by (simp_all add: lru_inv_def index_ok_def)
  obtain ys zs where xs: "xs = ys @ a # zs" using split_list[OF axs] by blast
  have dist: "distinct ys" "distinct zs" "a \<notin> set ys" "a \<notin> set zs" "set ys \<inter> set zs = {}"
    using inv by (auto simp: lru_inv_def xs)
  obtain e where e: "heap s a = Some e" "a \<noteq> 0" "prev e = last_of 0 ys" "next_entry e = head_of zs 0"
    and d0: "dl (heap s) 0 ys a" "dl (heap s) a zs 0"
    using inv by (auto simp: lru_inv_def xs dl_append)
  have ev: "key_of e = key" using ak e(1) by (simp add: stored_def)
  obtain s1 where s1: "modify_nn (last_of 0 ys) (\<lambda>x. x\<lparr>next_entry := head_of zs 0\<rparr>) s = Some s1"
    "dl (heap s1) 0 ys (head_of zs 0)" "\<forall>b. b \<notin> set ys \<longrightarrow> heap s1 b = heap s b"
    "stored (heap s1) = stored (heap s)" "s1 = s\<lparr>heap := heap s1\<rparr>"
    using link_next[OF d0(1) dist(1), of "head_of zs 0"] by blast
  have z1: "dl (heap s1) a zs 0"
    using d0(2) s1(3) dist(5) by (subst dl_cong[of zs "heap s1" "heap s"]) auto
  have a1: "heap s1 a = Some e" using s1(3) dist(3) e(1) by simp
  obtain s2 where s2: "modify_nn (head_of zs 0) (\<lambda>x. x\<lparr>prev := last_of 0 ys\<rparr>) s1 = Some s2"
    "dl (heap s2) (last_of 0 ys) zs 0" "\<forall>b. b \<notin> set zs \<longrightarrow> heap s2 b = heap s1 b"
    "stored (heap s2) = stored (heap s1)" "s2 = s1\<lparr>heap := heap s2\<rparr>"
    using link_prev[OF z1 dist(2), of "last_of 0 ys"] by blast
  have a2: "heap s2 a = Some e" using s2(3) dist(4) a1 by simp
  have "dl (heap s2) 0 ys (head_of zs 0)"
    using s1(2) s2(3) dist(5) by (subst dl_cong[of ys "heap s2" "heap s1"]) auto
  then have d2: "dl (heap s2) 0 (ys @ zs) 0" using s2(2) by (simp add: dl_append)
  have rest: "s2 = s\<lparr>heap := heap s2\<rparr>" using s1(5) s2(5) by (metis cache.surjective cache.update_convs(5))
  then have fields: "cache_num s2 = cache_num s" "lru s2 = lru s" "mru s2 = mru s"
    "cache_entries s2 = cache_entries s" "evicted s2 = evicted s"
    using arg_cong[OF rest, of cache_num] arg_cong[OF rest, of lru] arg_cong[OF rest, of mru]
      arg_cong[OF rest, of cache_entries] arg_cong[OF rest, of evicted] by simp_all
  let ?L = "last_of 0 (a # ys @ zs)" and ?e = "e\<lparr>prev := 0, next_entry := head_of (ys @ zs) 0\<rparr>"
  have L: "(if 1 < cache_num s \<and> lru s = a then last_of 0 ys else lru s) = ?L"
  proof (cases "zs = []")
    case True
    then show ?thesis using inv by (cases "ys = []") (simp_all add: lru_inv_def xs last_of_def)
  next
    case False
    then have "last_of a zs \<in> set zs" by (rule last_of_in)
    then have "lru s \<noteq> a" "lru s = last_of a zs"
      using inv dist(4) by (auto simp: lru_inv_def xs last_of_append)
    then show ?thesis using False by (simp add: last_of_def)
  qed
  have M: "mru s = head_of (ys @ [a]) 0" using inv by (simp add: lru_inv_def xs head_of_append)
  let ?s5 = "s2\<lparr>lru := ?L, mru := a, heap := (heap s2)(a \<mapsto> ?e)\<rparr>"
  have "dl (heap ?s5) 0 (ys @ zs) 0" using d2 dist(3,4) by simp
  then obtain s6 where s6: "modify_nn (head_of (ys @ zs) 0) (\<lambda>x. x\<lparr>prev := a\<rparr>) ?s5 = Some s6"
    "dl (heap s6) a (ys @ zs) 0" "\<forall>b. b \<notin> set (ys @ zs) \<longrightarrow> heap s6 b = heap ?s5 b"
    "stored (heap s6) = stored (heap ?s5)" "s6 = ?s5\<lparr>heap := heap s6\<rparr>"
    using link_prev[of ?s5 0 "ys @ zs" 0 a] dist by auto
  have a6: "heap s6 a = Some ?e" using s6(3) dist(3,4) by simp
  let ?s4 = "s2\<lparr>lru := ?L, heap := (heap s2)(a \<mapsto> e\<lparr>prev := 0\<rparr>)\<rparr>"
  have s4: "modify a (\<lambda>x. x\<lparr>prev := 0\<rparr>) (s2\<lparr>lru := ?L\<rparr>) = Some ?s4"
    using a2 e(2) by (simp add: modify_def get_def)
  have s5: "(if mru ?s4 \<noteq> a
      then map_option (\<lambda>t. t\<lparr>mru := a\<rparr>) (modify a (\<lambda>x. x\<lparr>next_entry := mru ?s4\<rparr>) ?s4)
      else Some ?s4) = Some ?s5"
  proof (cases "ys = []")
    case True
    then show ?thesis using M e(4) fields(3) by (cases s2; cases e) simp
  next
    case False
    then have "head_of (ys @ zs) 0 = head_of (ys @ [a]) 0" "head_of (ys @ [a]) 0 \<in> set ys"
      by (cases ys; simp)+
    then show ?thesis using M dist(3) e(2) fields by (auto simp: modify_def get_def)
  qed
  have l3: "(if 1 < cache_num s2 \<and> lru s2 = a then s2\<lparr>lru := last_of 0 ys\<rparr> else s2) = s2\<lparr>lru := ?L\<rparr>"
  proof -
    have "s2\<lparr>lru := lru s\<rparr> = s2" using fields(2) by simp
    then show ?thesis using L fields(1,2) by (auto split: if_splits)
  qed
  have g: "get a s = Some e" "get a s1 = Some e" "get a s2 = Some e" "get a ?s5 = Some ?e" "get a s6 = Some ?e"
    using e(1,2) a1 a2 a6 by (simp_all add: get_def)
  have ne: "next_entry ?e = head_of (ys @ zs) 0" by simp
  have run: "Cache_Lookup hash key s = Some (Some (val_of e), s6)"
    unfolding Cache_Lookup_def look g(1) bind.bind_lunit option.case Let_def e(3) e(4) s1(1) g(2) s2(1) g(3) l3 s4 s5 g(4)
      ne s6(1) g(5) by simp
  let ?xs = "a # ys @ zs"
  have st: "stored (heap s6) = stored (heap s)"
    unfolding s6(4) using a2 s1(4) s2(4) by simp
  have s6_fields: "cache_num s6 = cache_num s" "lru s6 = ?L" "mru s6 = a"
    "cache_entries s6 = cache_entries s" "evicted s6 = evicted s"
    using arg_cong[OF s6(5), of cache_num] arg_cong[OF s6(5), of lru] arg_cong[OF s6(5), of mru]
      arg_cong[OF s6(5), of cache_entries] arg_cong[OF s6(5), of evicted] fields by simp_all
  have "dom (heap s6) = dom (heap s)" using st by (rule stored_dom)
  then have inv': "lru_inv hash s6 ?xs"
    using inv s6(2) a6 e(2) dist by (auto simp: lru_inv_def s6_fields xs index_ok_def st)
  have "stored (heap s) a = Some (key, val_of e)" using e(1) ev by (simp add: stored_def)
  moreover have "items s6 ?xs = the (stored (heap s) a) # items s (ys @ zs)" by (simp add: items_def st)
  moreover have "filter (\<lambda>kv. fst kv \<noteq> key) (items s xs) = items s (ys @ zs)"
  proof -
    have "distinct (map fst (items s ys @ (key, val_of e) # items s zs))"
      using items_distinct[OF inv] calculation(1) by (simp add: items_def xs)
    then have "\<forall>kv\<in>set (items s ys) \<union> set (items s zs). fst kv \<noteq> key" by auto
    then show ?thesis using calculation(1) by (simp add: items_def xs)
  qed
  moreover have "map_of (items s xs) key = Some (val_of e)"
    using Some calculation(1) by (simp add: map_of_items[OF inv])
  moreover have "set ?xs = set xs" by (auto simp: xs)
  ultimately show ?thesis
    using run inv' s6_fields by (simp only: option.case) (rule exI[of _ s6], rule exI[of _ ?xs], simp)
qed

section \<open>Insert and Evict\<close>

lemma map_of_items_None: "lru_inv hash s xs \<Longrightarrow> map_of (items s xs) k = None \<Longrightarrow> hm_abs (cache_entries s) k = None"
  using map_of_items[of hash s xs k] by (auto simp: lru_inv_def index_ok_def split: option.splits)

lemma insert_front:
  assumes inv: "lru_inv hash s xs" and room: "hm_room (Suc n) (cache_entries s)"
    and absent: "map_of (items s xs) key = None"
    and fresh: "a \<noteq> 0" "heap s a = None" and empty: "xs = [] \<longrightarrow> mru s = 0"
  shows "\<exists>s'. Cache_Insert hash False a key v s = Some (True, s') \<and> lru_inv hash s' (a # xs) \<and>
    items s' (a # xs) = (key, v) # items s xs \<and> evicted s' = evicted s \<and> hm_room n (cache_entries s')"
proof -
  let ?e = "\<lparr>key_of = key, val_of = v, prev = 0, next_entry = head_of xs 0\<rparr>"
  let ?s1 = "s\<lparr>heap := (heap s)(a \<mapsto> ?e)\<rparr>"
  have m: "mru s = head_of xs 0" using inv empty by (cases xs) (simp_all add: lru_inv_def)
  have axs: "a \<notin> set xs" using inv fresh(2) by (auto simp: lru_inv_def)
  have d: "dl (heap ?s1) 0 xs 0" "distinct xs" using inv axs by (simp_all add: lru_inv_def)
  obtain s2 where s2: "modify_nn (head_of xs 0) (\<lambda>x. x\<lparr>prev := a\<rparr>) ?s1 = Some s2"
    "dl (heap s2) a xs 0" "\<forall>b. b \<notin> set xs \<longrightarrow> heap s2 b = heap ?s1 b"
    "stored (heap s2) = stored (heap ?s1)" "s2 = ?s1\<lparr>heap := heap s2\<rparr>"
    using link_prev[OF d, of a] by blast
  have f2: "cache_num s2 = cache_num s" "lru s2 = lru s" "mru s2 = mru s"
    "cache_entries s2 = cache_entries s" "evicted s2 = evicted s"
    using arg_cong[OF s2(5), of cache_num] arg_cong[OF s2(5), of lru] arg_cong[OF s2(5), of mru]
      arg_cong[OF s2(5), of cache_entries] arg_cong[OF s2(5), of evicted] by simp_all
  have hm: "hm_inv hash (cache_entries s)" using inv by (simp add: lru_inv_def)
  obtain m' where m': "Insert hash (cache_entries s) key a = Some (True, m')" "hm_inv hash m'"
    "hm_room n m'" "hm_abs m' = (hm_abs (cache_entries s))(key \<mapsto> a)"
    using hmap.insert_fresh[OF hm room map_of_items_None[OF inv absent], of a] by blast
  let ?s' = "s2\<lparr>cache_entries := m', mru := a, lru := (if lru s = 0 then a else lru s),
    cache_num := cache_num s + 1\<rparr>"
  have run: "Cache_Insert hash False a key v s = Some (True, ?s')"
    using s2(1) m'(1) f2 by (simp add: Cache_Insert_def Let_def m)
  have a2: "heap s2 a = Some ?e" using s2(3) axs by simp
  have st: "stored (heap s2) b = (if b = a then Some (key, v) else stored (heap s) b)" for b
    unfolding s2(4) by (simp add: stored_def)
  have old: "stored (heap s) a = None" using fresh(2) by (simp add: stored_def)
  have l: "(if lru s = 0 then a else lru s) = last_of 0 (a # xs)"
  proof (cases "xs = []")
    case False
    then have "last_of 0 xs \<in> set xs" by (rule last_of_in)
    then have "last_of 0 xs \<noteq> 0" using dl_nonnull inv by (metis lru_inv_def)
    then show ?thesis using False inv by (simp add: lru_inv_def last_of_def)
  qed (use inv in \<open>simp add: lru_inv_def\<close>)
  have dm: "dom (heap s2) = insert a (set xs)"
    using stored_dom[OF s2(4)] inv by (simp add: lru_inv_def)
  have "index_ok ?s' (a # xs)"
    unfolding index_ok_def
  proof (intro allI)
    fix k b
    show "hm_abs (cache_entries ?s') k = Some b \<longleftrightarrow>
      b \<in> set (a # xs) \<and> map_option fst (stored (heap ?s') b) = Some k"
    proof (cases "k = key")
      case True
      have "map_option fst (stored (heap s) b) \<noteq> Some key" if "b \<in> set xs"
      proof
        assume "map_option fst (stored (heap s) b) = Some key"
        then have "hm_abs (cache_entries s) key = Some b" using inv that by (simp add: lru_inv_def index_ok_def)
        then show False using map_of_items_None[OF inv absent] by simp
      qed
      then show ?thesis using True axs by (auto simp: m'(4) st)
    next
      case False
      then show ?thesis using inv axs by (auto simp: m'(4) st lru_inv_def index_ok_def)
    qed
  qed
  then have "lru_inv hash ?s' (a # xs)"
    using inv s2(2) a2 fresh(1) axs m'(2) l dm by (simp add: lru_inv_def)
  moreover have "items ?s' (a # xs) = (key, v) # items s xs"
    using axs by (auto simp: items_def st)
  ultimately show ?thesis using run f2 m'(3) by auto
qed

lemma Evict_one_last:
  assumes inv: "lru_inv hash s (xs @ [a])"
  shows "\<exists>s'. Evict_one hash s = Some s' \<and> lru_inv hash s' xs \<and> items s' xs = items s xs \<and>
    evicted s' = evicted s @ items s [a] \<and> mru s' = mru s \<and>
    (\<forall>n. hm_room n (cache_entries s) \<longrightarrow> hm_room n (cache_entries s'))"
proof -
  obtain e where e: "heap s a = Some e" "a \<noteq> 0" "prev e = last_of 0 xs" and d: "dl (heap s) 0 xs a"
    using inv by (auto simp: lru_inv_def dl_append)
  have axs: "a \<notin> set xs" and dist: "distinct xs" and lru: "lru s = a"
    using inv by (simp_all add: lru_inv_def)
  let ?s1 = "s\<lparr>lru := last_of 0 xs\<rparr>"
  have d1: "dl (heap ?s1) 0 xs a" using d by simp
  obtain s2 where s2: "modify_nn (last_of 0 xs) (\<lambda>x. x\<lparr>next_entry := 0\<rparr>) ?s1 = Some s2"
    "dl (heap s2) 0 xs 0" "\<forall>b. b \<notin> set xs \<longrightarrow> heap s2 b = heap ?s1 b"
    "stored (heap s2) = stored (heap ?s1)" "s2 = ?s1\<lparr>heap := heap s2\<rparr>"
    using link_next[OF d1 dist, of 0] by blast
  have f2: "cache_num s2 = cache_num s" "lru s2 = last_of 0 xs" "mru s2 = mru s"
    "cache_entries s2 = cache_entries s" "evicted s2 = evicted s"
    using arg_cong[OF s2(5), of cache_num] arg_cong[OF s2(5), of lru] arg_cong[OF s2(5), of mru]
      arg_cong[OF s2(5), of cache_entries] arg_cong[OF s2(5), of evicted] by simp_all
  have a2: "heap s2 a = Some e" using s2(3) axs e(1) by simp
  have hm: "hm_inv hash (cache_entries s)" using inv by (simp add: lru_inv_def)
  have key: "hm_abs (cache_entries s) (key_of e) = Some a"
    using inv e(1) by (simp add: lru_inv_def index_ok_def stored_def)
  obtain m' where m': "Delete hash (cache_entries s) (key_of e) = Some (True, m')" "hm_inv hash m'"
    "hm_abs m' = (hm_abs (cache_entries s))(key_of e := None)"
    "\<forall>n. hm_room n (cache_entries s) \<longrightarrow> hm_room n m'"
    using hmap.delete_abs[OF hm, of "key_of e"] key by auto
  let ?s' = "s2\<lparr>cache_entries := m', cache_num := cache_num s - 1,
    evicted := evicted s @ [(key_of e, val_of e)], heap := (heap s2)(a := None)\<rparr>"
  have run: "Evict_one hash s = Some ?s'"
    using e(1,2) s2(1) a2 m'(1) f2 by (simp add: Evict_one_def Let_def lru get_def e(3))
  have st: "stored ((heap s2)(a := None)) b = (if b = a then None else stored (heap s) b)" for b
    using fun_cong[OF s2(4), of b] by (simp add: stored_def)
  have "index_ok ?s' xs"
    unfolding index_ok_def
  proof (intro allI)
    fix k b
    show "hm_abs (cache_entries ?s') k = Some b \<longleftrightarrow>
      b \<in> set xs \<and> map_option fst (stored (heap ?s') b) = Some k"
    proof (cases "k = key_of e")
      case True
      have "map_option fst (stored (heap s) b) \<noteq> Some k" if "b \<in> set xs"
      proof
        assume "map_option fst (stored (heap s) b) = Some k"
        then have "hm_abs (cache_entries s) k = Some b" using inv that by (simp add: lru_inv_def index_ok_def)
        then show False using key True that axs by simp
      qed
      then show ?thesis using True by (auto simp: m'(3) st)
    next
      case False
      have "stored (heap s) a = Some (key_of e, val_of e)" using e(1) by (simp add: stored_def)
      with False show ?thesis using inv axs by (auto simp: m'(3) st lru_inv_def index_ok_def)
    qed
  qed
  moreover have "dom (heap ?s') = set xs"
    using stored_dom[OF s2(4)] inv axs by (auto simp: lru_inv_def)
  moreover have "xs \<noteq> [] \<longrightarrow> mru s = head_of xs 0" using inv by (cases xs) (simp_all add: lru_inv_def)
  ultimately have "lru_inv hash ?s' xs"
    using inv s2(2) axs m'(2) f2 dist by (simp add: lru_inv_def)
  moreover have "items ?s' xs = items s xs" using axs by (auto simp: items_def st)
  ultimately show ?thesis using run f2 m'(4) e(1) by (auto simp: items_def stored_def)
qed

lemma evict_oldest:
  assumes "lru_inv hash s xs" "n \<le> length xs"
  shows "\<exists>s'. Evict hash n s = Some (n, s') \<and> lru_inv hash s' (take (length xs - n) xs) \<and>
    items s' (take (length xs - n) xs) = take (length xs - n) (items s xs) \<and>
    evicted s' = evicted s @ rev (drop (length xs - n) (items s xs)) \<and> mru s' = mru s \<and>
    (\<forall>n. hm_room n (cache_entries s) \<longrightarrow> hm_room n (cache_entries s'))"
  using assms
proof (induction n arbitrary: s xs)
  case (Suc n)
  then obtain ys a where xs: "xs = ys @ [a]" by (metis list.size(3) not_less_eq_eq rev_exhaust zero_le)
  obtain s1 where s1: "Evict_one hash s = Some s1" "lru_inv hash s1 ys" "items s1 ys = items s ys"
    "evicted s1 = evicted s @ items s [a]" "mru s1 = mru s"
    "\<forall>n. hm_room n (cache_entries s) \<longrightarrow> hm_room n (cache_entries s1)"
    using Evict_one_last Suc.prems(1) unfolding xs by blast
  have n: "n \<le> length ys" using Suc.prems(2) by (simp add: xs)
  obtain s2 where s2: "Evict hash n s1 = Some (n, s2)" "lru_inv hash s2 (take (length ys - n) ys)"
    "items s2 (take (length ys - n) ys) = take (length ys - n) (items s1 ys)"
    "evicted s2 = evicted s1 @ rev (drop (length ys - n) (items s1 ys))" "mru s2 = mru s1"
    "\<forall>n. hm_room n (cache_entries s1) \<longrightarrow> hm_room n (cache_entries s2)"
    using Suc.IH[OF s1(2) n] by blast
  have "cache_num s = Suc (length ys)" using Suc.prems(1) by (simp add: lru_inv_def xs)
  then have "Evict hash (Suc n) s = Some (Suc n, s2)" using s1(1) s2(1) by simp
  moreover have "items s xs = items s ys @ items s [a]" "length (items s ys) = length ys"
    "rev (items s [a]) = items s [a]"
    by (simp_all add: items_def xs)
  ultimately show ?case using s1 s2 by (auto simp: xs)
qed (simp add: items_def)

section \<open>The cache as a list of items\<close>

text \<open>
  \<open>Lookup\<close> returns the value last inserted under the key and moves its entry to the front, leaving
  the order of the others alone; a key that is not cached is reported absent and changes nothing.
\<close>
theorem Cache_Lookup_front:
  assumes inv: "lru_inv hash s xs"
  shows "case map_of (items s xs) key of
      None \<Rightarrow> Cache_Lookup hash key s = Some (None, s)
    | Some v \<Rightarrow> \<exists>s' xs'. Cache_Lookup hash key s = Some (Some v, s') \<and> lru_inv hash s' xs' \<and>
        items s' xs' = (key, v) # filter (\<lambda>kv. fst kv \<noteq> key) (items s xs) \<and> evicted s' = evicted s \<and>
        cache_entries s' = cache_entries s \<and> set xs' = set xs"
  using assms by (rule lookup_front)

text \<open>
  inserting a key that is not cached succeeds, puts the entry in front of all others and keeps
  the list and the index consistent.
\<close>
theorem Cache_Insert_front:
  assumes inv: "lru_inv hash s xs" and room: "hm_room (Suc n) (cache_entries s)"
    and absent: "map_of (items s xs) key = None"
    and fresh: "a \<noteq> 0" "heap s a = None" and empty: "xs = [] \<longrightarrow> mru s = 0"
  shows "\<exists>s'. Cache_Insert hash False a key v s = Some (True, s') \<and> lru_inv hash s' (a # xs) \<and>
    items s' (a # xs) = (key, v) # items s xs \<and> evicted s' = evicted s \<and> hm_room n (cache_entries s')"
  using assms by (rule insert_front)

text \<open>
  \<open>Evict(n)\<close> on a cache of at least \<open>n\<close> entries removes exactly the \<open>n\<close> least recently used
  entries, oldest first, and hands each to the eviction handler; the index forgets their keys.
\<close>
theorem Evict_oldest:
  assumes "lru_inv hash s xs" "n \<le> length xs"
  shows "\<exists>s'. Evict hash n s = Some (n, s') \<and> lru_inv hash s' (take (length xs - n) xs) \<and>
    items s' (take (length xs - n) xs) = take (length xs - n) (items s xs) \<and>
    evicted s' = evicted s @ rev (drop (length xs - n) (items s xs)) \<and> mru s' = mru s \<and>
    (\<forall>n. hm_room n (cache_entries s) \<longrightarrow> hm_room n (cache_entries s'))"
  using assms by (rule evict_oldest)

section \<open>Runs and witnesses\<close>

lemma lru_inv_LRUCache: "0 < n \<Longrightarrow> n < 2 ^ 32 \<Longrightarrow> lru_inv hash (LRUCache n) []"
  by (simp add: lru_inv_def LRUCache_def index_ok_def hm_inv_HashMap)

lemma items_LRUCache [simp]: "items s [] = []"
  by (simp add: items_def)

text \<open>A cache with the entries 1 and 2 at the addresses 8 and 16, 2 the most recent.\<close>

lemma two_entries:
  fixes hash :: "u32 \<Rightarrow> u32"
  obtains s where "lru_inv hash s [16, 8]" "items s [16, 8] = [(2, ''b''), (1, ''a'')]"
    "hm_room 1 (cache_entries s)" "evicted s = []"
proof -
  let ?s0 = "LRUCache 1 :: (u32, string) cache"
  have room: "hm_room (Suc (Suc 1)) (cache_entries ?s0)"
    unfolding LRUCache_def by (simp, rule hm_room_HashMap) simp_all
  obtain s1 where s1: "lru_inv hash s1 [8]" "items s1 [8] = [(1, ''a'')]"
    "evicted s1 = []" "hm_room (Suc 1) (cache_entries s1)"
    using insert_front[OF lru_inv_LRUCache[of 1 hash] room, of 1 8 "''a''"]
    by (auto simp: LRUCache_def)
  have "16 \<notin> dom (heap s1)" using s1(1) by (simp add: lru_inv_def)
  then have "heap s1 16 = None" by blast
  then obtain s2 where "lru_inv hash s2 [16, 8]" "items s2 [16, 8] = [(2, ''b''), (1, ''a'')]"
    "evicted s2 = []" "hm_room 1 (cache_entries s2)"
    using insert_front[OF s1(1,4), of 2 16 "''b''"] s1(2,3) by auto
  then show thesis using that by blast
qed

theorem Cache_Insert_front_witness:
  "\<exists>s'. Cache_Insert Murmur_Hash.Hash False 8 [1] True (LRUCache 4) = Some (True, s') \<and>
     items s' [8] = [([1], True)]"
proof -
  have "hm_room (Suc 0) (cache_entries (LRUCache 4 :: (u8 list, bool) cache))"
    unfolding LRUCache_def by (simp, rule hm_room_HashMap) simp_all
  from Cache_Insert_front[OF lru_inv_LRUCache[of 4 Murmur_Hash.Hash] this, of "[1]" 8 True]
  show ?thesis by (auto simp: LRUCache_def)
qed

theorem Cache_Lookup_front_witness:
  "\<exists>s :: (u32, string) cache. \<exists>s' xs'. Cache_Lookup id 1 s = Some (Some ''a'', s') \<and>
     items s [16, 8] = [(2, ''b''), (1, ''a'')] \<and> items s' xs' = [(1, ''a''), (2, ''b'')]"
proof -
  obtain s where s: "lru_inv id s [16, 8]" "items s [16, 8] = [(2, ''b''), (1, ''a'')]"
    using two_entries[of id] by blast
  show ?thesis using Cache_Lookup_front[OF s(1), of 1] s(2) by auto
qed

theorem Evict_oldest_witness:
  "\<exists>s :: (u32, string) cache. \<exists>s'. Evict id 1 s = Some (1, s') \<and> evicted s' = [(1, ''a'')]"
proof -
  obtain s where s: "lru_inv id s [16, 8]" "items s [16, 8] = [(2, ''b''), (1, ''a'')]" "evicted s = []"
    using two_entries[of id] by blast
  obtain s' where "Evict id 1 s = Some (1, s')" "evicted s' = [(1, ''a'')]"
    using Evict_oldest[OF s(1), of 1] s(2,3) by (auto simp del: Evict.simps)
  then show ?thesis by blast
qed

text \<open>
  After the last entry has been evicted \<open>mru_\<close> still points to the freed entry, so the next
  \<open>Insert\<close> writes through a dangling pointer (unless the allocator returns that very address).
\<close>
theorem Flush_dangling_mru:
  assumes "lru_inv hash s xs" "xs \<noteq> []" "a \<noteq> mru s"
  shows "\<exists>s'. Flush hash s = Some s' \<and> NumEntries s' = 0 \<and> Cache_Insert hash False a key v s' = None"
proof -
  obtain s' where s': "Evict hash (length xs) s = Some (length xs, s')" "lru_inv hash s' []" "mru s' = mru s"
    using evict_oldest[OF assms(1), of "length xs"] by auto
  have "mru s \<in> set xs" using assms(1,2) head_of_in by (simp add: lru_inv_def)
  then have "mru s \<noteq> 0" using lru_inv_entry[OF assms(1)] by blast
  moreover have "heap s' = Map.empty" using s'(2) by (simp add: lru_inv_def)
  ultimately have "Cache_Insert hash False a key v s' = None"
    using assms(3) s'(3) by (simp add: Cache_Insert_def Let_def modify_nn_def modify_def get_def)
  then show ?thesis
    using s'(1,2) assms(1) by (auto simp: Flush_def NumEntries_def lru_inv_def)
qed

theorem Flush_dangling_mru_witness:
  "\<exists>s :: (u32, string) cache. \<exists>s'. NumEntries s = 2 \<and> Flush id s = Some s' \<and>
     Cache_Insert id False 24 3 ''c'' s' = None"
proof -
  obtain s where s: "lru_inv id s [16, 8 :: nat]" "items s [16, 8] = [(2, ''b''), (1, ''a'')]"
    using two_entries[of id] by blast
  then have "mru s = 16" "NumEntries s = 2" by (simp_all add: lru_inv_def NumEntries_def)
  then show ?thesis using Flush_dangling_mru[OF s(1), of 24 3 "''c''"] by auto
qed

end
