(* ===== verification/Kernel_Heap.thy ===== *)
theory Kernel_Heap
  imports Buddy_Allocator "HOL-Library.Monad_Syntax"
begin

text \<open>
  \<open>src/sys/kheap.cpp\<close>: the kernel heap, a boundary-tag allocator on top of the buddy allocator. A
  chunk starts with a header of four words (32 bytes), so memory is modelled as cells of 32 bytes:
  \<open>mem\<close> maps the address of a cell to its four words, which are a header where a chunk starts and
  user data elsewhere. The physical pages of large allocations are used through the low identity
  map and through the direct map at \<open>KERNEL_DATA_BASE\<close>; \<open>canon\<close> maps both to one address.

  Addresses and chunk sizes are \<open>nat\<close> (the heap ends below \<open>2 ^ 64\<close>); the arithmetic on the size
  that a caller passes is that of \<open>size_t\<close>. The state contains the buddy allocator; the calls of
  the page map are logged. \<open>Verify\<close> hangs the kernel on an inconsistent heap, a read of the
  unmapped heap and a write through the null pointer fault: they have no result.
\<close>

unbundle bit_operations_syntax

section \<open>State\<close>

record cell =
  fwd :: nat
  bwd :: nat
  csize :: nat
  psize :: nat

datatype pm_call = Unmap_range nat nat | Map_range nat nat nat | Load_map

record kheap =
  bins :: "nat \<Rightarrow> nat"
  bins_bitmap :: u64
  heap_size :: nat
  max_heap_size :: nat
  heap_start :: nat
  heap_paddr :: nat
  top :: nat
  mem :: "nat \<Rightarrow> cell"
  heap_mapped :: bool
  pm_calls :: "pm_call list"
  pmm :: buddy

definition KERNEL_DATA_BASE :: nat where "KERNEL_DATA_BASE = 0xFFFF800000000000"
definition HEAP_BASE :: nat where "HEAP_BASE = KERNEL_DATA_BASE + 0x100000000"
definition PMM_THRESHOLD :: nat where "PMM_THRESHOLD = 0x4000"

text \<open>\<open>sizeof(FreeListEntry)\<close>.\<close>

definition HEADER :: nat where "HEADER = 32"

definition in_use :: "nat \<Rightarrow> bool" where
  "in_use sz = odd sz"

text \<open>\<open>size & SIZE_MASK\<close>, \<open>size | IN_USE\<close> and \<open>size & ~IN_USE\<close>.\<close>

definition masked :: "nat \<Rightarrow> nat" where
  "masked sz = sz - sz mod 32"

definition set_use :: "nat \<Rightarrow> nat" where
  "set_use sz = (if odd sz then sz else sz + 1)"

definition clear_use :: "nat \<Rightarrow> nat" where
  "clear_use sz = (if odd sz then sz - 1 else sz)"

definition canon :: "nat \<Rightarrow> nat" where
  "canon a = (if a < KERNEL_DATA_BASE then a + KERNEL_DATA_BASE else a)"

definition hdr :: "kheap \<Rightarrow> nat \<Rightarrow> cell" where
  "hdr s a = mem s (canon a)"

definition set_hdr :: "nat \<Rightarrow> (cell \<Rightarrow> cell) \<Rightarrow> kheap \<Rightarrow> kheap" where
  "set_hdr a f s = s\<lparr>mem := (mem s)(canon a := f (mem s (canon a)))\<rparr>"

section \<open>Bins\<close>

fun bit_len :: "nat \<Rightarrow> nat" where
  "bit_len n = (if n = 0 then 0 else Suc (bit_len (n div 2)))"

declare bit_len.simps [simp del]

text \<open>\<open>64 - __builtin_clzl(size)\<close> is the bit length; all intermediate results are 8-bit.\<close>

definition BinIndex :: "nat \<Rightarrow> nat" where
  "BinIndex sz =
     (if sz < 1024 then sz div 32
      else let floor_log2_size = bit_len sz;
               ind = ((floor_log2_size - 11) * 2 + (sz div 2 ^ (floor_log2_size - 2)) mod 2) mod 256
           in (32 + ind) mod 256)"

text \<open>\<open>1ULL << ind\<close>: the processor takes the count modulo 64.\<close>

definition bin_bit :: "nat \<Rightarrow> u64" where
  "bin_bit ind = push_bit (ind mod 64) 1"

definition PopFront :: "nat \<Rightarrow> kheap \<Rightarrow> nat \<times> kheap" where
  "PopFront ind s =
     (let entry = bins s ind
      in if entry \<noteq> 0
         then let s = s\<lparr>bins := (bins s)(ind := fwd (hdr s entry))\<rparr>;
                  s = (if bins s ind \<noteq> 0 then set_hdr (bins s ind) (\<lambda>c. c\<lparr>bwd := 0\<rparr>) s
                       else s\<lparr>bins_bitmap := bins_bitmap s AND NOT (bin_bit ind)\<rparr>)
              in (entry, set_hdr entry (\<lambda>c. c\<lparr>fwd := 0, bwd := 0\<rparr>) s)
         else (0, s))"

definition Remove :: "nat \<Rightarrow> kheap \<Rightarrow> kheap" where
  "Remove entry s =
     (let c = hdr s entry;
          s = (if fwd c \<noteq> 0 then set_hdr (fwd c) (\<lambda>x. x\<lparr>bwd := bwd (hdr s entry)\<rparr>) s else s);
          c = hdr s entry;
          s = (if bwd c \<noteq> 0 then set_hdr (bwd c) (\<lambda>x. x\<lparr>fwd := fwd (hdr s entry)\<rparr>) s else s);
          entry_bin = BinIndex (masked (csize (hdr s entry)));
          s = (if bins s entry_bin = entry then snd (PopFront entry_bin s) else s)
      in set_hdr entry (\<lambda>c. c\<lparr>fwd := 0, bwd := 0\<rparr>) s)"

definition PushFront :: "nat \<Rightarrow> nat \<Rightarrow> kheap \<Rightarrow> kheap" where
  "PushFront ind entry s =
     (let s = set_hdr entry (\<lambda>c. c\<lparr>fwd := bins s ind\<rparr>) s;
          f = fwd (hdr s entry);
          s = (if f \<noteq> 0 then set_hdr f (\<lambda>c. c\<lparr>bwd := entry\<rparr>) s else s)
      in s\<lparr>bins := (bins s)(ind := entry), bins_bitmap := bins_bitmap s OR bin_bit ind\<rparr>)"

text \<open>The walk along one bin: the first entry strictly larger than the request.\<close>

partial_function (option) Find_in_bin :: "kheap \<Rightarrow> nat \<Rightarrow> nat \<Rightarrow> nat option" where
  "Find_in_bin s sz entry =
     (if entry = 0 then Some 0
      else if csize (hdr s entry) > sz then Some entry
      else Find_in_bin s sz (fwd (hdr s entry)))"

text \<open>\<open>63 - __builtin_clzl(mask)\<close> is the highest bit that is set.\<close>

definition top_bit :: "u64 \<Rightarrow> nat" where
  "top_bit bm = bit_len (unat bm) - 1"

partial_function (option) FindEntry_loop :: "nat \<Rightarrow> u64 \<Rightarrow> nat \<Rightarrow> kheap \<Rightarrow> nat option" where
  "FindEntry_loop sz free_list_mask bin_ind s =
     (if free_list_mask = 0 then Some 0
      else Option.bind (Find_in_bin s sz (bins s (top_bit free_list_mask)))
        (\<lambda>entry. if entry \<noteq> 0 then Some entry
                 else let bin_ind = (bin_ind + 1) mod 256
                      in FindEntry_loop sz (free_list_mask AND NOT (bin_bit bin_ind)) bin_ind s))"

definition FindEntry :: "nat \<Rightarrow> kheap \<Rightarrow> (nat \<times> kheap) option" where
  "FindEntry sz s =
     (let bin_ind = BinIndex sz;
          free_list_mask = bins_bitmap s AND - bin_bit bin_ind
      in map_option (\<lambda>entry. (entry, if entry \<noteq> 0 then Remove entry s else s))
           (FindEntry_loop sz free_list_mask bin_ind s))"

section \<open>Chunks\<close>

definition NextChunk :: "kheap \<Rightarrow> nat \<Rightarrow> nat" where
  "NextChunk s chunk = chunk + masked (csize (hdr s chunk))"

definition PrevChunk :: "kheap \<Rightarrow> nat \<Rightarrow> nat" where
  "PrevChunk s chunk = chunk - masked (psize (hdr s chunk))"

definition Split :: "nat \<Rightarrow> nat \<Rightarrow> kheap \<Rightarrow> nat \<times> kheap" where
  "Split entry sz s =
     (let old_size = masked (csize (hdr s entry));
          nxt = entry + sz;
          s = set_hdr nxt (\<lambda>c. c\<lparr>fwd := 0, bwd := 0\<rparr>) s;
          s = set_hdr entry (\<lambda>c. c\<lparr>csize := set_use sz\<rparr>) s;
          s = set_hdr nxt (\<lambda>c. c\<lparr>csize := clear_use (old_size - sz)\<rparr>) s;
          s = set_hdr nxt (\<lambda>c. c\<lparr>psize := csize (hdr s entry)\<rparr>) s
      in (nxt, if entry = top s then s\<lparr>top := nxt\<rparr>
               else set_hdr (NextChunk s nxt) (\<lambda>c. c\<lparr>psize := csize (hdr s nxt)\<rparr>) s))"

definition SplitAndPush :: "nat \<Rightarrow> nat \<Rightarrow> kheap \<Rightarrow> kheap" where
  "SplitAndPush entry sz s =
     (case Split entry sz s of
        (nxt, s) \<Rightarrow> if nxt \<noteq> top s then PushFront (BinIndex (csize (hdr s nxt))) nxt s else s)"

text \<open>\<open>MergeWithNeighbors\<close>: first with the previous chunk, then with the next one.\<close>

definition merge_prev :: "nat \<Rightarrow> kheap \<Rightarrow> nat \<times> kheap" where
  "merge_prev entry s =
     (if \<not> in_use (psize (hdr s entry)) \<and> psize (hdr s entry) > 0
      then let current_size = csize (hdr s entry);
               prev = PrevChunk s entry;
               s = Remove prev s
           in (prev, set_hdr prev (\<lambda>c. c\<lparr>csize := csize c + current_size\<rparr>) s)
      else (entry, s))"

definition merge_next :: "nat \<Rightarrow> kheap \<Rightarrow> kheap" where
  "merge_next entry s =
     (let nxt = NextChunk s entry
      in if \<not> in_use (csize (hdr s nxt))
         then let s = Remove nxt s;
                  s = set_hdr entry (\<lambda>c. c\<lparr>csize := csize c + masked (csize (hdr s nxt))\<rparr>) s
              in if nxt = top s then s\<lparr>top := entry\<rparr> else s
         else s)"

definition MergeWithNeighbors :: "nat \<Rightarrow> kheap \<Rightarrow> nat \<times> kheap" where
  "MergeWithNeighbors entry s =
     (let (entry, s) = merge_prev entry s;
          s = merge_next entry s
      in (entry, if entry \<noteq> top s
                 then set_hdr (NextChunk s entry) (\<lambda>c. c\<lparr>psize := csize (hdr s entry)\<rparr>) s
                 else s))"

section \<open>The heap\<close>

definition GrowHeap :: "kheap \<Rightarrow> kheap option" where
  "GrowHeap s =
     (let s = s\<lparr>pm_calls := pm_calls s @ [Unmap_range (heap_start s) (heap_start s + heap_size s)],
                heap_mapped := False\<rparr>
      in if unat (MemInUse (pmm s)) < max_heap_size s
         then do { let s = s\<lparr>heap_size := (if heap_size s * 2 > max_heap_size s then max_heap_size s
                                           else heap_size s * 2)\<rparr>;
                   (p, b) \<leftarrow> Realloc (heap_paddr s) (heap_size s) (pmm s);
                   let s = s\<lparr>heap_paddr := p, pmm := b, heap_mapped := True,
                             pm_calls := pm_calls s @ [Map_range p (p + heap_size s) (HEAP_BASE - p), Load_map]\<rparr>;
                   Some (set_hdr (top s) (\<lambda>c. c\<lparr>csize := csize c + heap_size s div 2\<rparr>) s) }
         else Some s)"

text \<open>\<open>while(size >= top_->size_) GrowHeap();\<close>\<close>

partial_function (option) Grow_loop :: "nat \<Rightarrow> kheap \<Rightarrow> kheap option" where
  "Grow_loop sz s =
     (if \<not> heap_mapped s then None
      else if sz \<ge> csize (hdr s (top s)) then Option.bind (GrowHeap s) (Grow_loop sz)
      else Some s)"

definition Init :: "nat \<Rightarrow> nat \<Rightarrow> kheap \<Rightarrow> kheap option" where
  "Init initial_size maximal_heap_size s =
     (let initial_size = (initial_size + 32 - 1) div 32 * 32
      in do { (p, b) \<leftarrow> Buddy_Allocator.Allocate initial_size (pmm s);
              let s = s\<lparr>max_heap_size := maximal_heap_size, bins_bitmap := 0, heap_size := initial_size,
                        heap_start := HEAP_BASE, top := HEAP_BASE, heap_paddr := p, pmm := b,
                        heap_mapped := True,
                        pm_calls := pm_calls s @ [Map_range p (p + initial_size) (HEAP_BASE - p), Load_map]\<rparr>;
              Some (set_hdr (top s) (\<lambda>_. \<lparr>fwd = 0, bwd = 0, csize = heap_size s, psize = 0\<rparr>) s) })"

definition SetSizeLimit :: "nat \<Rightarrow> kheap \<Rightarrow> kheap" where
  "SetSizeLimit maximal_heap_size s = s\<lparr>max_heap_size := maximal_heap_size\<rparr>"

definition ToPAddr :: "kheap \<Rightarrow> nat \<Rightarrow> nat" where
  "ToPAddr s vaddr =
     (if vaddr < KERNEL_DATA_BASE then vaddr
      else if vaddr \<le> HEAP_BASE then vaddr - KERNEL_DATA_BASE
      else vaddr + heap_paddr s - HEAP_BASE)"

definition ToVAddr :: "kheap \<Rightarrow> nat \<Rightarrow> nat" where
  "ToVAddr s paddr = paddr + HEAP_BASE - heap_paddr s"

section \<open>Verify\<close>

definition chunk_loop_error :: "kheap \<Rightarrow> nat \<Rightarrow> bool" where
  "chunk_loop_error s chunk \<longleftrightarrow>
     (let b = bwd (hdr s chunk); f = fwd (hdr s chunk); bf = fwd (hdr s b)
      in (b \<noteq> 0 \<and> bf \<noteq> 0 \<and> bf = fwd (hdr s bf)) \<or> (b \<noteq> 0 \<and> f \<noteq> 0 \<and> bf = b))"

text \<open>The \<open>do ... while\<close> loop; \<open>prev\<close> is the size of the previous chunk. The result is the sum of the sizes.\<close>

partial_function (option) Verify_loop :: "kheap \<Rightarrow> nat \<Rightarrow> nat option \<Rightarrow> nat \<Rightarrow> nat option" where
  "Verify_loop s chunk prev acc =
     (let c = hdr s chunk; acc = acc + masked (csize c)
      in if chunk > top s \<or> (prev \<noteq> None \<and> prev \<noteq> Some (psize c)) \<or> chunk_loop_error s chunk
         then None
         else let nxt = chunk + masked (csize c)
              in if nxt \<noteq> top s then Verify_loop s nxt (Some (csize c)) acc else Some acc)"

definition Verify :: "kheap \<Rightarrow> unit option" where
  "Verify s =
     (if heap_start s = top s then Some ()
      else do { acc \<leftarrow> Verify_loop s (heap_start s) None 0;
                if fwd (hdr s (top s)) \<noteq> 0 \<or> bwd (hdr s (top s)) \<noteq> 0 then None
                else if acc + csize (hdr s (top s)) \<noteq> heap_size s then None
                else Some () })"

section \<open>Allocate, Free, Reallocate\<close>

text \<open>The header is added and the sum rounded up to 32 bytes, in \<open>size_t\<close>.\<close>

definition chunk_size :: "nat \<Rightarrow> nat" where
  "chunk_size sz = ((sz + HEADER) mod 2 ^ 64 + 31) mod 2 ^ 64 div 32 * 32"

definition Allocate :: "nat \<Rightarrow> kheap \<Rightarrow> (nat \<times> kheap) option" where
  "Allocate sz s =
     (if heap_start s = 0 \<or> sz = 0 then Some (0, s)
      else do { _ \<leftarrow> Verify s;
                let sz = chunk_size sz;
                if sz \<ge> PMM_THRESHOLD
                then do { (entry, b) \<leftarrow> Buddy_Allocator.Allocate sz (pmm s);
                          _ \<leftarrow> (if entry = 0 then None else Some ());
                          let s = set_hdr entry (\<lambda>c. c\<lparr>csize := set_use sz\<rparr>) (s\<lparr>pmm := b\<rparr>);
                          Some (entry + HEADER + KERNEL_DATA_BASE, s) }
                else do { (entry, s) \<leftarrow> FindEntry sz s;
                          (entry, s) \<leftarrow>
                            (if entry \<noteq> 0
                             then Some (entry, if sz \<ge> 1024 \<and> masked (csize (hdr s entry)) > sz
                                               then SplitAndPush entry sz s else s)
                             else do { s \<leftarrow> Grow_loop sz s;
                                       let entry = top s;
                                       let (t, s) = Split (top s) sz s;
                                       Some (entry, s\<lparr>top := t\<rparr>) });
                          let nxt = NextChunk s entry;
                          let s = set_hdr entry (\<lambda>c. c\<lparr>csize := set_use (csize c)\<rparr>) s;
                          let s = set_hdr nxt (\<lambda>c. c\<lparr>psize := csize (hdr s entry)\<rparr>) s;
                          _ \<leftarrow> Verify s;
                          Some (entry + HEADER, s) } })"

definition Free :: "nat \<Rightarrow> kheap \<Rightarrow> kheap option" where
  "Free allocation s =
     (if heap_start s = 0 \<or> allocation = 0 then Some s
      else let entry = allocation - HEADER
           in if csize (hdr s entry) \<ge> PMM_THRESHOLD
              then do { b \<leftarrow> Buddy_Allocator.Free (ToPAddr s entry) (pmm s);
                        let s = s\<lparr>pmm := b\<rparr>;
                        _ \<leftarrow> Verify s;
                        Some s }
              else do { let s = set_hdr entry (\<lambda>c. c\<lparr>csize := clear_use (csize c)\<rparr>) s;
                        let (entry, s) = MergeWithNeighbors entry s;
                        let s = (if entry \<noteq> top s
                                 then PushFront (BinIndex (csize (hdr s entry))) entry
                                        (set_hdr (NextChunk s entry) (\<lambda>c. c\<lparr>psize := csize (hdr s entry)\<rparr>) s)
                                 else s);
                        _ \<leftarrow> Verify s;
                        Some s })"

text \<open>
  \<open>memcpy\<close> between addresses of cells. The byte counts the code passes are multiples of 32, or one
  more when the size still carries the flag: then the first byte of one more cell is copied.
\<close>

fun copy_cells :: "nat \<Rightarrow> nat \<Rightarrow> nat \<Rightarrow> (nat \<Rightarrow> cell) \<Rightarrow> (nat \<Rightarrow> cell)" where
  "copy_cells 0 dest source m = m"
| "copy_cells (Suc n) dest source m =
     copy_cells n (dest + 32) (source + 32) (m(canon dest := m (canon source)))"

definition copy_bytes :: "nat \<Rightarrow> nat \<Rightarrow> nat \<Rightarrow> kheap \<Rightarrow> kheap" where
  "copy_bytes dest source n s =
     (let s = s\<lparr>mem := copy_cells (n div 32) dest source (mem s)\<rparr>;
          d = dest + n div 32 * 32; r = source + n div 32 * 32
      in if n mod 32 = 0 then s
         else set_hdr d (\<lambda>c. c\<lparr>fwd := fwd c div 256 * 256 + fwd (hdr s r) mod 256\<rparr>) s)"

definition Reallocate :: "nat \<Rightarrow> nat \<Rightarrow> kheap \<Rightarrow> (nat \<times> kheap) option" where
  "Reallocate allocation sz s =
     (if heap_start s = 0 \<or> sz = 0 then Some (0, s)
      else do { _ \<leftarrow> Verify s;
        let sz = chunk_size sz;
        let entry = allocation - HEADER;
        let original_size = csize (hdr s entry);
        if \<not> in_use original_size then Some (0, s)
        else if original_size \<ge> PMM_THRESHOLD
        then do { (new_alloc, b) \<leftarrow> Realloc (ToPAddr s entry) sz (pmm s);
                  _ \<leftarrow> (if new_alloc = 0 then None else Some ());
                  Some (new_alloc + HEADER,
                        set_hdr new_alloc (\<lambda>c. c\<lparr>csize := sz mod 2\<rparr>) (s\<lparr>pmm := b\<rparr>)) }
        else if sz \<ge> PMM_THRESHOLD
        then do { (new_allocation, b) \<leftarrow> Buddy_Allocator.Allocate sz (pmm s);
                  _ \<leftarrow> (if new_allocation = 0 then None else Some ());
                  let s = copy_bytes new_allocation entry sz (s\<lparr>pmm := b\<rparr>);
                  let s = set_hdr new_allocation (\<lambda>c. c\<lparr>csize := sz\<rparr>) s;
                  s \<leftarrow> Free allocation s;
                  Some (new_allocation + HEADER, s) }
        else do {
          let (entry, s) = MergeWithNeighbors entry s;
          if masked (csize (hdr s entry)) \<ge> sz
          then do { let s = (if masked (csize (hdr s entry)) > sz then SplitAndPush entry sz s else s);
                    let s = copy_bytes (entry + HEADER) allocation (masked original_size) s;
                    _ \<leftarrow> Verify s;
                    Some (entry + HEADER, s) }
          else do { let s = set_hdr (NextChunk s entry) (\<lambda>c. c\<lparr>psize := csize (hdr s entry)\<rparr>) s;
                    (result, s) \<leftarrow> Allocate sz s;
                    let s = copy_bytes result allocation original_size s;
                    s \<leftarrow> Free (entry + HEADER) s;
                    _ \<leftarrow> Verify s;
                    Some (result, s) } } })"

end
