(* ===== verification/Heap_Theorems.thy ===== *)
theory Heap_Theorems
  imports Kernel_Heap Buddy_Theorems "HOL-Library.AList"
begin

text \<open>
  The bins of the kernel heap: \<open>BinIndex\<close> grows with the size, the search of \<open>FindEntry\<close> always ends
  and misses no chunk that is large enough, and it takes its chunk from the highest bin. Then runs
  of the whole allocator on a small heap.
\<close>

section \<open>Bit lengths and bins\<close>

lemma bit_len_bounds: "0 < n \<Longrightarrow> 2 ^ (bit_len n - 1) \<le> n \<and> n < 2 ^ bit_len n \<and> 0 < bit_len n"
proof (induction n rule: bit_len.induct)
  case (1 n)
  show ?case
  proof (cases "n = 1")
    case True
    have "bit_len 1 = 1" using bit_len.simps[of 1] bit_len.simps[of 0] by simp
    then show ?thesis using True by simp
  next
    case False
    then have h: "0 < n div 2" using 1(2) by auto
    let ?L = "bit_len (n div 2)"
    have L: "bit_len n = Suc ?L" using 1(2) by (simp add: bit_len.simps[of n])
    have "2 ^ (?L - 1) \<le> n div 2" "n div 2 < 2 ^ ?L" "0 < ?L" using 1(1) 1(2) h by auto
    moreover from this(3) have "(2::nat) ^ ?L = 2 * 2 ^ (?L - 1)" by (cases ?L) simp_all
    moreover have "n = 2 * (n div 2) + n mod 2" "n mod 2 < 2" by simp_all
    ultimately have "2 ^ ?L \<le> n \<and> n < 2 * 2 ^ ?L" by linarith
    then show ?thesis unfolding L by simp
  qed
qed

lemma bit_len_le: "n < 2 ^ k \<Longrightarrow> bit_len n \<le> k"
proof (rule ccontr)
  assume n: "n < 2 ^ k" "\<not> bit_len n \<le> k"
  then have "0 < n" by (cases n) (simp_all add: bit_len.simps[of 0])
  moreover have "(2::nat) ^ k \<le> 2 ^ (bit_len n - 1)" using n(2) by (intro power_increasing) simp_all
  ultimately show False using bit_len_bounds[of n] n(1) by linarith
qed

lemma bit_len_ge: "2 ^ k \<le> n \<Longrightarrow> k < bit_len n"
proof (rule ccontr)
  assume n: "2 ^ k \<le> n" "\<not> k < bit_len n"
  have "(0::nat) < 2 ^ k" by simp
  then have "0 < n" using n(1) by linarith
  moreover have "(2::nat) ^ bit_len n \<le> 2 ^ k" using n(2) by (intro power_increasing) simp_all
  ultimately show False using bit_len_bounds[of n] n(1) by linarith
qed

lemma bit_len_mono: "a \<le> b \<Longrightarrow> bit_len a \<le> bit_len b"
  using bit_len_le[of a "bit_len b"] bit_len_bounds[of b] by (cases "b = 0") auto

text \<open>The two bits below the length: 2 or 3 for a number of at least two bits.\<close>

lemma second_bit:
  assumes "1024 \<le> n"
  shows "n div 2 ^ (bit_len n - 2) = 2 + n div 2 ^ (bit_len n - 2) mod 2"
proof -
  have L: "10 < bit_len n" using bit_len_ge[of 10 n] assms by simp
  define k where "k = bit_len n - 2"
  with L have k: "bit_len n = k + 2" by simp
  have "2 * 2 ^ k \<le> n" "n < 4 * 2 ^ k" using bit_len_bounds[of n] assms k by simp_all
  then have "2 \<le> n div 2 ^ k" "n div 2 ^ k < 4"
    by (simp_all add: div_less_iff_less_mult less_eq_div_iff_mult_less_eq)
  then have "n div 2 ^ k = 2 \<or> n div 2 ^ k = 3" by linarith
  then show ?thesis by (auto simp: k)
qed

lemma BinIndex_large:
  assumes "1024 \<le> n" "n < 2 ^ 64"
  shows "BinIndex n = 8 + 2 * bit_len n + n div 2 ^ (bit_len n - 2)"
proof -
  have "bit_len n \<le> 64" using assms(2) by (rule bit_len_le)
  moreover have "10 < bit_len n" using bit_len_ge[of 10 n] assms(1) by simp
  moreover have "n div 2 ^ (bit_len n - 2) mod 2 < 2" by simp
  ultimately show ?thesis using second_bit[OF assms(1)] assms(1) by (simp add: BinIndex_def Let_def)
qed

lemma BinIndex_range:
  assumes "n < 2 ^ 26"
  shows "BinIndex n < 64"
proof (cases "n < 1024")
  case False
  have "n < 2 ^ 64" by (rule less_trans[OF assms]) simp
  have "bit_len n \<le> 26" using assms by (rule bit_len_le)
  moreover have "n div 2 ^ (bit_len n - 2) mod 2 < 2" by simp
  ultimately show ?thesis
    using second_bit[of n] BinIndex_large[of n] False \<open>n < 2 ^ 64\<close> by simp
qed (simp add: BinIndex_def)

lemma BinIndex_mono:
  assumes "a \<le> b" "b < 2 ^ 64"
  shows "BinIndex a \<le> BinIndex b"
proof -
  have a64: "a < 2 ^ 64" using assms by (rule le_less_trans)
  consider "b < 1024" | "a < 1024" "1024 \<le> b" | "1024 \<le> a" by linarith
  then show ?thesis
  proof cases
    case 1
    then show ?thesis using assms by (simp add: BinIndex_def div_le_mono)
  next
    case 2
    then have "10 < bit_len b" using bit_len_ge[of 10 b] by simp
    then have "28 < BinIndex b" "BinIndex b \<ge> 32"
      using BinIndex_large[OF 2(2) assms(2)] second_bit[OF 2(2)] by linarith+
    moreover have "a div 32 < 32" using 2(1) by (simp add: div_less_iff_less_mult)
    ultimately show ?thesis using 2 by (simp add: BinIndex_def)
  next
    case 3
    have b: "1024 \<le> b" using 3 assms by simp
    note la = BinIndex_large[OF 3 a64] and lb = BinIndex_large[OF b assms(2)]
    show ?thesis
    proof (cases "bit_len a = bit_len b")
      case True
      then show ?thesis unfolding la lb using assms(1) by (simp add: div_le_mono)
    next
      case False
      then have "bit_len a < bit_len b" using bit_len_mono[OF assms(1)] by simp
      moreover have "b div 2 ^ (bit_len b - 2) mod 2 < 2" "a div 2 ^ (bit_len a - 2) mod 2 < 2" by simp_all
      ultimately show ?thesis unfolding la lb using second_bit[OF 3] second_bit[OF b] by linarith
    qed
  qed
qed

section \<open>The search\<close>

lemma top_bit_spec:
  assumes "m \<noteq> 0"
  shows "bit m (top_bit m)" and "bit m k \<Longrightarrow> k \<le> top_bit m"
proof -
  let ?n = "unat m"
  have n: "0 < ?n" using assms by (simp add: unat_gt_0)
  have L: "bit_len ?n = Suc (top_bit m)" using bit_len_bounds[OF n] by (simp add: top_bit_def)
  have b: "2 ^ top_bit m \<le> ?n" "?n < 2 * 2 ^ top_bit m" using bit_len_bounds[OF n] L by simp_all
  then have "1 \<le> ?n div 2 ^ top_bit m" "?n div 2 ^ top_bit m < 2"
    by (simp_all add: div_less_iff_less_mult less_eq_div_iff_mult_less_eq)
  then have "odd (?n div 2 ^ top_bit m)" by (simp add: less_2_cases_iff)
  then show "bit m (top_bit m)" using bit_unsigned_iff[of m "top_bit m", where 'a = nat] by (simp add: bit_iff_odd)
  assume "bit m k"
  then have "bit ?n k" by (simp add: bit_unsigned_iff)
  then have "?n div 2 ^ k \<noteq> 0" by (intro notI) (simp add: bit_iff_odd)
  then have "2 ^ k \<le> ?n" by (simp add: div_eq_0_iff)
  then have "k < bit_len ?n" by (rule bit_len_ge)
  then show "k \<le> top_bit m" using L by simp
qed

lemma bit_bin_bit: "bit (bin_bit k) j \<longleftrightarrow> j = k mod 64"
  by (auto simp: bin_bit_def bit_simps)

lemma bit_neg_bin_bit: "k < 64 \<Longrightarrow> bit (- bin_bit k) j \<longleftrightarrow> k \<le> j \<and> j < 64"
  by (simp add: bin_bit_def push_bit_eq_mult minus_exp_eq_not_mask bit_simps)
     (auto simp: mask_eq_exp_minus_1 bit_simps)

text \<open>\<open>bin_path s e xs\<close>: the entries of a bin, from its head \<open>e\<close>.\<close>

fun bin_path :: "kheap \<Rightarrow> nat \<Rightarrow> nat list \<Rightarrow> bool" where
  "bin_path s e [] \<longleftrightarrow> e = 0"
| "bin_path s e (x # xs) \<longleftrightarrow> e = x \<and> x \<noteq> 0 \<and> bin_path s (fwd (hdr s x)) xs"

lemma Find_in_bin_path:
  "bin_path s e xs \<Longrightarrow>
     Find_in_bin s sz e = Some (case filter (\<lambda>x. sz < csize (hdr s x)) xs of [] \<Rightarrow> 0 | x # _ \<Rightarrow> x)"
proof (induction xs arbitrary: e)
  case Nil
  then show ?case by (simp add: Find_in_bin.simps[of s sz 0])
next
  case (Cons x xs)
  then show ?case by (simp add: Find_in_bin.simps[of s sz x])
qed

text \<open>The bins hold the free chunks \<open>f k\<close>, and the bitmap says which are not empty.\<close>

definition bins_ok :: "kheap \<Rightarrow> (nat \<Rightarrow> nat list) \<Rightarrow> bool" where
  "bins_ok s f \<longleftrightarrow>
     (\<forall>k. bin_path s (bins s k) (f k) \<and> (bit (bins_bitmap s) k \<longleftrightarrow> f k \<noteq> []) \<and>
          (\<forall>x\<in>set (f k). csize (hdr s x) < 2 ^ 26 \<and> BinIndex (csize (hdr s x)) = k))"

lemma bins_ok_nonzero: "bin_path s e xs \<Longrightarrow> x \<in> set xs \<Longrightarrow> x \<noteq> 0"
  by (induction xs arbitrary: e) auto

lemma own_bin_loop:
  assumes "m = bin_bit b" "b < 64" "Find_in_bin s sz (bins s b) = Some 0"
  shows "i \<le> 63 \<Longrightarrow> FindEntry_loop sz m ((b + i) mod 256) s = Some 0"
proof (induction "63 - i" arbitrary: i)
  have m0: "m \<noteq> 0" using bit_bin_bit[of b b] assms(1,2) by auto
  have "bit (bin_bit b) (top_bit m)" using top_bit_spec(1)[OF m0] assms(1) by simp
  then have t: "top_bit m = b" using assms(2) unfolding bit_bin_bit by simp
  have step: "FindEntry_loop sz m c s = FindEntry_loop sz (m AND NOT (bin_bit ((c + 1) mod 256))) ((c + 1) mod 256) s"
    for c using m0 assms(3) by (subst FindEntry_loop.simps) (simp add: t Let_def)
  {
    case 0
    then have "i = 63" by simp
    have "((b + 63) mod 256 + 1) mod 256 mod 64 = (b + 64) mod 64"
      by (simp add: mod_mod_cancel mod_Suc_eq)
    also have "\<dots> = b" using assms(2) by simp
    finally have "((b + 63) mod 256 + 1) mod 256 mod 64 = b" .
    then have "bin_bit (((b + 63) mod 256 + 1) mod 256) = m" using assms(1,2) by (simp add: bin_bit_def)
    then show ?case using step[of "(b + 63) mod 256"] \<open>i = 63\<close> by (simp add: FindEntry_loop.simps[of sz 0])
  next
    case (Suc n)
    have "((b + i) mod 256 + 1) mod 256 = (b + Suc i) mod 256" by (simp add: mod_Suc_eq)
    moreover have "(b + Suc i) mod 256 mod 64 \<noteq> b"
    proof -
      have i: "Suc i < 64" using Suc.hyps(2) by linarith
      have "(b + Suc i) mod 256 mod 64 = (b + Suc i) mod 64" by (simp add: mod_mod_cancel)
      also have "\<dots> \<noteq> b" using i assms(2) by (cases "b + Suc i < 64") (simp_all add: le_mod_geq not_less)
      finally show ?thesis .
    qed
    then have "m AND NOT (bin_bit ((b + Suc i) mod 256)) = m"
      using assms(1,2) by (intro bit_word_eqI) (auto simp: bit_bin_bit bit_simps)
    ultimately show ?case using step[of "(b + i) mod 256"] Suc.hyps(1)[of "Suc i"] Suc.hyps(2) by simp
  }
qed

text \<open>What well-formed bins mean for the bitmap and the sizes, seen from the bin of a request.\<close>

lemma bins_ok_facts:
  assumes ok: "bins_ok s f" and sz: "sz < 2 ^ 26"
  shows in_bin: "x \<in> set (f k) \<Longrightarrow> csize (hdr s x) < 2 ^ 26 \<and> BinIndex (csize (hdr s x)) = k"
    and searched_bins: "bit (bins_bitmap s AND - bin_bit (BinIndex sz)) k \<longleftrightarrow> f k \<noteq> [] \<and> BinIndex sz \<le> k"
    and larger_bin: "x \<in> set (f k) \<Longrightarrow> BinIndex sz < k \<Longrightarrow> sz < csize (hdr s x)"
    and smaller_bin: "x \<in> set (f k) \<Longrightarrow> k < BinIndex sz \<Longrightarrow> csize (hdr s x) \<le> sz"
proof -
  show in_bin: "csize (hdr s x) < 2 ^ 26 \<and> BinIndex (csize (hdr s x)) = k" if "x \<in> set (f k)" for x k
    using ok that by (auto simp: bins_ok_def)
  have b: "BinIndex sz < 64" using sz by (rule BinIndex_range)
  have "k < 64" if "f k \<noteq> []" for k
    using in_bin[of "hd (f k)" k] BinIndex_range[of "csize (hdr s (hd (f k)))"] that by simp
  then show "bit (bins_bitmap s AND - bin_bit (BinIndex sz)) k \<longleftrightarrow> f k \<noteq> [] \<and> BinIndex sz \<le> k"
    using ok by (auto simp: bit_and_iff bit_neg_bin_bit[OF b] bins_ok_def)
  have s64: "(2::nat) ^ 26 < 2 ^ 64" by simp
  show "sz < csize (hdr s x)" if "x \<in> set (f k)" "BinIndex sz < k"
    using BinIndex_mono[of "csize (hdr s x)" sz] in_bin[OF that(1)] that(2) sz s64 by linarith
  show "csize (hdr s x) \<le> sz" if "x \<in> set (f k)" "k < BinIndex sz"
    using BinIndex_mono[of sz "csize (hdr s x)"] in_bin[OF that(1)] that(2) s64 by linarith
qed

text \<open>A bin above that of the request is in use: the search takes the head of the highest one.\<close>

lemma higher_bin_search:
  assumes ok: "bins_ok s f" and sz: "sz < 2 ^ 26" and k: "BinIndex sz < k" "f k \<noteq> []"
  obtains x where "FindEntry_loop sz (bins_bitmap s AND - bin_bit (BinIndex sz)) (BinIndex sz) s = Some x" "x \<noteq> 0"
    "sz < csize (hdr s x)" "x \<in> set (f (BinIndex (csize (hdr s x))))"
    "\<And>j. f j \<noteq> [] \<Longrightarrow> j \<le> BinIndex (csize (hdr s x))"
proof -
  let ?b = "BinIndex sz" and ?m = "bins_bitmap s AND - bin_bit (BinIndex sz)"
  let ?h = "top_bit ?m"
  note bm = searched_bins[OF ok sz]
  have m0: "?m \<noteq> 0" using bm[of k] k by auto
  have h: "f ?h \<noteq> []" "?b < ?h" "\<And>j. f j \<noteq> [] \<Longrightarrow> ?b \<le> j \<Longrightarrow> j \<le> ?h"
    using top_bit_spec[OF m0] bm k by (force, force, blast)
  then obtain x xs where x: "f ?h = x # xs" by (cases "f ?h") auto
  have path: "bin_path s (bins s ?h) (f ?h)" using ok by (simp add: bins_ok_def)
  have sx: "sz < csize (hdr s x)" using larger_bin[OF ok sz, of x ?h] x h(2) by simp
  have x0: "x \<noteq> 0" using path x by simp
  have "Find_in_bin s sz (bins s ?h) = Some x" using Find_in_bin_path[OF path] x sx by simp
  then have run: "FindEntry_loop sz ?m ?b s = Some x" using m0 x0 by (subst FindEntry_loop.simps) simp
  have bx: "BinIndex (csize (hdr s x)) = ?h" using in_bin[OF ok sz, of x ?h] x by simp
  have "j \<le> ?h" if "f j \<noteq> []" for j using h(3)[OF that] h(2) by (cases "?b \<le> j") simp_all
  then show thesis using run sx x0 x bx by (intro that[of x]) simp_all
qed

text \<open>Only the bin of the request is searched: the result is its first entry that is large enough.\<close>

lemma own_bin_search:
  assumes ok: "bins_ok s f" and sz: "sz < 2 ^ 26" and none: "\<And>k. BinIndex sz < k \<Longrightarrow> f k = []"
  shows "FindEntry_loop sz (bins_bitmap s AND - bin_bit (BinIndex sz)) (BinIndex sz) s =
    Some (case filter (\<lambda>x. sz < csize (hdr s x)) (f (BinIndex sz)) of [] \<Rightarrow> 0 | x # _ \<Rightarrow> x)"
proof -
  let ?b = "BinIndex sz" and ?m = "bins_bitmap s AND - bin_bit (BinIndex sz)"
  let ?ys = "filter (\<lambda>x. sz < csize (hdr s x)) (f ?b)"
  note bm = searched_bins[OF ok sz]
  have b: "?b < 64" using sz by (rule BinIndex_range)
  have path: "bin_path s (bins s ?b) (f ?b)" using ok by (simp add: bins_ok_def)
  show ?thesis
  proof (cases "f ?b = []")
    case True
    then have "?m = 0" using bm none by (intro bit_word_eqI) (metis bit_0_eq bot_apply bot_bool_def le_neq_implies_less)
    then show ?thesis using True by (simp add: FindEntry_loop.simps[of sz 0])
  next
    case False
    have m: "?m = bin_bit ?b"
      using bm none False b by (intro bit_word_eqI) (auto simp: bit_bin_bit le_eq_less_or_eq)
    have find: "Find_in_bin s sz (bins s ?b) = Some (case ?ys of [] \<Rightarrow> 0 | x # _ \<Rightarrow> x)"
      by (rule Find_in_bin_path[OF path])
    show ?thesis
    proof (cases ?ys)
      case Nil
      then show ?thesis using own_bin_loop[OF m b, of s sz 0] find b by simp
    next
      case (Cons x zs)
      have "x \<in> set ?ys" unfolding Cons by simp
      then have x0: "x \<noteq> 0" using bins_ok_nonzero[OF path] by simp
      have m0: "?m \<noteq> 0" using m bit_bin_bit[of ?b ?b] b by auto
      have "bit (bin_bit ?b) (top_bit ?m)" using top_bit_spec(1)[OF m0] m by metis
      then have "top_bit ?m = ?b" using b unfolding bit_bin_bit by simp
      then show ?thesis using m0 find Cons x0 by (subst FindEntry_loop.simps) simp
    qed
  qed
qed

lemma FindEntry_loop_result:
  assumes ok: "bins_ok s f" and sz: "sz < 2 ^ 26"
  shows "\<exists>e. FindEntry_loop sz (bins_bitmap s AND - bin_bit (BinIndex sz)) (BinIndex sz) s = Some e \<and>
    (e = 0 \<longleftrightarrow> (\<forall>k. \<forall>x\<in>set (f k). csize (hdr s x) \<le> sz)) \<and>
    (e \<noteq> 0 \<longrightarrow> sz < csize (hdr s e) \<and> e \<in> set (f (BinIndex (csize (hdr s e)))) \<and>
       (BinIndex (csize (hdr s e)) \<noteq> BinIndex sz \<longrightarrow> (\<forall>k. f k \<noteq> [] \<longrightarrow> k \<le> BinIndex (csize (hdr s e)))))"
proof (cases "\<exists>k>BinIndex sz. f k \<noteq> []")
  case True
  then obtain k where "BinIndex sz < k" "f k \<noteq> []" by blast
  then obtain x where x: "FindEntry_loop sz (bins_bitmap s AND - bin_bit (BinIndex sz)) (BinIndex sz) s = Some x"
    "x \<noteq> 0" "sz < csize (hdr s x)" "x \<in> set (f (BinIndex (csize (hdr s x))))"
    "\<And>j. f j \<noteq> [] \<Longrightarrow> j \<le> BinIndex (csize (hdr s x))"
    using higher_bin_search[OF ok sz] by metis
  have "\<not> (\<forall>k. \<forall>x\<in>set (f k). csize (hdr s x) \<le> sz)" using x(3,4) by (meson not_le)
  then show ?thesis using x by blast
next
  case False
  then have none: "\<And>k. BinIndex sz < k \<Longrightarrow> f k = []" by blast
  let ?ys = "filter (\<lambda>x. sz < csize (hdr s x)) (f (BinIndex sz))"
  have other: "csize (hdr s x) \<le> sz" if "x \<in> set (f k)" "k \<noteq> BinIndex sz" for x k
    using smaller_bin[OF ok sz that(1)] none[of k] that by (cases k "BinIndex sz" rule: linorder_cases) auto
  show ?thesis
  proof (cases ?ys)
    case Nil
    then have "csize (hdr s x) \<le> sz" if "x \<in> set (f k)" for x k
      using other[OF that] that by (cases "k = BinIndex sz") (auto simp: filter_empty_conv)
    then show ?thesis using own_bin_search[OF ok sz none] Nil by simp
  next
    case (Cons x zs)
    have "x \<in> set ?ys" unfolding Cons by simp
    then have x: "x \<in> set (f (BinIndex sz))" "sz < csize (hdr s x)" by simp_all
    moreover have "x \<noteq> 0" using ok bins_ok_nonzero x(1) unfolding bins_ok_def by blast
    moreover have "\<not> (\<forall>k. \<forall>x\<in>set (f k). csize (hdr s x) \<le> sz)" using x by (meson not_le)
    ultimately show ?thesis using own_bin_search[OF ok sz none] Cons in_bin[OF ok sz x(1)] by simp
  qed
qed

section \<open>Unlinking an entry\<close>

text \<open>
  A segment of a bin: \<open>p\<close> is the entry before it, \<open>e\<close> its first entry, \<open>q\<close> its last and \<open>r\<close> the entry behind it, or those
  around it when it is empty.
\<close>

fun bin_seg :: "kheap \<Rightarrow> nat \<Rightarrow> nat \<Rightarrow> nat list \<Rightarrow> nat \<Rightarrow> nat \<Rightarrow> bool" where
  "bin_seg s p e [] q r \<longleftrightarrow> e = r \<and> p = q"
| "bin_seg s p e (x # xs) q r \<longleftrightarrow> e = x \<and> x \<noteq> 0 \<and> bwd (hdr s x) = p \<and> bin_seg s x (fwd (hdr s x)) xs q r"

lemma bin_seg_append: "bin_seg s p e (xs @ ys) q r \<longleftrightarrow> (\<exists>m a. bin_seg s p e xs m a \<and> bin_seg s m a ys q r)"
  by (induction xs arbitrary: p e) auto

lemma bin_seg_cong:
  "bin_seg s p e xs q r \<Longrightarrow> \<forall>x\<in>set xs. fwd (hdr s' x) = fwd (hdr s x) \<and> bwd (hdr s' x) = bwd (hdr s x) \<Longrightarrow> bin_seg s' p e xs q r"
  by (induction xs arbitrary: p e) auto

text \<open>The last entry of a segment gets another successor, the first one another predecessor.\<close>

lemma bin_seg_last: "bin_seg s p e xs q r \<Longrightarrow> xs \<noteq> [] \<Longrightarrow> q \<in> set xs \<and> e \<in> set xs"
proof (induction xs arbitrary: p e)
  case (Cons x xs)
  then show ?case by (cases "xs = []") auto
qed simp

lemma bin_seg_to:
  assumes "bin_seg s p e xs q r" "distinct xs" "\<forall>x\<in>set xs. bwd (hdr s' x) = bwd (hdr s x)"
    and "\<forall>x\<in>set xs. fwd (hdr s' x) = (if x = q then r' else fwd (hdr s x))"
  shows "bin_seg s' p (if xs = [] then r' else e) xs q r'"
  using assms
proof (induction xs arbitrary: p e)
  case (Cons x xs)
  have IH: "bin_seg s' x (if xs = [] then r' else fwd (hdr s x)) xs q r'" using Cons by simp
  show ?case
  proof (cases "xs = []")
    case True
    then show ?thesis using Cons.prems by auto
  next
    case False
    then have "q \<noteq> x" using bin_seg_last[of s x "fwd (hdr s x)" xs q r] Cons.prems by auto
    then show ?thesis using IH False Cons.prems by simp
  qed
qed simp

lemma bin_seg_from:
  assumes "bin_seg s p e xs q r" "distinct xs" "\<forall>x\<in>set xs. fwd (hdr s' x) = fwd (hdr s x)"
    and "\<forall>x\<in>set xs. bwd (hdr s' x) = (if x = e then p' else bwd (hdr s x))"
  shows "bin_seg s' p' e xs (if xs = [] then p' else q) r"
proof (cases xs)
  case Nil
  then show ?thesis using assms(1) by simp
next
  case (Cons x ys)
  then have x: "bin_seg s x (fwd (hdr s x)) ys q r" "e = x" "x \<noteq> 0" "x \<notin> set ys" using assms(1,2) by simp_all
  have "fwd (hdr s' a) = fwd (hdr s a) \<and> bwd (hdr s' a) = bwd (hdr s a)" if "a \<in> set ys" for a
    using that assms(3,4) Cons x(2,4) by (cases "a = e") simp_all
  then have "bin_seg s' x (fwd (hdr s x)) ys q r" using bin_seg_cong[OF x(1)] by blast
  moreover have "fwd (hdr s' x) = fwd (hdr s x)" "bwd (hdr s' x) = p'" using assms(3,4) Cons x(2) by simp_all
  ultimately show ?thesis using Cons x(2,3) by simp
qed

lemma bin_seg_path: "bin_seg s p e xs q 0 \<Longrightarrow> bin_path s e xs"
  by (induction xs arbitrary: p e) auto

text \<open>
  Bins that hold the free chunks \<open>f k\<close> as doubly linked lists, with the chunks at kernel addresses and of sizes that
  \<open>SIZE_MASK\<close> keeps.
\<close>

definition bins_linked :: "kheap \<Rightarrow> (nat \<Rightarrow> nat list) \<Rightarrow> bool" where
  "bins_linked s f \<longleftrightarrow> bins_ok s f \<and> (\<forall>k. distinct (f k) \<and> (\<exists>q. bin_seg s 0 (bins s k) (f k) q 0) \<and>
     (\<forall>x\<in>set (f k). KERNEL_DATA_BASE \<le> x \<and> 32 dvd csize (hdr s x)))"

text \<open>What \<open>Remove\<close> does to the state, for an entry between \<open>y\<close> and \<open>z\<close>.\<close>

lemma Remove_effect:
  assumes x: "canon x = x" "x \<noteq> 0" "bwd (hdr s x) = y" "fwd (hdr s x) = z" "x \<noteq> y" "x \<noteq> z"
    and y: "y \<noteq> 0 \<Longrightarrow> canon y = y \<and> y \<noteq> z" and z: "z \<noteq> 0 \<Longrightarrow> canon z = z"
    and k: "masked (csize (hdr s x)) = csize (hdr s x)" "BinIndex (csize (hdr s x)) = k" "bins s k = x \<longleftrightarrow> y = 0"
  shows "csize (hdr (Remove x s) a) = csize (hdr s a) \<and> psize (hdr (Remove x s) a) = psize (hdr s a) \<and>
      fwd (hdr (Remove x s) a) = (if canon a = x then 0 else if y \<noteq> 0 \<and> canon a = y then z else fwd (hdr s a)) \<and>
      bwd (hdr (Remove x s) a) = (if canon a = x then 0 else if z \<noteq> 0 \<and> canon a = z then y else bwd (hdr s a)) \<and>
      bins (Remove x s) = (if y = 0 then (bins s)(k := z) else bins s) \<and>
      bins_bitmap (Remove x s) = (if y = 0 \<and> z = 0 then bins_bitmap s AND NOT (bin_bit k) else bins_bitmap s)"
proof -
  have m: "bwd (mem s x) = y" "fwd (mem s x) = z" "masked (csize (mem s x)) = csize (mem s x)" "BinIndex (csize (mem s x)) = k"
    using x k by (simp_all add: hdr_def)
  note defs = Remove_def PopFront_def hdr_def set_hdr_def Let_def
  show ?thesis
  proof (cases "y = 0")
    case y0: True
    show ?thesis
    proof (cases "z = 0")
      case True
      then show ?thesis using x k m y0 by (simp add: defs)
    next
      case False
      then show ?thesis using x k m y0 z by (simp add: defs)
    qed
  next
    case y0: False
    show ?thesis
    proof (cases "z = 0")
      case True
      then show ?thesis using x k m y0 y by (simp add: defs)
    next
      case False
      then show ?thesis using x k m y0 y z by (simp add: defs)
    qed
  qed
qed

text \<open>An entry of a bin is taken out of it, and nothing else in the bins changes.\<close>

lemma Remove_unlinks:
  assumes ok: "bins_linked s f" and x: "x \<in> set (f k)"
  shows "bins_linked (Remove x s) (f(k := remove1 x (f k)))"
    "\<forall>a. csize (hdr (Remove x s) a) = csize (hdr s a) \<and> psize (hdr (Remove x s) a) = psize (hdr s a)"
    "\<forall>a. (\<forall>j. canon a \<notin> set (f j)) \<longrightarrow> hdr (Remove x s) a = hdr s a"
    "fwd (hdr (Remove x s) x) = 0 \<and> bwd (hdr (Remove x s) x) = 0"
proof -
  let ?s = "Remove x s" and ?f = "f(k := remove1 x (f k))"
  have bo: "bins_ok s f" and dist: "distinct (f j)" and addr: "a \<in> set (f j) \<Longrightarrow> KERNEL_DATA_BASE \<le> a \<and> 32 dvd csize (hdr s a)"
    and seg: "\<exists>q. bin_seg s 0 (bins s j) (f j) q 0" for j a
    using ok by (auto simp: bins_linked_def)
  have canon: "canon a = a" if "a \<in> set (f j)" for a j using addr[OF that] by (simp add: canon_def)
  have nz: "a \<noteq> 0" if "a \<in> set (f j)" for a j using addr[OF that] by (auto simp: KERNEL_DATA_BASE_def)
  have bin: "BinIndex (csize (hdr s a)) = j" "csize (hdr s a) < 2 ^ 26" if "a \<in> set (f j)" for a j
    using bo that by (auto simp: bins_ok_def)
  obtain ys zs where f: "f k = ys @ x # zs" using x by (meson split_list)
  obtain q y where s1: "bin_seg s 0 (bins s k) ys y x" and y: "bwd (hdr s x) = y" and s2: "bin_seg s x (fwd (hdr s x)) zs q 0"
    using seg[of k] unfolding f bin_seg_append by auto
  define z where "z = fwd (hdr s x)"
  have yin: "ys = [] \<and> y = 0 \<and> bins s k = x \<or> y \<in> set ys \<and> bins s k \<in> set ys"
    using s1 bin_seg_last[OF s1] by (cases "ys = []") auto
  have zin: "zs = [] \<and> z = 0 \<or> z \<in> set zs \<and> z = hd zs" using s2 by (cases zs) (auto simp: z_def)
  have d: "x \<notin> set ys" "x \<notin> set zs" "set ys \<inter> set zs = {}" "distinct ys" "distinct zs" using dist[of k] f by auto
  have mem: "a \<in> set (f k)" if "a \<in> set ys \<or> a \<in> set zs" for a using that f by auto
  have "32 dvd csize (hdr s x)" using addr[OF x] by simp
  then have msk: "masked (csize (hdr s x)) = csize (hdr s x)" by (auto simp: masked_def)
  have hd0: "bins s k = x \<longleftrightarrow> y = 0" using yin d(1) nz mem by auto
  have c1: "x \<noteq> y" "x \<noteq> z" "y \<noteq> 0 \<Longrightarrow> canon y = y \<and> y \<noteq> z" "z \<noteq> 0 \<Longrightarrow> canon z = z"
    using yin zin d nz[OF x] canon mem by auto
  note effect = Remove_effect[OF canon[OF x] nz[OF x] y z_def[symmetric] c1 msk bin(1)[OF x] hd0]
  have eff_sz: "csize (hdr ?s a) = csize (hdr s a)" "psize (hdr ?s a) = psize (hdr s a)"
    and eff_f: "fwd (hdr ?s a) = (if canon a = x then 0 else if y \<noteq> 0 \<and> canon a = y then z else fwd (hdr s a))"
    and eff_b: "bwd (hdr ?s a) = (if canon a = x then 0 else if z \<noteq> 0 \<and> canon a = z then y else bwd (hdr s a))"
    and eff_bins: "bins ?s = (if y = 0 then (bins s)(k := z) else bins s)"
    and eff_bm: "bins_bitmap ?s = (if y = 0 \<and> z = 0 then bins_bitmap s AND NOT (bin_bit k) else bins_bitmap s)" for a
    using effect[of a] by blast+
  show sizes: "\<forall>a. csize (hdr ?s a) = csize (hdr s a) \<and> psize (hdr ?s a) = psize (hdr s a)" using eff_sz by blast
  show "fwd (hdr ?s x) = 0 \<and> bwd (hdr ?s x) = 0" using eff_f[of x] eff_b[of x] canon[OF x] by simp
  show "\<forall>a. (\<forall>j. canon a \<notin> set (f j)) \<longrightarrow> hdr ?s a = hdr s a"
  proof (intro allI impI)
    fix a assume a: "\<forall>j. canon a \<notin> set (f j)"
    then have "canon a \<noteq> x" "y \<noteq> 0 \<longrightarrow> canon a \<noteq> y" "z \<noteq> 0 \<longrightarrow> canon a \<noteq> z" using x yin zin mem by metis+
    then show "hdr ?s a = hdr s a" using eff_sz[of a] eff_f[of a] eff_b[of a] by (intro cell.equality) (auto split: if_splits)
  qed
  have bins: "bins ?s j = bins s j" if "j \<noteq> k" for j using eff_bins that by simp
  have nonnull: "a \<noteq> 0" if "a \<in> set ys \<or> a \<in> set zs" for a using nz[OF mem[OF that]] .
  have yz: "ys = [] \<longleftrightarrow> y = 0" "zs = [] \<longleftrightarrow> z = 0" using yin zin nonnull[of y] nonnull[of z] by auto
  have seg': "\<exists>q. bin_seg ?s 0 (bins ?s j) (?f j) q 0" for j
  proof (cases "j = k")
    case False
    then have other: "a \<noteq> x" "y \<noteq> 0 \<longrightarrow> a \<noteq> y" "z \<noteq> 0 \<longrightarrow> a \<noteq> z" if "a \<in> set (f j)" for a
      using that bin(1) x yin zin mem by metis+
    obtain q where "bin_seg s 0 (bins s j) (f j) q 0" using seg by blast
    moreover have "fwd (hdr ?s a) = fwd (hdr s a) \<and> bwd (hdr ?s a) = bwd (hdr s a)" if "a \<in> set (f j)" for a
      using eff_f[of a] eff_b[of a] other[OF that] canon[OF that] by auto
    ultimately have "bin_seg ?s 0 (bins s j) (f j) q 0" using bin_seg_cong by blast
    then show ?thesis using False bins by auto
  next
    case True
    have rest: "remove1 x (f k) = ys @ zs" using f d(1) by (simp add: remove1_append)
    have ysx: "canon a = a" "a \<noteq> x" "a \<noteq> z" if "a \<in> set ys" for a using that canon[of a k] nz[of a k] mem[of a] d zin by auto
    have zsx: "canon a = a" "a \<noteq> x" "a \<noteq> y" if "a \<in> set zs" for a using that canon[of a k] nz[of a k] mem[of a] d yin by auto
    have "bin_seg ?s 0 (if ys = [] then z else bins s k) ys y z"
      using s1 d(4) eff_f eff_b ysx nonnull yin by (intro bin_seg_to[where s = s and r = x]) auto
    moreover have "bin_seg ?s y z zs (if zs = [] then y else q) 0"
      using s2 d(5) eff_f eff_b zsx nonnull unfolding z_def[symmetric] by (intro bin_seg_from[where s = s and p = x]) auto
    moreover have "bins ?s k = (if ys = [] then z else bins s k)" using eff_bins yin nz mem by auto
    ultimately have "bin_seg ?s 0 (bins ?s k) (ys @ zs) (if zs = [] then y else q) 0"
      unfolding bin_seg_append by metis
    then show ?thesis unfolding True fun_upd_same rest by (rule exI)
  qed
  have bitmap: "bit (bins_bitmap ?s) j \<longleftrightarrow> ?f j \<noteq> []" for j
  proof -
    have "bit (bins_bitmap s) j \<longleftrightarrow> f j \<noteq> []" using bo by (simp add: bins_ok_def)
    moreover have "k < 64" using BinIndex_range[OF bin(2)[OF x]] bin(1)[OF x] by simp
    moreover have "remove1 x (f k) = [] \<longleftrightarrow> y = 0 \<and> z = 0"
      using f d(1) yz by (simp add: remove1_append)
    moreover have "bit (bins_bitmap s) j \<Longrightarrow> j < 64" using bit_imp_le_length[of "bins_bitmap s" j] by simp
    ultimately show ?thesis using eff_bm f by (auto simp: bit_simps bit_bin_bit)
  qed
  have sub: "a \<in> set (f j)" if "a \<in> set (?f j)" for a j
    using that set_remove1_subset[of x "f k"] by (cases "j = k") auto
  have in_s: "csize (hdr ?s a) < 2 ^ 26 \<and> BinIndex (csize (hdr ?s a)) = j" "KERNEL_DATA_BASE \<le> a \<and> 32 dvd csize (hdr ?s a)"
    if "a \<in> set (?f j)" for a j
    using bin[OF sub[OF that]] addr[OF sub[OF that]] sizes by simp_all
  have path: "bin_path ?s (bins ?s j) (?f j)" for j using seg'[of j] bin_seg_path by blast
  have "distinct (?f j)" for j using dist by (simp add: distinct_remove1)
  moreover have "bins_ok ?s ?f" unfolding bins_ok_def using path bitmap in_s(1) by blast
  ultimately show "bins_linked ?s ?f" unfolding bins_linked_def using seg' in_s(2) by blast
qed

text \<open>
  C19: On well-formed bins \<open>FindEntry\<close> ends, whatever the size: it returns the null pointer and changes nothing exactly when
  no free chunk is strictly larger than the request. Otherwise it returns a chunk of a bin that is strictly larger, and
  unlinks it: the bins are those from before without the chunk, the links of the chunk are cleared, and no size and no
  cell outside the bins has changed. A chunk from another bin than that of the request comes from the highest
  bin in use, not from the smallest sufficient one the name of the variable speaks of.
\<close>
theorem FindEntry_finds:
  assumes ok: "bins_linked s f" and sz: "sz < 2 ^ 26"
  shows "\<exists>e s' b. FindEntry sz s = Some (e, s') \<and>
    (e = 0 \<longleftrightarrow> (\<forall>k. \<forall>x\<in>set (f k). csize (hdr s x) \<le> sz)) \<and> (e = 0 \<longrightarrow> s' = s) \<and>
    (e \<noteq> 0 \<longrightarrow> sz < csize (hdr s e) \<and> b = BinIndex (csize (hdr s e)) \<and> e \<in> set (f b) \<and>
       bins_linked s' (f(b := remove1 e (f b))) \<and> fwd (hdr s' e) = 0 \<and> bwd (hdr s' e) = 0 \<and>
       (\<forall>a. csize (hdr s' a) = csize (hdr s a) \<and> psize (hdr s' a) = psize (hdr s a)) \<and>
       (\<forall>a. (\<forall>k. canon a \<notin> set (f k)) \<longrightarrow> hdr s' a = hdr s a) \<and>
       (b \<noteq> BinIndex sz \<longrightarrow> (\<forall>k. f k \<noteq> [] \<longrightarrow> k \<le> b)))"
proof -
  have "bins_ok s f" using ok by (simp add: bins_linked_def)
  from FindEntry_loop_result[OF this sz] obtain e where
    e: "FindEntry_loop sz (bins_bitmap s AND - bin_bit (BinIndex sz)) (BinIndex sz) s = Some e"
      "e = 0 \<longleftrightarrow> (\<forall>k. \<forall>x\<in>set (f k). csize (hdr s x) \<le> sz)"
      "e \<noteq> 0 \<longrightarrow> sz < csize (hdr s e) \<and> e \<in> set (f (BinIndex (csize (hdr s e)))) \<and>
       (BinIndex (csize (hdr s e)) \<noteq> BinIndex sz \<longrightarrow> (\<forall>k. f k \<noteq> [] \<longrightarrow> k \<le> BinIndex (csize (hdr s e))))" by blast
  have run: "FindEntry sz s = Some (e, if e \<noteq> 0 then Remove e s else s)" using e(1) by (simp add: FindEntry_def Let_def)
  show ?thesis
  proof (cases "e = 0")
    case True
    then show ?thesis using run e(2) by simp
  next
    case False
    then show ?thesis using run e(2,3) Remove_unlinks[OF ok, of e "BinIndex (csize (hdr s e))"]
      by - (rule exI[of _ e], rule exI[of _ "Remove e s"], rule exI[of _ "BinIndex (csize (hdr s e))"], simp del: fun_upd_apply, metis not_le)
  qed
qed

section \<open>Runs on a small heap\<close>

text \<open>A compact form of heap states: the bins and the cells that differ from zero as association lists.\<close>

definition look :: "'b \<Rightarrow> ('a \<times> 'b) list \<Rightarrow> 'a \<Rightarrow> 'b" where
  "look d l a = (case map_of l a of None \<Rightarrow> d | Some b \<Rightarrow> b)"

definition zero_cell :: cell where
  "zero_cell = \<lparr>fwd = 0, bwd = 0, csize = 0, psize = 0\<rparr>"

definition kst :: "nat \<Rightarrow> u64 \<Rightarrow> (nat \<times> nat) list \<Rightarrow> (nat \<times> cell) list \<Rightarrow> buddy \<Rightarrow> kheap" where
  "kst t bm bs ms b =
     \<lparr>bins = look 0 bs, bins_bitmap = bm, heap_size = 0x10000, max_heap_size = 0x40000000,
      heap_start = HEAP_BASE, heap_paddr = 0x4000, top = t, mem = look zero_cell ms, heap_mapped = True,
      pm_calls = [], pmm = b\<rparr>"

lemma look_update: "(look d l)(a := b) = look d (AList.update a b l)"
  by (auto simp: look_def update_conv' fun_eq_iff)

lemma look_simps:
  "look (0 :: nat) [] a = 0" "look zero_cell [] a = \<lparr>fwd = 0, bwd = 0, csize = 0, psize = 0\<rparr>"
  "look d ((a', b) # l) a = (if a = a' then b else look d l a)"
  by (simp_all add: look_def zero_cell_def)

lemma kst_simps:
  "bins (kst t bm bs ms b) k = look 0 bs k" "bins_bitmap (kst t bm bs ms b) = bm"
  "heap_size (kst t bm bs ms b) = 0x10000" "heap_start (kst t bm bs ms b) = HEAP_BASE"
  "heap_paddr (kst t bm bs ms b) = 0x4000" "top (kst t bm bs ms b) = t"
  "heap_mapped (kst t bm bs ms b)" "pmm (kst t bm bs ms b) = b"
  "hdr (kst t bm bs ms b) a = look zero_cell ms (canon a)"
  "set_hdr a f (kst t bm bs ms b) = kst t bm bs (AList.update (canon a) (f (look zero_cell ms (canon a))) ms) b"
  "(kst t bm bs ms b)\<lparr>top := t'\<rparr> = kst t' bm bs ms b"
  "(kst t bm bs ms b)\<lparr>pmm := b'\<rparr> = kst t bm bs ms b'"
  "(kst t bm bs ms b)\<lparr>bins_bitmap := bm'\<rparr> = kst t bm' bs ms b"
  "(kst t bm bs ms b)\<lparr>bins := (look 0 bs)(k := e)\<rparr> = kst t bm (AList.update k e bs) ms b"
  "(kst t bm bs ms b)\<lparr>bins := (look 0 bs)(k := e), bins_bitmap := bm'\<rparr> = kst t bm' (AList.update k e bs) ms b"
  "bins (kst t bm bs ms b) = look 0 bs" "mem (kst t bm bs ms b) = look zero_cell ms"
  "(kst t bm bs ms b)\<lparr>mem := look zero_cell ms'\<rparr> = kst t bm bs ms' b"
  by (simp_all add: kst_def hdr_def set_hdr_def look_update)

lemma Verify_eval:
  "heap_start s = top s \<Longrightarrow> Verify s = Some ()"
  "heap_start s \<noteq> top s \<Longrightarrow> Verify_loop s (heap_start s) None 0 = Some acc \<Longrightarrow>
     fwd (hdr s (top s)) = 0 \<Longrightarrow> bwd (hdr s (top s)) = 0 \<Longrightarrow> acc + csize (hdr s (top s)) = heap_size s \<Longrightarrow>
     Verify s = Some ()"
  by (simp_all add: Verify_def)

lemma Verify_loop_eval:
  "\<not> chunk > top s \<Longrightarrow> prev = None \<or> prev = Some (psize (hdr s chunk)) \<Longrightarrow> \<not> chunk_loop_error s chunk \<Longrightarrow>
     chunk + masked (csize (hdr s chunk)) = nxt \<Longrightarrow> acc + masked (csize (hdr s chunk)) = acc' \<Longrightarrow>
     Verify_loop s chunk prev acc =
       (if nxt \<noteq> top s then Verify_loop s nxt (Some (csize (hdr s chunk))) acc' else Some acc')"
  by (subst Verify_loop.simps) (auto simp: Let_def)

lemma FindEntry_loop_eval:
  "FindEntry_loop sz 0 bin_ind s = Some 0"
  "m \<noteq> 0 \<Longrightarrow> Find_in_bin s sz (bins s (top_bit m)) = Some e \<Longrightarrow> e \<noteq> 0 \<Longrightarrow>
     FindEntry_loop sz m bin_ind s = Some e"
  by (simp_all add: FindEntry_loop.simps[of sz 0] FindEntry_loop.simps[of sz m])

lemma Find_in_bin_eval:
  "Find_in_bin s sz 0 = Some 0"
  "e \<noteq> 0 \<Longrightarrow> sz < csize (hdr s e) \<Longrightarrow> Find_in_bin s sz e = Some e"
  by (simp_all add: Find_in_bin.simps[of s sz 0] Find_in_bin.simps[of s sz e])

lemma FindEntry_eval:
  "BinIndex sz = b \<Longrightarrow> FindEntry_loop sz (bins_bitmap s AND - bin_bit b) b s = Some e \<Longrightarrow>
     (if e \<noteq> 0 then Remove e s else s) = s' \<Longrightarrow> FindEntry sz s = Some (e, s')"
  by (simp add: FindEntry_def Let_def)

lemma Grow_loop_eval:
  "heap_mapped s \<Longrightarrow> sz < csize (hdr s (top s)) \<Longrightarrow> Grow_loop sz s = Some s"
  by (simp add: Grow_loop.simps[of sz s])

lemma KAllocate_eval:
  "heap_start s \<noteq> 0 \<Longrightarrow> n \<noteq> 0 \<Longrightarrow> Verify s = Some () \<Longrightarrow> chunk_size n = sz \<Longrightarrow> sz < PMM_THRESHOLD \<Longrightarrow>
     FindEntry sz s = Some (0, s1) \<Longrightarrow> Grow_loop sz s1 = Some s2 \<Longrightarrow> Split (top s2) sz s2 = (t, s3) \<Longrightarrow>
     s3\<lparr>top := t\<rparr> = s4 \<Longrightarrow> NextChunk s4 (top s2) = nx \<Longrightarrow>
     set_hdr (top s2) (\<lambda>c. c\<lparr>csize := set_use (csize c)\<rparr>) s4 = s5 \<Longrightarrow>
     set_hdr nx (\<lambda>c. c\<lparr>psize := csize (hdr s5 (top s2))\<rparr>) s5 = s6 \<Longrightarrow> Verify s6 = Some () \<Longrightarrow>
     Allocate n s = Some (top s2 + HEADER, s6)"
  "heap_start s \<noteq> 0 \<Longrightarrow> n \<noteq> 0 \<Longrightarrow> Verify s = Some () \<Longrightarrow> chunk_size n = sz \<Longrightarrow> sz < PMM_THRESHOLD \<Longrightarrow>
     FindEntry sz s = Some (e, s1) \<Longrightarrow> e \<noteq> 0 \<Longrightarrow>
     (if sz \<ge> 1024 \<and> masked (csize (hdr s1 e)) > sz then SplitAndPush e sz s1 else s1) = s4 \<Longrightarrow>
     NextChunk s4 e = nx \<Longrightarrow>
     set_hdr e (\<lambda>c. c\<lparr>csize := set_use (csize c)\<rparr>) s4 = s5 \<Longrightarrow>
     set_hdr nx (\<lambda>c. c\<lparr>psize := csize (hdr s5 e)\<rparr>) s5 = s6 \<Longrightarrow> Verify s6 = Some () \<Longrightarrow>
     Allocate n s = Some (e + HEADER, s6)"
  by (auto simp: Allocate_def Let_def)

lemma KFree_eval:
  "heap_start s \<noteq> 0 \<Longrightarrow> a \<noteq> 0 \<Longrightarrow> PMM_THRESHOLD \<le> csize (hdr s (a - HEADER)) \<Longrightarrow>
     Buddy_Allocator.Free (ToPAddr s (a - HEADER)) (pmm s) = Some b \<Longrightarrow> s\<lparr>pmm := b\<rparr> = s' \<Longrightarrow>
     Verify s' = Some () \<Longrightarrow> Free a s = Some s'"
  "heap_start s \<noteq> 0 \<Longrightarrow> a \<noteq> 0 \<Longrightarrow> csize (hdr s (a - HEADER)) < PMM_THRESHOLD \<Longrightarrow>
     set_hdr (a - HEADER) (\<lambda>c. c\<lparr>csize := clear_use (csize c)\<rparr>) s = s1 \<Longrightarrow>
     MergeWithNeighbors (a - HEADER) s1 = (e, s2) \<Longrightarrow>
     (if e \<noteq> top s2 then PushFront (BinIndex (csize (hdr s2 e))) e
          (set_hdr (NextChunk s2 e) (\<lambda>c. c\<lparr>psize := csize (hdr s2 e)\<rparr>) s2) else s2) = s3 \<Longrightarrow>
     Verify s3 = Some () \<Longrightarrow> Free a s = Some s3"
  by (auto simp: Free_def Let_def)

lemma bit_len_eval: "bit_len 0 = 0" "0 < n \<Longrightarrow> bit_len n = Suc (bit_len (n div 2))"
  by (simp_all add: bit_len.simps[of 0] bit_len.simps[of n])

lemma BinIndex_eval:
  "sz < 1024 \<Longrightarrow> BinIndex sz = sz div 32"
  "1024 \<le> sz \<Longrightarrow> bit_len sz = l \<Longrightarrow>
     BinIndex sz = (32 + ((l - 11) * 2 + (sz div 2 ^ (l - 2)) mod 2) mod 256) mod 256"
  by (simp_all add: BinIndex_def Let_def)

lemma PopFront_eval:
  "bins s k = e \<Longrightarrow> e \<noteq> 0 \<Longrightarrow> fwd (hdr s e) = n \<Longrightarrow> s\<lparr>bins := (bins s)(k := n)\<rparr> = s1 \<Longrightarrow>
     (if n \<noteq> 0 then set_hdr n (\<lambda>c. c\<lparr>bwd := 0\<rparr>) s1
      else s1\<lparr>bins_bitmap := bins_bitmap s1 AND NOT (bin_bit k)\<rparr>) = s2 \<Longrightarrow>
     PopFront k s = (e, set_hdr e (\<lambda>c. c\<lparr>fwd := 0, bwd := 0\<rparr>) s2)"
  by (auto simp: PopFront_def Let_def)

lemma Remove_eval:
  "fwd (hdr s e) = f \<Longrightarrow> (if f \<noteq> 0 then set_hdr f (\<lambda>x. x\<lparr>bwd := bwd (hdr s e)\<rparr>) s else s) = s1 \<Longrightarrow>
     bwd (hdr s1 e) = b \<Longrightarrow> (if b \<noteq> 0 then set_hdr b (\<lambda>x. x\<lparr>fwd := fwd (hdr s1 e)\<rparr>) s1 else s1) = s2 \<Longrightarrow>
     BinIndex (masked (csize (hdr s2 e))) = k \<Longrightarrow>
     (if bins s2 k = e then snd (PopFront k s2) else s2) = s3 \<Longrightarrow>
     Remove e s = set_hdr e (\<lambda>c. c\<lparr>fwd := 0, bwd := 0\<rparr>) s3"
  by (auto simp: Remove_def Let_def)

lemma PushFront_eval:
  "bins s k = h \<Longrightarrow> set_hdr e (\<lambda>c. c\<lparr>fwd := h\<rparr>) s = s1 \<Longrightarrow> fwd (hdr s1 e) = f \<Longrightarrow>
     (if f \<noteq> 0 then set_hdr f (\<lambda>c. c\<lparr>bwd := e\<rparr>) s1 else s1) = s2 \<Longrightarrow>
     s2\<lparr>bins := (bins s2)(k := e)\<rparr> = s3 \<Longrightarrow>
     PushFront k e s = s3\<lparr>bins_bitmap := bins_bitmap s2 OR bin_bit k\<rparr>"
  by (auto simp: PushFront_def Let_def)

lemma KSplit_eval:
  "masked (csize (hdr s e)) = old \<Longrightarrow> e + sz = n \<Longrightarrow> set_hdr n (\<lambda>c. c\<lparr>fwd := 0, bwd := 0\<rparr>) s = s1 \<Longrightarrow>
     set_hdr e (\<lambda>c. c\<lparr>csize := set_use sz\<rparr>) s1 = s2 \<Longrightarrow>
     set_hdr n (\<lambda>c. c\<lparr>csize := clear_use (old - sz)\<rparr>) s2 = s3 \<Longrightarrow>
     set_hdr n (\<lambda>c. c\<lparr>psize := csize (hdr s3 e)\<rparr>) s3 = s4 \<Longrightarrow>
     Split e sz s = (n, if e = top s4 then s4\<lparr>top := n\<rparr>
                        else set_hdr (NextChunk s4 n) (\<lambda>c. c\<lparr>psize := csize (hdr s4 n)\<rparr>) s4)"
  by (auto simp: Split_def Let_def)

lemma merge_eval:
  "in_use (psize (hdr s e)) \<or> psize (hdr s e) = 0 \<Longrightarrow> merge_prev e s = (e, s)"
  "\<not> in_use (psize (hdr s e)) \<Longrightarrow> psize (hdr s e) > 0 \<Longrightarrow> PrevChunk s e = p \<Longrightarrow> Remove p s = s1 \<Longrightarrow>
     merge_prev e s = (p, set_hdr p (\<lambda>c. c\<lparr>csize := csize c + csize (hdr s e)\<rparr>) s1)"
  "NextChunk s e = n \<Longrightarrow> in_use (csize (hdr s n)) \<Longrightarrow> merge_next e s = s"
  "NextChunk s e = n \<Longrightarrow> \<not> in_use (csize (hdr s n)) \<Longrightarrow> Remove n s = s1 \<Longrightarrow>
     set_hdr e (\<lambda>c. c\<lparr>csize := csize c + masked (csize (hdr s1 n))\<rparr>) s1 = s2 \<Longrightarrow>
     merge_next e s = (if n = top s2 then s2\<lparr>top := e\<rparr> else s2)"
  by (auto simp: merge_prev_def merge_next_def Let_def)

lemma MergeWithNeighbors_eval:
  "merge_prev e s = (e1, s1) \<Longrightarrow> merge_next e1 s1 = s2 \<Longrightarrow>
     MergeWithNeighbors e s = (e1, if e1 \<noteq> top s2
       then set_hdr (NextChunk s2 e1) (\<lambda>c. c\<lparr>psize := csize (hdr s2 e1)\<rparr>) s2 else s2)"
  by (auto simp: MergeWithNeighbors_def Let_def)

lemma SplitAndPush_eval:
  "Split e sz s = (n, s1) \<Longrightarrow> SplitAndPush e sz s =
     (if n \<noteq> top s1 then PushFront (BinIndex (csize (hdr s1 n))) n s1 else s1)"
  by (simp add: SplitAndPush_def)

lemmas keval = kst_simps look_simps Verify_eval Verify_loop_eval FindEntry_loop_eval Find_in_bin_eval
  FindEntry_eval Grow_loop_eval KAllocate_eval KFree_eval chunk_loop_error_def BinIndex_eval bit_len_eval
  top_bit_def bin_bit_def Remove_eval PushFront_eval PopFront_eval NextChunk_def PrevChunk_def KSplit_eval
  SplitAndPush_eval merge_eval MergeWithNeighbors_eval chunk_size_def masked_def set_use_def clear_use_def in_use_def
  HEADER_def PMM_THRESHOLD_def HEAP_BASE_def KERNEL_DATA_BASE_def canon_def

definition kdemo :: "buddy \<Rightarrow> kheap" where
  "kdemo b = kst HEAP_BASE 0 [] [(HEAP_BASE, \<lparr>fwd = 0, bwd = 0, csize = 0x10000, psize = 0\<rparr>)] b"

text \<open>
  A physical allocator whose only block in use is the heap: 16 pages at \<open>0x4000\<close>.
\<close>

definition kdemo_pmm :: buddy where
  "kdemo_pmm =
     \<lparr>mem_ranges = [\<lparr>mdata_base = 0x1000, base = 0x2000, mdata_size = 0x1000, rsize = 0x20000,
                      page_entries = 0x1000\<rparr>],
      num_blocks = 0, free_lists = (\<lambda>_. 0), mem_in_use = 0x10000, total_mem = 0x21000, initialized = True,
      entries = (\<lambda>_. fresh_entry)(0x1030 := \<lparr>forward = 0, backward = 0, order = 16, is_free = False\<rparr>)\<rparr>"

lemma kdemo_pmm_free:
  "Buddy_Allocator.Free 0x4040 kdemo_pmm = Some (kdemo_pmm\<lparr>num_blocks := 0x10000, mem_in_use := 0,
     free_lists := (\<lambda>_. 0)(16 := 0x1030),
     entries := (\<lambda>_. fresh_entry)(0x1030 := \<lparr>forward = 0, backward = 0, order = 16, is_free = True\<rparr>)\<rparr>)"
  by (simp add: kdemo_pmm_def beval upd_entry_def set_head_def fresh_entry_def)

datatype heap_call = KAlloc nat | KFree nat

fun run_heap :: "heap_call list \<Rightarrow> kheap \<Rightarrow> (nat list \<times> kheap) option" where
  "run_heap [] s = Some ([], s)"
| "run_heap (KAlloc n # cs) s =
     Option.bind (Allocate n s) (\<lambda>(a, s). map_option (\<lambda>(as, s). (a # as, s)) (run_heap cs s))"
| "run_heap (KFree a # cs) s = Option.bind (Free a s) (run_heap cs)"

declare run_heap.simps(2,3) [simp del]

lemma run_heap_eval:
  "Allocate n s = Some (a, s') \<Longrightarrow>
     run_heap (KAlloc n # cs) s = map_option (\<lambda>(as, s). (a # as, s)) (run_heap cs s')"
  "Free b s = Some s' \<Longrightarrow> run_heap (KFree b # cs) s = run_heap cs s'"
  by (simp_all add: run_heap.simps)

lemma Verify_None:
  "heap_start s \<noteq> top s \<Longrightarrow> Verify_loop s (heap_start s) None 0 = None \<Longrightarrow> Verify s = None"
  by (simp add: Verify_def)

lemma Verify_loop_None:
  "prev \<noteq> None \<and> prev \<noteq> Some (psize (hdr s chunk)) \<Longrightarrow> Verify_loop s chunk prev acc = None"
  by (subst Verify_loop.simps) (auto simp: Let_def)

declare copy_cells.simps(2) [simp del]

lemma copy_cells_eval:
  "0 < n \<Longrightarrow> copy_cells n d r (look z ms) =
     copy_cells (n - 1) (d + 32) (r + 32) (look z (AList.update (canon d) (look z ms (canon r)) ms))"
  by (cases n) (simp_all add: look_update copy_cells.simps)

lemma Reallocate_eval:
  "heap_start s \<noteq> 0 \<Longrightarrow> n \<noteq> 0 \<Longrightarrow> Verify s = Some () \<Longrightarrow> chunk_size n = sz \<Longrightarrow> sz < PMM_THRESHOLD \<Longrightarrow>
     csize (hdr s (a - HEADER)) = old \<Longrightarrow> in_use old \<Longrightarrow> old < PMM_THRESHOLD \<Longrightarrow>
     MergeWithNeighbors (a - HEADER) s = (e, s1) \<Longrightarrow> masked (csize (hdr s1 e)) \<ge> sz \<Longrightarrow>
     (if masked (csize (hdr s1 e)) > sz then SplitAndPush e sz s1 else s1) = s2 \<Longrightarrow>
     copy_bytes (e + HEADER) a (masked old) s2 = s3 \<Longrightarrow> Verify s3 = None \<Longrightarrow> Reallocate a n s = None"
  by (auto simp: Reallocate_def Let_def)

theorem FindEntry_finds_witness:
  "\<exists>e s. FindEntry 0x100 (kst (HEAP_BASE + 0x120) 512 [(9, HEAP_BASE)]
      [(HEAP_BASE, \<lparr>fwd = 0, bwd = 0, csize = 0x120, psize = 0\<rparr>)] kdemo_pmm) = Some (e, s) \<and> e \<noteq> 0"
proof -
  let ?s = "kst (HEAP_BASE + 0x120) 512 [(9, HEAP_BASE)]
      [(HEAP_BASE, \<lparr>fwd = 0, bwd = 0, csize = 0x120, psize = 0\<rparr>)] kdemo_pmm"
  let ?f = "\<lambda>k :: nat. if k = 9 then [HEAP_BASE] else []"
  have "bit (512 :: u64) k \<longleftrightarrow> k = 9" for k
    using bit_bin_bit[of 9 k] by (simp add: bin_bit_def)
  then have "bins_linked ?s ?f"
    by (auto simp: bins_linked_def bins_ok_def keval)
  from FindEntry_finds[OF this, of "0x100"] show ?thesis
    by (auto simp: keval(9) look_simps canon_def HEAP_BASE_def KERNEL_DATA_BASE_def kst_simps split: if_splits)
qed

text \<open>
  A request below 1024 bytes takes a free chunk whole, however large it is, and \<open>Free\<close> decides by
  the size of the chunk alone that it came from the page allocator. After two large blocks have
  been freed and merged, allocating and freeing 16 bytes gives the physical block of the heap itself
  back to the page allocator, which hands it out again.
\<close>
theorem Free_small_releases_heap:
  "map_option (\<lambda>(as, s). (as, map_option fst (Buddy_Allocator.Allocate 0x10000 (pmm s)), heap_paddr s))
     (run_heap [KAlloc 16, KAlloc 0x3000, KAlloc 0x3000, KAlloc 16, KFree (HEAP_BASE + 0x60),
                KFree (HEAP_BASE + 0x3080), KAlloc 16, KFree (HEAP_BASE + 0x60)] (kdemo kdemo_pmm)) =
   Some ([HEAP_BASE + 0x20, HEAP_BASE + 0x60, HEAP_BASE + 0x3080, HEAP_BASE + 0x60A0, HEAP_BASE + 0x60],
         Some 0x4000, 0x4000)"
proof -
  have al: "map_option fst (Buddy_Allocator.Allocate 0x10000 (kdemo_pmm\<lparr>num_blocks := 0x10000, mem_in_use := 0,
     free_lists := (\<lambda>_. 0)(16 := 0x1030),
     entries := (\<lambda>_. fresh_entry)(0x1030 := \<lparr>forward = 0, backward = 0, order = 16, is_free = True\<rparr>)\<rparr>)) =
     Some 0x4000"
    by (simp add: kdemo_pmm_def beval upd_entry_def set_head_def fresh_entry_def)
  show ?thesis
    by (simp add: kdemo_def keval run_heap_eval ToPAddr_def kdemo_pmm_free al)
qed

text \<open>
  \<open>Reallocate\<close> copies the size of the old chunk, header included, to behind the header of the new
  one, 32 bytes too many. Reallocating a block to its own size after its left neighbour was freed
  overwrites the header of the remainder just split off, and \<open>Verify\<close> stops the kernel.
\<close>
theorem Reallocate_overruns:
  "map_option (\<lambda>(as, s). (as, Verify s, Reallocate (HEAP_BASE + 0x140) 0x100 s))
     (run_heap [KAlloc 0x100, KAlloc 0x100, KAlloc 0x100, KFree (HEAP_BASE + 0x20)] (kdemo b0)) =
   Some ([HEAP_BASE + 0x20, HEAP_BASE + 0x140, HEAP_BASE + 0x260], Some (), None)"
proof -
  have run: "run_heap [KAlloc 0x100, KAlloc 0x100, KAlloc 0x100, KFree (HEAP_BASE + 0x20)] (kdemo b0) =
    Some ([HEAP_BASE + 0x20, HEAP_BASE + 0x140, HEAP_BASE + 0x260],
      kst (HEAP_BASE + 0x360) 512 [(9, HEAP_BASE)]
        [(HEAP_BASE, \<lparr>fwd = 0, bwd = 0, csize = 0x120, psize = 0\<rparr>),
         (HEAP_BASE + 0x120, \<lparr>fwd = 0, bwd = 0, csize = 0x121, psize = 0x120\<rparr>),
         (HEAP_BASE + 0x240, \<lparr>fwd = 0, bwd = 0, csize = 0x121, psize = 0x121\<rparr>),
         (HEAP_BASE + 0x360, \<lparr>fwd = 0, bwd = 0, csize = 0xFCA0, psize = 0x121\<rparr>)] b0)"
    (is "_ = Some (?as, ?s)")
    by (simp add: kdemo_def keval run_heap_eval)
  have "Verify ?s = Some ()" by (simp add: keval)
  moreover have "Reallocate (HEAP_BASE + 0x140) 0x100 ?s = None"
    by (simp add: keval Reallocate_eval copy_bytes_def copy_cells_eval Verify_None Verify_loop_None)
  ultimately show ?thesis using run by simp
qed

end
