(* ===== verification/Page_Map.thy ===== *)
theory Page_Map
  imports Prelude
begin

text \<open>
  \<open>src/sys/page_map.cpp\<close> and \<open>page_map.h\<close>: the four-level page tables. Memory is a function from
  addresses to 64-bit words, of which the code uses those of the tables, in the direct map above
  \<open>KERNEL_DATA_BASE\<close>. The answers of \<open>BuddyAllocator::Allocate(FRAME_SIZE)\<close> are the list \<open>frames\<close>
  (an empty list or a 0 is the null pointer), its \<open>Free\<close> calls the log \<open>freed\<close>; \<open>invlpg\<close> and the
  load of \<open>cr3\<close> are recorded as well.
\<close>

unbundle bit_operations_syntax

section \<open>The code\<close>

record page_map =
  root :: u64
  words :: "u64 \<Rightarrow> u64"
  frames :: "u64 list"
  freed :: "u64 list"
  flushed :: "u64 list"
  cr3 :: u64

definition PRESENT :: u64 where "PRESENT = 1"
definition READ_WRITABLE :: u16 where "READ_WRITABLE = 2"
definition KERNEL_PAGE :: u16 where "KERNEL_PAGE = 3"
definition FRAME_SIZE :: u64 where "FRAME_SIZE = 0x1000"
definition DIRECT_MAP :: u64 where "DIRECT_MAP = 0xFFFF800000000000"

text \<open>\<open>~(0x1FF)\<close>; \<open>EXECUTABLE\<close> is \<open>~(1UL << 62)\<close>, which becomes \<open>0xFFFF\<close> in a 16-bit flag word.\<close>

definition TAB_ADDR_MASK :: u64 where "TAB_ADDR_MASK = NOT 0x1FF"
definition EXECUTABLE :: u64 where "EXECUTABLE = NOT (push_bit 62 1)"

definition ToHighMem :: "u64 \<Rightarrow> u64" where
  "ToHighMem paddr = paddr + DIRECT_MAP"

definition FromHighMem :: "u64 \<Rightarrow> u64" where
  "FromHighMem vaddr = vaddr - DIRECT_MAP * (if vaddr > DIRECT_MAP then 1 else 0)"

definition VAddrIndex :: "u64 \<Rightarrow> nat \<Rightarrow> nat" where
  "VAddrIndex vaddr level = unat (drop_bit (12 + 9 * (level - 1)) vaddr AND 0x1FF)"

definition GetPageFlag :: "u64 \<Rightarrow> u64 \<Rightarrow> bool" where
  "GetPageFlag page flag \<longleftrightarrow> page AND flag \<noteq> 0"

text \<open>\<open>&table[i]\<close>.\<close>

definition slot_of :: "u64 \<Rightarrow> nat \<Rightarrow> u64" where
  "slot_of table i = table + of_nat (8 * i)"

definition store_word :: "u64 \<Rightarrow> u64 \<Rightarrow> page_map \<Rightarrow> page_map" where
  "store_word a w s = s\<lparr>words := (words s)(a := w)\<rparr>"

definition Alloc_frame :: "page_map \<Rightarrow> u64 \<times> page_map" where
  "Alloc_frame s = (case frames s of [] \<Rightarrow> (0, s) | f # fs \<Rightarrow> (f, s\<lparr>frames := fs\<rparr>))"

definition GetPageTable :: "u64 \<Rightarrow> nat \<Rightarrow> page_map \<Rightarrow> u64" where
  "GetPageTable parent ind s =
     (let e = words s (slot_of parent ind)
      in if GetPageFlag e PRESENT then ToHighMem (e AND TAB_ADDR_MASK) else 0)"

definition GetOrCreatePageTable :: "u64 \<Rightarrow> nat \<Rightarrow> u16 \<Rightarrow> page_map \<Rightarrow> u64 \<times> page_map" where
  "GetOrCreatePageTable parent ind flags s =
     (let e = words s (slot_of parent ind)
      in if GetPageFlag e PRESENT then (ToHighMem (e AND TAB_ADDR_MASK), s)
         else let (free_frame, s) = Alloc_frame s
              in if free_frame = 0 then (0, s)
                 else (ToHighMem free_frame,
                       store_word (slot_of parent ind) (free_frame OR ucast flags) s))"

text \<open>The loops over the levels 4, 3, 2: \<open>n\<close> levels above the last are left.\<close>

fun GetPage_loop :: "nat \<Rightarrow> u64 \<Rightarrow> u64 \<Rightarrow> page_map \<Rightarrow> u64" where
  "GetPage_loop 0 vaddr parent_table s = parent_table"
| "GetPage_loop (Suc n) vaddr parent_table s =
     (let child_table = GetPageTable parent_table (VAddrIndex vaddr (n + 2)) s
      in if child_table = 0 then 0 else GetPage_loop n vaddr child_table s)"

definition GetPage :: "u64 \<Rightarrow> u64 \<Rightarrow> page_map \<Rightarrow> u64" where
  "GetPage page_table_root vaddr s =
     (let t = GetPage_loop 3 vaddr page_table_root s
      in if t = 0 then 0 else slot_of t (VAddrIndex vaddr 1))"

fun CreatePage_loop :: "nat \<Rightarrow> u64 \<Rightarrow> u16 \<Rightarrow> u64 \<Rightarrow> page_map \<Rightarrow> u64 \<times> page_map" where
  "CreatePage_loop 0 vaddr flags parent_table s = (parent_table, s)"
| "CreatePage_loop (Suc n) vaddr flags parent_table s =
     (case GetOrCreatePageTable parent_table (VAddrIndex vaddr (n + 2)) flags s of
        (child_table, s) \<Rightarrow>
          if child_table = 0 then (0, s) else CreatePage_loop n vaddr flags child_table s)"

definition CreatePage :: "u64 \<Rightarrow> u64 \<Rightarrow> u16 \<Rightarrow> page_map \<Rightarrow> u64 \<times> page_map" where
  "CreatePage page_table_root vaddr flags s =
     (case CreatePage_loop 3 vaddr flags page_table_root s of
        (t, s) \<Rightarrow> (if t = 0 then 0 else slot_of t (VAddrIndex vaddr 1), s))"

definition Map :: "u64 \<Rightarrow> u64 \<Rightarrow> u16 \<Rightarrow> page_map \<Rightarrow> bool \<times> page_map" where
  "Map paddr vaddr flags s =
     (case CreatePage (root s) vaddr flags s of
        (page_table_entry, s) \<Rightarrow>
          if page_table_entry = 0 then (False, s)
          else (True, store_word page_table_entry (paddr OR ucast flags) s))"

text \<open>The ranges end at \<open>bound\<close> exclusively; the loop variable wraps at \<open>2 ^ 64\<close>.\<close>

partial_function (option) MapRange_loop ::
  "u64 \<Rightarrow> u64 \<Rightarrow> u64 \<Rightarrow> u16 \<Rightarrow> page_map \<Rightarrow> (bool \<times> page_map) option" where
  "MapRange_loop addr bound virt_offset flags s =
     (if addr < bound
      then case Map addr (addr + virt_offset) flags s of
             (ok, s) \<Rightarrow> if \<not> ok then Some (False, s)
                        else MapRange_loop (addr + FRAME_SIZE) bound virt_offset flags s
      else Some (True, s))"

definition MapRange :: "u64 \<Rightarrow> u64 \<Rightarrow> u64 \<Rightarrow> u16 \<Rightarrow> page_map \<Rightarrow> (bool \<times> page_map) option" where
  "MapRange base bound virt_offset flags s = MapRange_loop base bound virt_offset flags s"

definition Unmap :: "u64 \<Rightarrow> page_map \<Rightarrow> bool \<times> page_map" where
  "Unmap vaddr s =
     (let page_table_entry = GetPage (root s) vaddr s
      in if page_table_entry = 0 then (False, s)
         else (True, (store_word page_table_entry 0 s)\<lparr>flushed := vaddr # flushed s\<rparr>))"

partial_function (option) UnmapRange ::
  "u64 \<Rightarrow> u64 \<Rightarrow> page_map \<Rightarrow> (bool \<times> page_map) option" where
  "UnmapRange vaddr bound s =
     (if vaddr < bound
      then case Unmap vaddr s of
             (ok, s) \<Rightarrow> if \<not> ok then Some (False, s) else UnmapRange (vaddr + FRAME_SIZE) bound s
      else Some (True, s))"

fun VAddrToPAddr_loop :: "nat \<Rightarrow> u64 \<Rightarrow> u64 \<Rightarrow> page_map \<Rightarrow> u64" where
  "VAddrToPAddr_loop 0 vaddr child_table s =
     words s (slot_of child_table (VAddrIndex vaddr 1)) AND TAB_ADDR_MASK"
| "VAddrToPAddr_loop (Suc n) vaddr parent_table s =
     (let child_table = GetPageTable parent_table (VAddrIndex vaddr (n + 2)) s
      in if child_table = 0 then 0 else VAddrToPAddr_loop n vaddr child_table s)"

definition VAddrToPAddr :: "u64 \<Rightarrow> page_map \<Rightarrow> u64" where
  "VAddrToPAddr vaddr s = VAddrToPAddr_loop 3 vaddr (root s) s"

definition Remap :: "u64 \<Rightarrow> u64 \<Rightarrow> u16 \<Rightarrow> page_map \<Rightarrow> bool \<times> page_map" where
  "Remap vaddr new_vaddr flags s =
     (let paddr = VAddrToPAddr vaddr s;
          (unmap_code, s) = Unmap vaddr s;
          (map_code, s) = Map paddr new_vaddr flags s
      in (unmap_code \<and> map_code, s\<lparr>flushed := vaddr # flushed s\<rparr>))"

partial_function (option) RemapRange_loop ::
  "u64 \<Rightarrow> u64 \<Rightarrow> u64 \<Rightarrow> u64 \<Rightarrow> u16 \<Rightarrow> page_map \<Rightarrow> (bool \<times> page_map) option" where
  "RemapRange_loop vaddr start bound new_vaddr_base flags s =
     (if vaddr < bound
      then case Remap vaddr (new_vaddr_base + (vaddr - start)) flags s of
             (ok, s) \<Rightarrow> if \<not> ok then Some (False, s)
                        else RemapRange_loop (vaddr + FRAME_SIZE) start bound new_vaddr_base flags s
      else Some (True, s))"

definition RemapRange :: "u64 \<Rightarrow> u64 \<Rightarrow> u64 \<Rightarrow> u16 \<Rightarrow> page_map \<Rightarrow> (bool \<times> page_map) option" where
  "RemapRange start bound new_vaddr_base flags s = RemapRange_loop start start bound new_vaddr_base flags s"

definition Load :: "page_map \<Rightarrow> page_map" where
  "Load s = s\<lparr>cr3 := root s - DIRECT_MAP\<rparr>"

text \<open>
  \<open>DeepCopy\<close> and \<open>DeepFree\<close>; \<open>level\<close> is 4 at the root. \<open>memmove\<close> of a frame copies its 512 words.
\<close>

fun DeepCopy :: "nat \<Rightarrow> u64 \<Rightarrow> u64 \<Rightarrow> page_map \<Rightarrow> page_map" where
  "DeepCopy 0 table copy s = s"
| "DeepCopy (Suc 0) table copy s =
     s\<lparr>words := fold (\<lambda>i m. m(slot_of copy i := words s (slot_of table i))) [0..<512] (words s)\<rparr>"
| "DeepCopy (Suc (Suc n)) table copy s =
     fold (\<lambda>i s.
       let e = words s (slot_of table i)
       in if e AND PRESENT \<noteq> 0
          then let flags = e AND NOT TAB_ADDR_MASK;
                   table_addr = ToHighMem (e AND TAB_ADDR_MASK);
                   (copy_addr, s) = Alloc_frame s;
                   s = store_word (slot_of copy i) (copy_addr OR flags) s
               in DeepCopy (Suc n) table_addr (ToHighMem copy_addr) s
          else s) [0..<512] s"

fun DeepFree :: "nat \<Rightarrow> u64 \<Rightarrow> page_map \<Rightarrow> page_map" where
  "DeepFree 0 table s = s"
| "DeepFree (Suc n) table s =
     (let s = (if n > 0
               then fold (\<lambda>i s. let e = words s (slot_of table i)
                                in if e AND PRESENT \<noteq> 0
                                   then DeepFree n (ToHighMem (e AND TAB_ADDR_MASK)) s
                                   else s) [0..<512] s
               else s)
      in s\<lparr>freed := freed s @ [table - DIRECT_MAP]\<rparr>)"

text \<open>The constructors: the empty map, the copy (of the map with the root \<open>rhs\<close>) and the assignment.\<close>

definition PageMap :: "page_map \<Rightarrow> page_map" where
  "PageMap s = (case Alloc_frame s of (f, s) \<Rightarrow> s\<lparr>root := ToHighMem f\<rparr>)"

definition PageMap_copy :: "u64 \<Rightarrow> page_map \<Rightarrow> page_map" where
  "PageMap_copy rhs s = (case Alloc_frame s of (f, s) \<Rightarrow>
     DeepCopy 4 rhs (ToHighMem f) (s\<lparr>root := ToHighMem f\<rparr>))"

definition assign_map :: "u64 \<Rightarrow> page_map \<Rightarrow> page_map" where
  "assign_map rhs s = (if root s = rhs then s else PageMap_copy rhs (DeepFree 4 (root s) s))"

text \<open>
  The constructor of the kernel's map from the boot loader's memory map and protected memory
  ranges. \<open>vmem_direct_mapping_base\<close> is a member that no constructor initialises: an argument.
\<close>

datatype boot_type = FRAMEBUFFER | BOOTLOADER_RECLAIMABLE | OTHER_MEMORY

record pmr =
  pmr_base :: u64
  pmr_length :: u64
  permissions :: u64

record boot_range =
  boot_base :: u64
  boot_length :: u64
  boot_type :: boot_type

definition pmr_flags :: "u64 \<Rightarrow> u16" where
  "pmr_flags perms =
     ucast PRESENT OR ucast (if perms = 1 then EXECUTABLE else 0)
       OR (if perms = 2 then READ_WRITABLE else 0)"

text \<open>The results of \<open>MapRange\<close> are ignored; a range that never ends has no result.\<close>

fun Map_pmrs :: "u64 \<Rightarrow> u64 \<Rightarrow> pmr list \<Rightarrow> page_map \<Rightarrow> page_map option" where
  "Map_pmrs kern_phys_base kern_virt_base [] s = Some s"
| "Map_pmrs kern_phys_base kern_virt_base (p # ps) s =
     (let phys = kern_phys_base + (pmr_base p - kern_virt_base)
      in case MapRange phys (phys + pmr_length p) (pmr_base p - phys) (pmr_flags (permissions p)) s of
           None \<Rightarrow> None
         | Some (_, s) \<Rightarrow> Map_pmrs kern_phys_base kern_virt_base ps s)"

fun Map_boot_ranges :: "u64 \<Rightarrow> boot_range list \<Rightarrow> page_map \<Rightarrow> page_map option" where
  "Map_boot_ranges vmem_direct_mapping_base [] s = Some s"
| "Map_boot_ranges vmem_direct_mapping_base (r # rs) s =
     (let base = boot_base r; bound = base + boot_length r
      in case (if boot_type r = FRAMEBUFFER \<or> boot_type r = BOOTLOADER_RECLAIMABLE
               then map_option snd (MapRange base bound 0 (KERNEL_PAGE AND ucast EXECUTABLE) s)
               else if base \<ge> 0x100000000
               then Option.bind (MapRange base bound 0 KERNEL_PAGE s)
                      (\<lambda>(_, s). map_option snd (MapRange base bound vmem_direct_mapping_base KERNEL_PAGE s))
               else Some s) of
           None \<Rightarrow> None
         | Some s \<Rightarrow> Map_boot_ranges vmem_direct_mapping_base rs s)"

definition PageMap_kernel ::
  "boot_range list \<Rightarrow> u64 \<Rightarrow> u64 \<Rightarrow> pmr list \<Rightarrow> u64 \<Rightarrow> page_map \<Rightarrow> page_map option" where
  "PageMap_kernel memmap kern_phys_base kern_virt_base pmrs vmem_direct_mapping_base s =
     Option.bind (MapRange 0x1000 0x100000000 0 KERNEL_PAGE (PageMap s))
       (\<lambda>(_, s). Option.bind (MapRange 0x1000 0x100000000 DIRECT_MAP KERNEL_PAGE s)
         (\<lambda>(_, s). Option.bind (Map_pmrs kern_phys_base kern_virt_base pmrs s)
           (Map_boot_ranges vmem_direct_mapping_base memmap)))"

end
