(* ===== verification/Page_Map_Theorems.thy ===== *)
theory Page_Map_Theorems
  imports Page_Map
begin

text \<open>
  Page tables that form a tree: \<open>level_of\<close> gives the level of every table in use. On such tables \<open>Map\<close>
  changes the translation of the pages of its own frame-sized slot and of no other, and keeps the
  tree, provided the frames it is given are empty. \<open>GetOrCreatePageTable\<close> does not clear them.
\<close>

unbundle bit_operations_syntax

section \<open>Addresses of entries\<close>

lemma VAddrIndex_less: "VAddrIndex v l < 512"
proof -
  have "drop_bit (12 + 9 * (l - 1)) v AND 0x1FF \<le> 0x1FF" by (rule word_and_le1)
  then have "VAddrIndex v l \<le> unat (0x1FF :: u64)" unfolding VAddrIndex_def word_le_nat_alt by simp
  then show ?thesis by simp
qed

definition table_aligned :: "u64 \<Rightarrow> bool" where
  "table_aligned t \<longleftrightarrow> unat t mod 4096 = 0"

lemma unat_slot:
  assumes "table_aligned t" "i < 512"
  shows "unat (slot_of t i) = unat t + 8 * i"
proof -
  obtain q where q: "unat t = 4096 * q" using assms(1) by (auto simp: table_aligned_def mod_eq_0_iff_dvd)
  have "unat t < 18446744073709551616" using unsigned_less[of t] by simp
  then have "q < 4503599627370496" using q by linarith
  then have "unat t \<le> 18446744073709547520" using q by simp
  then have b: "unat t + 8 * i < 2 ^ 64" using assms(2) by simp
  have "unat (of_nat (8 * i) :: u64) = 8 * i"
    by (simp only: unat_of_nat) (use assms(2) in simp)
  then show ?thesis using b by (simp add: slot_of_def unat_word_ariths)
qed

lemma slot_of_inj:
  assumes "table_aligned t" "table_aligned u" "i < 512" "j < 512" "slot_of t i = slot_of u j"
  shows "t = u" "i = j"
proof -
  have e: "unat t + 8 * i = unat u + 8 * j"
    using arg_cong[OF assms(5), of unat] unat_slot[OF assms(1,3)] unat_slot[OF assms(2,4)] by simp
  obtain a where a: "unat t = 4096 * a" using assms(1) by (auto simp: table_aligned_def mod_eq_0_iff_dvd)
  obtain b where b: "unat u = 4096 * b" using assms(2) by (auto simp: table_aligned_def mod_eq_0_iff_dvd)
  note ab = a b
  have "(4096 * a + 8 * i) div 4096 = a" "(4096 * b + 8 * j) div 4096 = b" using assms(3,4) by simp_all
  then have "a = b" using e unfolding ab by metis
  then have "unat t = unat u" using ab by simp
  then show "t = u" "i = j" using e by (simp_all add: word_unat_eq_iff)
qed

section \<open>Trees of tables\<close>

definition is_present :: "u64 \<Rightarrow> bool" where
  "is_present e \<longleftrightarrow> GetPageFlag e PRESENT"

definition child_of :: "u64 \<Rightarrow> u64" where
  "child_of e = ToHighMem (e AND TAB_ADDR_MASK)"

definition entry_at :: "page_map \<Rightarrow> u64 \<Rightarrow> nat \<Rightarrow> u64" where
  "entry_at s t i = words s (slot_of t i)"

definition tree_ok :: "page_map \<Rightarrow> (u64 \<Rightarrow> nat option) \<Rightarrow> bool" where
  "tree_ok s level_of \<longleftrightarrow>
     level_of (root s) = Some 3 \<and>
     (\<forall>t l. level_of t = Some l \<longrightarrow> l \<le> 3 \<and> table_aligned t \<and> t \<noteq> 0) \<and>
     (\<forall>t l i. level_of t = Some (Suc l) \<longrightarrow> i < 512 \<longrightarrow> is_present (entry_at s t i) \<longrightarrow>
        level_of (child_of (entry_at s t i)) = Some l) \<and>
     (\<forall>t l i u k j. level_of t = Some (Suc l) \<longrightarrow> level_of u = Some (Suc k) \<longrightarrow> i < 512 \<longrightarrow> j < 512 \<longrightarrow>
        is_present (entry_at s t i) \<longrightarrow> is_present (entry_at s u j) \<longrightarrow>
        child_of (entry_at s t i) = child_of (entry_at s u j) \<longrightarrow> t = u \<and> i = j)"

text \<open>The frames the allocator will return: distinct, unused, aligned and empty.\<close>

definition frame_ok :: "page_map \<Rightarrow> (u64 \<Rightarrow> nat option) \<Rightarrow> u64 \<Rightarrow> bool" where
  "frame_ok s level_of f \<longleftrightarrow>
     f \<noteq> 0 \<and> ToHighMem f \<noteq> 0 \<and> f AND 0xFFF = 0 \<and> table_aligned (ToHighMem f) \<and> level_of (ToHighMem f) = None \<and>
     (\<forall>i<512. entry_at s (ToHighMem f) i = 0)"

definition frames_ok :: "page_map \<Rightarrow> (u64 \<Rightarrow> nat option) \<Rightarrow> bool" where
  "frames_ok s level_of \<longleftrightarrow> distinct (frames s) \<and> (\<forall>f\<in>set (frames s). frame_ok s level_of f)"

lemma GetPageTable_eq:
  "GetPageTable t i s = (if is_present (entry_at s t i) then child_of (entry_at s t i) else 0)"
  by (simp add: GetPageTable_def is_present_def child_of_def entry_at_def Let_def)

lemma tree_child:
  assumes "tree_ok s L" "L t = Some (Suc l)" "i < 512" "is_present (entry_at s t i)"
  shows "L (child_of (entry_at s t i)) = Some l" "child_of (entry_at s t i) \<noteq> 0"
proof -
  show c: "L (child_of (entry_at s t i)) = Some l" using assms unfolding tree_ok_def by blast
  show "child_of (entry_at s t i) \<noteq> 0" using assms(1) c unfolding tree_ok_def by blast
qed

lemma tree_table:
  assumes "tree_ok s L" "L t = Some l"
  shows "table_aligned t" "t \<noteq> 0" "l \<le> 3"
  using assms unfolding tree_ok_def by blast+

text \<open>A write to an entry of one table in use is seen at that entry only.\<close>

lemma entry_at_store:
  assumes "tree_ok s L" "L t = Some l" "L u = Some k" "i < 512" "j < 512"
  shows "entry_at (store_word (slot_of t i) w s) u j = (if u = t \<and> j = i then w else entry_at s u j)"
  using slot_of_inj[of t u i j] tree_table[OF assms(1)] assms(2-5)
  by (auto simp: entry_at_def store_word_def)

lemma entry_at_frames [simp]: "entry_at (s\<lparr>frames := fs\<rparr>) t i = entry_at s t i"
  by (simp add: entry_at_def)

lemma store_word_simps [simp]:
  "root (store_word a w s) = root s" "frames (store_word a w s) = frames s" "freed (store_word a w s) = freed s"
  "flushed (store_word a w s) = flushed s"
  by (simp_all add: store_word_def)

section \<open>Creating a table\<close>

lemma mask_numerals: "(0xFFF :: u64) = mask 12" "(0x1FF :: u64) = mask 9" "(0x1FF :: u16) = mask 9" "(1 :: u16) = mask 1" "(1 :: u64) = mask 1"
  by (simp_all add: mask_eq_exp_minus_1)

lemma new_entry:
  assumes "f AND 0xFFF = 0" "flags AND 1 = 1" "flags AND NOT 0x1FF = 0"
  shows "is_present (f OR ucast (flags :: u16))" "child_of (f OR ucast flags) = ToHighMem f"
proof -
  have f: "\<not> bit f k" if "k < 12" for k
    using arg_cong[OF assms(1), of "\<lambda>w. bit w k"] that by (simp add: mask_numerals bit_simps)
  have fl: "\<not> bit flags k" if "9 \<le> k" for k
    using arg_cong[OF assms(3), of "\<lambda>w. bit w k"] that
    by (cases "k < 16") (auto simp: mask_numerals bit_simps dest: bit_imp_le_length)
  have fl0: "bit flags 0" using arg_cong[OF assms(2), of "\<lambda>w. bit w 0"] by (simp add: bit_simps)
  have "(f OR ucast flags) AND 1 = (1 :: u64)"
    using fl0 f[of 0] by (intro bit_word_eqI) (auto simp: mask_numerals(5) bit_simps simp del: mask_Suc_0)
  then show "is_present (f OR ucast flags)" by (simp add: is_present_def GetPageFlag_def PRESENT_def)
  have "(f OR ucast flags) AND NOT 0x1FF = (f :: u64)"
  proof (rule bit_word_eqI)
    fix k assume "k < LENGTH(64)"
    then show "bit ((f OR ucast flags) AND NOT 0x1FF) k = bit f k"
      using f[of k] fl[of k] by (cases "k < 9") (auto simp: mask_numerals bit_simps)
  qed
  then show "child_of (f OR ucast flags) = ToHighMem f" by (simp add: child_of_def TAB_ADDR_MASK_def)
qed

definition good_flags :: "u16 \<Rightarrow> bool" where
  "good_flags flags \<longleftrightarrow> flags AND 1 = 1 \<and> flags AND NOT 0x1FF = 0"

text \<open>What a look-up sees: the walk from a table of level \<open>n\<close>.\<close>

lemma VAddrToPAddr_loop_tree:
  "VAddrToPAddr_loop (Suc n) v t s =
     (let e = entry_at s t (VAddrIndex v (n + 2))
      in if is_present e \<and> child_of e \<noteq> 0 then VAddrToPAddr_loop n v (child_of e) s else 0)"
  by (simp add: GetPageTable_eq Let_def)

lemma walk_empty:
  assumes "\<forall>i<512. entry_at s t i = 0"
  shows "VAddrToPAddr_loop n v t s = 0"
proof (cases n)
  case 0
  then show ?thesis using assms VAddrIndex_less[of v 1] by (simp add: entry_at_def)
next
  case (Suc m)
  then show ?thesis
    using assms VAddrIndex_less[of v "m + 2"]
    by (simp add: VAddrToPAddr_loop_tree is_present_def GetPageFlag_def del: VAddrToPAddr_loop.simps)
qed

text \<open>Creating one missing table keeps the tree and every translation.\<close>

lemma create_step:
  assumes tree: "tree_ok s L" and t: "L t = Some (Suc l)" and i: "i < 512"
    and missing: "\<not> is_present (entry_at s t i)" and fr: "frames s = f # fs" and ok: "frames_ok s L"
    and fl: "good_flags flags"
    and s'_def: "s' = store_word (slot_of t i) (f OR ucast flags) (s\<lparr>frames := fs\<rparr>)"
    and L'_def: "L' = L(ToHighMem f \<mapsto> l)"
  shows "tree_ok s' L'" "frames_ok s' L'" "\<And>v n u. L u = Some n \<Longrightarrow> VAddrToPAddr_loop n v u s' = VAddrToPAddr_loop n v u s"
    "GetOrCreatePageTable t i flags s = (ToHighMem f, s')" "frames s' = fs" "root s' = root s"
    "\<And>u k j. L u = Some k \<Longrightarrow> j < 512 \<Longrightarrow> entry_at s' u j = (if u = t \<and> j = i then f OR ucast flags else entry_at s u j)"
proof -
  have fok: "frame_ok s L f" using ok fr by (simp add: frames_ok_def)
  let ?e = "f OR ucast flags :: u64"
  have pe: "is_present ?e" "child_of ?e = ToHighMem f"
    using new_entry[of f flags] fok fl by (simp_all add: frame_ok_def good_flags_def)
  show ent: "entry_at s' u j = (if u = t \<and> j = i then ?e else entry_at s u j)"
    if "L u = Some k" "j < 512" for u k j
    using entry_at_store[of "s\<lparr>frames := fs\<rparr>" L t "Suc l" u k i j ?e] tree t that i
    by (simp add: s'_def tree_ok_def)
  show "frames s' = fs" "root s' = root s" by (simp_all add: s'_def)
  show "GetOrCreatePageTable t i flags s = (ToHighMem f, s')"
    using missing fr fok
    by (simp add: GetOrCreatePageTable_def is_present_def entry_at_def Alloc_frame_def s'_def Let_def frame_ok_def)
  have newL: "L (ToHighMem f) = None" using fok by (simp add: frame_ok_def)
  have zero: "entry_at s' g j = entry_at s g j" if "g \<in> ToHighMem ` set (frames s)" "j < 512" for g j
  proof -
    have g: "table_aligned g" "L g = None" using ok that(1) by (auto simp: frames_ok_def frame_ok_def)
    have "g \<noteq> t" using g(2) t by auto
    then have "slot_of g j \<noteq> slot_of t i"
      using slot_of_inj[OF g(1) tree_table(1)[OF tree t] that(2) i] by blast
    then show ?thesis by (simp add: s'_def entry_at_def store_word_def)
  qed
  have f0: "\<forall>j<512. entry_at s' (ToHighMem f) j = 0"
    using zero[of "ToHighMem f"] fok fr by (simp add: frame_ok_def)
  have np: "\<not> is_present 0" by (simp add: is_present_def GetPageFlag_def)
  have walk: "VAddrToPAddr_loop n v u s' = VAddrToPAddr_loop n v u s" if "L u = Some n" for v n u
    using that
  proof (induction n arbitrary: u)
    case 0
    have "u \<noteq> t" using 0 t by auto
    then show ?case using ent[OF 0 VAddrIndex_less] by (simp add: entry_at_def)
  next
    case (Suc n)
    let ?i = "VAddrIndex v (n + 2)"
    show ?case
    proof (cases "u = t \<and> ?i = i")
      case True
      then have "VAddrToPAddr_loop (Suc n) v u s = 0"
        using missing by (simp add: VAddrToPAddr_loop_tree del: VAddrToPAddr_loop.simps)
      moreover have "VAddrToPAddr_loop (Suc n) v u s' = 0"
        using True ent[OF Suc.prems VAddrIndex_less, of v "n + 2"] pe walk_empty[OF f0]
        by (simp add: VAddrToPAddr_loop_tree Let_def del: VAddrToPAddr_loop.simps)
      ultimately show ?thesis by simp
    next
      case False
      have e: "entry_at s' u ?i = entry_at s u ?i"
        by (rule trans[OF ent[OF Suc.prems VAddrIndex_less] if_not_P[OF False]])
      show ?thesis
        using Suc.IH[of "child_of (entry_at s u ?i)"] tree_child(1)[OF tree Suc.prems VAddrIndex_less, of v "n + 2"]
        using e by (simp add: VAddrToPAddr_loop_tree Let_def del: VAddrToPAddr_loop.simps)
    qed
  qed
  then show "VAddrToPAddr_loop n v u s' = VAddrToPAddr_loop n v u s" if "L u = Some n" for v n u using that .
  have tne: "ToHighMem f \<noteq> t" using newL t by auto
  show "tree_ok s' L'"
    unfolding tree_ok_def
  proof (intro conjI allI impI)
    show "L' (root s') = Some 3"
      using tree newL by (auto simp: tree_ok_def L'_def s'_def)
    fix u k assume u: "L' u = Some k"
    show "k \<le> 3" "table_aligned u" "u \<noteq> 0"
      using u tree_table[OF tree, of u k] tree_table(3)[OF tree t] fok
      by (auto simp: L'_def frame_ok_def split: if_splits)
  next
    fix u k j assume u: "L' u = Some (Suc k)" "j < 512" "is_present (entry_at s' u j)"
    have une: "u \<noteq> ToHighMem f" using u(2,3) f0 np by auto
    then have Lu: "L u = Some (Suc k)" using u(1) by (simp add: L'_def)
    show "L' (child_of (entry_at s' u j)) = Some k"
    proof (cases "u = t \<and> j = i")
      case True
      then show ?thesis using ent[OF Lu u(2)] pe(2) Lu t by (simp add: L'_def)
    next
      case False
      have "entry_at s' u j = entry_at s u j"
        by (rule trans[OF ent[OF Lu u(2)] if_not_P[OF False]])
      moreover from this have "L (child_of (entry_at s u j)) = Some k"
        using tree_child(1)[OF tree Lu u(2)] u(3) by simp
      ultimately show ?thesis using newL by (auto simp: L'_def)
    qed
  next
    fix u k j w m r assume u: "L' u = Some (Suc k)" "L' w = Some (Suc m)" "j < 512" "r < 512"
      "is_present (entry_at s' u j)" "is_present (entry_at s' w r)"
      "child_of (entry_at s' u j) = child_of (entry_at s' w r)"
    have Lu: "L u = Some (Suc k)" "L w = Some (Suc m)"
      using u f0 np by (auto simp: L'_def split: if_splits)
    have old: "L (child_of (entry_at s x y)) \<noteq> None" if "L x = Some (Suc z)" "y < 512" "is_present (entry_at s x y)" for x y z
      using tree_child(1)[OF tree that] by simp
    have "u = w \<and> j = r"
    proof (cases "(u = t \<and> j = i) \<or> (w = t \<and> r = i)")
      case True
      have one: False
        if x: "x = t \<and> j' = i" "\<not> (y = t \<and> r' = i)" "L x = Some (Suc k')" "L y = Some (Suc m')" "j' < 512" "r' < 512"
          "is_present (entry_at s' y r')" "child_of (entry_at s' x j') = child_of (entry_at s' y r')" for x y j' r' k' m'
      proof -
        have y: "entry_at s' y r' = entry_at s y r'" by (rule trans[OF ent[OF x(4,6)] if_not_P[OF x(2)]])
        have "entry_at s' x j' = ?e" by (rule trans[OF ent[OF x(3,5)] if_P[OF x(1)]])
        then have "child_of (entry_at s y r') = ToHighMem f" using x(8) y pe(2) by simp
        then show False using old[OF x(4,6)] x(7) y newL by simp
      qed
      show ?thesis
      proof (rule ccontr)
        assume "\<not> ?thesis"
        then have "(u = t \<and> j = i) \<and> \<not> (w = t \<and> r = i) \<or> (w = t \<and> r = i) \<and> \<not> (u = t \<and> j = i)"
          using True by blast
        then show False
          using one[of u j w r, OF _ _ Lu u(3,4,6,7)] one[of w r u j, OF _ _ Lu(2,1) u(4,3,5) u(7)[symmetric]]
          by blast
      qed
    next
      case False
      then have "entry_at s' u j = entry_at s u j" "entry_at s' w r = entry_at s w r"
        using ent[OF Lu(1) u(3)] ent[OF Lu(2) u(4)] by auto
      then show ?thesis using tree Lu u(3-7) unfolding tree_ok_def by metis
    qed
    then show "u = w" "j = r" by blast+
  qed
  show "frames_ok s' L'"
    unfolding frames_ok_def
  proof (intro conjI ballI)
    show "distinct (frames s')" using ok fr by (simp add: frames_ok_def s'_def)
    fix g assume "g \<in> set (frames s')"
    then have g: "g \<in> set (frames s)" "g \<noteq> f" using ok fr by (auto simp: frames_ok_def s'_def)
    then have "ToHighMem g \<noteq> ToHighMem f" by (simp add: ToHighMem_def)
    then show "frame_ok s' L' g"
      using g(1) ok zero[of "ToHighMem g"] by (simp add: frames_ok_def frame_ok_def L'_def)
  qed
qed

section \<open>Walks\<close>

text \<open>Going down the tree; on a tree a table of the last level is reached in one way only.\<close>

lemma GetPage_loop_level:
  assumes "tree_ok s L"
  shows "L t = Some n \<Longrightarrow> GetPage_loop n v t s \<noteq> 0 \<Longrightarrow> L (GetPage_loop n v t s) = Some 0"
proof (induction n arbitrary: t)
  case (Suc n)
  let ?e = "entry_at s t (VAddrIndex v (n + 2))"
  have p: "is_present ?e" using Suc.prems(2) by (auto simp: GetPageTable_eq split: if_splits)
  note c = tree_child[OF assms Suc.prems(1) VAddrIndex_less p]
  then show ?case using Suc.IH[OF c(1)] Suc.prems(2) p by (simp add: GetPageTable_eq)
qed simp

lemma GetPage_loop_unique:
  assumes "tree_ok s L"
  shows "L t = Some n \<Longrightarrow> L u = Some n \<Longrightarrow> GetPage_loop n v t s = c \<Longrightarrow> GetPage_loop n w u s = c \<Longrightarrow> c \<noteq> 0 \<Longrightarrow>
    t = u \<and> (\<forall>m<n. VAddrIndex v (m + 2) = VAddrIndex w (m + 2))"
proof (induction n arbitrary: t u)
  case (Suc n)
  let ?e = "entry_at s t (VAddrIndex v (n + 2))" and ?d = "entry_at s u (VAddrIndex w (n + 2))"
  have p: "is_present ?e" "is_present ?d"
    using Suc.prems(3-5) by (auto simp: GetPageTable_eq split: if_splits)
  note ce = tree_child[OF assms Suc.prems(1) VAddrIndex_less p(1)]
  note cd = tree_child[OF assms Suc.prems(2) VAddrIndex_less p(2)]
  have "child_of ?e = child_of ?d \<and> (\<forall>m<n. VAddrIndex v (m + 2) = VAddrIndex w (m + 2))"
    using Suc.IH[OF ce(1) cd(1)] Suc.prems(3-5) p ce(2) cd(2) by (simp add: GetPageTable_eq)
  moreover have "t = u \<and> VAddrIndex v (n + 2) = VAddrIndex w (n + 2)"
    using assms Suc.prems(1,2) VAddrIndex_less p calculation unfolding tree_ok_def by blast
  ultimately show ?case by (auto simp: less_Suc_eq)
qed simp

lemma VAddrToPAddr_loop_GetPage:
  "t \<noteq> 0 \<Longrightarrow> VAddrToPAddr_loop n v t s =
    (if GetPage_loop n v t s = 0 then 0
     else entry_at s (GetPage_loop n v t s) (VAddrIndex v 1) AND TAB_ADDR_MASK)"
  by (induction n arbitrary: t) (simp_all add: entry_at_def Let_def)

text \<open>A write to an entry of a table of the last level.\<close>

lemma pte_write:
  assumes tree: "tree_ok s L" and c: "L c = Some 0" and i: "i < 512"
    and s'_def: "s' = store_word (slot_of c i) x s"
  shows "tree_ok s' L" "L t = Some n \<Longrightarrow> GetPage_loop n v t s' = GetPage_loop n v t s"
    "frames_ok s L \<Longrightarrow> frames_ok s' L" "entry_at s' c i = x"
    "L u = Some k \<Longrightarrow> j < 512 \<Longrightarrow> (u, j) \<noteq> (c, i) \<Longrightarrow> entry_at s' u j = entry_at s u j" "root s' = root s"
proof -
  have ent: "entry_at s' u j = (if u = c \<and> j = i then x else entry_at s u j)" if "L u = Some k" "j < 512" for u k j
    using entry_at_store[OF tree c that(1) i that(2)] by (simp add: s'_def)
  then show "L u = Some k \<Longrightarrow> j < 512 \<Longrightarrow> (u, j) \<noteq> (c, i) \<Longrightarrow> entry_at s' u j = entry_at s u j" by auto
  show "entry_at s' c i = x" using ent[OF c i] by simp
  show root: "root s' = root s" by (simp add: s'_def)
  have up: "entry_at s' u j = entry_at s u j" if "L u = Some (Suc k)" "j < 512" for u k j
    using ent[OF that] c that(1) by auto
  show "tree_ok s' L"
    unfolding tree_ok_def root
  proof (intro conjI allI impI)
    show "L (root s) = Some 3" using tree by (simp add: tree_ok_def)
    show "k \<le> 3" "table_aligned u" "u \<noteq> 0" if "L u = Some k" for u k using tree_table[OF tree that] by simp_all
    show "L (child_of (entry_at s' u j)) = Some k"
      if u: "L u = Some (Suc k)" "j < 512" "is_present (entry_at s' u j)" for u k and j :: nat
      using tree_child(1)[OF tree u(1,2)] u(3) unfolding up[OF u(1,2)] .
    have "u = w \<and> j = r"
      if u: "L u = Some (Suc k)" "L w = Some (Suc m)" "j < 512" "r < 512" "is_present (entry_at s' u j)"
        "is_present (entry_at s' w r)" "child_of (entry_at s' u j) = child_of (entry_at s' w r)" for u k j w m r
      using u(5-7) tree u(1-4) unfolding up[OF u(1,3)] up[OF u(2,4)] tree_ok_def by blast
    then show "u = w" "j = r"
      if "L u = Some (Suc k)" "L w = Some (Suc m)" "j < 512" "r < 512" "is_present (entry_at s' u j)"
        "is_present (entry_at s' w r)" "child_of (entry_at s' u j) = child_of (entry_at s' w r)" for u k j w m r
      using that by blast+
  qed
  show "GetPage_loop n v t s' = GetPage_loop n v t s" if "L t = Some n"
    using that
  proof (induction n arbitrary: t)
    case (Suc n)
    let ?e = "entry_at s t (VAddrIndex v (n + 2))"
    have e: "entry_at s' t (VAddrIndex v (n + 2)) = ?e" using up[OF Suc.prems VAddrIndex_less] .
    show ?case
      using Suc.IH[of "child_of ?e"] tree_child(1)[OF tree Suc.prems VAddrIndex_less, of v "n + 2"] e
      by (simp add: GetPageTable_eq Let_def)
  qed simp
  show "frames_ok s' L" if "frames_ok s L"
  proof -
    have "entry_at s' (ToHighMem f) j = entry_at s (ToHighMem f) j" if f: "frame_ok s L f" "j < 512" for f j
    proof -
      have "ToHighMem f \<noteq> c" using f(1) c by (auto simp: frame_ok_def)
      then have "slot_of (ToHighMem f) j \<noteq> slot_of c i"
        using slot_of_inj[of "ToHighMem f" c j i] f tree_table(1)[OF tree c] i by (auto simp: frame_ok_def)
      then show ?thesis by (simp add: s'_def entry_at_def store_word_def)
    qed
    then show ?thesis using that by (auto simp: frames_ok_def frame_ok_def s'_def)
  qed
qed

lemma CreatePage_loop_tree:
  assumes "tree_ok s L" "frames_ok s L" "L t = Some n" "good_flags flags"
    and "CreatePage_loop n v flags t s = (c, s')" "c \<noteq> 0"
  shows "\<exists>L'. tree_ok s' L' \<and> frames_ok s' L' \<and> (\<forall>u k. L u = Some k \<longrightarrow> L' u = Some k) \<and>
    GetPage_loop n v t s' = c \<and> root s' = root s \<and>
    (\<forall>u k w. L u = Some k \<longrightarrow> VAddrToPAddr_loop k w u s' = VAddrToPAddr_loop k w u s) \<and>
    (\<forall>u k j. L u = Some k \<longrightarrow> j < 512 \<longrightarrow> is_present (entry_at s u j) \<longrightarrow> entry_at s' u j = entry_at s u j)"
  using assms
proof (induction n arbitrary: t s L)
  case 0
  then show ?case by auto
next
  case (Suc n)
  let ?i = "VAddrIndex v (n + 2)"
  let ?e = "entry_at s t ?i"
  have i: "?i < 512" by (rule VAddrIndex_less)
  show ?case
  proof (cases "is_present ?e")
    case True
    note ch = tree_child[OF Suc.prems(1,3) i True]
    have "GetOrCreatePageTable t ?i flags s = (child_of ?e, s)"
      using True by (simp add: GetOrCreatePageTable_def is_present_def entry_at_def child_of_def)
    then have "CreatePage_loop n v flags (child_of ?e) s = (c, s')" using Suc.prems(5) ch(2) by simp
    from Suc.IH[OF Suc.prems(1,2) ch(1) Suc.prems(4) this Suc.prems(6)]
    obtain L' where L': "tree_ok s' L'" "frames_ok s' L'" "\<forall>u k. L u = Some k \<longrightarrow> L' u = Some k"
      "GetPage_loop n v (child_of ?e) s' = c" "root s' = root s"
      "\<forall>u k w. L u = Some k \<longrightarrow> VAddrToPAddr_loop k w u s' = VAddrToPAddr_loop k w u s"
      "\<forall>u k j. L u = Some k \<longrightarrow> j < 512 \<longrightarrow> is_present (entry_at s u j) \<longrightarrow> entry_at s' u j = entry_at s u j"
      by blast
    have "entry_at s' t ?i = ?e" using L'(7) Suc.prems(3) i True by blast
    then have "GetPage_loop (Suc n) v t s' = c" using L'(4) True ch(2) by (simp add: GetPageTable_eq)
    then show ?thesis using L' by blast
  next
    case False
    obtain f fs where fr: "frames s = f # fs"
    proof (cases "frames s")
      case Nil
      then have "GetOrCreatePageTable t ?i flags s = (0, s)"
        using False by (simp add: GetOrCreatePageTable_def is_present_def entry_at_def Alloc_frame_def)
      then show ?thesis using Suc.prems(5,6) by simp
    qed
    define s1 where "s1 = store_word (slot_of t ?i) (f OR ucast flags) (s\<lparr>frames := fs\<rparr>)"
    define L1 where "L1 = L(ToHighMem f \<mapsto> n)"
    note st = create_step[OF Suc.prems(1,3) i False fr Suc.prems(2,4) s1_def L1_def]
    have fok: "frame_ok s L f" using Suc.prems(2) fr by (simp add: frames_ok_def)
    have pe: "is_present (f OR ucast flags)" "child_of (f OR ucast flags) = ToHighMem f"
      using new_entry[of f flags] fok Suc.prems(4) by (simp_all add: frame_ok_def good_flags_def)
    have sub: "L1 u = Some k" if "L u = Some k" for u k using that fok by (auto simp: L1_def frame_ok_def)
    have f0: "ToHighMem f \<noteq> 0" using fok by (simp add: frame_ok_def)
    have "CreatePage_loop n v flags (ToHighMem f) s1 = (c, s')" using Suc.prems(5) st(4) f0 by simp
    moreover have "L1 (ToHighMem f) = Some n" by (simp add: L1_def)
    ultimately obtain L' where L': "tree_ok s' L'" "frames_ok s' L'" "\<forall>u k. L1 u = Some k \<longrightarrow> L' u = Some k"
      "GetPage_loop n v (ToHighMem f) s' = c" "root s' = root s1"
      "\<forall>u k w. L1 u = Some k \<longrightarrow> VAddrToPAddr_loop k w u s' = VAddrToPAddr_loop k w u s1"
      "\<forall>u k j. L1 u = Some k \<longrightarrow> j < 512 \<longrightarrow> is_present (entry_at s1 u j) \<longrightarrow> entry_at s' u j = entry_at s1 u j"
      using Suc.IH[OF st(1,2) _ Suc.prems(4) _ Suc.prems(6)] by blast
    have e1: "entry_at s1 t ?i = f OR ucast flags" using st(7)[OF Suc.prems(3) i] by simp
    then have "entry_at s' t ?i = f OR ucast flags"
      using L'(7) sub[OF Suc.prems(3)] i pe(1) by metis
    then have "GetPage_loop (Suc n) v t s' = c" using L'(4) pe f0 by (simp add: GetPageTable_eq)
    moreover have "entry_at s' u j = entry_at s u j"
      if "L u = Some k" "j < 512" "is_present (entry_at s u j)" for u k j
    proof -
      have "entry_at s1 u j = entry_at s u j" using st(7)[OF that(1,2)] that(3) False by auto
      then show ?thesis using L'(7) sub[OF that(1)] that(2,3) by metis
    qed
    moreover have "VAddrToPAddr_loop k w u s' = VAddrToPAddr_loop k w u s" if "L u = Some k" for u k w
      using L'(6) sub[OF that] st(3)[OF that] by simp
    moreover have "root s' = root s" using L'(5) st(6) by simp
    ultimately show ?thesis using L'(1,2,3) sub by (intro exI[of _ L'] conjI) blast+
  qed
qed

text \<open>Two addresses are translated by the same entry when their four indices agree.\<close>

definition same_page :: "u64 \<Rightarrow> u64 \<Rightarrow> bool" where
  "same_page v w \<longleftrightarrow> (\<forall>l\<in>{1, 2, 3, 4}. VAddrIndex v l = VAddrIndex w l)"

lemma pte_write_walks:
  assumes tree: "tree_ok s L" and c: "GetPage_loop 3 v (root s) s = c" "c \<noteq> 0"
    and s'_def: "s' = store_word (slot_of c (VAddrIndex v 1)) x s"
  shows "VAddrToPAddr v s' = x AND TAB_ADDR_MASK"
    "\<not> same_page v w \<Longrightarrow> VAddrToPAddr w s' = VAddrToPAddr w s"
    "tree_ok s' L" "frames_ok s L \<Longrightarrow> frames_ok s' L"
proof -
  have r: "L (root s) = Some 3" using tree by (simp add: tree_ok_def)
  have r0: "root s \<noteq> 0" using tree_table(2)[OF tree r] .
  have Lc: "L c = Some 0" using GetPage_loop_level[OF tree r, of v] c by simp
  note pw = pte_write[OF tree Lc VAddrIndex_less s'_def]
  show "tree_ok s' L" "frames_ok s L \<Longrightarrow> frames_ok s' L" using pw(1,3) .
  show "VAddrToPAddr v s' = x AND TAB_ADDR_MASK"
    using VAddrToPAddr_loop_GetPage[OF r0] pw(2)[OF r] pw(4,6) c by (simp add: VAddrToPAddr_def)
  assume w: "\<not> same_page v w"
  let ?d = "GetPage_loop 3 w (root s) s"
  show "VAddrToPAddr w s' = VAddrToPAddr w s"
  proof (cases "?d = 0")
    case True
    then show ?thesis using VAddrToPAddr_loop_GetPage[OF r0] pw(2)[OF r] pw(6) by (simp add: VAddrToPAddr_def)
  next
    case False
    have Ld: "L ?d = Some 0" using GetPage_loop_level[OF tree r False] .
    have "(?d, VAddrIndex w 1) \<noteq> (c, VAddrIndex v 1)"
    proof
      assume eq: "(?d, VAddrIndex w 1) = (c, VAddrIndex v 1)"
      then have "\<forall>m<3. VAddrIndex v (m + 2) = VAddrIndex w (m + 2)"
        using GetPage_loop_unique[OF tree r r c(1) _ c(2), of w] by simp
      from this[rule_format, of 0] this[rule_format, of 1] this[rule_format, of 2] eq
      show False using w by (simp add: same_page_def numeral_eq_Suc)
    qed
    then have "entry_at s' ?d (VAddrIndex w 1) = entry_at s ?d (VAddrIndex w 1)"
      using pw(5)[OF Ld VAddrIndex_less] by simp
    then show ?thesis
      using VAddrToPAddr_loop_GetPage[OF r0] pw(2)[OF r] pw(6) by (simp add: VAddrToPAddr_def)
  qed
qed

section \<open>Map and Unmap\<close>

text \<open>
  C17: On a tree of page tables, with zeroed frames for new tables, flags that have the present bit and no bit above the
  low nine, and a page-aligned physical address, a successful \<open>Map\<close> makes the address translate to the given frame, leaves the translation of every address of another page
  alone, and keeps the tree.
\<close>
theorem Map_translates:
  assumes "tree_ok s L" "frames_ok s L" "good_flags flags" "paddr AND 0xFFF = 0"
    and "Map paddr v flags s = (True, s')"
  shows "VAddrToPAddr v s' = paddr \<and>
    (\<forall>w. \<not> same_page v w \<longrightarrow> VAddrToPAddr w s' = VAddrToPAddr w s) \<and>
    (\<exists>L'. tree_ok s' L' \<and> frames_ok s' L')"
proof -
  obtain c s1 where c: "CreatePage_loop 3 v flags (root s) s = (c, s1)" "c \<noteq> 0"
    "s' = store_word (slot_of c (VAddrIndex v 1)) (paddr OR ucast flags) s1"
    using assms(5) by (auto simp: Map_def CreatePage_def split: prod.splits if_splits)
  have r: "L (root s) = Some 3" using assms(1) by (simp add: tree_ok_def)
  obtain L' where L': "tree_ok s1 L'" "frames_ok s1 L'" "GetPage_loop 3 v (root s) s1 = c" "root s1 = root s"
    "\<forall>u k w. L u = Some k \<longrightarrow> VAddrToPAddr_loop k w u s1 = VAddrToPAddr_loop k w u s"
    using CreatePage_loop_tree[OF assms(1,2) r assms(3) c(1,2)] by blast
  have same: "VAddrToPAddr w s1 = VAddrToPAddr w s" for w
    using L'(4,5) r by (simp add: VAddrToPAddr_def)
  have p: "(paddr OR ucast flags) AND TAB_ADDR_MASK = paddr"
    using new_entry(2)[of paddr flags] assms(3,4) by (simp add: child_of_def ToHighMem_def good_flags_def)
  have c': "GetPage_loop 3 v (root s1) s1 = c" using L'(3,4) by simp
  note w = pte_write_walks[OF L'(1) c' c(2,3)]
  show ?thesis using w(1,3) w(4)[OF L'(2)] w(2) same p by auto
qed

text \<open>
  C18: \<open>Unmap\<close> fails, and changes nothing, exactly when some table on the way to the address is
  missing; otherwise the address no longer translates and no other page is affected.
\<close>
theorem Unmap_translates:
  assumes "tree_ok s L" "Unmap v s = (ok, s')"
  shows "VAddrToPAddr v s' = 0 \<and> (\<not> ok \<longrightarrow> s' = s) \<and> tree_ok s' L \<and>
    (\<forall>w. \<not> same_page v w \<longrightarrow> VAddrToPAddr w s' = VAddrToPAddr w s)"
proof -
  have r: "L (root s) = Some 3" using assms(1) by (simp add: tree_ok_def)
  have r0: "root s \<noteq> 0" using tree_table(2)[OF assms(1) r] .
  let ?c = "GetPage_loop 3 v (root s) s"
  have flush: "VAddrToPAddr w (t\<lparr>flushed := x\<rparr>) = VAddrToPAddr w t" "tree_ok (t\<lparr>flushed := x\<rparr>) L = tree_ok t L" for w t x
  proof -
    have "VAddrToPAddr_loop n w u (t\<lparr>flushed := x\<rparr>) = VAddrToPAddr_loop n w u t" for n u
      by (induction n arbitrary: u) (simp_all add: GetPageTable_eq entry_at_def Let_def)
    then show "VAddrToPAddr w (t\<lparr>flushed := x\<rparr>) = VAddrToPAddr w t" by (simp add: VAddrToPAddr_def)
    show "tree_ok (t\<lparr>flushed := x\<rparr>) L = tree_ok t L" by (simp add: tree_ok_def entry_at_def)
  qed
  show ?thesis
  proof (cases "GetPage (root s) v s = 0")
    case True
    have "?c = 0 \<or> slot_of ?c (VAddrIndex v 1) = 0" using True by (auto simp: GetPage_def Let_def split: if_splits)
    moreover have "slot_of ?c (VAddrIndex v 1) \<noteq> 0" if "?c \<noteq> 0"
    proof -
      have "L ?c = Some 0" using GetPage_loop_level[OF assms(1) r that] .
      then have "unat (slot_of ?c (VAddrIndex v 1)) = unat ?c + 8 * VAddrIndex v 1"
        using unat_slot tree_table(1)[OF assms(1)] VAddrIndex_less by blast
      moreover have "unat ?c \<noteq> 0" using that by (simp add: unat_eq_0)
      ultimately show ?thesis by auto
    qed
    ultimately have "?c = 0" by blast
    then show ?thesis
      using assms True VAddrToPAddr_loop_GetPage[OF r0, of 3 v s]
      by (auto simp: Unmap_def VAddrToPAddr_def)
  next
    case False
    then have c: "?c \<noteq> 0" by (auto simp: GetPage_def)
    define s1 where "s1 = store_word (slot_of ?c (VAddrIndex v 1)) 0 s"
    have s': "s' = s1\<lparr>flushed := v # flushed s\<rparr>" "ok"
      using assms(2) False c by (auto simp: Unmap_def GetPage_def s1_def Let_def)
    note w = pte_write_walks[OF assms(1) refl c s1_def]
    show ?thesis using w(1-3) s' flush by simp
  qed
qed

section \<open>Witnesses and runs\<close>

text \<open>An empty map with its root at \<open>0x1000\<close>, and three frames to allocate.\<close>

definition pst :: "(u64 \<Rightarrow> u64) \<Rightarrow> u64 list \<Rightarrow> page_map" where
  "pst m fs = \<lparr>root = ToHighMem 0x1000, words = m, frames = fs, freed = [], flushed = [], cr3 = 0\<rparr>"

definition empty_map :: "(u64 \<Rightarrow> u64) \<Rightarrow> page_map" where
  "empty_map m = pst m [0x2000, 0x3000, 0x4000]"

lemma pst_simps:
  "root (pst m fs) = 0xFFFF800000001000" "words (pst m fs) = m" "frames (pst m fs) = fs"
  "store_word a w (pst m fs) = pst (m(a := w)) fs" "(pst m fs)\<lparr>frames := fs'\<rparr> = pst m fs'"
  by (simp_all add: pst_def store_word_def ToHighMem_def DIRECT_MAP_def)

text \<open>One rewriting rule per outcome of a step, so that a run is evaluated a step at a time.\<close>

lemma create_eval:
  "slot_of t i = a \<Longrightarrow> words s a = e \<Longrightarrow> GetPageFlag e PRESENT \<Longrightarrow>
     GetOrCreatePageTable t i fl s = (ToHighMem (e AND TAB_ADDR_MASK), s)"
  "slot_of t i = a \<Longrightarrow> words s a = e \<Longrightarrow> \<not> GetPageFlag e PRESENT \<Longrightarrow> frames s = f # fs \<Longrightarrow> f \<noteq> 0 \<Longrightarrow>
     GetOrCreatePageTable t i fl s = (ToHighMem f, store_word a (f OR ucast fl) (s\<lparr>frames := fs\<rparr>))"
  by (simp_all add: GetOrCreatePageTable_def Alloc_frame_def Let_def)

lemma CreatePage_loop_eval:
  "0 < n \<Longrightarrow> VAddrIndex v (n + 1) = i \<Longrightarrow> GetOrCreatePageTable t i fl s = (c, s1) \<Longrightarrow> c \<noteq> 0 \<Longrightarrow>
     CreatePage_loop n v fl t s = CreatePage_loop (n - 1) v fl c s1"
  by (cases n) simp_all

lemma Map_eval:
  "CreatePage_loop 3 v fl (root s) s = (t, s1) \<Longrightarrow> t \<noteq> 0 \<Longrightarrow> slot_of t (VAddrIndex v 1) = a \<Longrightarrow> a \<noteq> 0 \<Longrightarrow>
     Map p v fl s = (True, store_word a (p OR ucast fl) s1)"
  by (simp add: Map_def CreatePage_def)

lemma walk_eval:
  "0 < n \<Longrightarrow> VAddrIndex v (n + 1) = i \<Longrightarrow> slot_of t i = a \<Longrightarrow> words s a = e \<Longrightarrow>
     VAddrToPAddr_loop n v t s =
       (if \<not> GetPageFlag e PRESENT then 0
        else let c = ToHighMem (e AND TAB_ADDR_MASK) in if c = 0 then 0 else VAddrToPAddr_loop (n - 1) v c s)"
  by (cases n) (simp_all add: GetPageTable_def Let_def)

declare CreatePage_loop.simps(2) [simp del] VAddrToPAddr_loop.simps(2) [simp del]

lemmas pm_eval = create_eval CreatePage_loop_eval Map_eval walk_eval pst_simps GetPageFlag_def
  slot_of_def VAddrIndex_def ToHighMem_def DIRECT_MAP_def PRESENT_def TAB_ADDR_MASK_def VAddrToPAddr_def
  empty_map_def KERNEL_PAGE_def

lemma empty_map_tree: "tree_ok (empty_map (\<lambda>_. 0)) [ToHighMem 0x1000 \<mapsto> 3]"
  by (auto simp: tree_ok_def empty_map_def pst_simps entry_at_def is_present_def GetPageFlag_def table_aligned_def
    ToHighMem_def DIRECT_MAP_def split: if_splits)

lemma empty_map_frames: "frames_ok (empty_map (\<lambda>_. 0)) [ToHighMem 0x1000 \<mapsto> 3]"
  by (simp add: frames_ok_def frame_ok_def empty_map_def pst_simps entry_at_def table_aligned_def
    ToHighMem_def DIRECT_MAP_def)

theorem Map_translates_witness:
  "\<exists>s'. Map 0x5000 0x7000 KERNEL_PAGE (empty_map (\<lambda>_. 0)) = (True, s') \<and> VAddrToPAddr 0x7000 s' = 0x5000"
proof -
  have g: "good_flags KERNEL_PAGE" by (simp add: good_flags_def KERNEL_PAGE_def)
  have "fst (Map 0x5000 0x7000 KERNEL_PAGE (empty_map (\<lambda>_. 0)))"
    by (simp add: pm_eval)
  then obtain s' where s': "Map 0x5000 0x7000 KERNEL_PAGE (empty_map (\<lambda>_. 0)) = (True, s')"
    by (metis prod.collapse)
  show ?thesis using Map_translates[OF empty_map_tree empty_map_frames g _ s'] s' by simp
qed

theorem Unmap_translates_witness:
  "VAddrToPAddr 0x7000 (snd (Unmap 0x7000 (empty_map (\<lambda>_. 0)))) = 0"
  using Unmap_translates[OF empty_map_tree, of "0x7000"] by (metis prod.collapse)

text \<open>
  A protected memory range whose only permission is to execute is mapped with all 16 flag bits
  set, because \<open>EXECUTABLE\<close> does not fit the flag word: address bits are lost and the page translates
  to another frame.
\<close>
theorem executable_range_wrong_frame:
  "pmr_flags 1 = 0xFFFF \<and>
   VAddrToPAddr 0x8000 (snd (Map 0x5000 0x8000 (pmr_flags 1)
     (snd (Map 0x4000 0x7000 KERNEL_PAGE (empty_map (\<lambda>_. 0)))))) = 0xFE00"
proof -
  have f: "pmr_flags 1 = 0xFFFF" by (simp add: pmr_flags_def PRESENT_def EXECUTABLE_def)
  show ?thesis unfolding f
    by (simp add: pm_eval)
qed

text \<open>
  A new table is not cleared: what the frame held before is taken for entries. Mapping one page
  makes an address that translated to nothing translate to the garbage.
\<close>
theorem new_table_garbage:
  "let s = empty_map ((\<lambda>_. 0)(ToHighMem 0x4000 + 8 * 9 := 0x66003))
   in VAddrToPAddr 0x9000 s = 0 \<and> VAddrToPAddr 0x9000 (snd (Map 0x5000 0x7000 KERNEL_PAGE s)) = 0x66000"
  by (simp add: pm_eval)

end
