(* ===== verification/Sata_Port.thy ===== *)
theory Sata_Port
  imports Prelude "HOL-Library.Monad_Syntax"
begin

text \<open>
  \<open>src/sys/sata_port.cpp\<close>, the part that drives the controller: the registers of a port, the command
  headers and tables in memory, and the partition table. The controller itself is the argument \<open>hw\<close>
  of the operations: each busy-wait loop hands it the state, and it returns the state in which the
  awaited condition holds, or nothing if it never does. The bytes of the device and of the buffers
  are the component \<open>world\<close>, which only \<open>hw\<close> reads and changes.

  \<open>to_paddr\<close> is \<open>KHeap::ToPAddr\<close>; \<open>Configure\<close> takes the addresses the page allocator returns.
\<close>

unbundle bit_operations_syntax

section \<open>Registers and tables\<close>

record hba_port =
  cmd_status :: u32
  task_file_data :: u32
  sata_error :: u32
  sata_active :: u32
  cmd_issue :: u32
  int_status :: u32
  cmd_list_base_lo :: u32
  cmd_list_base_hi :: u32
  fis_base_lo :: u32
  fis_base_hi :: u32

record hba_cmd =
  cmd_fis_len :: u8
  hdr_write :: bool
  no_prdt_entries :: u16
  cmd_tab_addr_lo :: u32
  cmd_tab_addr_hi :: u32

record prdt_entry =
  data_addr_lo :: u32
  data_addr_hi :: u32
  byte_count :: u32
  interrupt :: bool

record host_fis =
  fis_type :: u8
  port_multiplier :: u8
  cmd_ctrl :: bool
  command :: u8
  feature_lo :: u8
  feature_hi :: u8
  device :: u8
  lba0 :: u8
  lba1 :: u8
  lba2 :: u8
  lba3 :: u8
  lba4 :: u8
  lba5 :: u8
  count_lo :: u8
  count_hi :: u8

record cmd_table =
  cmd_fis :: host_fis
  prdt_entries :: "nat \<Rightarrow> prdt_entry"

text \<open>\<open>rx_status\<close> and \<open>rx_lba\<close> are \<open>received_fis_->reg_fis_\<close>; a table is found by its physical address.\<close>

record 'w sata =
  port :: hba_port
  capability :: u32
  cmd_header :: "nat \<Rightarrow> hba_cmd"
  tables :: "u64 \<Rightarrow> cmd_table"
  rx_status :: u8
  rx_lba :: "u8 list"
  dev_info :: "u16 list"
  num_slots :: nat
  slots_bitmap :: u32
  max_lba :: u64
  world :: 'w

definition SECTOR_SIZE :: nat where "SECTOR_SIZE = 512"
definition PRDT_SIZE :: nat where "PRDT_SIZE = 4 * 1024 * 1024"
definition SECTORS_PER_PRDT :: nat where "SECTORS_PER_PRDT = PRDT_SIZE div SECTOR_SIZE"
definition zero_fis :: host_fis where
  "zero_fis = \<lparr>fis_type = 0, port_multiplier = 0, cmd_ctrl = False, command = 0, feature_lo = 0,
     feature_hi = 0, device = 0, lba0 = 0, lba1 = 0, lba2 = 0, lba3 = 0, lba4 = 0, lba5 = 0,
     count_lo = 0, count_hi = 0\<rparr>"

text \<open>\<open>1 << n\<close> in a 32-bit \<open>int\<close>.\<close>

definition bit32 :: "nat \<Rightarrow> u32" where
  "bit32 n = push_bit (n mod 32) 1"

definition upd_port :: "(hba_port \<Rightarrow> hba_port) \<Rightarrow> 'w sata \<Rightarrow> 'w sata" where
  "upd_port f s = s\<lparr>port := f (port s)\<rparr>"

section \<open>Status\<close>

definition IsBusy :: "'w sata \<Rightarrow> bool" where
  "IsBusy s \<longleftrightarrow> task_file_data (port s) AND (0x80 OR 0x08) \<noteq> 0"

definition NumberSlots :: "'w sata \<Rightarrow> nat" where
  "NumberSlots s = unat (drop_bit 8 (capability s AND push_bit 8 0x1F))"

text \<open>\<open>NCQCapable\<close> returns false before it looks at the capability register.\<close>

definition NCQCapable :: "'w sata \<Rightarrow> bool" where
  "NCQCapable s = False"

definition OpInProgress :: "nat \<Rightarrow> bool \<Rightarrow> 'w sata \<Rightarrow> bool" where
  "OpInProgress slot ncq s \<longleftrightarrow>
     (if ncq then sata_active (port s) else cmd_issue (port s)) AND bit32 slot \<noteq> 0"

definition OpFailed :: "'w sata \<Rightarrow> bool" where
  "OpFailed s \<longleftrightarrow> rx_status s AND 1 \<noteq> 0 \<or> int_status (port s) AND bit32 30 \<noteq> 0 \<or> sata_error (port s) \<noteq> 0"

text \<open>\<open>__builtin_ffsl(x) - 1\<close>: the lowest bit that is set (255, the byte of -1, when there is none).\<close>

definition low_bit :: "u32 \<Rightarrow> nat" where
  "low_bit x = (case List.find (bit x) [0..<32] of Some i \<Rightarrow> i | None \<Rightarrow> 255)"

definition queue_depth :: "'w sata \<Rightarrow> nat" where
  "queue_depth s = unat (dev_info s ! 75 AND 0x1F)"

definition FirstFreeSlot :: "'w sata \<Rightarrow> nat" where
  "FirstFreeSlot s =
     (let valid_slots = cmd_issue (port s) AND (bit32 (queue_depth s) - 1)
      in low_bit (NOT valid_slots))"

definition IssueCommand :: "nat \<Rightarrow> bool \<Rightarrow> 'w sata \<Rightarrow> 'w sata" where
  "IssueCommand slot ncq s =
     (let s = upd_port (\<lambda>p. p\<lparr>cmd_issue := bit32 slot\<rparr>) s
      in if ncq then upd_port (\<lambda>p. p\<lparr>sata_active := sata_active p OR bit32 slot\<rparr>) s else s)"

definition SlotToCmdTab :: "nat \<Rightarrow> 'w sata \<Rightarrow> u64" where
  "SlotToCmdTab slot s =
     push_bit 32 (ucast (cmd_tab_addr_hi (cmd_header s slot))) OR ucast (cmd_tab_addr_lo (cmd_header s slot))"

section \<open>The controller\<close>

text \<open>The conditions the driver waits for.\<close>

datatype hw_wait =
    Until_not_busy
  | Until_not_running
  | Until_stopped
  | Until_done nat bool
  | Until_ranges_done u32
  | Until_slot

definition awaited :: "hw_wait \<Rightarrow> 'w sata \<Rightarrow> bool" where
  "awaited w s \<longleftrightarrow>
     (case w of
        Until_not_busy \<Rightarrow> \<not> IsBusy s
      | Until_not_running \<Rightarrow> cmd_status (port s) AND bit32 15 = 0
      | Until_stopped \<Rightarrow> cmd_status (port s) AND bit32 14 = 0 \<and> cmd_status (port s) AND bit32 15 = 0
      | Until_done slot ncq \<Rightarrow> \<not> OpInProgress slot ncq s \<or> OpFailed s
      | Until_ranges_done m \<Rightarrow> sata_active (port s) AND m = 0 \<or> OpFailed s
      | Until_slot \<Rightarrow> \<not> NumberSlots s < FirstFreeSlot s)"

type_synonym 'w controller = "hw_wait \<Rightarrow> 'w sata \<Rightarrow> 'w sata option"

definition ActivateCommands :: "'w controller \<Rightarrow> 'w sata \<Rightarrow> 'w sata option" where
  "ActivateCommands hw s =
     do { s \<leftarrow> hw Until_not_running s;
          let s = (if cmd_status (port s) AND bit32 4 = 0
                   then upd_port (\<lambda>p. p\<lparr>cmd_status := cmd_status p OR bit32 4\<rparr>) s else s);
          Some (if cmd_status (port s) AND 1 = 0
                then upd_port (\<lambda>p. p\<lparr>cmd_status := cmd_status p OR 1\<rparr>) s else s) }"

definition SuspendCommands :: "'w controller \<Rightarrow> 'w sata \<Rightarrow> 'w sata option" where
  "SuspendCommands hw s =
     (let s = (if cmd_status (port s) AND 1 \<noteq> 0
               then upd_port (\<lambda>p. p\<lparr>cmd_status := cmd_status p AND NOT 1\<rparr>) s else s);
          s = (if cmd_status (port s) AND bit32 4 \<noteq> 0
               then upd_port (\<lambda>p. p\<lparr>cmd_status := cmd_status p AND NOT (bit32 4)\<rparr>) s else s)
      in hw Until_stopped s)"

section \<open>Commands\<close>

text \<open>
  The loop of \<open>SetupReadWrite\<close> over the descriptors: \<open>i\<close> is the 16-bit index, \<open>rem\<close> the bytes that are left.
\<close>

definition prdt_for :: "(u64 \<Rightarrow> u64) \<Rightarrow> u64 \<Rightarrow> nat \<Rightarrow> nat \<Rightarrow> prdt_entry \<Rightarrow> prdt_entry" where
  "prdt_for to_paddr buff_paddr i bytes e =
     (let dma_base = to_paddr (buff_paddr + of_nat (i * PRDT_SIZE))
      in e\<lparr>data_addr_lo := ucast dma_base, data_addr_hi := ucast (drop_bit 32 dma_base),
          byte_count := of_nat (bytes - 1) AND 0x3FFFFF, interrupt := True\<rparr>)"

fun Setup_prdts ::
  "(u64 \<Rightarrow> u64) \<Rightarrow> u64 \<Rightarrow> nat \<Rightarrow> nat \<Rightarrow> nat \<Rightarrow> (nat \<Rightarrow> prdt_entry) \<Rightarrow> (nat \<Rightarrow> prdt_entry)" where
  "Setup_prdts to_paddr buff_paddr 0 i rem t = t"
| "Setup_prdts to_paddr buff_paddr (Suc n) i rem t =
     (if rem = 0 then t
      else let bytes = (if rem < PRDT_SIZE then rem else PRDT_SIZE)
           in Setup_prdts to_paddr buff_paddr n (i + 1) (rem - bytes)
                (t(i := prdt_for to_paddr buff_paddr i bytes (t i))))"

definition rw_fis :: "nat \<Rightarrow> u64 \<Rightarrow> nat \<Rightarrow> bool \<Rightarrow> u8 \<Rightarrow> bool \<Rightarrow> host_fis" where
  "rw_fis free_slot disk_addr num_sectors write priority use_ncq =
     \<lparr>fis_type = 0x27, port_multiplier = 0, cmd_ctrl = True,
      command = (if use_ncq then (if write then 0x61 else 0x60) else (if write then 0x35 else 0x25)),
      feature_lo = (if use_ncq then of_nat num_sectors else 0),
      feature_hi = (if use_ncq then of_nat (num_sectors div 2 ^ 8) else 0),
      device = 0x40,
      lba0 = ucast disk_addr, lba1 = ucast (drop_bit 8 disk_addr), lba2 = ucast (drop_bit 16 disk_addr),
      lba3 = ucast (drop_bit 24 disk_addr), lba4 = ucast (drop_bit 32 disk_addr), lba5 = ucast (drop_bit 40 disk_addr),
      count_lo = (if use_ncq then push_bit 3 (of_nat free_slot) else of_nat num_sectors),
      count_hi = (if use_ncq then push_bit 6 priority else of_nat (num_sectors div 2 ^ 8))\<rparr>"

text \<open>The number of descriptors, \<open>(num_sectors - 1) / SECTORS_PER_PRDT + 1\<close> in \<open>size_t\<close>, is cut to 16 bits.\<close>

definition prdt_count :: "nat \<Rightarrow> nat" where
  "prdt_count num_sectors =
     (((num_sectors + 2 ^ 64 - 1) mod 2 ^ 64) div SECTORS_PER_PRDT + 1) mod 2 ^ 16"

definition SetupReadWrite ::
  "(u64 \<Rightarrow> u64) \<Rightarrow> nat \<Rightarrow> u64 \<Rightarrow> nat \<Rightarrow> u64 \<Rightarrow> bool \<Rightarrow> u8 \<Rightarrow> bool \<Rightarrow> 'w sata \<Rightarrow> 'w sata" where
  "SetupReadWrite to_paddr free_slot disk_addr num_sectors buff write priority use_ncq s =
     (let header = (cmd_header s free_slot)\<lparr>cmd_fis_len := 5, hdr_write := write,
                      no_prdt_entries := of_nat (prdt_count num_sectors)\<rparr>;
          tab = SlotToCmdTab free_slot s;
          buff_paddr = to_paddr buff;
          prdts = Setup_prdts to_paddr buff_paddr (prdt_count num_sectors) 0 (num_sectors * SECTOR_SIZE)
                    (prdt_entries (tables s tab))
      in s\<lparr>cmd_header := (cmd_header s)(free_slot := header),
           tables := (tables s)(tab := \<lparr>cmd_fis = rw_fis free_slot disk_addr num_sectors write priority use_ncq,
                                       prdt_entries = prdts\<rparr>)\<rparr>)"

text \<open>\<open>do { free_slot = FirstFreeSlot(); } while(free_slot > NumberSlots());\<close>\<close>

definition Await_slot :: "'w controller \<Rightarrow> 'w sata \<Rightarrow> (nat \<times> 'w sata) option" where
  "Await_slot hw s = map_option (\<lambda>s. (FirstFreeSlot s, s)) (hw Until_slot s)"

definition rx_sectors :: "'w sata \<Rightarrow> u64" where
  "rx_sectors s =
     ucast (rx_lba s ! 0) OR push_bit 8 (ucast (rx_lba s ! 1)) OR push_bit 16 (ucast (rx_lba s ! 2)) OR
     push_bit 24 (ucast (rx_lba s ! 3)) OR push_bit 32 (ucast (rx_lba s ! 4)) OR push_bit 40 (ucast (rx_lba s ! 5))"

definition GetDiskCapacity :: "'w controller \<Rightarrow> 'w sata \<Rightarrow> (u64 option \<times> 'w sata) option" where
  "GetDiskCapacity hw s =
     (if max_lba s \<noteq> - 1 then Some (Some (max_lba s), s)
      else do { (free_slot, s) \<leftarrow> Await_slot hw s;
                let tab = SlotToCmdTab free_slot s;
                let s = s\<lparr>slots_bitmap := slots_bitmap s AND NOT (bit32 free_slot),
                          tables := (tables s)(tab :=
                            \<lparr>cmd_fis = zero_fis\<lparr>fis_type := 0x27, command := 0x78, device := 0x40, cmd_ctrl := True\<rparr>,
                             prdt_entries = (\<lambda>i. if i < 8 then \<lparr>data_addr_lo = 0, data_addr_hi = 0, byte_count = 0,
                                                                interrupt = False\<rparr>
                                                 else prdt_entries (tables s tab) i)\<rparr>)\<rparr>;
                s \<leftarrow> hw Until_not_busy s;
                s \<leftarrow> ActivateCommands hw s;
                s \<leftarrow> hw (Until_done free_slot False) (IssueCommand free_slot False s);
                let failed = OpFailed s;
                let sectors = rx_sectors s;
                let s = s\<lparr>slots_bitmap := slots_bitmap s OR bit32 free_slot\<rparr>;
                s \<leftarrow> SuspendCommands hw s;
                Some (if failed then None else Some sectors, s) })"

text \<open>\<open>word100\<close> reads the 64-bit word at \<open>dev_info_[100]\<close>, the number of sectors.\<close>

definition word100 :: "u16 list \<Rightarrow> u64" where
  "word100 d = ucast (d ! 100) OR push_bit 16 (ucast (d ! 101)) OR push_bit 32 (ucast (d ! 102)) OR
     push_bit 48 (ucast (d ! 103))"

definition IdentifyDevice ::
  "'w controller \<Rightarrow> (u64 \<Rightarrow> u64) \<Rightarrow> u64 \<Rightarrow> 'w sata \<Rightarrow> (bool \<times> 'w sata) option" where
  "IdentifyDevice hw to_paddr info_addr s =
     do { (free_slot, s) \<leftarrow> Await_slot hw s;
          let tab = SlotToCmdTab free_slot s;
          let buff_paddr = to_paddr info_addr;
          let s = s\<lparr>slots_bitmap := slots_bitmap s AND NOT (bit32 free_slot),
                    cmd_header := (cmd_header s)(free_slot := (cmd_header s free_slot)
                      \<lparr>cmd_fis_len := 5, hdr_write := False, no_prdt_entries := 1\<rparr>),
                    tables := (tables s)(tab :=
                      \<lparr>cmd_fis = zero_fis\<lparr>fis_type := 0x27, cmd_ctrl := True, command := 0xEC\<rparr>,
                       prdt_entries = (prdt_entries (tables s tab))
                         (0 := (prdt_entries (tables s tab) 0)\<lparr>data_addr_lo := ucast buff_paddr,
                           data_addr_hi := ucast (drop_bit 32 buff_paddr), byte_count := 511\<rparr>)\<rparr>)\<rparr>;
          s \<leftarrow> hw Until_not_busy s;
          s \<leftarrow> ActivateCommands hw s;
          s \<leftarrow> hw (Until_done free_slot False) (IssueCommand free_slot False s);
          let ret = \<not> OpFailed s;
          let s = s\<lparr>slots_bitmap := slots_bitmap s OR bit32 free_slot\<rparr>;
          s \<leftarrow> SuspendCommands hw s;
          Some (ret, s\<lparr>max_lba := word100 (dev_info s)\<rparr>) }"

definition DiskReadWrite ::
  "'w controller \<Rightarrow> (u64 \<Rightarrow> u64) \<Rightarrow> u64 \<Rightarrow> nat \<Rightarrow> u64 \<Rightarrow> bool \<Rightarrow> u8 \<Rightarrow> 'w sata \<Rightarrow> (bool \<times> 'w sata) option" where
  "DiskReadWrite hw to_paddr disk_addr num_sectors buff write priority s =
     do { (_, s) \<leftarrow> GetDiskCapacity hw s;
          if disk_addr > max_lba s then Some (False, s)
          else do { let use_ncq = NCQCapable s;
                    (free_slot, s) \<leftarrow> Await_slot hw s;
                    let s = SetupReadWrite to_paddr free_slot disk_addr num_sectors buff write priority use_ncq s;
                    s \<leftarrow> hw Until_not_busy s;
                    s \<leftarrow> ActivateCommands hw s;
                    s \<leftarrow> hw (Until_done free_slot use_ncq) (IssueCommand free_slot use_ncq s);
                    let status = \<not> OpFailed s;
                    let s = s\<lparr>slots_bitmap := slots_bitmap s OR bit32 free_slot\<rparr>;
                    s \<leftarrow> SuspendCommands hw s;
                    Some (status, s) } }"

text \<open>
  The branch of \<open>RangeReadWrite\<close> for controllers with command queueing (not taken while \<open>NCQCapable\<close>
  answers false). \<open>Open_slots\<close> is the loop that collects slots until \<open>slots_map\<close> covers the mask;
  \<open>Queue_ranges\<close> the loop over the slots, which indexes \<open>ranges\<close> by the slot counter \<open>i\<close>.
\<close>

partial_function (option) Open_slots :: "u32 \<Rightarrow> u32 \<Rightarrow> nat list \<Rightarrow> nat list option" where
  "Open_slots slots_map valid_slots_mask open_slots =
     (if slots_map = valid_slots_mask then Some open_slots
      else let free_slot = (if slots_map \<noteq> 0 then low_bit (NOT slots_map) else 0)
           in Open_slots (slots_map OR bit32 free_slot) valid_slots_mask (open_slots @ [free_slot]))"

fun Queue_ranges ::
  "(u64 \<Rightarrow> u64) \<Rightarrow> (u64 \<times> nat) list \<Rightarrow> bool \<Rightarrow> nat list \<Rightarrow> nat \<Rightarrow> u64 \<Rightarrow> u32 \<Rightarrow> 'w sata \<Rightarrow> (u64 \<times> u32 \<times> 'w sata) option" where
  "Queue_ranges to_paddr ranges write [] i buff used s = Some (buff, used, s)"
| "Queue_ranges to_paddr ranges write (slot # slots) i buff used s =
     (if i < length ranges
      then let (start, len) = ranges ! i
           in Queue_ranges to_paddr ranges write slots (i + 1) (buff + of_nat (len * SECTOR_SIZE)) (used OR bit32 i)
                (SetupReadWrite to_paddr slot start len buff write 0 True s)
      else None)"

definition needed_slots :: "'w sata \<Rightarrow> nat \<Rightarrow> nat" where
  "needed_slots s left = (if queue_depth s < left then queue_depth s else left mod 2 ^ 8)"

partial_function (option) RangeReadWrite_ncq ::
  "'w controller \<Rightarrow> (u64 \<Rightarrow> u64) \<Rightarrow> (u64 \<times> nat) list \<Rightarrow> bool \<Rightarrow> nat \<Rightarrow> u64 \<Rightarrow> 'w sata \<Rightarrow> (bool \<times> 'w sata) option" where
  "RangeReadWrite_ncq hw to_paddr ranges write range_ind buff s =
     (if range_ind < length ranges
      then do { let valid_slots_mask = bit32 (needed_slots s (length ranges - range_ind)) - 1;
                open_slots \<leftarrow> Open_slots (cmd_issue (port s) AND valid_slots_mask) valid_slots_mask [];
                (buff, used_slot_bmap, s) \<leftarrow> Queue_ranges to_paddr ranges write open_slots 0 buff 0 s;
                s \<leftarrow> hw Until_not_busy s;
                s \<leftarrow> ActivateCommands hw s;
                s \<leftarrow> hw (Until_ranges_done used_slot_bmap)
                   (upd_port (\<lambda>p. p\<lparr>sata_active := used_slot_bmap, cmd_issue := used_slot_bmap\<rparr>) s);
                let failed = OpFailed s;
                s \<leftarrow> SuspendCommands hw s;
                if failed then Some (False, s)
                else RangeReadWrite_ncq hw to_paddr ranges write (range_ind + length open_slots) buff s }
      else Some (True, s))"

section \<open>Configuration\<close>

text \<open>
  The command tables are consecutive in the region the allocator returns; their size is that of the
  table (128 bytes) with eight descriptors of 16 bytes, a multiple of 128.
\<close>

definition tab_padded_size :: nat where
  "tab_padded_size = (128 + 8 * 16 + 128 - 1) div 128 * 128"

fun Configure_slots :: "u64 \<Rightarrow> nat \<Rightarrow> nat \<Rightarrow> 'w sata \<Rightarrow> 'w sata" where
  "Configure_slots region 0 i s = s"
| "Configure_slots region (Suc n) i s =
     (let tab_paddr = region + of_nat (i * tab_padded_size)
      in Configure_slots region n (i + 1)
           (s\<lparr>cmd_header := (cmd_header s)(i := (cmd_header s i)\<lparr>no_prdt_entries := 8,
                cmd_tab_addr_lo := ucast tab_paddr, cmd_tab_addr_hi := ucast (drop_bit 32 tab_paddr)\<rparr>),
              tables := (tables s)(tab_paddr :=
                \<lparr>cmd_fis = zero_fis,
                 prdt_entries = (\<lambda>j. if j < 8 then \<lparr>data_addr_lo = 0, data_addr_hi = 0, byte_count = 0,
                                                    interrupt = False\<rparr>
                                     else prdt_entries (tables s tab_paddr) j)\<rparr>),
              slots_bitmap := slots_bitmap s OR bit32 i\<rparr>))"

definition Configure :: "'w controller \<Rightarrow> u64 \<Rightarrow> u64 \<Rightarrow> u64 \<Rightarrow> 'w sata \<Rightarrow> 'w sata option" where
  "Configure hw hdr_paddr fis_paddr region s =
     do { s \<leftarrow> SuspendCommands hw s;
          let s = upd_port (\<lambda>p. p\<lparr>cmd_list_base_lo := ucast hdr_paddr,
                                cmd_list_base_hi := ucast (drop_bit 32 hdr_paddr)\<rparr>) s;
          let s = s\<lparr>cmd_header := (\<lambda>i. if i < num_slots s
                      then \<lparr>cmd_fis_len = 0, hdr_write = False, no_prdt_entries = 0, cmd_tab_addr_lo = 0,
                            cmd_tab_addr_hi = 0\<rparr> else cmd_header s i)\<rparr>;
          let s = upd_port (\<lambda>p. p\<lparr>fis_base_lo := ucast fis_paddr, fis_base_hi := ucast (drop_bit 32 fis_paddr)\<rparr>) s;
          Some (Configure_slots region (num_slots s) 0 s) }"

text \<open>The constructor (without the partition table, which \<open>Gpt\<close> reads through the cache).\<close>

definition SATAPort ::
  "'w controller \<Rightarrow> (u64 \<Rightarrow> u64) \<Rightarrow> u64 \<Rightarrow> u64 \<Rightarrow> u64 \<Rightarrow> u64 \<Rightarrow> 'w sata \<Rightarrow> 'w sata option" where
  "SATAPort hw to_paddr info_addr hdr_paddr fis_paddr region s =
     do { s \<leftarrow> Configure hw hdr_paddr fis_paddr region
                (s\<lparr>num_slots := NumberSlots s, slots_bitmap := 0, max_lba := - 1\<rparr>);
          (_, s) \<leftarrow> IdentifyDevice hw to_paddr info_addr s;
          Some s }"

text \<open>\<open>EnumerateDevices\<close>: the ports that are implemented, active and have the signature of a disk.\<close>

definition HBA_ACTIVE_PRESENT :: u8 where "HBA_ACTIVE_PRESENT = push_bit 4 1 OR 3"
definition SATA_SIG_ATA :: u32 where "SATA_SIG_ATA = 0x101"

definition EnumerateDevices :: "u32 \<Rightarrow> (nat \<Rightarrow> u32) \<Rightarrow> (nat \<Rightarrow> u32) \<Rightarrow> nat list" where
  "EnumerateDevices port_implemented sata_status signature =
     filter (\<lambda>i. port_implemented AND bit32 i \<noteq> 0 \<and> ucast (sata_status i) = HBA_ACTIVE_PRESENT \<and>
                signature i = SATA_SIG_ATA) [0..<32]"

section \<open>Addresses and sizes of a command\<close>

text \<open>What the device reads back from the six address bytes of a command.\<close>

definition fis_lba :: "host_fis \<Rightarrow> u64" where
  "fis_lba f = ucast (lba0 f) OR push_bit 8 (ucast (lba1 f)) OR push_bit 16 (ucast (lba2 f)) OR
     push_bit 24 (ucast (lba3 f)) OR push_bit 32 (ucast (lba4 f)) OR push_bit 40 (ucast (lba5 f))"

definition prdt_addr :: "prdt_entry \<Rightarrow> u64" where
  "prdt_addr e = push_bit 32 (ucast (data_addr_hi e)) OR ucast (data_addr_lo e)"

definition prdt_bytes :: "prdt_entry \<Rightarrow> nat" where
  "prdt_bytes e = unat (byte_count e) + 1"

lemma lo_hi_join: "push_bit 32 (ucast (ucast (drop_bit 32 (a :: u64)) :: u32)) OR ucast (ucast a :: u32) = a"
  by (intro bit_word_eqI) (auto simp: bit_simps)

text \<open>
  The command tells the device exactly the low 48 bits of the sector address and, without NCQ, the
  low 16 bits of the sector count, and the direction of the transfer.
\<close>
theorem rw_fis_roundtrip:
  "fis_lba (rw_fis slot disk_addr n write prio ncq) = take_bit 48 disk_addr \<and>
   (\<not> ncq \<longrightarrow> unat (count_lo (rw_fis slot disk_addr n write prio ncq)) +
               256 * unat (count_hi (rw_fis slot disk_addr n write prio ncq)) = n mod 2 ^ 16) \<and>
   (command (rw_fis slot disk_addr n write prio ncq) \<in> {0x35, 0x61} \<longleftrightarrow> write)"
proof (intro conjI impI)
  show "fis_lba (rw_fis slot disk_addr n write prio ncq) = take_bit 48 disk_addr"
  proof (rule bit_word_eqI)
    fix k assume "k < LENGTH(64)"
    consider "k < 8" | "8 \<le> k" "k < 16" | "16 \<le> k" "k < 24" | "24 \<le> k" "k < 32" | "32 \<le> k" "k < 40"
      | "40 \<le> k" "k < 48" | "48 \<le> k" by linarith
    then show "bit (fis_lba (rw_fis slot disk_addr n write prio ncq)) k = bit (take_bit 48 disk_addr) k"
      by cases (simp_all add: fis_lba_def rw_fis_def bit_simps less_diff_conv2)
  qed
  show "command (rw_fis slot disk_addr n write prio ncq) \<in> {0x35, 0x61} \<longleftrightarrow> write"
    by (simp add: rw_fis_def)
  assume "\<not> ncq"
  moreover have "n mod 256 + 256 * (n div 256 mod 256) = n mod 65536"
    using mod_mult2_eq[of n 256 256] by simp
  ultimately show "unat (count_lo (rw_fis slot disk_addr n write prio ncq)) +
      256 * unat (count_hi (rw_fis slot disk_addr n write prio ncq)) = n mod 2 ^ 16"
    by (simp add: rw_fis_def unat_of_nat)
qed

theorem rw_fis_roundtrip_witness:
  "fis_lba (rw_fis 3 0x123456789ABC 8 True 0 False) = 0x123456789ABC \<and>
   unat (count_lo (rw_fis 3 0x123456789ABC 8 True 0 False)) +
     256 * unat (count_hi (rw_fis 3 0x123456789ABC 8 True 0 False)) = 8"
  using rw_fis_roundtrip[of 3 "0x123456789ABC" 8 True 0 False] by (simp add: take_bit_eq_mod)

section \<open>Descriptors\<close>

lemma Setup_prdts_outside: "j < i \<or> i + n \<le> j \<Longrightarrow> Setup_prdts tp b n i rem t j = t j"
  by (induction n arbitrary: i rem t) (auto simp: Let_def)

lemma Setup_prdts_entry:
  assumes "j < n" "j * PRDT_SIZE < rem"
  shows "Setup_prdts tp b n i rem t (i + j) =
    prdt_for tp b (i + j) (min (rem - j * PRDT_SIZE) PRDT_SIZE) (t (i + j))"
  using assms
proof (induction n arbitrary: i j rem t)
  case (Suc n)
  have r: "rem \<noteq> 0" using Suc.prems(2) by auto
  let ?b = "if rem < PRDT_SIZE then rem else PRDT_SIZE"
  show ?case
  proof (cases j)
    case 0
    have "Setup_prdts tp b n (i + 1) (rem - ?b) (t(i := prdt_for tp b i ?b (t i))) i = prdt_for tp b i ?b (t i)"
      by (subst Setup_prdts_outside) simp_all
    moreover have "?b = min rem PRDT_SIZE" by simp
    ultimately show ?thesis using r 0 by (simp add: Let_def)
  next
    case (Suc k)
    have "rem - ?b = rem - PRDT_SIZE" by simp
    then have "k * PRDT_SIZE < rem - ?b" using Suc.prems(2) Suc by simp
    then show ?thesis
      using Suc.IH[of k "rem - ?b" "i + 1"] Suc.prems(1) Suc r \<open>rem - ?b = rem - PRDT_SIZE\<close>
      by (simp add: Let_def diff_diff_eq)
  qed
qed simp

lemma prdt_for_fields:
  assumes "0 < bytes" "bytes \<le> PRDT_SIZE"
  shows "prdt_addr (prdt_for tp b i bytes e) = tp (b + of_nat (i * PRDT_SIZE))"
    and "prdt_bytes (prdt_for tp b i bytes e) = bytes"
proof -
  show "prdt_addr (prdt_for tp b i bytes e) = tp (b + of_nat (i * PRDT_SIZE))"
    by (simp add: prdt_addr_def prdt_for_def Let_def lo_hi_join)
  have "bytes - 1 < 2 ^ 22" using assms by (simp add: PRDT_SIZE_def)
  moreover have "(0x3FFFFF :: u32) = mask 22" by (simp add: mask_eq_exp_minus_1)
  ultimately have "unat (of_nat (bytes - 1) AND 0x3FFFFF :: u32) = bytes - 1"
    by (simp only: take_bit_eq_mask[symmetric] unsigned_take_bit_eq unat_of_nat) (simp add: take_bit_eq_mod)
  then show "prdt_bytes (prdt_for tp b i bytes e) = bytes"
    using assms(1) by (simp add: prdt_bytes_def prdt_for_def Let_def)
qed

lemma prdt_count_exact:
  assumes "0 < n" "n \<le> SECTORS_PER_PRDT * 65535"
  shows "prdt_count n = (n - 1) div SECTORS_PER_PRDT + 1"
proof -
  have "(n + 2 ^ 64 - 1) mod 2 ^ 64 = n - 1"
  proof -
    have "n + 2 ^ 64 - 1 = (n - 1) + 2 ^ 64" using assms(1) by simp
    moreover have "n - 1 < 2 ^ 64" using assms(2) by (simp add: SECTORS_PER_PRDT_def PRDT_SIZE_def SECTOR_SIZE_def)
    ultimately show ?thesis by (metis mod_add_self2 mod_less)
  qed
  moreover have "(n - 1) div SECTORS_PER_PRDT < 65535"
    using assms by (simp add: SECTORS_PER_PRDT_def PRDT_SIZE_def SECTOR_SIZE_def div_less_iff_less_mult)
  ultimately show ?thesis by (simp add: prdt_count_def)
qed

text \<open>
  The descriptors of a transfer cover the buffer exactly: descriptor \<open>j\<close> starts \<open>j\<close> times 4 MiB into
  it, all but the last hold 4 MiB, and together they hold the bytes of all sectors. More than eight
  descriptors, 32 MiB, do not fit the table \<open>Configure\<close> allocates, which the code does not check.
\<close>
theorem prdts_cover_buffer:
  fixes s :: "'w sata"
  assumes n: "0 < n" "n \<le> SECTORS_PER_PRDT * 65535"
    and s'_def: "s' = SetupReadWrite tp slot lba n buff write prio ncq s"
    and e_def: "e = prdt_entries (tables s' (SlotToCmdTab slot s))"
  shows "unat (no_prdt_entries (cmd_header s' slot)) = prdt_count n \<and>
    (\<forall>j<prdt_count n. prdt_addr (e j) = tp (tp buff + of_nat (j * PRDT_SIZE)) \<and>
       prdt_bytes (e j) = min (n * SECTOR_SIZE - j * PRDT_SIZE) PRDT_SIZE) \<and>
    (\<Sum>j<prdt_count n. prdt_bytes (e j)) = n * SECTOR_SIZE"
proof -
  have c: "prdt_count n = (n - 1) div SECTORS_PER_PRDT + 1" by (rule prdt_count_exact[OF n])
  have S: "SECTORS_PER_PRDT * SECTOR_SIZE = PRDT_SIZE" "0 < SECTORS_PER_PRDT" "0 < SECTOR_SIZE" "0 < PRDT_SIZE"
    by (simp_all add: SECTORS_PER_PRDT_def PRDT_SIZE_def SECTOR_SIZE_def)
  have ent: "prdt_addr (e j) = tp (tp buff + of_nat (j * PRDT_SIZE)) \<and>
      prdt_bytes (e j) = min (n * SECTOR_SIZE - j * PRDT_SIZE) PRDT_SIZE" if j: "j < prdt_count n" for j
  proof -
    have "j \<le> (n - 1) div SECTORS_PER_PRDT" using j c by simp
    then have "j * SECTORS_PER_PRDT \<le> n - 1" using S(2) by (simp add: less_eq_div_iff_mult_less_eq)
    then have "j * SECTORS_PER_PRDT < n" using n(1) by simp
    then have jn: "j * PRDT_SIZE < n * SECTOR_SIZE" unfolding S(1)[symmetric] using S(3) by (simp add: mult.assoc[symmetric])
    have "e j = prdt_for tp (tp buff) j (min (n * SECTOR_SIZE - j * PRDT_SIZE) PRDT_SIZE)
        (prdt_entries (tables s (SlotToCmdTab slot s)) j)"
      using Setup_prdts_entry[OF j jn, of tp "tp buff" 0] by (simp add: e_def s'_def SetupReadWrite_def Let_def)
    then show ?thesis using prdt_for_fields jn S(4) by simp
  qed
  have sums: "(\<Sum>j<k. min (m - j * PRDT_SIZE) PRDT_SIZE) = min m (k * PRDT_SIZE)" for k m
    by (induction k) auto
  have "(\<Sum>j<prdt_count n. prdt_bytes (e j)) = min (n * SECTOR_SIZE) (prdt_count n * PRDT_SIZE)"
    using ent sums[of "n * SECTOR_SIZE" "prdt_count n"] by simp
  moreover have "n * SECTOR_SIZE \<le> prdt_count n * PRDT_SIZE"
  proof -
    have "n - 1 < prdt_count n * SECTORS_PER_PRDT"
      using c S(2) dividend_less_div_times[of SECTORS_PER_PRDT "n - 1"] by simp
    then have "n \<le> prdt_count n * SECTORS_PER_PRDT" by linarith
    then show ?thesis unfolding S(1)[symmetric] by (simp add: mult.assoc[symmetric])
  qed
  moreover have "unat (no_prdt_entries (cmd_header s' slot)) = prdt_count n"
    by (simp add: s'_def SetupReadWrite_def Let_def unat_of_nat prdt_count_def)
  ultimately show ?thesis using ent by simp
qed

section \<open>Slots\<close>

lemma low_bit_spec:
  assumes "x \<noteq> 0"
  shows "bit x (low_bit x)" "\<forall>i<low_bit x. \<not> bit x i" "low_bit x < 32"
proof -
  obtain i where "bit x i" using assms by (metis bit_eq_iff bit_0_eq bot_apply bot_bool_def)
  moreover from this have "i < 32" using bit_imp_le_length[of x i] by simp
  ultimately obtain k where k: "List.find (bit x) [0..<32] = Some k"
    by (cases "List.find (bit x) [0..<32]") (auto simp: find_None_iff)
  then have "k < 32 \<and> bit x k \<and> (\<forall>i<k. \<not> bit x i)" by (auto simp: find_Some_iff)
  then show "bit x (low_bit x)" "\<forall>i<low_bit x. \<not> bit x i" "low_bit x < 32"
    using k by (simp_all add: low_bit_def)
qed

text \<open>
  \<open>FirstFreeSlot\<close> returns the lowest slot without a command in flight among those the queue depth
  allows, and the queue depth itself when all of them are busy.
\<close>
theorem FirstFreeSlot_lowest:
  "FirstFreeSlot s = (LEAST i. \<not> (i < queue_depth s \<and> bit (cmd_issue (port s)) i))"
proof -
  let ?d = "queue_depth s"
  have d: "?d < 32"
  proof -
    have "dev_info s ! 75 AND 0x1F \<le> 0x1F" by (rule word_and_le1)
    then show ?thesis by (simp add: queue_depth_def word_le_nat_alt)
  qed
  have m: "bit32 ?d - 1 = mask ?d" using d by (simp add: bit32_def mask_eq_exp_minus_1 push_bit_eq_mult)
  let ?x = "NOT (cmd_issue (port s) AND mask ?d) :: u32"
  have b: "bit ?x i \<longleftrightarrow> i < 32 \<and> \<not> (i < ?d \<and> bit (cmd_issue (port s)) i)" for i
    by (auto simp: bit_simps)
  have "?x \<noteq> 0" using b[of ?d] d by auto
  note lb = low_bit_spec[OF this]
  have "(LEAST i. \<not> (i < ?d \<and> bit (cmd_issue (port s)) i)) = low_bit ?x"
  proof (rule Least_equality)
    show "\<not> (low_bit ?x < ?d \<and> bit (cmd_issue (port s)) (low_bit ?x))" using lb(1) b by blast
    fix i assume i: "\<not> (i < ?d \<and> bit (cmd_issue (port s)) i)"
    show "low_bit ?x \<le> i"
    proof (rule ccontr)
      assume "\<not> low_bit ?x \<le> i"
      then show False using lb(2,3) b i by auto
    qed
  qed
  then show ?thesis by (simp add: FirstFreeSlot_def Let_def m)
qed

lemma Configure_slots_at:
  "j < i \<or> i + n \<le> j \<Longrightarrow> cmd_header (Configure_slots r n i s) j = cmd_header s j"
  "i \<le> j \<Longrightarrow> j < i + n \<Longrightarrow> SlotToCmdTab j (Configure_slots r n i s) = r + of_nat (j * tab_padded_size)"
proof (induction n arbitrary: i s)
  case (Suc n)
  {
    case 1
    then show ?case using Suc.IH(1) by (auto simp: Let_def)
  next
    case 2
    then show ?case
    proof (cases "i = j")
      case True
      then show ?thesis using Suc.IH(1)[where i = "j + 1"] by (simp add: Let_def SlotToCmdTab_def lo_hi_join)
    next
      case False
      then show ?thesis using 2 Suc.IH(2)[where i = "i + 1"] by (simp add: Let_def)
    qed
  }
qed simp_all

text \<open>
  After \<open>Configure\<close> the command table of every slot is found at its own 256 bytes of the region.
\<close>
theorem Configure_tables:
  assumes "SuspendCommands hw s = Some s0" "Configure hw h f r s = Some s'" "j < num_slots s0"
  shows "SlotToCmdTab j s' = r + of_nat (j * 256)"
proof -
  have "tab_padded_size = 256" by (simp add: tab_padded_size_def)
  then show ?thesis
    using assms Configure_slots_at(2)[of 0 j "num_slots s0" r]
    by (auto simp: Configure_def upd_port_def)
qed

text \<open>A port whose controller is always ready.\<close>

definition idle_port :: "unit sata" where
  "idle_port =
     \<lparr>port = \<lparr>cmd_status = 0, task_file_data = 0, sata_error = 0, sata_active = 0, cmd_issue = 0, int_status = 0,
              cmd_list_base_lo = 0, cmd_list_base_hi = 0, fis_base_lo = 0, fis_base_hi = 0\<rparr>,
      capability = 0x300,
      cmd_header = (\<lambda>_. \<lparr>cmd_fis_len = 0, hdr_write = False, no_prdt_entries = 0, cmd_tab_addr_lo = 0,
                        cmd_tab_addr_hi = 0\<rparr>),
      tables = (\<lambda>_. \<lparr>cmd_fis = zero_fis,
                    prdt_entries = (\<lambda>_. \<lparr>data_addr_lo = 0, data_addr_hi = 0, byte_count = 0, interrupt = False\<rparr>)\<rparr>),
      rx_status = 0, rx_lba = [], dev_info = [], num_slots = 3, slots_bitmap = 0, max_lba = 0x1000, world = ()\<rparr>"

theorem Configure_tables_witness:
  "\<exists>s'. Configure (\<lambda>_. Some) 0x1000 0x2000 0x123400000000 idle_port = Some s' \<and>
     SlotToCmdTab 2 s' = 0x123400000200"
proof -
  have a: "SuspendCommands (\<lambda>_. Some) idle_port = Some idle_port"
    by (simp add: SuspendCommands_def idle_port_def)
  obtain s' where c: "Configure (\<lambda>_. Some) 0x1000 0x2000 0x123400000000 idle_port = Some s'"
    using a by (simp add: Configure_def Let_def)
  have "2 < num_slots idle_port" by (simp add: idle_port_def)
  from Configure_tables[OF a c this] c show ?thesis by simp
qed

theorem prdts_cover_buffer_witness:
  "(\<Sum>j<prdt_count 10000. prdt_bytes (prdt_entries (tables (SetupReadWrite id 0 5 10000 0x200000 False 0 False idle_port)
     (SlotToCmdTab 0 idle_port)) j)) = 5120000"
  using prdts_cover_buffer[OF _ _ refl refl, of 10000 id 0 5 "0x200000" False 0 False idle_port,
      THEN conjunct2, THEN conjunct2]
  by (simp add: SECTOR_SIZE_def SECTORS_PER_PRDT_def PRDT_SIZE_def)

end
