(* ===== verification/Disk_Runs.thy ===== *)
theory Disk_Runs
  imports Prelude
begin

text \<open>
  Runs of consecutive disk sectors: what a transfer of \<open>n\<close> sectors from address \<open>a\<close> reads and
  writes. The addresses are 64-bit and wrap. Shared by the sector cache and the file system.
\<close>

text \<open>The sectors of a run of addresses, and the effect of writing them.\<close>

fun fetch :: "(u64 \<Rightarrow> 'b) \<Rightarrow> u64 \<Rightarrow> nat \<Rightarrow> 'b list" where
  "fetch f a 0 = []"
| "fetch f a (Suc n) = f a # fetch f (a + 1) n"

fun put :: "(u64 \<Rightarrow> 'b) \<Rightarrow> u64 \<Rightarrow> 'b list \<Rightarrow> (u64 \<Rightarrow> 'b)" where
  "put f a [] = f"
| "put f a (b # bs) = put (f(a := b)) (a + 1) bs"

lemma length_fetch [simp]: "length (fetch f a n) = n"
  by (induction n arbitrary: a) simp_all

lemma fetch_cong: "(\<And>i. i < n \<Longrightarrow> f (a + of_nat i) = g (a + of_nat i)) \<Longrightarrow> fetch f a n = fetch g a n"
proof (induction n arbitrary: a)
  case (Suc n)
  have "f (a + 1 + of_nat i) = g (a + 1 + of_nat i)" if "i < n" for i
    using Suc.prems[of "Suc i"] that by (simp add: algebra_simps)
  then show ?case using Suc.IH Suc.prems[of 0] by simp
qed simp

lemma fetch_append: "fetch f a (k + m) = fetch f a k @ fetch f (a + of_nat k) m"
  by (induction k arbitrary: a) (simp_all add: algebra_simps)

lemma fetch_split: "k \<le> n \<Longrightarrow> fetch f a n = fetch f a k @ fetch f (a + of_nat k) (n - k)"
  using fetch_append[of f a k "n - k"] by simp

lemma take_fetch: "k \<le> n \<Longrightarrow> take k (fetch f a n) = fetch f a k"
  and drop_fetch: "k \<le> n \<Longrightarrow> drop k (fetch f a n) = fetch f (a + of_nat k) (n - k)"
  using fetch_split[of k n f a] by simp_all

lemma nth_fetch: "i < n \<Longrightarrow> fetch f a n ! i = f (a + of_nat i)"
  by (induction n arbitrary: i a) (auto simp: nth_Cons algebra_simps split: nat.splits)

lemma put_append: "put f a (bs @ cs) = put (put f a bs) (a + of_nat (length bs)) cs"
  by (induction bs arbitrary: f a) (simp_all add: algebra_simps)

lemma put_fetch: "put f a (fetch f a n) = f"
  by (induction n arbitrary: a) simp_all

lemma of_nat_Suc_neq: "n < 2 ^ 64 - 1 \<Longrightarrow> a + 1 + of_nat n \<noteq> (a :: u64)"
proof
  assume n: "n < 2 ^ 64 - 1" and "a + 1 + of_nat n = a"
  then have "(of_nat (Suc n) :: u64) = 0" by (simp add: algebra_simps add_eq_0_iff)
  then have "2 ^ 64 dvd Suc n" using word_of_nat_eq_0_iff[of "Suc n", where 'a = 64] by (simp del: of_nat_Suc)
  then show False using n by (auto dest: dvd_imp_le)
qed

lemma put_outside: "length bs < 2 ^ 64 \<Longrightarrow> put f (a + 1) bs a = f a"
proof -
  have "(\<forall>i<length bs. c + of_nat i \<noteq> a) \<Longrightarrow> put f c bs a = f a" for c :: u64
  proof (induction bs arbitrary: c f)
    case (Cons b bs)
    have "\<forall>i<length bs. c + 1 + of_nat i \<noteq> a"
    proof (intro allI impI)
      fix i assume "i < length bs"
      then show "c + 1 + of_nat i \<noteq> a" using Cons.prems[rule_format, of "Suc i"] by (simp add: algebra_simps)
    qed
    then show ?case using Cons.IH Cons.prems[rule_format, of 0] by simp
  qed simp
  moreover assume "length bs < 2 ^ 64"
  then have "\<forall>i<length bs. a + 1 + of_nat i \<noteq> a" using of_nat_Suc_neq by simp
  ultimately show ?thesis by blast
qed

lemma put_at_end: "length bs < 2 ^ 64 \<Longrightarrow> put f a bs (a + of_nat (length bs)) = f (a + of_nat (length bs))"
proof (induction bs arbitrary: f a)
  case (Cons b bs)
  have "a + 1 + of_nat (length bs) \<noteq> a" using of_nat_Suc_neq[of "length bs" a] Cons.prems by simp
  then have "(f(a := b)) (a + 1 + of_nat (length bs)) = f (a + 1 + of_nat (length bs))" by simp
  moreover have "put (f(a := b)) (a + 1) bs (a + 1 + of_nat (length bs)) = (f(a := b)) (a + 1 + of_nat (length bs))"
    by (rule Cons.IH) (use Cons.prems in simp)
  moreover have "a + of_nat (length (b # bs)) = a + 1 + of_nat (length bs)" by simp
  ultimately show ?case by (simp only: put.simps)
qed simp

text \<open>The effect of a write at an arbitrary address, and reads that overlap it or not.\<close>

lemma put_at:
  "length bs < 2 ^ 64 \<Longrightarrow> put f a bs c = (if unat (c - a) < length bs then bs ! unat (c - a) else f c)"
proof (induction bs arbitrary: f a)
  case (Cons b bs)
  have IH: "put (f(a := b)) (a + 1) bs c =
      (if unat (c - (a + 1)) < length bs then bs ! unat (c - (a + 1)) else (f(a := b)) c)"
    using Cons.IH Cons.prems by simp
  show ?case
  proof (cases "c = a")
    case True
    have "unat (- 1 :: u64) = 2 ^ 64 - 1" by (simp add: unsigned_minus_1_eq_mask mask_eq_exp_minus_1)
    then have "unat (c - (a + 1)) = 2 ^ 64 - 1" using True by (simp add: algebra_simps)
    then show ?thesis using IH True Cons.prems by simp
  next
    case False
    then have "c - a \<noteq> 0" by simp
    then have "unat (c - a) = Suc (unat (c - (a + 1)))"
      using unat_minus_one[of "c - a"] unat_gt_0[of "c - a"] by (simp add: algebra_simps)
    then show ?thesis using IH False by simp
  qed
qed simp

lemma fetch_put_same: "length bs < 2 ^ 64 \<Longrightarrow> fetch (put f a bs) a (length bs) = bs"
  by (intro nth_equalityI) (simp_all add: nth_fetch put_at unat_of_nat)

lemma fetch_put_other:
  assumes "length bs < 2 ^ 64" "\<And>i. i < n \<Longrightarrow> length bs \<le> unat (c + of_nat i - a)"
  shows "fetch (put f a bs) c n = fetch f c n"
  using assms by (intro fetch_cong) (simp add: put_at not_less[symmetric])

lemma fetch_put_inner:
  assumes "k + n \<le> length bs" "length bs < 2 ^ 64"
  shows "fetch (put f a bs) (a + of_nat k) n = take n (drop k bs)"
proof (rule nth_equalityI)
  show "length (fetch (put f a bs) (a + of_nat k) n) = length (take n (drop k bs))" using assms(1) by simp
next
  fix i assume "i < length (fetch (put f a bs) (a + of_nat k) n)"
  then have i: "i < n" by simp
  have "a + of_nat k + of_nat i - a = (of_nat (k + i) :: u64)" by simp
  moreover have "unat (of_nat (k + i) :: u64) = k + i" using i assms by (simp add: unat_of_nat del: of_nat_add)
  ultimately have "unat (a + of_nat k + of_nat i - a) = k + i" by metis
  then show "fetch (put f a bs) (a + of_nat k) n ! i = take n (drop k bs) ! i"
    using i assms by (simp add: nth_fetch put_at del: of_nat_add)
qed

end
