(* ===== verification/Sector_Cache.thy ===== *)
theory Sector_Cache
  imports Lru_Cache Disk_Runs
begin

text \<open>
  The sector cache of \<open>src/sys/sata_port.cpp\<close>: \<open>CacheReadWrite\<close>, \<open>HandleEviction\<close> and the functions
  over ranges, on top of the \<open>LRUCache\<close> of \<open>Lru_Cache\<close>. A cached sector is an object with its contents
  and its dirty flag; the cache maps sector numbers to the addresses of such objects.

  The caller's buffer is a list of sectors. The transfer of sectors to and from the device is the
  argument \<open>disk_rw\<close> (the model of \<open>DiskReadWrite\<close> is in \<open>Sata_Port\<close>, the device behind it is not code);
  \<open>new_addrs\<close> are the addresses the kernel heap returns, \<open>critical\<close> is the answer of \<open>MemCritical\<close>.
\<close>

section \<open>The code\<close>

record 'b csector =
  content :: 'b
  dirty :: bool

record ('b, 'w) disk_cache =
  dcache :: "(u64, nat) cache"
  csectors :: "nat \<rightharpoonup> 'b csector"
  new_addrs :: "nat list"
  dworld :: 'w

type_synonym ('b, 'w) device = "u64 \<Rightarrow> 'b list \<Rightarrow> bool \<Rightarrow> 'w \<Rightarrow> (bool \<times> 'b list \<times> 'w) option"

text \<open>The result of the write-back is ignored.\<close>

definition HandleEviction ::
  "('b, 'w) device \<Rightarrow> u64 \<Rightarrow> nat \<Rightarrow> ('b, 'w) disk_cache \<Rightarrow> ('b, 'w) disk_cache option" where
  "HandleEviction disk_rw sector_no cache_entry s =
     do { c \<leftarrow> csectors s cache_entry;
          (_, _, w) \<leftarrow> (if dirty c then disk_rw sector_no [content c] True (dworld s)
                         else Some (True, [], dworld s));
          Some (s\<lparr>csectors := (csectors s)(cache_entry := None), dworld := w\<rparr>) }"

fun Handle_evictions ::
  "('b, 'w) device \<Rightarrow> (u64 \<times> nat) list \<Rightarrow> ('b, 'w) disk_cache \<Rightarrow> ('b, 'w) disk_cache option" where
  "Handle_evictions disk_rw [] s = Some s"
| "Handle_evictions disk_rw ((k, p) # es) s =
     Option.bind (HandleEviction disk_rw k p s) (Handle_evictions disk_rw es)"

text \<open>The search for the next cached sector: its object, and the number of uncached ones before it.\<close>

fun Scan :: "(u64 \<Rightarrow> u32) \<Rightarrow> nat \<Rightarrow> u64 \<Rightarrow> ('b, 'w) disk_cache \<Rightarrow>
    (nat option \<times> nat \<times> ('b, 'w) disk_cache) option" where
  "Scan hash 0 addr s = Some (None, 0, s)"
| "Scan hash (Suc n) addr s =
     do { (hit, c) \<leftarrow> Cache_Lookup hash addr (dcache s);
          let s = s\<lparr>dcache := c\<rparr>;
          case hit of
            Some p \<Rightarrow> Some (Some p, 0, s)
          | None \<Rightarrow> do { (r, k, s) \<leftarrow> Scan hash n (addr + 1) s; Some (r, k + 1, s) } }"

text \<open>One round of the loop that enters sectors into the cache; the handler runs for what is evicted.\<close>

definition Cache_sector ::
  "(u64 \<Rightarrow> u32) \<Rightarrow> bool \<Rightarrow> ('b, 'w) device \<Rightarrow> u64 \<Rightarrow> 'b csector \<Rightarrow> ('b, 'w) disk_cache \<Rightarrow>
   ('b, 'w) disk_cache option" where
  "Cache_sector hash critical disk_rw addr c s =
     (case new_addrs s of
        p # e # fs \<Rightarrow>
          do { (_, d) \<leftarrow> Cache_Insert hash critical e addr p (dcache s);
               Handle_evictions disk_rw (drop (length (evicted (dcache s))) (evicted d))
                 (s\<lparr>csectors := (csectors s)(p \<mapsto> c), new_addrs := fs, dcache := d\<rparr>) }
      | _ \<Rightarrow> None)"

fun Cache_sectors ::
  "(u64 \<Rightarrow> u32) \<Rightarrow> bool \<Rightarrow> ('b, 'w) device \<Rightarrow> u64 \<Rightarrow> bool \<Rightarrow> 'b list \<Rightarrow> ('b, 'w) disk_cache \<Rightarrow>
   ('b, 'w) disk_cache option" where
  "Cache_sectors hash critical disk_rw addr write [] s = Some s"
| "Cache_sectors hash critical disk_rw addr write (b # bs) s =
     Option.bind (Cache_sector hash critical disk_rw addr \<lparr>content = b, dirty = write\<rparr> s)
       (Cache_sectors hash critical disk_rw (addr + 1) write bs)"

text \<open>
  \<open>CacheReadWrite\<close>: \<open>buff\<close> is what is left of the buffer, the result what it holds afterwards. Every round
  handles at least one sector, so the first argument, the number of sectors, bounds the rounds.
\<close>

fun Cache_rounds ::
  "nat \<Rightarrow> (u64 \<Rightarrow> u32) \<Rightarrow> bool \<Rightarrow> ('b, 'w) device \<Rightarrow> u64 \<Rightarrow> 'b list \<Rightarrow> bool \<Rightarrow> ('b, 'w) disk_cache \<Rightarrow>
   (bool \<times> 'b list \<times> ('b, 'w) disk_cache) option" where
  "Cache_rounds 0 hash critical disk_rw addr buff write s = Some (True, buff, s)"
| "Cache_rounds (Suc n) hash critical disk_rw addr buff write s =
     (if buff = [] then Some (True, [], s)
      else do { (hit, k, s) \<leftarrow> Scan hash (length buff) addr s;
                (ok, uncached, w) \<leftarrow> (if k \<noteq> 0 \<and> \<not> write then disk_rw addr (take k buff) False (dworld s)
                                      else Some (True, take k buff, dworld s));
                let s = s\<lparr>dworld := w\<rparr>;
                if \<not> ok then Some (False, uncached @ drop k buff, s)
                else do { s \<leftarrow> Cache_sectors hash critical disk_rw addr write uncached s;
                          case hit of
                            None \<Rightarrow> Some (True, uncached, s)
                          | Some p \<Rightarrow>
                              do { c \<leftarrow> csectors s p;
                                   let b = (if write then buff ! k else content c);
                                   let s = (if write then s\<lparr>csectors := (csectors s)(p \<mapsto>
                                              c\<lparr>content := b, dirty := True\<rparr>)\<rparr> else s);
                                   (ok, rest, s) \<leftarrow> Cache_rounds n hash critical disk_rw
                                     (addr + of_nat (k + 1)) (drop (k + 1) buff) write s;
                                   Some (ok, uncached @ b # rest, s) } } })"

definition CacheReadWrite ::
  "(u64 \<Rightarrow> u32) \<Rightarrow> bool \<Rightarrow> ('b, 'w) device \<Rightarrow> u64 \<Rightarrow> 'b list \<Rightarrow> bool \<Rightarrow> ('b, 'w) disk_cache \<Rightarrow>
   (bool \<times> 'b list \<times> ('b, 'w) disk_cache) option" where
  "CacheReadWrite hash critical disk_rw disk_addr buff write s =
     Cache_rounds (length buff) hash critical disk_rw disk_addr buff write s"

text \<open>
  \<open>RangeReadWrite\<close>, the branch that is taken since \<open>NCQCapable\<close> returns false: the ranges one after the
  other, stopping at the first failure.
\<close>

fun RangeReadWrite ::
  "(u64 \<Rightarrow> u32) \<Rightarrow> bool \<Rightarrow> ('b, 'w) device \<Rightarrow> (u64 \<times> nat) list \<Rightarrow> 'b list \<Rightarrow> bool \<Rightarrow> ('b, 'w) disk_cache \<Rightarrow>
   (bool \<times> 'b list \<times> ('b, 'w) disk_cache) option" where
  "RangeReadWrite hash critical disk_rw [] buff write s = Some (True, buff, s)"
| "RangeReadWrite hash critical disk_rw ((start, len) # rs) buff write s =
     do { (ok, b, s) \<leftarrow> CacheReadWrite hash critical disk_rw start (take len buff) write s;
          if \<not> ok then Some (False, b @ drop len buff, s)
          else do { (ok, rest, s) \<leftarrow> RangeReadWrite hash critical disk_rw rs (drop len buff) write s;
                    Some (ok, b @ rest, s) } }"

text \<open>The flush of the destructor, with the write-backs of the eviction handler.\<close>

definition Flush_cache :: "(u64 \<Rightarrow> u32) \<Rightarrow> ('b, 'w) device \<Rightarrow> ('b, 'w) disk_cache \<Rightarrow> ('b, 'w) disk_cache option" where
  "Flush_cache hash disk_rw s =
     do { d \<leftarrow> Flush hash (dcache s);
          Handle_evictions disk_rw (drop (length (evicted (dcache s))) (evicted d)) (s\<lparr>dcache := d\<rparr>) }"

section \<open>What the disk holds\<close>

text \<open>
  The device: a transfer succeeds; it reads what the device holds, and changes what it holds only by
  a write, at the addresses written. \<open>dk\<close> is what the device holds.
\<close>

definition device_ok :: "('b, 'w) device \<Rightarrow> ('w \<Rightarrow> u64 \<Rightarrow> 'b) \<Rightarrow> bool" where
  "device_ok disk_rw dk \<longleftrightarrow>
     (\<forall>a bs w. \<exists>w'. disk_rw a bs False w = Some (True, fetch (dk w) a (length bs), w') \<and> dk w' = dk w) \<and>
     (\<forall>a bs w. \<exists>bs' w'. disk_rw a bs True w = Some (True, bs', w') \<and> dk w' = put (dk w) a bs)"

text \<open>What the file system sees: the cached contents, and those of the device elsewhere.\<close>

definition dview :: "('w \<Rightarrow> u64 \<Rightarrow> 'b) \<Rightarrow> nat list \<Rightarrow> ('b, 'w) disk_cache \<Rightarrow> u64 \<Rightarrow> 'b" where
  "dview dk xs s a =
     (case map_of (items (dcache s) xs) a of
        None \<Rightarrow> dk (dworld s) a
      | Some p \<Rightarrow> content (the (csectors s p)))"

text \<open>The invariant; there is room and there are addresses for \<open>n\<close> more sectors.\<close>

definition sc_inv :: "(u64 \<Rightarrow> u32) \<Rightarrow> ('w \<Rightarrow> u64 \<Rightarrow> 'b) \<Rightarrow> nat \<Rightarrow> nat list \<Rightarrow> ('b, 'w) disk_cache \<Rightarrow> bool" where
  "sc_inv hash dk n xs s \<longleftrightarrow>
     lru_inv hash (dcache s) xs \<and> (xs = [] \<longrightarrow> mru (dcache s) = 0) \<and> hm_room n (cache_entries (dcache s)) \<and>
     (\<forall>(k, p)\<in>set (items (dcache s) xs). csectors s p \<noteq> None) \<and>
     distinct (map snd (items (dcache s) xs)) \<and>
     2 * n \<le> length (new_addrs s) \<and> distinct (new_addrs s) \<and> 0 \<notin> set (new_addrs s) \<and>
     (\<forall>a\<in>set (new_addrs s). csectors s a = None \<and> heap (dcache s) a = None) \<and>
     (\<forall>k p c. (k, p) \<in> set (items (dcache s) xs) \<longrightarrow> csectors s p = Some c \<longrightarrow> \<not> dirty c \<longrightarrow>
        content c = dk (dworld s) k)"

section \<open>The invariant\<close>

lemma sc_inv_mono: "sc_inv hash dk (Suc n) xs s \<Longrightarrow> sc_inv hash dk n xs s"
  using hm_room_mono by (auto simp: sc_inv_def)

lemma sc_inv_add: "sc_inv hash dk (n + k) xs s \<Longrightarrow> sc_inv hash dk n xs s"
  by (induction k) (auto dest: sc_inv_mono)

lemma sc_inv_items: "sc_inv hash dk n xs s \<Longrightarrow> distinct (map fst (items (dcache s) xs))"
  using items_distinct by (auto simp: sc_inv_def)

lemma map_of_set_eq:
  "distinct (map fst l) \<Longrightarrow> distinct (map fst l') \<Longrightarrow> set l = set l' \<Longrightarrow> map_of l = map_of l'"
  by (intro ext) (metis map_of_eq_None_iff map_of_eq_Some_iff not_Some_eq)

text \<open>A look-up only reorders the items.\<close>

lemma lookup_keeps:
  assumes inv: "sc_inv hash dk n xs s" and hit: "map_of (items (dcache s) xs) a = Some p"
  shows "\<exists>c xs'. Cache_Lookup hash a (dcache s) = Some (Some p, c) \<and> sc_inv hash dk n xs' (s\<lparr>dcache := c\<rparr>) \<and>
    map_of (items c xs') = map_of (items (dcache s) xs) \<and> set (items c xs') = set (items (dcache s) xs)"
proof -
  have lru: "lru_inv hash (dcache s) xs" using inv by (simp add: sc_inv_def)
  let ?l = "items (dcache s) xs"
  obtain c xs' where c: "Cache_Lookup hash a (dcache s) = Some (Some p, c)" "lru_inv hash c xs'"
    "items c xs' = (a, p) # filter (\<lambda>kv. fst kv \<noteq> a) ?l" "cache_entries c = cache_entries (dcache s)"
    "set xs' = set xs"
    using lookup_front[OF lru, of a] hit by auto
  have d: "distinct (map fst ?l)" by (rule sc_inv_items[OF inv])
  have ap: "(a, p) \<in> set ?l" using hit d by simp
  have set: "set (items c xs') = set ?l"
  proof
    show "set (items c xs') \<subseteq> set ?l" using ap by (auto simp: c(3))
    show "set ?l \<subseteq> set (items c xs')"
    proof
      fix kv assume kv: "kv \<in> set ?l"
      show "kv \<in> set (items c xs')"
      proof (cases "fst kv = a")
        case True
        then have "kv = (a, p)" using kv ap d by (metis eq_key_imp_eq_value prod.collapse)
        then show ?thesis by (simp add: c(3))
      qed (use kv in \<open>simp add: c(3)\<close>)
    qed
  qed
  moreover have d': "distinct (map fst (items c xs'))" using c(2) by (rule items_distinct)
  moreover have "distinct (map snd (items c xs'))"
  proof -
    have "distinct (map snd ?l)" using inv by (simp add: sc_inv_def)
    then have "inj_on snd (set (items c xs'))" using set by (simp add: distinct_map)
    moreover have "distinct (items c xs')" using d' by (simp add: distinct_map)
    ultimately show ?thesis by (simp add: distinct_map)
  qed
  moreover have "heap c b = None" if "heap (dcache s) b = None" for b
  proof -
    have "dom (heap c) = dom (heap (dcache s))" using c(2,5) lru by (simp add: lru_inv_def)
    then show ?thesis using that by blast
  qed
  moreover have "xs' \<noteq> []" using c(5) hit by (cases xs) (auto simp: items_def)
  ultimately have "sc_inv hash dk n xs' (s\<lparr>dcache := c\<rparr>)"
    using inv c(2,4) by (simp add: sc_inv_def)
  moreover have "map_of (items c xs') = map_of ?l" by (rule map_of_set_eq[OF d' d set])
  ultimately show ?thesis using c(1) set by blast
qed

lemma Scan_spec:
  assumes "sc_inv hash dk n xs s"
  shows "\<exists>r k c xs'. Scan hash m a s = Some (r, k, s\<lparr>dcache := c\<rparr>) \<and> sc_inv hash dk n xs' (s\<lparr>dcache := c\<rparr>) \<and>
    map_of (items c xs') = map_of (items (dcache s) xs) \<and> k \<le> m \<and>
    (\<forall>i<k. map_of (items (dcache s) xs) (a + of_nat i) = None) \<and> (r = None \<longrightarrow> k = m) \<and>
    (\<forall>p. r = Some p \<longrightarrow> k < m \<and> map_of (items (dcache s) xs) (a + of_nat k) = Some p)"
  using assms
proof (induction m arbitrary: a)
  case 0
  have "s\<lparr>dcache := dcache s\<rparr> = s" by simp
  then show ?case using 0 by (intro exI[of _ None] exI[of _ 0] exI[of _ "dcache s"] exI[of _ xs]) simp
next
  case (Suc m)
  have lru: "lru_inv hash (dcache s) xs" using Suc.prems by (simp add: sc_inv_def)
  show ?case
  proof (cases "map_of (items (dcache s) xs) a")
    case None
    then have "Cache_Lookup hash a (dcache s) = Some (None, dcache s)" using lookup_front[OF lru, of a] by simp
    moreover obtain r k c xs' where IH: "Scan hash m (a + 1) s = Some (r, k, s\<lparr>dcache := c\<rparr>)"
      "sc_inv hash dk n xs' (s\<lparr>dcache := c\<rparr>)" "map_of (items c xs') = map_of (items (dcache s) xs)" "k \<le> m"
      "\<forall>i<k. map_of (items (dcache s) xs) (a + 1 + of_nat i) = None" "r = None \<longrightarrow> k = m"
      "\<forall>p. r = Some p \<longrightarrow> k < m \<and> map_of (items (dcache s) xs) (a + 1 + of_nat k) = Some p"
      using Suc.IH[OF Suc.prems, of "a + 1"] by blast
    moreover have "\<forall>i<Suc k. map_of (items (dcache s) xs) (a + of_nat i) = None"
    proof (intro allI impI)
      fix i assume "i < Suc k"
      then show "map_of (items (dcache s) xs) (a + of_nat i) = None"
        using IH(5)[rule_format, of "i - 1"] None by (cases i) (simp_all add: algebra_simps)
    qed
    ultimately show ?thesis
      by (intro exI[of _ r] exI[of _ "k + 1"] exI[of _ c] exI[of _ xs']) (simp add: algebra_simps)
  next
    case (Some p)
    then obtain c xs' where "Cache_Lookup hash a (dcache s) = Some (Some p, c)" "sc_inv hash dk n xs' (s\<lparr>dcache := c\<rparr>)"
      "map_of (items c xs') = map_of (items (dcache s) xs)"
      using lookup_keeps[OF Suc.prems Some] by blast
    then show ?thesis
      using Some by (intro exI[of _ "Some p"] exI[of _ 0] exI[of _ c] exI[of _ xs']) simp
  qed
qed

lemma Cache_sector_spec:
  assumes inv: "sc_inv hash dk (Suc n) xs s" and absent: "map_of (items (dcache s) xs) a = None"
    and clean: "\<not> dirty c \<longrightarrow> content c = dk (dworld s) a"
  shows "\<exists>s' e p. Cache_sector hash False disk_rw a c s = Some s' \<and> sc_inv hash dk n (e # xs) s' \<and>
    items (dcache s') (e # xs) = (a, p) # items (dcache s) xs \<and> csectors s' = (csectors s)(p \<mapsto> c) \<and>
    dworld s' = dworld s \<and> csectors s p = None"
proof -
  obtain p e fs where fr: "new_addrs s = p # e # fs"
  proof (cases "new_addrs s")
    case (Cons p l)
    then show ?thesis using that inv by (cases l) (auto simp: sc_inv_def)
  qed (use inv in \<open>auto simp: sc_inv_def\<close>)
  have new: "csectors s p = None" "heap (dcache s) e = None" "e \<noteq> 0" "distinct (new_addrs s)"
    using inv fr by (auto simp: sc_inv_def)
  obtain d where d: "Cache_Insert hash False e a p (dcache s) = Some (True, d)" "lru_inv hash d (e # xs)"
    "items d (e # xs) = (a, p) # items (dcache s) xs" "evicted d = evicted (dcache s)" "hm_room n (cache_entries d)"
    using insert_front[OF _ _ absent new(3,2), of hash n p] inv by (auto simp: sc_inv_def)
  let ?s = "s\<lparr>csectors := (csectors s)(p \<mapsto> c), new_addrs := fs, dcache := d\<rparr>"
  have run: "Cache_sector hash False disk_rw a c s = Some ?s"
    using fr d(1,4) by (simp add: Cache_sector_def)
  have old: "q \<noteq> p" if "(k, q) \<in> set (items (dcache s) xs)" for k q
    using inv that new(1) by (auto simp: sc_inv_def)
  have "dom (heap d) = insert e (dom (heap (dcache s)))" using d(2) inv by (simp add: lru_inv_def sc_inv_def)
  then have h: "heap d b = None" if "b \<in> set fs" for b
    using that inv fr new(4) by (auto simp: sc_inv_def)
  have "sc_inv hash dk n (e # xs) ?s"
    unfolding sc_inv_def
  proof (intro conjI ballI allI impI)
    show "csectors ?s b = None" "heap (dcache ?s) b = None" if "b \<in> set (new_addrs ?s)" for b
      using that inv fr h new(4) by (auto simp: sc_inv_def)
    show "case kq of (k, q) \<Rightarrow> csectors ?s q \<noteq> None" if "kq \<in> set (items (dcache ?s) (e # xs))" for kq
      using that inv d(3) by (auto simp: sc_inv_def)
    show "content c' = dk (dworld ?s) k"
      if "(k, q) \<in> set (items (dcache ?s) (e # xs))" "csectors ?s q = Some c'" "\<not> dirty c'" for k q c'
      using that inv clean old d(3) by (auto simp: sc_inv_def split: if_splits)
    show "distinct (map snd (items (dcache ?s) (e # xs)))"
      using inv d(3) by (auto simp: sc_inv_def dest: old)
  qed (use inv d fr in \<open>auto simp: sc_inv_def\<close>)
  then show ?thesis using run d(3) new(1) by (intro exI[of _ ?s] exI[of _ e] exI[of _ p]) simp
qed

lemma dview_insert:
  assumes "items (dcache s') xs' = (a, p) # items (dcache s) xs" "csectors s' = (csectors s)(p \<mapsto> c)"
    and "dworld s' = dworld s" "csectors s p = None" "sc_inv hash dk n xs s"
  shows "dview dk xs' s' = (dview dk xs s)(a := content c)"
proof
  fix b
  have "q \<noteq> p" if "map_of (items (dcache s) xs) b = Some q" for q
    using map_of_SomeD[OF that] assms(4,5) by (auto simp: sc_inv_def)
  then show "dview dk xs' s' b = ((dview dk xs s)(a := content c)) b"
    using assms(1-3) by (auto simp: dview_def split: option.splits)
qed

lemma Cache_sectors_spec:
  assumes "sc_inv hash dk (n + length bs) xs s" "length bs < 2 ^ 64"
    and "\<forall>i<length bs. map_of (items (dcache s) xs) (a + of_nat i) = None"
    and "write \<or> bs = fetch (dk (dworld s)) a (length bs)"
  shows "\<exists>s' xs'. Cache_sectors hash False disk_rw a write bs s = Some s' \<and> sc_inv hash dk n xs' s' \<and>
    dview dk xs' s' = put (dview dk xs s) a bs \<and> dworld s' = dworld s \<and>
    (\<forall>k p. map_of (items (dcache s) xs) k = Some p \<longrightarrow>
       map_of (items (dcache s') xs') k = Some p \<and> csectors s' p = csectors s p)"
  using assms
proof (induction bs arbitrary: a s xs)
  case Nil
  then show ?case by auto
next
  case (Cons b bs)
  let ?c = "\<lparr>content = b, dirty = write\<rparr>"
  have absent: "map_of (items (dcache s) xs) a = None" using Cons.prems(3)[rule_format, of 0] by simp
  have inv: "sc_inv hash dk (Suc (n + length bs)) xs s" using Cons.prems(1) by simp
  have "\<not> dirty ?c \<longrightarrow> content ?c = dk (dworld s) a" using Cons.prems(4) by auto
  from Cache_sector_spec[OF inv absent this, of disk_rw]
  obtain s1 e p where s1: "Cache_sector hash False disk_rw a ?c s = Some s1" "sc_inv hash dk (n + length bs) (e # xs) s1"
    "items (dcache s1) (e # xs) = (a, p) # items (dcache s) xs" "csectors s1 = (csectors s)(p \<mapsto> ?c)"
    "dworld s1 = dworld s" "csectors s p = None"
    by blast
  have v1: "dview dk (e # xs) s1 = (dview dk xs s)(a := b)"
    using dview_insert[OF s1(3-6) Cons.prems(1)] by simp
  have "\<forall>i<length bs. map_of (items (dcache s1) (e # xs)) (a + 1 + of_nat i) = None"
  proof (intro allI impI)
    fix i assume i: "i < length bs"
    then have "a + 1 + of_nat i \<noteq> a" using of_nat_Suc_neq[of i a] Cons.prems(2) by simp
    moreover have "map_of (items (dcache s) xs) (a + 1 + of_nat i) = None"
      using Cons.prems(3)[rule_format, of "Suc i"] i by (simp add: algebra_simps)
    ultimately show "map_of (items (dcache s1) (e # xs)) (a + 1 + of_nat i) = None" by (simp add: s1(3))
  qed
  moreover have "write \<or> bs = fetch (dk (dworld s1)) (a + 1) (length bs)" using Cons.prems(4) s1(5) by auto
  moreover have "length bs < 2 ^ 64" using Cons.prems(2) by simp
  ultimately obtain s2 xs2 where s2: "Cache_sectors hash False disk_rw (a + 1) write bs s1 = Some s2"
    "sc_inv hash dk n xs2 s2" "dview dk xs2 s2 = put (dview dk (e # xs) s1) (a + 1) bs" "dworld s2 = dworld s1"
    "\<forall>k p. map_of (items (dcache s1) (e # xs)) k = Some p \<longrightarrow>
       map_of (items (dcache s2) xs2) k = Some p \<and> csectors s2 p = csectors s1 p"
    using Cons.IH[OF s1(2)] by blast
  have "map_of (items (dcache s2) xs2) k = Some q \<and> csectors s2 q = csectors s q"
    if "map_of (items (dcache s) xs) k = Some q" for k q
  proof -
    have "k \<noteq> a" using that absent by auto
    moreover have "q \<noteq> p" using map_of_SomeD[OF that] s1(6) Cons.prems(1) by (auto simp: sc_inv_def)
    ultimately show ?thesis using s2(5)[rule_format, of k q] that by (simp add: s1(3,4))
  qed
  then show ?case using s1(1,5) s2(1-4) v1 by (intro exI[of _ s2] exI[of _ xs2]) simp
qed

text \<open>Writing to a cached sector.\<close>

lemma cached_write:
  assumes inv: "sc_inv hash dk n xs s" and hit: "map_of (items (dcache s) xs) a = Some p"
    and c: "csectors s p = Some c"
    and s'_def: "s' = s\<lparr>csectors := (csectors s)(p \<mapsto> c\<lparr>content := b, dirty := True\<rparr>)\<rparr>"
  shows "sc_inv hash dk n xs s'" "dview dk xs s' = (dview dk xs s)(a := b)"
proof -
  let ?l = "items (dcache s) xs"
  have ap: "(a, p) \<in> set ?l" using hit by (rule map_of_SomeD)
  have dst: "distinct (map snd ?l)" using inv by (simp add: sc_inv_def)
  have only: "k = a" if "(k, p) \<in> set ?l" for k
    using inj_onD[of snd "set ?l" "(k, p)" "(a, p)"] dst ap that by (simp add: distinct_map)
  have same: "dcache s' = dcache s" "new_addrs s' = new_addrs s" "dworld s' = dworld s"
    "csectors s' = (csectors s)(p \<mapsto> c\<lparr>content := b, dirty := True\<rparr>)" by (simp_all add: s'_def)
  have "p \<notin> set (new_addrs s)" using inv c unfolding sc_inv_def by (metis option.distinct(1))
  then have 1: "\<forall>q\<in>set (new_addrs s). csectors s' q = None \<and> heap (dcache s) q = None"
    using inv same(4) by (auto simp: sc_inv_def)
  have 2: "\<forall>(k, q)\<in>set ?l. csectors s' q \<noteq> None"
    using inv same(4) by (fastforce simp: sc_inv_def)
  have 3: "content c' = dk (dworld s) k"
    if "(k, q) \<in> set ?l" "csectors s' q = Some c'" "\<not> dirty c'" for k q c'
  proof -
    have "q \<noteq> p" using that(2,3) same(4) by auto
    then have "csectors s q = Some c'" using that(2) same(4) by simp
    then show ?thesis using inv that(1,3) unfolding sc_inv_def by blast
  qed
  show "sc_inv hash dk n xs s'"
    using inv 1 2 3 unfolding sc_inv_def same(1-3) by blast
  show "dview dk xs s' = (dview dk xs s)(a := b)"
  proof
    fix k
    show "dview dk xs s' k = ((dview dk xs s)(a := b)) k"
    proof (cases "k = a")
      case True
      then show ?thesis using hit by (simp add: dview_def same)
    next
      case False
      then have "map_of ?l k \<noteq> Some p" using only map_of_SomeD by metis
      then show ?thesis using False by (auto simp: dview_def same split: option.splits)
    qed
  qed
qed

section \<open>Transparency\<close>

text \<open>The two ways a round ends: no cached sector is left, or the next one is reached.\<close>

lemmas round_simps = Cache_rounds.simps(2) bind.bind_lunit prod.case option.case Let_def not_True_eq_False if_False

lemma round_last:
  assumes "buff \<noteq> []" "Scan hash (length buff) a s = Some (None, k, s1)" "dworld s1 = d"
    and "(if k \<noteq> 0 \<and> \<not> write then disk_rw a (take k buff) False d
          else Some (True, take k buff, d)) = Some (True, un, w)"
    and "Cache_sectors hash critical disk_rw a write un (s1\<lparr>dworld := w\<rparr>) = Some s3"
  shows "Cache_rounds (Suc n) hash critical disk_rw a buff write s = Some (True, un, s3)"
  by (simp only: round_simps assms)

lemma round_next:
  assumes "buff \<noteq> []" "Scan hash (length buff) a s = Some (Some p, k, s1)" "dworld s1 = d"
    and "(if k \<noteq> 0 \<and> \<not> write then disk_rw a (take k buff) False d
          else Some (True, take k buff, d)) = Some (True, un, w)"
    and "Cache_sectors hash critical disk_rw a write un (s1\<lparr>dworld := w\<rparr>) = Some s3"
    and "csectors s3 p = Some c"
    and "Cache_rounds n hash critical disk_rw (a + of_nat (k + 1)) (drop (k + 1) buff) write
      (if write then s3\<lparr>csectors := (csectors s3)(p \<mapsto> c\<lparr>content := if write then buff ! k else content c, dirty := True\<rparr>)\<rparr>
       else s3) = Some (ok, rest, s5)"
  shows "Cache_rounds (Suc n) hash critical disk_rw a buff write s =
    Some (ok, un @ (if write then buff ! k else content c) # rest, s5)"
  by (simp only: round_simps assms)

lemma Cache_rounds_spec:
  assumes dev: "device_ok disk_rw dk"
  shows "sc_inv hash dk (n + length buff) xs s \<Longrightarrow> length buff < 2 ^ 64 \<Longrightarrow> length buff \<le> N \<Longrightarrow>
    out = (if write then buff else fetch (dview dk xs s) a (length buff)) \<Longrightarrow>
    \<exists>s' xs'. Cache_rounds N hash False disk_rw a buff write s = Some (True, out, s') \<and>
      sc_inv hash dk n xs' s' \<and> dview dk xs' s' = put (dview dk xs s) a out"
proof (induction N arbitrary: a buff xs s out)
  case 0
  then show ?case by (intro exI[of _ s] exI[of _ xs]) simp
next
  case (Suc N)
  show ?case
  proof (cases "buff = []")
    case True
    then show ?thesis using Suc.prems by (intro exI[of _ s] exI[of _ xs]) simp
  next
    case False
    let ?m = "length buff"
    obtain r k c xs1 where sc: "Scan hash ?m a s = Some (r, k, s\<lparr>dcache := c\<rparr>)"
      "sc_inv hash dk (n + ?m) xs1 (s\<lparr>dcache := c\<rparr>)" "map_of (items c xs1) = map_of (items (dcache s) xs)" "k \<le> ?m"
      "\<forall>i<k. map_of (items (dcache s) xs) (a + of_nat i) = None" "r = None \<longrightarrow> k = ?m"
      "\<forall>p. r = Some p \<longrightarrow> k < ?m \<and> map_of (items (dcache s) xs) (a + of_nat k) = Some p"
      using Scan_spec[OF Suc.prems(1), of ?m a] by blast
    have v1: "dview dk xs1 (s\<lparr>dcache := c\<rparr>) = dview dk xs s" 
    proof
      fix b
      show "dview dk xs1 (s\<lparr>dcache := c\<rparr>) b = dview dk xs s b"
        using sc(3) by (cases "map_of (items (dcache s) xs) b") (simp_all add: dview_def)
    qed
    let ?un = "if write then take k buff else fetch (dk (dworld s)) a k"
    obtain w where w: "(if k \<noteq> 0 \<and> \<not> write then disk_rw a (take k buff) False (dworld s)
        else Some (True, take k buff, dworld s)) = Some (True, ?un, w)" "dk w = dk (dworld s)"
    proof (cases "k \<noteq> 0 \<and> \<not> write")
      case True
      obtain w' where "disk_rw a (take k buff) False (dworld s)
          = Some (True, fetch (dk (dworld s)) a (length (take k buff)), w')" "dk w' = dk (dworld s)"
        using dev unfolding device_ok_def by blast
      then show ?thesis using True sc(4) by (intro that[of w']) simp_all
    next
      case False
      then show ?thesis using sc(4) by (intro that[of "dworld s"]) auto
    qed
    let ?s2 = "s\<lparr>dcache := c, dworld := w\<rparr>"
    have inv2: "sc_inv hash dk (n + ?m) xs1 ?s2" using sc(2) w(2) by (simp add: sc_inv_def)
    have v2: "dview dk xs1 ?s2 = dview dk xs s" 
    proof
      fix b
      show "dview dk xs1 ?s2 b = dview dk xs s b"
        using sc(3) w(2) by (cases "map_of (items (dcache s) xs) b") (simp_all add: dview_def)
    qed
    have un: "?un = take k out"
    proof (cases "write")
      case False
      have "fetch (dk (dworld s)) a k = fetch (dview dk xs s) a k"
        using sc(5) by (intro fetch_cong) (simp add: dview_def)
      then show ?thesis using False Suc.prems(4) sc(4) by (simp add: take_fetch)
    qed (use Suc.prems(4) in simp)
    have len: "length out = ?m" using Suc.prems(4) by simp
    have lun: "length ?un = k" using sc(4) by simp
    have "n + ?m = (n + (?m - k)) + length ?un" using lun sc(4) by simp
    then have inv2': "sc_inv hash dk ((n + (?m - k)) + length ?un) xs1 ?s2" using inv2 by metis
    have "\<forall>i<length ?un. map_of (items (dcache ?s2) xs1) (a + of_nat i) = None" using sc(3,5) lun by simp
    moreover have "write \<or> ?un = fetch (dk (dworld ?s2)) a (length ?un)" using w(2) by simp
    moreover have "length ?un < 2 ^ 64" using lun sc(4) Suc.prems(2) by simp
    ultimately obtain s3 xs3 where s3: "Cache_sectors hash False disk_rw a write ?un ?s2 = Some s3"
      "sc_inv hash dk (n + (?m - k)) xs3 s3" "dview dk xs3 s3 = put (dview dk xs s) a ?un"
      "\<forall>j p. map_of (items (dcache s) xs) j = Some p \<longrightarrow>
         map_of (items (dcache s3) xs3) j = Some p \<and> csectors s3 p = csectors s p"
      using Cache_sectors_spec[OF inv2', of a "write" disk_rw] v2 sc(3) by auto
    show ?thesis
    proof (cases r)
      case None
      then have k_all: "k = ?m" using sc(6) by simp
      have "Cache_rounds (Suc N) hash False disk_rw a buff write s = Some (True, ?un, s3)"
        by (rule round_last[OF False sc(1)[unfolded None] _ w(1) s3(1)]) simp
      moreover have "?un = out" using un len k_all by simp
      ultimately show ?thesis using s3(2,3) k_all by auto
    next
      case (Some p)
      have k: "k < ?m" and hit: "map_of (items (dcache s) xs) (a + of_nat k) = Some p" using sc(7) Some by auto
      have hit3: "map_of (items (dcache s3) xs3) (a + of_nat k) = Some p" "csectors s3 p = csectors s p"
        using s3(4) hit by auto
      obtain q where q: "csectors s p = Some q"
        using map_of_SomeD[OF hit] Suc.prems(1) by (auto simp: sc_inv_def)
      let ?b = "if write then buff ! k else content q"
      let ?s4 = "if write then s3\<lparr>csectors := (csectors s3)(p \<mapsto> q\<lparr>content := ?b, dirty := True\<rparr>)\<rparr> else s3"
      have b: "?b = out ! k"
      proof (cases "write")
        case False
        then have "out ! k = dview dk xs s (a + of_nat k)" using Suc.prems(4) k by (simp add: nth_fetch)
        then show ?thesis using False hit q by (simp add: dview_def)
      qed (use Suc.prems(4) in simp)
      have view3: "dview dk xs3 s3 (a + of_nat k) = dview dk xs s (a + of_nat k)"
        using hit3 hit by (simp add: dview_def)
      have q3: "csectors s3 p = Some q" using hit3(2) q by simp
      have inv4: "sc_inv hash dk (n + (?m - k)) xs3 ?s4"
        using cached_write(1)[OF s3(2) hit3(1) q3 refl] s3(2) by simp
      have v4: "dview dk xs3 ?s4 = (dview dk xs3 s3)(a + of_nat k := ?b)"
      proof (cases "write")
        case True
        then show ?thesis using cached_write(2)[OF s3(2) hit3(1) q3 refl] by simp
      next
        case False
        have "dview dk xs3 s3 (a + of_nat k) = content q" using hit3(1) q3 by (simp add: dview_def)
        then show ?thesis using False by (simp add: fun_upd_idem)
      qed
      have "n + (?m - k) = (n + length (drop (k + 1) buff)) + 1" using k by simp
      then have inv5: "sc_inv hash dk (n + length (drop (k + 1) buff)) xs3 ?s4"
        using inv4 sc_inv_add[of hash dk _ 1] by metis
      let ?a = "a + of_nat (k + 1)"
      have step: "put (dview dk xs s) a (take (k + 1) out) = dview dk xs3 ?s4"
      proof -
        have "take (k + 1) out = take k out @ [out ! k]" using k len by (simp add: take_Suc_conv_app_nth)
        then show ?thesis using v4 s3(3) un b k len by (simp add: put_append)
      qed
      have tail: "drop (k + 1) out =
        (if write then drop (k + 1) buff else fetch (dview dk xs3 ?s4) ?a (length (drop (k + 1) buff)))"
      proof (cases "write")
        case False
        have "take (k + 1) out = fetch (dview dk xs s) a (k + 1)" using False Suc.prems(4) k by (simp add: take_fetch del: fetch.simps)
        then have "dview dk xs3 ?s4 = dview dk xs s" using step put_fetch[of "dview dk xs s" a "k + 1"] by simp
        moreover have "drop (k + 1) out = fetch (dview dk xs s) ?a (?m - (k + 1))"
          using False Suc.prems(4) k by (simp add: drop_fetch)
        ultimately show ?thesis using False Suc.prems(4) by simp
      qed (use Suc.prems(4) in simp)
      obtain s5 xs5 where s5: "Cache_rounds N hash False disk_rw ?a (drop (k + 1) buff) write ?s4 = Some (True, drop (k + 1) out, s5)"
        "sc_inv hash dk n xs5 s5" "dview dk xs5 s5 = put (dview dk xs3 ?s4) ?a (drop (k + 1) out)"
      proof -
        have "length (drop (k + 1) buff) < 2 ^ 64" "length (drop (k + 1) buff) \<le> N"
          using Suc.prems(2,3) by simp_all
        then show ?thesis using Suc.IH[OF inv5 _ _ tail] that by blast
      qed
      have "out = ?un @ ?b # drop (k + 1) out" using un b k len by (simp add: id_take_nth_drop)
      moreover have "Cache_rounds (Suc N) hash False disk_rw a buff write s = Some (True, ?un @ ?b # drop (k + 1) out, s5)"
        using hit3(2) q by (intro round_next[OF False sc(1)[unfolded Some] _ w(1) s3(1) _ s5(1)]) simp_all
      moreover have "put (dview dk xs s) a out = dview dk xs5 s5"
      proof -
        have "put (dview dk xs s) a (take (k + 1) out @ drop (k + 1) out) =
            put (put (dview dk xs s) a (take (k + 1) out)) (a + of_nat (length (take (k + 1) out))) (drop (k + 1) out)"
          by (rule put_append)
        then show ?thesis using step s5(3) k len by simp
      qed
      ultimately show ?thesis using s5(2) by (intro exI[of _ s5] exI[of _ xs5]) simp
    qed
  qed
qed

text \<open>
  C14: the cache is transparent, as long as memory is not critical, so that no sector is evicted while the run is served
  (\<open>critical\<close> is false), and on a device that performs every transfer at every address:
  \<open>CacheReadWrite\<close> of a run of sectors succeeds; a read returns exactly what the file system last wrote
  there (or the device holds) and changes no sector, a write changes exactly the sectors of the run, and the
  cache stays consistent - whatever mixture of cached, dirty and uncached sectors the run covers.
\<close>
theorem CacheReadWrite_transparent:
  assumes "device_ok disk_rw dk" "sc_inv hash dk (n + length buff) xs s" "length buff < 2 ^ 64"
  shows "\<exists>s' xs'. sc_inv hash dk n xs' s' \<and>
    CacheReadWrite hash False disk_rw a buff write s =
      Some (True, if write then buff else fetch (dview dk xs s) a (length buff), s') \<and>
    dview dk xs' s' = (if write then put (dview dk xs s) a buff else dview dk xs s)"
proof -
  let ?out = "if write then buff else fetch (dview dk xs s) a (length buff)"
  obtain s' xs' where "Cache_rounds (length buff) hash False disk_rw a buff write s = Some (True, ?out, s')"
    "sc_inv hash dk n xs' s'" "dview dk xs' s' = put (dview dk xs s) a ?out"
    using Cache_rounds_spec[OF assms(1-3) order_refl refl, of a "write"] by blast
  then show ?thesis unfolding CacheReadWrite_def
    by (intro exI[of _ s'] exI[of _ xs']) (cases "write", simp_all add: put_fetch)
qed

section \<open>The flush\<close>

text \<open>What the device holds once the entries \<open>es\<close> have been handed to the handler.\<close>

definition written_back :: "('b, 'w) disk_cache \<Rightarrow> (u64 \<times> nat) list \<Rightarrow> (u64 \<Rightarrow> 'b) \<Rightarrow> u64 \<Rightarrow> 'b" where
  "written_back s es f a = (case map_of es a of None \<Rightarrow> f a | Some p \<Rightarrow> content (the (csectors s p)))"

lemma HandleEviction_writes_back:
  assumes "device_ok disk_rw dk" "csectors s p = Some c" "\<not> dirty c \<longrightarrow> content c = dk (dworld s) k"
  shows "\<exists>w. HandleEviction disk_rw k p s = Some (s\<lparr>csectors := (csectors s)(p := None), dworld := w\<rparr>) \<and>
    dk w = (dk (dworld s))(k := content c)"
proof (cases "dirty c")
  case True
  obtain b w where "disk_rw k [content c] True (dworld s) = Some (True, b, w)" "dk w = put (dk (dworld s)) k [content c]"
    using assms(1) unfolding device_ok_def by blast
  then show ?thesis using True assms(2) by (intro exI[of _ w]) (simp add: HandleEviction_def)
next
  case False
  then show ?thesis using assms(2,3) by (intro exI[of _ "dworld s"]) (simp add: HandleEviction_def)
qed

lemma Handle_evictions_dcache: "Handle_evictions disk_rw es s = Some s' \<Longrightarrow> dcache s' = dcache s"
proof (induction es arbitrary: s)
  case (Cons kp es)
  then show ?case
    by (cases kp) (auto simp: HandleEviction_def Option.bind_eq_Some_conv split: if_splits dest!: Cons.IH)
qed simp

lemma Handle_evictions_write_back:
  assumes "device_ok disk_rw dk" "distinct (map fst es)" "distinct (map snd es)"
    and "\<forall>(k, p)\<in>set es. \<exists>c. csectors s p = Some c \<and> (\<not> dirty c \<longrightarrow> content c = dk (dworld s) k)"
  shows "\<exists>s'. Handle_evictions disk_rw es s = Some s' \<and> dk (dworld s') = written_back s es (dk (dworld s))"
  using assms(2-4)
proof (induction es arbitrary: s)
  case Nil
  then show ?case by (simp add: written_back_def fun_eq_iff)
next
  case (Cons kp es)
  obtain k p where kp: "kp = (k, p)" by fastforce
  obtain c where c: "csectors s p = Some c" "\<not> dirty c \<longrightarrow> content c = dk (dworld s) k"
    using Cons.prems(3) kp by auto
  obtain w where w: "HandleEviction disk_rw k p s = Some (s\<lparr>csectors := (csectors s)(p := None), dworld := w\<rparr>)"
    "dk w = (dk (dworld s))(k := content c)"
    using HandleEviction_writes_back[OF assms(1) c] by blast
  let ?s = "s\<lparr>csectors := (csectors s)(p := None), dworld := w\<rparr>"
  have ne: "j \<noteq> k \<and> q \<noteq> p" if "(j, q) \<in> set es" for j q
    using that Cons.prems(1,2) kp by (force simp: rev_image_eqI)
  have "\<exists>s'. Handle_evictions disk_rw es ?s = Some s' \<and> dk (dworld s') = written_back ?s es (dk (dworld ?s))"
  proof (rule Cons.IH)
    show "\<forall>(j, q)\<in>set es. \<exists>c. csectors ?s q = Some c \<and> (\<not> dirty c \<longrightarrow> content c = dk (dworld ?s) j)"
      using Cons.prems(3) ne w(2) by fastforce
  qed (use Cons.prems in simp_all)
  moreover have "written_back ?s es (dk w) = written_back s (kp # es) (dk (dworld s))"
  proof
    fix a
    show "written_back ?s es (dk w) a = written_back s (kp # es) (dk (dworld s)) a"
    proof (cases "map_of es a")
      case None
      then show ?thesis using w(2) c(1) kp by (simp add: written_back_def)
    next
      case (Some q)
      then show ?thesis using ne[OF map_of_SomeD[OF Some]] kp by (simp add: written_back_def)
    qed
  qed
  ultimately show ?case using w(1) kp by simp
qed

text \<open>
  C15: nothing that was written is lost. The flush of the destructor succeeds on a consistent cache and
  leaves the device with exactly the contents the file system saw through the cache.
\<close>
theorem Flush_cache_writes_back:
  assumes "device_ok disk_rw dk" "sc_inv hash dk n xs s"
  shows "\<exists>s'. Flush_cache hash disk_rw s = Some s' \<and> dk (dworld s') = dview dk xs s \<and>
    NumEntries (dcache s') = 0"
proof -
  let ?l = "items (dcache s) xs"
  have lru: "lru_inv hash (dcache s) xs" using assms(2) by (simp add: sc_inv_def)
  have num: "cache_num (dcache s) = length xs" using lru by (simp add: lru_inv_def)
  obtain d where d: "Evict hash (length xs) (dcache s) = Some (length xs, d)" "lru_inv hash d []"
    "evicted d = evicted (dcache s) @ rev ?l"
    using evict_oldest[OF lru, of "length xs"] by auto
  let ?s = "s\<lparr>dcache := d\<rparr>"
  have dist: "distinct (map fst ?l)" "distinct (map snd ?l)"
    using sc_inv_items[OF assms(2)] assms(2) by (simp_all add: sc_inv_def)
  have dist': "distinct (map fst (rev ?l))" "distinct (map snd (rev ?l))"
    using dist by (simp_all add: rev_map[symmetric])
  have "\<forall>(k, p)\<in>set (rev ?l). \<exists>c. csectors ?s p = Some c \<and> (\<not> dirty c \<longrightarrow> content c = dk (dworld ?s) k)"
    using assms(2) by (fastforce simp: sc_inv_def)
  from Handle_evictions_write_back[OF assms(1) dist' this]
  obtain s' where s': "Handle_evictions disk_rw (rev ?l) ?s = Some s'"
    "dk (dworld s') = written_back ?s (rev ?l) (dk (dworld ?s))" by blast
  have m: "map_of (rev ?l) = map_of ?l" by (rule map_of_set_eq[OF dist'(1) dist(1)]) simp
  have "written_back ?s (rev ?l) (dk (dworld ?s)) = dview dk xs s"
  proof
    fix a
    show "written_back ?s (rev ?l) (dk (dworld ?s)) a = dview dk xs s a"
      by (cases "map_of ?l a") (simp_all add: written_back_def dview_def m)
  qed
  moreover have "Flush_cache hash disk_rw s = Some s'"
    using d(1,3) s'(1) num by (simp add: Flush_cache_def Flush_def)
  moreover have "dcache s' = d"
    using Handle_evictions_dcache[OF s'(1)] by simp
  ultimately show ?thesis using s'(2) d(2) by (simp add: NumEntries_def lru_inv_def)
qed

section \<open>Witnesses\<close>

text \<open>A device that is an array of sectors, and the state after construction.\<close>

definition mem_device :: "('b, u64 \<Rightarrow> 'b) device" where
  "mem_device a bs wr w = Some (True, if wr then bs else fetch w a (length bs), if wr then put w a bs else w)"

lemma mem_device_ok: "device_ok mem_device id"
  by (simp add: device_ok_def mem_device_def)

lemma empty_sc_inv:
  "sc_inv hash id 4 [] \<lparr>dcache = LRUCache 16, csectors = Map.empty, new_addrs = [1 ..< 9], dworld = w\<rparr>"
proof -
  have "hm_room 4 (cache_entries (LRUCache 16 :: (u64, nat) cache))"
    unfolding LRUCache_def by (simp, rule hm_room_HashMap) simp_all
  then show ?thesis
    using lru_inv_LRUCache[of 16 hash] by (simp add: sc_inv_def LRUCache_def)
qed

theorem CacheReadWrite_transparent_witness:
  "\<exists>s'. CacheReadWrite ucast False mem_device 5 [0, 0] False
     \<lparr>dcache = LRUCache 16, csectors = Map.empty, new_addrs = [1 ..< 9], dworld = (\<lambda>a :: u64. unat a)\<rparr> =
     Some (True, [5, 6], s')"
proof -
  let ?s = "\<lparr>dcache = LRUCache 16, csectors = Map.empty, new_addrs = [1 ..< 9], dworld = (\<lambda>a :: u64. unat a)\<rparr>"
  have inv: "sc_inv ucast id (2 + length [0, 0 :: nat]) [] ?s" using empty_sc_inv[of ucast unat] by simp
  have "fetch (dview id [] ?s) 5 (length [0, 0 :: nat]) = [5, 6]" by (simp add: dview_def)
  then show ?thesis using CacheReadWrite_transparent[OF mem_device_ok inv, of 5 False] by auto
qed

theorem Flush_cache_writes_back_witness:
  "\<exists>s1 s2. CacheReadWrite ucast False mem_device 5 [70, 80] True
     \<lparr>dcache = LRUCache 16, csectors = Map.empty, new_addrs = [1 ..< 9], dworld = (\<lambda>a :: u64. unat a)\<rparr> =
     Some (True, [70, 80], s1) \<and> Flush_cache ucast mem_device s1 = Some s2 \<and> map (dworld s2) [4, 5, 6, 7] = [4, 70, 80, 7]"
proof -
  let ?s = "\<lparr>dcache = LRUCache 16, csectors = Map.empty, new_addrs = [1 ..< 9], dworld = (\<lambda>a :: u64. unat a)\<rparr> :: (nat, u64 \<Rightarrow> nat) disk_cache"
  have inv: "sc_inv ucast id (2 + length [70, 80 :: nat]) [] ?s" using empty_sc_inv[of ucast unat] by simp
  have "length [70, 80 :: nat] < 2 ^ 64" "length [70, 80 :: nat] \<le> 2" by simp_all
  from Cache_rounds_spec[OF mem_device_ok inv this, of "[70, 80]" True 5]
  obtain s1 xs1 where s1: "Cache_rounds 2 ucast False mem_device 5 [70, 80] True ?s = Some (True, [70, 80], s1)"
    "sc_inv ucast id 2 xs1 s1" "dview id xs1 s1 = put (dview id [] ?s) 5 [70, 80]" by auto
  obtain s2 where "Flush_cache ucast mem_device s1 = Some s2" "dworld s2 = dview id xs1 s1"
    using Flush_cache_writes_back[OF mem_device_ok s1(2)] by auto
  then show ?thesis using s1(1,3) unfolding CacheReadWrite_def
    by (intro exI[of _ s1] exI[of _ s2]) (simp add: dview_def numeral_2_eq_2[symmetric] del: Cache_rounds.simps)
qed

end
