(* ===== verification/Byte_Codec.thy ===== *)
theory Byte_Codec
  imports Prelude
begin

text \<open>
  The representation of integers in memory and on disk: little endian, as the processor reads packed
  structures.
\<close>

fun le_num :: "u8 list \<Rightarrow> nat" where
  "le_num [] = 0"
| "le_num (b # bs) = unat b + 256 * le_num bs"

fun le_bytes :: "nat \<Rightarrow> nat \<Rightarrow> u8 list" where
  "le_bytes 0 v = []"
| "le_bytes (Suc n) v = of_nat (v mod 256) # le_bytes n (v div 256)"

definition field :: "nat \<Rightarrow> nat \<Rightarrow> u8 list \<Rightarrow> nat" where
  "field off len bytes = le_num (take len (drop off bytes))"

text \<open>Overwriting the bytes from an offset on.\<close>

definition patch :: "nat \<Rightarrow> u8 list \<Rightarrow> u8 list \<Rightarrow> u8 list" where
  "patch off new bytes = take off bytes @ new @ drop (off + length new) bytes"

lemma length_le_bytes [simp]: "length (le_bytes n v) = n"
  by (induction n arbitrary: v) simp_all

lemma le_num_bytes [simp]: "le_num (le_bytes n v) = v mod 256 ^ n"
proof (induction n arbitrary: v)
  case (Suc n)
  have "v mod 256 + 256 * (v div 256 mod 256 ^ n) = v mod (256 * 256 ^ n)"
    by (simp add: mod_mult2_eq)
  then show ?case using Suc by (simp add: unat_of_nat)
qed simp

lemma le_num_less: "le_num bs < 256 ^ length bs"
proof (induction bs)
  case (Cons b bs)
  have "unat b < 256" using unsigned_less[of b, where 'a = nat] by simp
  then show ?case using Cons by simp
qed simp

lemma le_bytes_num [simp]: "le_bytes (length bs) (le_num bs) = bs"
proof (induction bs)
  case (Cons b bs)
  have b: "unat b < 256" using unsigned_less[of b, where 'a = nat] by simp
  then have "(unat b + 256 * le_num bs) mod 256 = unat b" "(unat b + 256 * le_num bs) div 256 = le_num bs" by simp_all
  then show ?case using Cons by simp
qed simp

lemma length_patch [simp]: "off + length new \<le> length bytes \<Longrightarrow> length (patch off new bytes) = length bytes"
  by (simp add: patch_def)

lemma patch_read: "off + length new \<le> length bytes \<Longrightarrow> take (length new) (drop off (patch off new bytes)) = new"
  by (simp add: patch_def)

lemma patch_nth:
  "off + length new \<le> length bytes \<Longrightarrow> i < length bytes \<Longrightarrow>
     patch off new bytes ! i = (if off \<le> i \<and> i < off + length new then new ! (i - off) else bytes ! i)"
  by (auto simp: patch_def nth_append)

lemma patch_outside:
  assumes "off + length new \<le> length bytes" "k + n \<le> off \<or> off + length new \<le> k" "k + n \<le> length bytes"
  shows "take n (drop k (patch off new bytes)) = take n (drop k bytes)"
  using assms by (intro nth_equalityI) (auto simp: patch_nth)

section \<open>Arrays\<close>

text \<open>A buffer as an array of elements of \<open>k\<close> bytes.\<close>

definition chunks :: "nat \<Rightarrow> u8 list \<Rightarrow> u8 list list" where
  "chunks k bytes = map (\<lambda>i. take k (drop (k * i) bytes)) [0..<length bytes div k]"

definition u32s :: "u8 list \<Rightarrow> u32 list" where
  "u32s bytes = map (\<lambda>c. of_nat (le_num c)) (chunks 4 bytes)"

definition u32_bytes :: "u32 list \<Rightarrow> u8 list" where
  "u32_bytes ws = concat (map (\<lambda>w. le_bytes 4 (unat w)) ws)"

definition u64s :: "u8 list \<Rightarrow> u64 list" where
  "u64s bytes = map (\<lambda>c. of_nat (le_num c)) (chunks 8 bytes)"

definition u64_bytes :: "u64 list \<Rightarrow> u8 list" where
  "u64_bytes ws = concat (map (\<lambda>w. le_bytes 8 (unat w)) ws)"

lemma take_drop_concat:
  "\<forall>x\<in>set xss. length x = k \<Longrightarrow> i < length xss \<Longrightarrow> take k (drop (k * i) (concat xss)) = xss ! i"
proof (induction xss arbitrary: i)
  case (Cons x xss)
  then show ?case by (cases i) simp_all
qed simp

lemma length_concat_uniform: "\<forall>x\<in>set xss. length x = k \<Longrightarrow> length (concat xss) = k * length xss"
  by (induction xss) simp_all

lemma chunks_concat:
  assumes "0 < k" "\<forall>x\<in>set xss. length x = k"
  shows "chunks k (concat xss) = xss"
proof -
  have "length (concat xss) div k = length xss" using length_concat_uniform[OF assms(2)] assms(1) by simp
  then show ?thesis
    using take_drop_concat[OF assms(2)] by (intro nth_equalityI) (simp_all add: chunks_def)
qed

lemma length_chunks [simp]: "length (chunks k bytes) = length bytes div k"
  by (simp add: chunks_def)

lemma length_chunk: "x \<in> set (chunks k bytes) \<Longrightarrow> length x = k"
proof -
  assume "x \<in> set (chunks k bytes)"
  then obtain i where i: "i < length bytes div k" "x = take k (drop (k * i) bytes)" by (auto simp: chunks_def)
  have "k * Suc i \<le> k * (length bytes div k)" using i(1) by (intro mult_le_mono2) simp
  also have "\<dots> \<le> length bytes" by simp
  finally have "k \<le> length bytes - k * i" by simp
  then show ?thesis using i(2) by (simp add: min_absorb2)
qed

lemma chunks_Cons: "0 < k \<Longrightarrow> k \<le> length bytes \<Longrightarrow> chunks k bytes = take k bytes # chunks k (drop k bytes)"
proof -
  assume k: "0 < k" "k \<le> length bytes"
  have "length bytes div k = Suc (length (drop k bytes) div k)" using k by (simp add: le_div_geq)
  then have "[0..<length bytes div k] = 0 # map Suc [0..<length (drop k bytes) div k]"
    by (simp only: map_Suc_upt upt_conv_Cons[of 0] zero_less_Suc)
  then show ?thesis by (simp add: chunks_def add.commute)
qed

lemma concat_chunks: "0 < k \<Longrightarrow> k dvd length bytes \<Longrightarrow> concat (chunks k bytes) = bytes"
proof (induction "length bytes div k" arbitrary: bytes)
  case 0
  then show ?case by (auto simp: chunks_def elim!: dvdE)
next
  case (Suc n)
  then have le: "k \<le> length bytes" by (metis div_less nat.distinct(1) not_less)
  have "n = length (drop k bytes) div k" using Suc.hyps(2) Suc.prems le by (simp add: le_div_geq)
  then have "concat (chunks k (drop k bytes)) = drop k bytes"
    using Suc.hyps(1)[of "drop k bytes"] Suc.prems le by simp
  then show ?case using chunks_Cons[OF Suc.prems(1) le] by simp
qed

lemma take_drop_uniform:
  assumes "\<forall>x\<in>set xss. length x = k"
  shows "take (k * n) (concat xss) = concat (take n xss)" "drop (k * n) (concat xss) = concat (drop n xss)"
  using assms
proof (induction n arbitrary: xss)
  case (Suc n)
  {
    case 1
    then show ?case using Suc(1)[of "tl xss"] by (cases xss) auto
  next
    case 2
    then show ?case using Suc(2)[of "tl xss"] by (cases xss) auto
  }
qed simp_all

lemma concat_slice:
  assumes "0 < k" "k dvd length bytes"
  shows "concat (take n (drop i (chunks k bytes))) = take (k * n) (drop (k * i) bytes)"
proof -
  have u: "\<forall>x\<in>set (chunks k bytes). length x = k" using length_chunk by blast
  then have "\<forall>x\<in>set (drop i (chunks k bytes)). length x = k" by (meson in_set_dropD)
  from take_drop_uniform(1)[OF this] take_drop_uniform(2)[OF u] concat_chunks[OF assms] show ?thesis by metis
qed

lemma u32s_bytes [simp]: "u32s (u32_bytes ws) = ws"
  by (simp add: u32s_def u32_bytes_def chunks_concat o_def unsigned_less[where 'a = nat, of "_ :: u32", simplified])

lemma u64s_bytes [simp]: "u64s (u64_bytes ws) = ws"
  by (simp add: u64s_def u64_bytes_def chunks_concat o_def unsigned_less[where 'a = nat, of "_ :: u64", simplified])

lemma length_u32_bytes [simp]: "length (u32_bytes ws) = 4 * length ws"
  using length_concat_uniform[of "map (\<lambda>w. le_bytes 4 (unat w)) ws" 4] by (simp add: u32_bytes_def)

lemma length_u64_bytes [simp]: "length (u64_bytes ws) = 8 * length ws"
  using length_concat_uniform[of "map (\<lambda>w. le_bytes 8 (unat w)) ws" 8] by (simp add: u64_bytes_def)

lemma length_u32s [simp]: "length (u32s bytes) = length bytes div 4"
  by (simp add: u32s_def)

lemma length_u64s [simp]: "length (u64s bytes) = length bytes div 8"
  by (simp add: u64s_def)

lemma u32_bytes_u32s: "4 dvd length bytes \<Longrightarrow> u32_bytes (u32s bytes) = bytes"
proof -
  assume d: "4 dvd length bytes"
  have "le_bytes 4 (unat (of_nat (le_num c) :: u32)) = c" if "c \<in> set (chunks 4 bytes)" for c
  proof -
    have "length c = 4" using that by (rule length_chunk)
    then have "le_num c < 2 ^ 32" "le_bytes 4 (le_num c) = c" using le_num_less[of c] le_bytes_num[of c] by simp_all
    then show ?thesis by (simp add: unat_of_nat)
  qed
  then have "map (\<lambda>c. le_bytes 4 (unat (of_nat (le_num c) :: u32))) (chunks 4 bytes) = chunks 4 bytes"
    by (intro map_idI)
  then show ?thesis using concat_chunks[of 4 bytes] d by (simp add: u32_bytes_def u32s_def o_def)
qed

end
