(* ===== verification/Gpt.thy ===== *)
theory Gpt
  imports Sector_Cache Sata_Port Byte_Codec
begin

text \<open>
  \<open>SATAPort::ReadGPT\<close> of \<open>src/sys/sata_port.cpp\<close> and the structures of \<open>src/sys/sata_port.h\<close> it reads
  (packed, little endian). A sector is the list of its bytes; the reads go through the sector cache.
  \<open>junk\<close> is what the buffers of the kernel heap hold before they are filled.
\<close>

record gpt_header =
  signature :: nat
  entry_arr_lba :: nat
  num_part_entries :: nat
  entry_size :: nat

definition GPT_MAGIC :: nat where "GPT_MAGIC = 0x5452415020494645"

definition parse_header :: "u8 list \<Rightarrow> gpt_header" where
  "parse_header bytes =
     \<lparr>signature = field 0 8 bytes, entry_arr_lba = field 72 8 bytes, num_part_entries = field 80 4 bytes,
      entry_size = field 84 4 bytes\<rparr>"

record gpt_entry =
  part_type_guid_lo :: u64
  part_type_guid_hi :: u64
  uniq_part_guid :: "u8 list"
  start_lba :: u64
  end_lba :: u64
  attrs :: u64

definition parse_entry :: "u8 list \<Rightarrow> gpt_entry" where
  "parse_entry bytes =
     \<lparr>part_type_guid_lo = of_nat (field 0 8 bytes), part_type_guid_hi = of_nat (field 8 8 bytes),
      uniq_part_guid = take 16 (drop 16 bytes), start_lba = of_nat (field 32 8 bytes), end_lba = of_nat (field 40 8 bytes),
      attrs = of_nat (field 48 8 bytes)\<rparr>"

text \<open>The size of the array is a product of 32-bit integers.\<close>

definition entry_sectors :: "gpt_header \<Rightarrow> nat" where
  "entry_sectors h =
     (let arr_size = (num_part_entries h * entry_size h) mod 2 ^ 32
      in arr_size div SECTOR_SIZE + (if arr_size mod SECTOR_SIZE > 0 then 1 else 0))"

text \<open>
  \<open>Read\<close> into a new buffer of the kernel heap: null when the transfer fails or there is no buffer. \<open>alloc\<close> gives the
  buffer for a number of sectors; for no bytes the heap returns null.
\<close>

definition Read_new ::
  "(u64 \<Rightarrow> u32) \<Rightarrow> bool \<Rightarrow> (u8 list, 'w) device \<Rightarrow> (nat \<Rightarrow> u8 list list option) \<Rightarrow> u64 \<Rightarrow> nat \<Rightarrow> (u8 list, 'w) disk_cache \<Rightarrow>
   (u8 list list option \<times> (u8 list, 'w) disk_cache) option" where
  "Read_new hash critical disk_rw alloc disk_addr num_sectors s =
     (case (if num_sectors = 0 then None else alloc num_sectors) of
        None \<Rightarrow> Some (None, s)
      | Some buff \<Rightarrow>
          do { (ok, b, s) \<leftarrow> CacheReadWrite hash critical disk_rw disk_addr buff False s;
               Some (if ok then Some b else None, s) })"

text \<open>
  The header is read without a check that the read succeeded (no result); that of the entries is
  stored as it is: a failed read or an empty table leaves a null pointer.
\<close>

type_synonym gpt_table = "gpt_header \<times> u8 list list option"

definition ReadGPT ::
  "(u64 \<Rightarrow> u32) \<Rightarrow> bool \<Rightarrow> (u8 list, 'w) device \<Rightarrow> (nat \<Rightarrow> u8 list list option) \<Rightarrow> (u8 list, 'w) disk_cache \<Rightarrow>
   (gpt_table option \<times> (u8 list, 'w) disk_cache) option" where
  "ReadGPT hash critical disk_rw alloc s =
     do { (lba1, s) \<leftarrow> Read_new hash critical disk_rw alloc 1 1 s;
          sector \<leftarrow> lba1;
          let h = parse_header (concat sector);
          if signature h \<noteq> GPT_MAGIC then Some (None, s)
          else do { (entry_arr, s) \<leftarrow> Read_new hash critical disk_rw alloc (of_nat (entry_arr_lba h)) (entry_sectors h) s;
                    Some (Some (h, entry_arr), s) } }"

section \<open>The partitions of a table\<close>

text \<open>
  \<open>*(GPTEntry *) (entries_ + entry_size_ * i)\<close>: 56 bytes at a 64-bit offset. No result: the pointer is null or the entry
  is read over the end of the buffer.
\<close>

definition gpt_entry_at :: "gpt_table \<Rightarrow> nat \<Rightarrow> gpt_entry option" where
  "gpt_entry_at gpt i =
     do { sectors \<leftarrow> snd gpt;
          let off = entry_size (fst gpt) * i mod 2 ^ 64;
          if length (concat sectors) < off + 56 then None else Some (parse_entry (drop off (concat sectors))) }"

definition GetNthPartition :: "nat \<Rightarrow> gpt_table \<Rightarrow> gpt_entry option option" where
  "GetNthPartition n gpt =
     (if n < num_part_entries (fst gpt) then Some None else map_option Some (gpt_entry_at gpt n))"

fun FindPartition_from :: "u64 \<Rightarrow> u64 \<Rightarrow> gpt_table \<Rightarrow> nat list \<Rightarrow> gpt_entry option option" where
  "FindPartition_from lo hi gpt [] = Some None"
| "FindPartition_from lo hi gpt (i # is) =
     do { entry \<leftarrow> gpt_entry_at gpt i;
          if lo = part_type_guid_lo entry \<and> hi = part_type_guid_hi entry then Some (Some entry)
          else FindPartition_from lo hi gpt is }"

definition FindPartition :: "u64 \<Rightarrow> u64 \<Rightarrow> gpt_table \<Rightarrow> gpt_entry option option" where
  "FindPartition part_guid_lo part_guid_hi gpt =
     FindPartition_from part_guid_lo part_guid_hi gpt [0..<num_part_entries (fst gpt)]"

fun Ranges_from :: "gpt_entry \<Rightarrow> gpt_table \<Rightarrow> nat list \<Rightarrow> (u64 \<times> u64) list option" where
  "Ranges_from part gpt [] = Some []"
| "Ranges_from part gpt (i # is) =
     do { entry \<leftarrow> gpt_entry_at gpt i;
          ranges \<leftarrow> Ranges_from part gpt is;
          Some (if uniq_part_guid part = uniq_part_guid entry
                then (start_lba entry, end_lba entry - start_lba entry) # ranges else ranges) }"

definition GetPartitionRanges :: "gpt_entry \<Rightarrow> gpt_table \<Rightarrow> (u64 \<times> u64) list option" where
  "GetPartitionRanges part gpt = Ranges_from part gpt [0..<num_part_entries (fst gpt)]"

section \<open>What is found\<close>

lemma Read_new_0: "Read_new hash critical disk_rw alloc a 0 s = Some (None, s)"
  by (simp add: Read_new_def)

lemma Read_new_spec:
  assumes "device_ok disk_rw dk" "sc_inv hash dk (n + k) xs s" "k < 2 ^ 64" "0 < k" "alloc k = Some buff" "length buff = k"
  obtains s' xs' where "Read_new hash False disk_rw alloc a k s = Some (Some (fetch (dview dk xs s) a k), s')"
    "sc_inv hash dk n xs' s'" "dview dk xs' s' = dview dk xs s"
proof -
  let ?out = "fetch (dview dk xs s) a (length buff)"
  have "sc_inv hash dk (n + length buff) xs s" "length buff < 2 ^ 64" using assms by simp_all
  from Cache_rounds_spec[OF assms(1) this order_refl, of ?out False a] obtain s' xs' where
    "Cache_rounds (length buff) hash False disk_rw a buff False s = Some (True, ?out, s')"
    "sc_inv hash dk n xs' s'" "dview dk xs' s' = put (dview dk xs s) a ?out" by auto
  then show thesis using that assms(4-6) by (simp add: Read_new_def CacheReadWrite_def put_fetch)
qed

text \<open>
  C16: the partition table found at boot is the one on the disk. While memory is not critical, with buffers from the
  heap and a device that performs every transfer, \<open>ReadGPT\<close> looks at sector 1; without the signature it finds nothing, with
  it it returns the header and the sectors of the entry array as the file system sees them (a null pointer for an empty
  array), and neither read changes a sector.
\<close>
theorem ReadGPT_finds_table:
  assumes "device_ok disk_rw dk" "sc_inv hash dk (n + entry_sectors h + 1) xs s" "h = parse_header (dview dk xs s 1)"
    and "\<And>k. 0 < k \<Longrightarrow> k \<le> 2 ^ 23 \<Longrightarrow> \<exists>buff. alloc k = Some buff \<and> length buff = k"
  shows "\<exists>s' xs'. sc_inv hash dk n xs' s' \<and> dview dk xs' s' = dview dk xs s \<and>
    ReadGPT hash False disk_rw alloc s =
      Some (if signature h \<noteq> GPT_MAGIC then None
            else if entry_sectors h = 0 then Some (h, None)
            else Some (h, Some (fetch (dview dk xs s) (of_nat (entry_arr_lba h)) (entry_sectors h))), s')"
proof -
  let ?k = "entry_sectors h"
  have "(num_part_entries h * entry_size h) mod 2 ^ 32 div SECTOR_SIZE \<le> (2 ^ 32 - 1) div 512"
    unfolding SECTOR_SIZE_def by (intro div_le_mono) (simp add: less_Suc_eq_le[symmetric])
  then have k: "?k \<le> 2 ^ 23" by (simp add: entry_sectors_def Let_def)
  obtain b1 where b1: "alloc 1 = Some b1" "length b1 = 1" using assms(4)[of 1] by auto
  have one: "1 < (2::nat) ^ 64" "0 < (1::nat)" by simp_all
  obtain s1 xs1 where r1: "Read_new hash False disk_rw alloc 1 1 s = Some (Some [dview dk xs s 1], s1)"
    "sc_inv hash dk (n + ?k) xs1 s1" "dview dk xs1 s1 = dview dk xs s"
    by (rule Read_new_spec[where alloc = alloc and k = 1 and n = "n + ?k" and a = 1, OF assms(1,2) one b1]) auto
  consider (none) "signature h \<noteq> GPT_MAGIC" | (empty) "signature h = GPT_MAGIC" "?k = 0" | (table) "signature h = GPT_MAGIC" "0 < ?k" by auto
  then show ?thesis
  proof cases
    case none
    then have "ReadGPT hash False disk_rw alloc s = Some (None, s1)" using r1(1) assms(3) by (simp add: ReadGPT_def)
    then show ?thesis using r1(2,3) none sc_inv_add by (intro exI[of _ s1] exI[of _ xs1]) auto
  next
    case empty
    then have "ReadGPT hash False disk_rw alloc s = Some (Some (h, None), s1)"
      using r1(1) assms(3)[symmetric] by (simp add: ReadGPT_def Read_new_0)
    then show ?thesis using r1(2,3) empty by (intro exI[of _ s1] exI[of _ xs1]) simp
  next
    case table
    obtain b2 where b2: "alloc ?k = Some b2" "length b2 = ?k" using assms(4)[OF table(2) k] by blast
    have "?k < 2 ^ 64" using k by simp
    then obtain s2 xs2 where r2: "Read_new hash False disk_rw alloc (of_nat (entry_arr_lba h)) ?k s1 =
        Some (Some (fetch (dview dk xs s) (of_nat (entry_arr_lba h)) ?k), s2)"
      "sc_inv hash dk n xs2 s2" "dview dk xs2 s2 = dview dk xs s"
      using Read_new_spec[where alloc = alloc, OF assms(1) r1(2) _ table(2) b2, of "of_nat (entry_arr_lba h)"] r1(3) by metis
    have "ReadGPT hash False disk_rw alloc s =
        Some (Some (h, Some (fetch (dview dk xs s) (of_nat (entry_arr_lba h)) ?k)), s2)"
      using r1(1) r2(1) table assms(3)[symmetric] by (simp add: ReadGPT_def)
    then show ?thesis using r2(2,3) table by (intro exI[of _ s2] exI[of _ xs2]) simp
  qed
qed

section \<open>Which partitions are found\<close>

text \<open>A table whose entries lie in the buffer.\<close>

definition gpt_ok :: "gpt_header \<Rightarrow> u8 list list \<Rightarrow> bool" where
  "gpt_ok h sectors \<longleftrightarrow> 56 \<le> entry_size h \<and> num_part_entries h * entry_size h \<le> length (concat sectors) \<and>
     length (concat sectors) < 2 ^ 64"

lemma gpt_entry_at_ok:
  assumes "gpt_ok h sectors" "i < num_part_entries h"
  shows "gpt_entry_at (h, Some sectors) i = Some (parse_entry (drop (entry_size h * i) (concat sectors)))"
proof -
  have "entry_size h * (i + 1) \<le> entry_size h * num_part_entries h" using assms(2) by (intro mult_le_mono) simp_all
  then have "entry_size h * i + 56 \<le> length (concat sectors)" "entry_size h * i < 2 ^ 64" using assms(1) by (simp_all add: gpt_ok_def mult.commute)
  then show ?thesis by (simp add: gpt_entry_at_def)
qed

lemma FindPartition_first:
  assumes "gpt_ok h sectors"
  shows "FindPartition lo hi (h, Some sectors) =
    Some (find (\<lambda>e. lo = part_type_guid_lo e \<and> hi = part_type_guid_hi e)
            (map (\<lambda>i. parse_entry (drop (entry_size h * i) (concat sectors))) [0..<num_part_entries h]))"
proof -
  have "FindPartition_from lo hi (h, Some sectors) is =
      Some (find (\<lambda>e. lo = part_type_guid_lo e \<and> hi = part_type_guid_hi e)
              (map (\<lambda>i. parse_entry (drop (entry_size h * i) (concat sectors))) is))"
    if "set is \<subseteq> {..<num_part_entries h}" for "is"
    using that by (induction "is") (simp_all add: gpt_entry_at_ok[OF assms])
  then show ?thesis by (simp add: FindPartition_def subset_eq)
qed

text \<open>
  The guard of \<open>GetNthPartition\<close> is inverted: no number of a partition of the table has an entry, and when the table
  fills its sectors every other number is read over the end of the buffer.
\<close>
theorem GetNthPartition_never:
  assumes "length (concat sectors) = num_part_entries h * entry_size h" "n * entry_size h < 2 ^ 64"
  shows "GetNthPartition n (h, Some sectors) = (if n < num_part_entries h then Some None else None)"
proof (cases "n < num_part_entries h")
  case False
  then have "entry_size h * num_part_entries h \<le> n * entry_size h" by (subst mult.commute) (intro mult_le_mono, simp_all)
  then have "entry_size h * num_part_entries h < n * entry_size h + 56" by linarith
  then have "gpt_entry_at (h, Some sectors) n = None" using assms by (simp add: gpt_entry_at_def mult.commute Let_def)
  then show ?thesis using False by (simp add: GetNthPartition_def)
qed (simp add: GetNthPartition_def)

text \<open>A disk with a table of one entry in sector 2.\<close>

definition demo_disk :: "u64 \<Rightarrow> u8 list" where
  "demo_disk a =
     (if a = 1 then [0x45, 0x46, 0x49, 0x20, 0x50, 0x41, 0x52, 0x54] @ replicate 64 0 @ [2, 0, 0, 0, 0, 0, 0, 0] @
                    [1, 0, 0, 0] @ [128, 0, 0, 0] @ replicate 424 0
      else if a = 2 then replicate 32 7 @ [34, 0, 0, 0, 0, 0, 0, 0] @ [66, 0, 0, 0, 0, 0, 0, 0] @ replicate 464 0
      else replicate 512 0)"

lemma demo_header:
  "parse_header (demo_disk 1) = \<lparr>signature = GPT_MAGIC, entry_arr_lba = 2, num_part_entries = 1, entry_size = 128\<rparr>"
  by (simp add: parse_header_def field_def demo_disk_def GPT_MAGIC_def drop_append take_append)

lemma demo_entry: "map_option start_lba (gpt_entry_at (parse_header (demo_disk 1), Some [demo_disk 2]) 0) = Some 34"
  unfolding demo_header by (simp add: gpt_entry_at_def parse_entry_def field_def demo_disk_def)

theorem ReadGPT_finds_table_witness:
  "\<exists>s' h. ReadGPT ucast False mem_device (\<lambda>k. Some (replicate k []))
      \<lparr>dcache = LRUCache 16, csectors = Map.empty, new_addrs = [1 ..< 9], dworld = demo_disk\<rparr> =
      Some (Some (h, Some [demo_disk 2]), s') \<and> map_option start_lba (gpt_entry_at (h, Some [demo_disk 2]) 0) = Some 34"
proof -
  let ?s = "\<lparr>dcache = LRUCache 16, csectors = Map.empty, new_addrs = [1 ..< 9], dworld = demo_disk\<rparr>"
  let ?h = "parse_header (demo_disk 1)"
  have v: "dview id [] ?s = demo_disk" by (simp add: dview_def fun_eq_iff)
  have k: "entry_sectors ?h = 1" by (simp add: demo_header entry_sectors_def SECTOR_SIZE_def)
  have inv: "sc_inv ucast id (2 + entry_sectors ?h + 1) [] ?s" using empty_sc_inv[of ucast demo_disk] k by simp
  have h: "?h = parse_header (dview id [] ?s 1)" unfolding v ..
  have alloc: "\<exists>buff. Some (replicate k []) = Some buff \<and> length buff = k" for k :: nat by simp
  have "signature ?h = GPT_MAGIC" "of_nat (entry_arr_lba ?h) = (2 :: u64)" by (simp_all add: demo_header)
  then show ?thesis using ReadGPT_finds_table[OF mem_device_ok inv h alloc, unfolded v k] demo_entry
    by auto
qed

end
