(* ===== verification/Ext2_Mount.thy ===== *)
theory Ext2_Mount
  imports Disk_Runs Byte_Codec "HOL-Library.Monad_Syntax"
begin

text \<open>
  \<open>src/sys/fs/ext2_mount.cpp\<close>: a mounted ext2 file system, without the operations on single files
  (\<open>Ext2_VNode\<close>). The disk is what the sector cache of the port shows (\<open>Sector_Cache\<close>): a function from
  sector numbers to sectors of 512 bytes; \<open>io lba n wr\<close> says whether a transfer succeeds.

  A \<open>DiskMem\<close> is a buffer with the address it was read from; its destructor writes it back, so every
  operation that holds one ends with \<open>DiskMem_WriteBack\<close>. The caches of bitmaps and inode tables are
  maps from block groups to buffers (\<open>Lru_Cache\<close> with no eviction), those of pinned vnodes are maps
  too (\<open>Hash_Map\<close>). \<open>vnodes\<close> are the vnode objects by address. Super blocks with a zero group or block
  size, on which the divisions trap, are not considered.
\<close>

unbundle bit_operations_syntax

section \<open>Structures\<close>

record super_block =
  s_blocks_count :: u32
  s_free_inodes_count :: u32
  s_log_block_size :: u32
  s_blocks_per_group :: u32
  s_inodes_per_group :: u32
  s_inode_size :: u16
  s_feature_compat :: u32
  s_prealloc_blocks :: u8
  s_prealloc_dir_blocks :: u8

definition parse_super :: "u8 list \<Rightarrow> super_block" where
  "parse_super b =
     \<lparr>s_blocks_count = of_nat (field 4 4 b), s_free_inodes_count = of_nat (field 16 4 b),
      s_log_block_size = of_nat (field 24 4 b), s_blocks_per_group = of_nat (field 32 4 b),
      s_inodes_per_group = of_nat (field 40 4 b), s_inode_size = of_nat (field 88 2 b),
      s_feature_compat = of_nat (field 92 4 b), s_prealloc_blocks = of_nat (field 144 1 b),
      s_prealloc_dir_blocks = of_nat (field 145 1 b)\<rparr>"

record group_desc =
  bg_block_bitmap :: u32
  bg_inode_bitmap :: u32
  bg_inode_table :: u32
  bg_free_blocks_count :: u16
  bg_free_inodes_count :: u16
  bg_rest :: "u8 list"

definition parse_group :: "u8 list \<Rightarrow> group_desc" where
  "parse_group b =
     \<lparr>bg_block_bitmap = of_nat (field 0 4 b), bg_inode_bitmap = of_nat (field 4 4 b),
      bg_inode_table = of_nat (field 8 4 b), bg_free_blocks_count = of_nat (field 12 2 b),
      bg_free_inodes_count = of_nat (field 14 2 b), bg_rest = take 16 (drop 16 b)\<rparr>"

definition group_bytes :: "group_desc \<Rightarrow> u8 list" where
  "group_bytes g =
     le_bytes 4 (unat (bg_block_bitmap g)) @ le_bytes 4 (unat (bg_inode_bitmap g)) @
     le_bytes 4 (unat (bg_inode_table g)) @ le_bytes 2 (unat (bg_free_blocks_count g)) @
     le_bytes 2 (unat (bg_free_inodes_count g)) @ bg_rest g"

record inode =
  i_mode :: u16
  i_uid :: u16
  i_size :: u32
  i_times :: "u8 list"
  i_gid :: u16
  i_links_count :: u16
  i_blocks :: u32
  i_flags_osd1 :: "u8 list"
  i_block :: "u32 list"
  i_tail :: "u8 list"

text \<open>
  \<open>i_times\<close> are the four time stamps, \<open>i_flags_osd1\<close> the words \<open>i_flags\<close> and \<open>i_osd1\<close>, \<open>i_tail\<close> the fields from
  \<open>i_generation\<close> on; the code only copies them.
\<close>

definition parse_inode :: "u8 list \<Rightarrow> inode" where
  "parse_inode b =
     \<lparr>i_mode = of_nat (field 0 2 b), i_uid = of_nat (field 2 2 b), i_size = of_nat (field 4 4 b),
      i_times = take 16 (drop 8 b), i_gid = of_nat (field 24 2 b), i_links_count = of_nat (field 26 2 b),
      i_blocks = of_nat (field 28 4 b), i_flags_osd1 = take 8 (drop 32 b),
      i_block = u32s (take 60 (drop 40 b)), i_tail = take 28 (drop 100 b)\<rparr>"

definition inode_bytes :: "inode \<Rightarrow> u8 list" where
  "inode_bytes i =
     le_bytes 2 (unat (i_mode i)) @ le_bytes 2 (unat (i_uid i)) @ le_bytes 4 (unat (i_size i)) @
     i_times i @ le_bytes 2 (unat (i_gid i)) @ le_bytes 2 (unat (i_links_count i)) @
     le_bytes 4 (unat (i_blocks i)) @ i_flags_osd1 i @ u32_bytes (i_block i) @ i_tail i"

definition zero_inode :: inode where
  "zero_inode = \<lparr>i_mode = 0, i_uid = 0, i_size = 0, i_times = replicate 16 0, i_gid = 0, i_links_count = 0,
     i_blocks = 0, i_flags_osd1 = replicate 8 0, i_block = replicate 15 0, i_tail = replicate 28 0\<rparr>"

record vnode =
  inode_of :: inode
  ino :: u32

text \<open>A \<open>DiskMem\<close>: base sector, number of sectors, contents.\<close>

record disk_mem =
  base_sector :: u64
  num_sectors :: nat
  raw :: "u8 list"

record ext2 =
  partition_base_sector :: u64
  super :: super_block
  block_size :: u32
  sectors_per_block :: u32
  bgdt_base :: u64
  bgdt :: "nat \<Rightarrow> group_desc"
  inode_tab_cache :: "u32 \<rightharpoonup> disk_mem"
  inode_bmap_cache :: "u32 \<rightharpoonup> disk_mem"
  block_bmap_cache :: "u32 \<rightharpoonup> disk_mem"
  pinned_vnodes :: "u32 \<rightharpoonup> nat"
  num_pins :: "u32 \<rightharpoonup> nat"
  vnodes :: "nat \<rightharpoonup> vnode"
  disk :: "u64 \<Rightarrow> u8 list"
  io :: "u64 \<Rightarrow> nat \<Rightarrow> bool \<Rightarrow> bool"

section \<open>Blocks\<close>

definition disk_Read :: "u64 \<Rightarrow> nat \<Rightarrow> ext2 \<Rightarrow> u8 list option" where
  "disk_Read lba n s = (if io s lba n False then Some (concat (fetch (disk s) lba n)) else None)"

text \<open>The overload that allocates the buffer: the kernel heap returns null for a buffer of no bytes.\<close>

definition disk_Read_new :: "u64 \<Rightarrow> nat \<Rightarrow> ext2 \<Rightarrow> u8 list option" where
  "disk_Read_new lba n s = (if n = 0 then None else disk_Read lba n s)"

definition disk_Write :: "u64 \<Rightarrow> nat \<Rightarrow> u8 list \<Rightarrow> ext2 \<Rightarrow> bool \<times> ext2" where
  "disk_Write lba n bytes s =
     (if io s lba n True then (True, s\<lparr>disk := put (disk s) lba (take n (chunks 512 bytes))\<rparr>) else (False, s))"

definition block_lba :: "ext2 \<Rightarrow> u32 \<Rightarrow> u64" where
  "block_lba s block = partition_base_sector s + 2 + ucast ((block - 1) * sectors_per_block s)"

definition block_sectors :: "ext2 \<Rightarrow> nat \<Rightarrow> nat" where
  "block_sectors s num_blocks = unat (of_nat num_blocks * sectors_per_block s)"

text \<open>The overload that fills a buffer of the caller, and the one that allocates: only the first refuses block 0.\<close>

definition ReadBlock :: "u32 \<Rightarrow> ext2 \<Rightarrow> u8 list option" where
  "ReadBlock block s =
     (if block = 0 then None else disk_Read (block_lba s block) (block_sectors s 1) s)"

definition ReadBlock_new :: "u32 \<Rightarrow> ext2 \<Rightarrow> u8 list option" where
  "ReadBlock_new block s = disk_Read_new (block_lba s block) (block_sectors s 1) s"

definition WriteBlock :: "u8 list \<Rightarrow> u32 \<Rightarrow> ext2 \<Rightarrow> bool \<times> ext2" where
  "WriteBlock buff block s =
     (if block = 0 then (False, s) else disk_Write (block_lba s block) (block_sectors s 1) buff s)"

text \<open>
  \<open>ReadBlocks\<close> and \<open>WriteBlocks\<close> of a list of extents (first block, number of blocks), one transfer per
  extent, stopping at the first failure.
\<close>

type_synonym extent = "u32 \<times> u32"

definition extent_range :: "ext2 \<Rightarrow> extent \<Rightarrow> u64 \<times> nat" where
  "extent_range s e = (block_lba s (fst e), unat (snd e * sectors_per_block s))"

fun disk_Read_ranges :: "(u64 \<times> nat) list \<Rightarrow> ext2 \<Rightarrow> u8 list option" where
  "disk_Read_ranges [] s = Some []"
| "disk_Read_ranges ((lba, n) # rs) s =
     do { b \<leftarrow> disk_Read lba n s; bs \<leftarrow> disk_Read_ranges rs s; Some (b @ bs) }"

fun disk_Write_ranges :: "(u64 \<times> nat) list \<Rightarrow> u8 list \<Rightarrow> ext2 \<Rightarrow> bool \<times> ext2" where
  "disk_Write_ranges [] buff s = (True, s)"
| "disk_Write_ranges ((lba, n) # rs) buff s =
     (case disk_Write lba n buff s of
        (True, s) \<Rightarrow> disk_Write_ranges rs (drop (512 * n) buff) s
      | (False, s) \<Rightarrow> (False, s))"

definition ReadBlocks :: "extent list \<Rightarrow> ext2 \<Rightarrow> u8 list option" where
  "ReadBlocks extents s = disk_Read_ranges (map (extent_range s) extents) s"

definition WriteBlocks :: "extent list \<Rightarrow> u8 list \<Rightarrow> ext2 \<Rightarrow> bool \<times> ext2" where
  "WriteBlocks extents buff s = disk_Write_ranges (map (extent_range s) extents) buff s"

definition DiskMem_WriteBack :: "disk_mem \<Rightarrow> ext2 \<Rightarrow> ext2" where
  "DiskMem_WriteBack m s = snd (disk_Write (base_sector m) (num_sectors m) (raw m) s)"

definition DiskMem :: "u64 \<Rightarrow> nat \<Rightarrow> ext2 \<Rightarrow> disk_mem option" where
  "DiskMem base n s =
     map_option (\<lambda>b. \<lparr>base_sector = base, num_sectors = n, raw = b\<rparr>) (disk_Read_new base n s)"

definition GetPreallocBlocks :: "ext2 \<Rightarrow> u8" where
  "GetPreallocBlocks s = s_prealloc_blocks (super s)"

definition GetPreallocDirBlocks :: "ext2 \<Rightarrow> u8" where
  "GetPreallocDirBlocks s = s_prealloc_dir_blocks (super s) * ucast (s_feature_compat (super s) AND 1)"

text \<open>
  The constructor: the super block is one sector, the descriptors follow in the next block (for blocks
  of 2 KiB or more: at the third sector). No result: a null pointer is followed.
\<close>

definition Ext2Mount ::
  "u64 \<Rightarrow> (u64 \<Rightarrow> u8 list) \<Rightarrow> (u64 \<Rightarrow> nat \<Rightarrow> bool \<Rightarrow> bool) \<Rightarrow> ext2 option" where
  "Ext2Mount base dk io_ok =
     (let s = \<lparr>partition_base_sector = base, super = parse_super [], block_size = 0, sectors_per_block = 0,
               bgdt_base = 0, bgdt = (\<lambda>_. parse_group []), inode_tab_cache = Map.empty,
               inode_bmap_cache = Map.empty, block_bmap_cache = Map.empty, pinned_vnodes = Map.empty,
               num_pins = Map.empty, vnodes = Map.empty, disk = dk, io = io_ok\<rparr>
      in do { b \<leftarrow> disk_Read_new (base + 2) 1 s;
              let sb = parse_super b;
              let bs = push_bit (unat (s_log_block_size sb) mod 32) 1024;
              let spb = bs div 512;
              let gb = base + 2 + (if bs \<ge> 2048 then 1 else 2);
              g \<leftarrow> disk_Read_new gb (unat spb) s;
              Some (s\<lparr>super := sb, block_size := bs, sectors_per_block := spb, bgdt_base := gb,
                      bgdt := (\<lambda>i. parse_group (take 32 (drop (32 * i) g)))\<rparr>) })"

text \<open>The descriptor table is itself a \<open>DiskMem\<close> of one block.\<close>

definition bgdt_mem :: "ext2 \<Rightarrow> disk_mem" where
  "bgdt_mem s = \<lparr>base_sector = bgdt_base s, num_sectors = unat (sectors_per_block s),
     raw = concat (map (\<lambda>i. group_bytes (bgdt s i)) [0..<16 * unat (sectors_per_block s)])\<rparr>"

section \<open>Inodes\<close>

text \<open>Group, index in the group, block of the inode table and offset in that block.\<close>

definition inode_group :: "ext2 \<Rightarrow> u32 \<Rightarrow> u32" where
  "inode_group s i = (i - 1) div s_inodes_per_group (super s)"

definition inode_local :: "ext2 \<Rightarrow> u32 \<Rightarrow> u32" where
  "inode_local s i = (i - 1) mod s_inodes_per_group (super s)"

definition inode_tab_block :: "ext2 \<Rightarrow> u32 \<Rightarrow> u32" where
  "inode_tab_block s i =
     bg_inode_table (bgdt s (unat (inode_group s i))) +
     (inode_local s i * ucast (s_inode_size (super s))) div block_size s"

definition inode_tab_off :: "ext2 \<Rightarrow> u32 \<Rightarrow> nat" where
  "inode_tab_off s i = unat ((inode_local s i * ucast (s_inode_size (super s))) mod block_size s)"

definition ReadINode :: "u32 \<Rightarrow> ext2 \<Rightarrow> inode option" where
  "ReadINode i s =
     do { tab \<leftarrow> ReadBlock_new (inode_tab_block s i) s;
          Some (parse_inode (take 128 (drop (inode_tab_off s i) tab))) }"

definition WriteINode :: "u32 \<Rightarrow> inode \<Rightarrow> ext2 \<Rightarrow> bool \<times> ext2" where
  "WriteINode i n s =
     (case ReadBlock_new (inode_tab_block s i) s of
        None \<Rightarrow> (False, s)
      | Some tab \<Rightarrow> WriteBlock (patch (inode_tab_off s i) (inode_bytes n) tab) (inode_tab_block s i) s)"

text \<open>The used part of a group's inode table, cached by group.\<close>

definition inode_tab_sectors :: "ext2 \<Rightarrow> u32 \<Rightarrow> nat" where
  "inode_tab_sectors s g =
     (let free_inodes = unat (bg_free_inodes_count (bgdt s (unat g)));
          used_inodes = (unat (s_inodes_per_group (super s)) + 2 ^ 64 - free_inodes) mod 2 ^ 64;
          tab_size = used_inodes * unat (s_inode_size (super s)) mod 2 ^ 64;
          blk = unat (block_size s);
          tab_blks = tab_size div blk + (if tab_size mod blk > 0 then 1 else 0)
      in tab_blks * unat (sectors_per_block s))"

definition ReadINodeTable :: "u32 \<Rightarrow> ext2 \<Rightarrow> disk_mem option \<times> ext2" where
  "ReadINodeTable g s =
     (case inode_tab_cache s g of
        Some m \<Rightarrow> (Some m, s)
      | None \<Rightarrow>
          (case DiskMem (block_lba s (bg_inode_table (bgdt s (unat g)))) (inode_tab_sectors s g) s of
             Some m \<Rightarrow> (Some m, s\<lparr>inode_tab_cache := (inode_tab_cache s)(g \<mapsto> m)\<rparr>)
           | None \<Rightarrow> (None, s)))"

text \<open>A new vnode object at the address \<open>a\<close> the allocator returns.\<close>

definition new_vnode :: "nat \<Rightarrow> vnode \<Rightarrow> ext2 \<Rightarrow> ext2" where
  "new_vnode a v s = s\<lparr>vnodes := (vnodes s)(a \<mapsto> v)\<rparr>"

text \<open>
  The offset in the cached table is a product of 32-bit integers. No result: the inode is read over the end of the
  table.
\<close>

definition ReadVNode :: "nat \<Rightarrow> u32 \<Rightarrow> ext2 \<Rightarrow> (nat option \<times> ext2) option" where
  "ReadVNode a i s =
     (case ReadINodeTable (inode_group s i) s of
        (None, s) \<Rightarrow> Some (None, s)
      | (Some m, s) \<Rightarrow>
          (let off = unat (inode_local s i * ucast (s_inode_size (super s)));
               n = parse_inode (take 128 (drop off (raw m)))
           in if length (raw m) < off + 128 then None
              else Some (Some a, DiskMem_WriteBack m (new_vnode a \<lparr>inode_of = n, ino = i\<rparr> s))))"

definition ReadRootDir :: "nat \<Rightarrow> ext2 \<Rightarrow> (nat option \<times> ext2) option" where
  "ReadRootDir a s = ReadVNode a 2 s"

section \<open>Allocation\<close>

definition ReadINodeBitmap :: "u32 \<Rightarrow> ext2 \<Rightarrow> disk_mem option \<times> ext2" where
  "ReadINodeBitmap g s =
     (case inode_bmap_cache s g of
        Some m \<Rightarrow> (Some m, s)
      | None \<Rightarrow>
          (case DiskMem (block_lba s (bg_inode_bitmap (bgdt s (unat g)))) (unat (sectors_per_block s)) s of
             Some m \<Rightarrow> (Some m, s\<lparr>inode_bmap_cache := (inode_bmap_cache s)(g \<mapsto> m)\<rparr>)
           | None \<Rightarrow> (None, s)))"

definition ReadBlockBitmap :: "u32 \<Rightarrow> ext2 \<Rightarrow> disk_mem option \<times> ext2" where
  "ReadBlockBitmap g s =
     (case block_bmap_cache s g of
        Some m \<Rightarrow> (Some m, s)
      | None \<Rightarrow>
          (case DiskMem (block_lba s (bg_block_bitmap (bgdt s (unat g)))) (unat (sectors_per_block s)) s of
             Some m \<Rightarrow> (Some m, s\<lparr>block_bmap_cache := (block_bmap_cache s)(g \<mapsto> m)\<rparr>)
           | None \<Rightarrow> (None, s)))"

text \<open>
  The cached buffer is shared by all copies of the \<open>DiskMem\<close>: a store through one of them changes what
  the cache holds.
\<close>

definition set_inode_bmap :: "u32 \<Rightarrow> u64 list \<Rightarrow> disk_mem \<Rightarrow> ext2 \<Rightarrow> ext2" where
  "set_inode_bmap g ws m s =
     (let m = m\<lparr>raw := u64_bytes ws\<rparr>
      in DiskMem_WriteBack m (s\<lparr>inode_bmap_cache := (inode_bmap_cache s)(g \<mapsto> m)\<rparr>))"

definition set_block_bmap :: "u32 \<Rightarrow> u64 list \<Rightarrow> disk_mem \<Rightarrow> ext2 \<Rightarrow> ext2" where
  "set_block_bmap g ws m s =
     (let m = m\<lparr>raw := u64_bytes ws\<rparr>
      in DiskMem_WriteBack m (s\<lparr>block_bmap_cache := (block_bmap_cache s)(g \<mapsto> m)\<rparr>))"

text \<open>
  The search of both allocators: the first word that is not full, and in it \<open>__builtin_ffsll\<close> of the
  complement (1 for the lowest bit, 0 when no bit is set). In the very first word bit 0 counts as used.
\<close>

definition ffsll :: "u64 \<Rightarrow> nat" where
  "ffsll x = (case List.find (bit x) [0..<64] of Some i \<Rightarrow> i + 1 | None \<Rightarrow> 0)"

definition free_word :: "nat \<Rightarrow> u64 list \<Rightarrow> nat option" where
  "free_word n ws = List.find (\<lambda>j. ws ! j \<noteq> - 1) [0..<n]"

definition unset_bit :: "nat \<Rightarrow> nat \<Rightarrow> u64 \<Rightarrow> nat" where
  "unset_bit i j w = ffsll (if i = 0 \<and> j = 0 then NOT (w OR 1) else NOT w)"

text \<open>\<open>w |= 1ULL << (unset - 1)\<close>, the count modulo 64.\<close>

definition mark_bit :: "nat \<Rightarrow> u64 \<Rightarrow> u64" where
  "mark_bit unset w = w OR push_bit ((unset + 63) mod 64) 1"

definition words_per_block :: "ext2 \<Rightarrow> nat" where
  "words_per_block s = unat (block_size s) div 8"

definition no_bgroups :: "ext2 \<Rightarrow> nat" where
  "no_bgroups s = unat (s_blocks_count (super s) div s_blocks_per_group (super s))"

text \<open>The loop over the groups; \<open>n\<close> groups are left, \<open>i\<close> is the next one.\<close>

fun Alloc_inode_loop :: "nat \<Rightarrow> nat \<Rightarrow> ext2 \<Rightarrow> nat option \<times> ext2" where
  "Alloc_inode_loop 0 i s = (None, s)"
| "Alloc_inode_loop (Suc n) i s =
     (if bg_free_inodes_count (bgdt s i) \<noteq> 0
      then (case ReadINodeBitmap (of_nat i) s of
              (None, s) \<Rightarrow> Alloc_inode_loop n (i + 1) s
            | (Some m, s) \<Rightarrow>
                (let ws = u64s (raw m)
                 in case free_word (words_per_block s) ws of
                      None \<Rightarrow> Alloc_inode_loop n (i + 1) (DiskMem_WriteBack m s)
                    | Some j \<Rightarrow>
                        (let unset = unset_bit i j (ws ! j);
                             free_inode = unat (of_nat i * s_inodes_per_group (super s)) + j * 64 + unset;
                             g = (bgdt s i)\<lparr>bg_free_inodes_count := bg_free_inodes_count (bgdt s i) - 1\<rparr>;
                             s = s\<lparr>bgdt := (bgdt s)(i := g),
                                   super := (super s)\<lparr>s_free_inodes_count := s_free_inodes_count (super s) - 1\<rparr>\<rparr>;
                             s = DiskMem_WriteBack (bgdt_mem s) s
                         in (Some free_inode, set_inode_bmap (of_nat i) (ws[j := mark_bit unset (ws ! j)]) m s))))
      else Alloc_inode_loop n (i + 1) s)"

definition AllocVNode :: "nat \<Rightarrow> u16 \<Rightarrow> u16 \<Rightarrow> u16 \<Rightarrow> u16 \<Rightarrow> ext2 \<Rightarrow> nat option \<times> ext2" where
  "AllocVNode a type perms uid gid s =
     (case Alloc_inode_loop (no_bgroups s) 0 s of
        (None, s) \<Rightarrow> (None, s)
      | (Some free_inode, s) \<Rightarrow>
          (Some a, new_vnode a
             \<lparr>inode_of = zero_inode\<lparr>i_mode := type OR (if perms > 0x1FF then 0 else perms),
                                   i_links_count := 1, i_uid := uid, i_gid := gid\<rparr>,
              ino = of_nat free_inode\<rparr> s))"

fun Alloc_block_loop :: "nat \<Rightarrow> nat \<Rightarrow> ext2 \<Rightarrow> nat option \<times> ext2" where
  "Alloc_block_loop 0 i s = (None, s)"
| "Alloc_block_loop (Suc n) i s =
     (if bg_free_blocks_count (bgdt s i) \<noteq> 0
      then (case ReadBlockBitmap (of_nat i) s of
              (None, s) \<Rightarrow> Alloc_block_loop n (i + 1) s
            | (Some m, s) \<Rightarrow>
                (let ws = u64s (raw m)
                 in case free_word (words_per_block s) ws of
                      None \<Rightarrow> Alloc_block_loop n (i + 1) (DiskMem_WriteBack m s)
                    | Some j \<Rightarrow>
                        (let unset = unset_bit i j (ws ! j);
                             free_block = unat (of_nat i * s_blocks_per_group (super s)) + j * 64 + unset;
                             s = set_block_bmap (of_nat i) (ws[j := mark_bit unset (ws ! j)]) m s;
                             g = (bgdt s i)\<lparr>bg_free_blocks_count := bg_free_blocks_count (bgdt s i) - 1\<rparr>
                         in (Some free_block, s\<lparr>bgdt := (bgdt s)(i := g)\<rparr>))))
      else Alloc_block_loop n (i + 1) s)"

definition AllocBlock :: "ext2 \<Rightarrow> u32 option \<times> ext2" where
  "AllocBlock s =
     (case Alloc_block_loop (no_bgroups s) 0 s of
        (None, s) \<Rightarrow> (None, s)
      | (Some free_block, s) \<Rightarrow> (Some (of_nat (free_block + 1)), s))"

text \<open>\<open>bmap[local_ind / 64] &= ~(1ULL << (local_ind % 64))\<close>\<close>

definition clear_bit :: "nat \<Rightarrow> u64 list \<Rightarrow> u64 list" where
  "clear_bit k ws = ws[k div 64 := ws ! (k div 64) AND NOT (push_bit (k mod 64) 1)]"

definition DeleteINode :: "u32 \<Rightarrow> ext2 \<Rightarrow> bool \<times> ext2" where
  "DeleteINode i s =
     (case ReadINodeBitmap (inode_group s i) s of
        (Some m, s) \<Rightarrow> (True, set_inode_bmap (inode_group s i) (clear_bit (unat (inode_local s i)) (u64s (raw m))) m s)
      | (None, s) \<Rightarrow> (False, s))"

definition FreeBlock :: "u32 \<Rightarrow> ext2 \<Rightarrow> bool \<times> ext2" where
  "FreeBlock block_no s =
     (let block_group = (block_no - 1) div s_blocks_per_group (super s);
          local_ind = (block_no - 1) mod s_blocks_per_group (super s)
      in case ReadBlockBitmap block_group s of
           (Some m, s) \<Rightarrow> (True, set_block_bmap block_group (clear_bit (unat local_ind) (u64s (raw m))) m s)
         | (None, s) \<Rightarrow> (False, s))"

section \<open>Pinned vnodes\<close>

text \<open>\<open>operator[]\<close> of a key that is not in the map writes outside the map: no result.\<close>

definition Pin :: "nat \<Rightarrow> ext2 \<Rightarrow> ext2 option" where
  "Pin a s =
     do { v \<leftarrow> vnodes s a;
          case pinned_vnodes s (ino v) of
            Some _ \<Rightarrow> do { n \<leftarrow> num_pins s (ino v); Some (s\<lparr>num_pins := (num_pins s)(ino v \<mapsto> n + 1)\<rparr>) }
          | None \<Rightarrow> Some (s\<lparr>num_pins := (if num_pins s (ino v) = None then (num_pins s)(ino v \<mapsto> 1) else num_pins s),
                           pinned_vnodes := (pinned_vnodes s)(ino v \<mapsto> a)\<rparr>) }"

definition Unpin :: "u32 \<Rightarrow> ext2 \<Rightarrow> ext2" where
  "Unpin i s =
     (case num_pins s i of
        None \<Rightarrow> s
      | Some n \<Rightarrow>
          if n = 1 then s\<lparr>num_pins := (num_pins s)(i := None), pinned_vnodes := (pinned_vnodes s)(i := None)\<rparr>
          else s\<lparr>num_pins := (num_pins s)(i \<mapsto> (n + 2 ^ 64 - 1) mod 2 ^ 64)\<rparr>)"

definition GetVNode :: "nat \<Rightarrow> u32 \<Rightarrow> ext2 \<Rightarrow> (nat option \<times> ext2) option" where
  "GetVNode a i s =
     (case pinned_vnodes s i of
        Some v \<Rightarrow> do { n \<leftarrow> num_pins s i; Some (Some v, s\<lparr>num_pins := (num_pins s)(i \<mapsto> n + 1)\<rparr>) }
      | None \<Rightarrow> ReadVNode a i s)"

end
