(* ===== verification/Ext2_Theorems.thy ===== *)
theory Ext2_Theorems
  imports Ext2_Mount
begin

text \<open>
  Properties of the mounted file system: the encoding of inodes, reading back what was written,
  the stale inode tables, the two allocators, the pins.
\<close>

section \<open>Encodings\<close>

definition wf_inode :: "inode \<Rightarrow> bool" where
  "wf_inode i \<longleftrightarrow> length (i_times i) = 16 \<and> length (i_flags_osd1 i) = 8 \<and> length (i_block i) = 15 \<and> length (i_tail i) = 28"

lemma length_inode_bytes: "wf_inode i \<Longrightarrow> length (inode_bytes i) = 128"
  by (simp add: wf_inode_def inode_bytes_def)

lemma unat_word_bytes [simp]:
  "unat (w :: u16) mod 65536 = unat w" "unat (v :: u32) mod 4294967296 = unat v"
  using unsigned_less[of w, where 'a = nat] unsigned_less[of v, where 'a = nat] by simp_all

lemma parse_inode_bytes: "wf_inode i \<Longrightarrow> parse_inode (inode_bytes i) = i"
  by (cases i) (simp add: wf_inode_def parse_inode_def inode_bytes_def field_def drop_append take_append)

definition wf_group :: "group_desc \<Rightarrow> bool" where
  "wf_group g \<longleftrightarrow> length (bg_rest g) = 16"

lemma length_group_bytes: "wf_group g \<Longrightarrow> length (group_bytes g) = 32"
  by (simp add: wf_group_def group_bytes_def)

lemma parse_group_bytes: "wf_group g \<Longrightarrow> parse_group (group_bytes g) = g"
  by (cases g) (simp add: wf_group_def parse_group_def group_bytes_def field_def drop_append take_append)

section \<open>Blocks\<close>

text \<open>Sectors have 512 bytes, blocks a whole number of sectors; addresses of valid blocks do not wrap.\<close>

definition mount_ok :: "ext2 \<Rightarrow> bool" where
  "mount_ok s \<longleftrightarrow> (\<forall>a. length (disk s a) = 512) \<and> 0 < unat (sectors_per_block s) \<and>
     unat (block_size s) = 512 * unat (sectors_per_block s)"

definition valid_block :: "ext2 \<Rightarrow> u32 \<Rightarrow> bool" where
  "valid_block s b \<longleftrightarrow> b \<noteq> 0 \<and> (unat b - 1) * unat (sectors_per_block s) < 2 ^ 32"

lemma block_sectors_1 [simp]: "block_sectors s 1 = unat (sectors_per_block s)" "block_sectors s (Suc 0) = unat (sectors_per_block s)"
  by (simp_all add: block_sectors_def)

lemma block_lba_valid:
  assumes "valid_block s b"
  shows "block_lba s b = partition_base_sector s + 2 + of_nat ((unat b - 1) * unat (sectors_per_block s))"
proof -
  have b: "b \<noteq> 0" "(unat b - 1) * unat (sectors_per_block s) < 2 ^ 32" using assms by (simp_all add: valid_block_def)
  have "unat ((b - 1) * sectors_per_block s) = (unat b - 1) * unat (sectors_per_block s)"
    using b by (simp add: unat_mult_lem[THEN iffD1] unat_minus_one)
  then have "(ucast ((b - 1) * sectors_per_block s) :: u64) = of_nat ((unat b - 1) * unat (sectors_per_block s))"
    by (metis of_nat_unat)
  then show ?thesis by (simp add: block_lba_def)
qed

lemma unat_neg_of_nat: "0 < d \<Longrightarrow> d < 2 ^ 64 \<Longrightarrow> unat (- of_nat d :: u64) = 2 ^ 64 - d"
proof -
  assume d: "0 < d" "d < 2 ^ 64"
  have "(of_nat (2 ^ 64 - d) :: u64) + of_nat d = of_nat (2 ^ 64)" using d by (simp flip: of_nat_add)
  also have "\<dots> = 0" by simp
  finally have "(- of_nat d :: u64) = of_nat (2 ^ 64 - d)" by (simp add: eq_neg_iff_add_eq_0[symmetric])
  moreover have "2 ^ 64 - d < 2 ^ 64" using d by simp
  ultimately show ?thesis by (simp add: unat_of_nat)
qed

lemma block_disjoint:
  assumes "valid_block s b" "valid_block s c" "b \<noteq> c" "i < unat (sectors_per_block s)"
  shows "unat (sectors_per_block s) \<le> unat (block_lba s c + of_nat i - block_lba s b)"
proof -
  let ?n = "unat (sectors_per_block s)"
  let ?B = "(unat b - 1) * ?n" and ?C = "(unat c - 1) * ?n"
  have lim: "?B < 2 ^ 32" "?C < 2 ^ 32" "?n < 2 ^ 32"
    using assms(1,2) unsigned_less[of "sectors_per_block s", where 'a = nat] by (simp_all add: valid_block_def)
  have pos: "0 < unat b" "0 < unat c" using assms(1,2) by (simp_all add: valid_block_def unat_gt_0)
  have eq: "block_lba s c + of_nat i - block_lba s b = of_nat (?C + i) - (of_nat ?B :: u64)"
    by (simp add: block_lba_valid[OF assms(1)] block_lba_valid[OF assms(2)])
  show ?thesis
  proof (cases "unat b < unat c")
    case True
    then have "?B + ?n \<le> ?C"
      using pos by (metis Suc_diff_1 Suc_leI Suc_less_eq add.commute mult_Suc mult_le_mono1)
    then have "(of_nat (?C + i) :: u64) - of_nat ?B = of_nat (?C + i - ?B)" "?n \<le> ?C + i - ?B" by (simp_all add: of_nat_diff)
    moreover have "?C + i < 2 ^ 32 + 2 ^ 32" using lim assms(4) by linarith
    ultimately show ?thesis unfolding eq by (simp add: unat_of_nat)
  next
    case False
    moreover have "unat b \<noteq> unat c" using assms(3) by (simp add: word_unat_eq_iff)
    ultimately have "unat c < unat b" by simp
    then have le: "?C + ?n \<le> ?B"
      using pos by (metis Suc_diff_1 Suc_leI Suc_less_eq add.commute mult_Suc mult_le_mono1)
    then have d: "0 < ?B - (?C + i)" "?B - (?C + i) < 2 ^ 32" using lim assms(4) by linarith+
    have "(of_nat (?C + i) :: u64) - of_nat ?B = - of_nat (?B - (?C + i))"
      using le assms(4) by (simp add: of_nat_diff)
    moreover have "unat (- of_nat (?B - (?C + i)) :: u64) = 2 ^ 64 - (?B - (?C + i))"
    proof (rule unat_neg_of_nat[OF d(1)])
      show "?B - (?C + i) < 2 ^ 64" using d(2) by (rule less_trans) simp
    qed
    moreover have "?n \<le> 2 ^ 64 - (?B - (?C + i))" using d(2) lim(3) by simp
    ultimately show ?thesis unfolding eq by metis
  qed
qed

lemma disk_Write_eq:
  assumes "disk_Write lba n bytes s = (True, s')"
  shows "s' = s\<lparr>disk := put (disk s) lba (take n (chunks 512 bytes))\<rparr>" "io s lba n True"
  using assms by (simp_all add: disk_Write_def split: if_splits)

lemma mount_ok_write:
  assumes "mount_ok s" "disk_Write lba n bytes s = (ok, s')" "512 * n \<le> length bytes" "n < 2 ^ 64"
  shows "mount_ok s'"
proof -
  have "length (put (disk s) lba (take n (chunks 512 bytes)) a) = 512" for a
  proof -
    let ?k = "unat (a - lba)"
    have len: "length (take n (chunks 512 bytes)) < 2 ^ 64" using assms(4) by simp
    have "length (take n (chunks 512 bytes) ! ?k) = 512" if "?k < length (take n (chunks 512 bytes))"
      using in_set_takeD[OF nth_mem[OF that]] by (rule length_chunk)
    then show ?thesis using assms(1) unfolding put_at[OF len] by (simp add: mount_ok_def)
  qed
  then show ?thesis using assms(1,2) by (auto simp: disk_Write_def mount_ok_def split: if_splits)
qed

text \<open>A block that has been written reads back, the other blocks are as before.\<close>

lemma read_written:
  assumes "WriteBlock buff b s = (True, s')" "length buff = 512 * unat (sectors_per_block s)"
  shows "concat (fetch (disk s') (block_lba s b) (unat (sectors_per_block s))) = buff"
proof -
  let ?n = "unat (sectors_per_block s)"
  have n: "?n < 2 ^ 64" using unsigned_less[of "sectors_per_block s", where 'a = nat] by simp
  have len: "length (take ?n (chunks 512 buff)) = ?n" using assms(2) by simp
  have "disk s' = put (disk s) (block_lba s b) (take ?n (chunks 512 buff))"
    using assms(1) by (auto simp: WriteBlock_def disk_Write_def split: if_splits)
  then have "fetch (disk s') (block_lba s b) ?n = take ?n (chunks 512 buff)"
    using fetch_put_same[of "take ?n (chunks 512 buff)" "disk s" "block_lba s b"] n len by simp
  moreover have "take ?n (chunks 512 buff) = chunks 512 buff" using assms(2) by simp
  ultimately show ?thesis using concat_chunks[of 512 buff] assms(2) by simp
qed

lemma read_other_block:
  assumes "disk_Write (block_lba s b) (unat (sectors_per_block s)) bytes s = (ok, s')"
    and "valid_block s b" "valid_block s c" "b \<noteq> c"
  shows "fetch (disk s') (block_lba s c) (unat (sectors_per_block s)) = fetch (disk s) (block_lba s c) (unat (sectors_per_block s))"
proof -
  let ?n = "unat (sectors_per_block s)"
  have n: "?n < 2 ^ 64" using unsigned_less[of "sectors_per_block s", where 'a = nat] by simp
  have "fetch (put (disk s) (block_lba s b) (take ?n (chunks 512 bytes))) (block_lba s c) ?n = fetch (disk s) (block_lba s c) ?n"
    using n block_disjoint[OF assms(2-4)]
    by (intro fetch_put_other) (auto intro: order_trans[OF min.cobounded2] simp: min_le_iff_disj)
  then show ?thesis using assms(1) by (auto simp: disk_Write_def split: if_splits)
qed

section \<open>Inodes\<close>

text \<open>
  The slot of an inode is a valid block and an offset at which 128 bytes fit; two slots are apart when the
  blocks differ or the offsets do by at least 128 (the offsets are multiples of the inode size).
\<close>

definition inode_slot_ok :: "ext2 \<Rightarrow> u32 \<Rightarrow> bool" where
  "inode_slot_ok s i \<longleftrightarrow> valid_block s (inode_tab_block s i) \<and> inode_tab_off s i + 128 \<le> unat (block_size s)"

definition slots_apart :: "ext2 \<Rightarrow> u32 \<Rightarrow> u32 \<Rightarrow> bool" where
  "slots_apart s i k \<longleftrightarrow> inode_tab_block s i \<noteq> inode_tab_block s k \<or>
     inode_tab_off s i + 128 \<le> inode_tab_off s k \<or> inode_tab_off s k + 128 \<le> inode_tab_off s i"

text \<open>Operations that only change the disk leave the geometry alone.\<close>

lemma geometry_disk [simp]:
  "block_lba (s\<lparr>disk := d\<rparr>) b = block_lba s b" "inode_tab_block (s\<lparr>disk := d\<rparr>) i = inode_tab_block s i"
  "inode_tab_off (s\<lparr>disk := d\<rparr>) i = inode_tab_off s i" "block_sectors (s\<lparr>disk := d\<rparr>) n = block_sectors s n"
  "inode_group (s\<lparr>disk := d\<rparr>) i = inode_group s i" "inode_local (s\<lparr>disk := d\<rparr>) i = inode_local s i"
  by (simp_all add: block_lba_def inode_tab_block_def inode_tab_off_def block_sectors_def inode_group_def inode_local_def)

lemma length_block:
  assumes "mount_ok s"
  shows "length (concat (fetch (disk s) a n)) = 512 * n"
proof -
  have "\<forall>x\<in>set (fetch (disk s) a n). length x = 512"
    using assms by (induction n arbitrary: a) (auto simp: mount_ok_def)
  from length_concat_uniform[OF this] show ?thesis by simp
qed

lemma WriteINode_block:
  assumes ok: "mount_ok s" and slot: "inode_slot_ok s i" and wf: "wf_inode n" and wr: "WriteINode i n s = (True, s')"
  defines "b \<equiv> inode_tab_block s i" and "k \<equiv> unat (sectors_per_block s)"
  defines "tab \<equiv> concat (fetch (disk s) (block_lba s b) k)"
  shows "s' = s\<lparr>disk := disk s'\<rparr>" "concat (fetch (disk s') (block_lba s b) k) = patch (inode_tab_off s i) (inode_bytes n) tab"
    "WriteBlock (patch (inode_tab_off s i) (inode_bytes n) tab) b s = (True, s')" "length tab = 512 * k"
    "length (patch (inode_tab_off s i) (inode_bytes n) tab) = 512 * k"
proof -
  show w: "WriteBlock (patch (inode_tab_off s i) (inode_bytes n) tab) b s = (True, s')"
    using wr by (auto simp: WriteINode_def ReadBlock_new_def disk_Read_new_def disk_Read_def b_def k_def tab_def split: option.splits if_splits)
  then show "s' = s\<lparr>disk := disk s'\<rparr>"
    by (auto simp: WriteBlock_def disk_Write_def split: if_splits)
  show len: "length tab = 512 * k" unfolding tab_def by (rule length_block[OF ok])
  have "inode_tab_off s i + 128 \<le> 512 * k" using slot ok by (simp add: inode_slot_ok_def mount_ok_def k_def)
  then show len': "length (patch (inode_tab_off s i) (inode_bytes n) tab) = 512 * k"
    using len length_inode_bytes[OF wf] by simp
  show "concat (fetch (disk s') (block_lba s b) k) = patch (inode_tab_off s i) (inode_bytes n) tab"
    using read_written[OF w] len' unfolding k_def by simp
qed

lemma write_read_inode:
  assumes ok: "mount_ok s" and slot: "inode_slot_ok s i" and wf: "wf_inode n" and wr: "WriteINode i n s = (True, s')"
  shows "mount_ok s'" "ReadINode i s' = Some n"
    "inode_slot_ok s k \<Longrightarrow> slots_apart s i k \<Longrightarrow> ReadINode k s' = ReadINode k s"
proof -
  let ?b = "inode_tab_block s i" and ?n = "unat (sectors_per_block s)"
  let ?tab = "concat (fetch (disk s) (block_lba s ?b) ?n)"
  let ?new = "patch (inode_tab_off s i) (inode_bytes n) ?tab"
  note w = WriteINode_block[OF ok slot wf wr]
  have s': "s' = s\<lparr>disk := disk s'\<rparr>" by (rule w(1))
  have io: "io s (block_lba s ?b) ?n False"
    using wr by (auto simp: WriteINode_def ReadBlock_new_def disk_Read_new_def disk_Read_def split: option.splits if_splits)
  have len: "length (inode_bytes n) = 128" by (rule length_inode_bytes[OF wf])
  have off: "inode_tab_off s i + 128 \<le> 512 * ?n" using slot ok by (simp add: inode_slot_ok_def mount_ok_def)
  have dw: "disk_Write (block_lba s ?b) ?n ?new s = (True, s')"
    using w(3) by (auto simp: WriteBlock_def split: if_splits)
  have n64: "?n < 2 ^ 64" using unsigned_less[of "sectors_per_block s", where 'a = nat] by simp
  show "mount_ok s'" by (rule mount_ok_write[OF ok dw _ n64]) (use w(5) in simp)
  have geo: "inode_tab_block s' j = inode_tab_block s j" "inode_tab_off s' j = inode_tab_off s j"
    "block_lba s' c = block_lba s c" "sectors_per_block s' = sectors_per_block s" "io s' = io s" for j c
    by (subst s', simp)+
  show "ReadINode i s' = Some n"
    using io w(2) ok patch_read[of "inode_tab_off s i" "inode_bytes n" ?tab] w(4) off len parse_inode_bytes[OF wf]
    by (simp add: ReadINode_def ReadBlock_new_def disk_Read_new_def disk_Read_def geo mount_ok_def)
  show "ReadINode k s' = ReadINode k s" if k: "inode_slot_ok s k" "slots_apart s i k"
  proof (cases "inode_tab_block s k = ?b")
    case True
    have "inode_tab_off s k + 128 \<le> 512 * ?n" using k(1) ok by (simp add: inode_slot_ok_def mount_ok_def)
    then have "take 128 (drop (inode_tab_off s k) ?new) = take 128 (drop (inode_tab_off s k) ?tab)"
      using patch_outside[of "inode_tab_off s i" "inode_bytes n" ?tab "inode_tab_off s k" 128] k(2) True off len w(4)
      by (auto simp: slots_apart_def)
    then show ?thesis
      using w(2) by (simp add: ReadINode_def ReadBlock_new_def disk_Read_new_def disk_Read_def geo True)
  next
    case False
    have "fetch (disk s') (block_lba s (inode_tab_block s k)) ?n = fetch (disk s) (block_lba s (inode_tab_block s k)) ?n"
      using read_other_block[OF dw] slot k(1) False by (simp add: inode_slot_ok_def)
    then show ?thesis by (simp add: ReadINode_def ReadBlock_new_def disk_Read_new_def disk_Read_def geo)
  qed
qed

text \<open>
  C20: an inode that has been written reads back unchanged, and writing it changes no inode in another
  slot of the inode tables.
\<close>
theorem WriteINode_ReadINode:
  assumes "mount_ok s" "inode_slot_ok s i" "wf_inode n" "WriteINode i n s = (True, s')"
  shows "ReadINode i s' = Some n \<and> (\<forall>k. inode_slot_ok s k \<longrightarrow> slots_apart s i k \<longrightarrow> ReadINode k s' = ReadINode k s)"
  using write_read_inode[OF assms] by blast

section \<open>Stale inode tables\<close>

text \<open>
  A cached table \<open>m\<close> of the group of \<open>i\<close>: what \<open>ReadINodeTable\<close> read at some time. \<open>table_off\<close> is the offset
  of the inode in the table, which does not overflow 32 bits.
\<close>

definition table_off :: "ext2 \<Rightarrow> u32 \<Rightarrow> nat" where
  "table_off s i = unat (inode_local s i) * unat (s_inode_size (super s))"

definition cached_table :: "ext2 \<Rightarrow> u32 \<Rightarrow> disk_mem \<Rightarrow> bool" where
  "cached_table s i m \<longleftrightarrow>
     inode_tab_cache s (inode_group s i) = Some m \<and>
     base_sector m = block_lba s (bg_inode_table (bgdt s (unat (inode_group s i)))) \<and>
     num_sectors m < 2 ^ 32 \<and> length (raw m) = 512 * num_sectors m \<and>
     table_off s i < 2 ^ 32 \<and> (table_off s i div unat (block_size s) + 1) * unat (sectors_per_block s) \<le> num_sectors m \<and>
     valid_block s (bg_inode_table (bgdt s (unat (inode_group s i)))) \<and>
     unat (bg_inode_table (bgdt s (unat (inode_group s i)))) + table_off s i div unat (block_size s) < 2 ^ 32"

lemma table_off_word:
  assumes "table_off s i < 2 ^ 32"
  shows "unat (inode_local s i * ucast (s_inode_size (super s))) = table_off s i"
proof -
  have "unat (ucast (s_inode_size (super s)) :: u32) = unat (s_inode_size (super s))"
    using unsigned_less[of "s_inode_size (super s)", where 'a = nat]
    by (simp add: unsigned_ucast_eq take_bit_nat_eq_self_iff)
  then show ?thesis using assms by (simp add: table_off_def unat_mult_lem[THEN iffD1])
qed

lemma inode_slot_in_table:
  assumes "table_off s i < 2 ^ 32"
    and "unat (bg_inode_table (bgdt s (unat (inode_group s i)))) + table_off s i div unat (block_size s) < 2 ^ 32"
  shows "unat (inode_tab_block s i) =
      unat (bg_inode_table (bgdt s (unat (inode_group s i)))) + table_off s i div unat (block_size s)"
    "inode_tab_off s i = table_off s i mod unat (block_size s)"
proof -
  let ?p = "inode_local s i * ucast (s_inode_size (super s)) :: u32"
  note p = table_off_word[OF assms(1)]
  show "inode_tab_off s i = table_off s i mod unat (block_size s)"
    by (simp add: inode_tab_off_def unat_mod p)
  have "unat (?p div block_size s) = table_off s i div unat (block_size s)" by (simp add: unat_div p)
  then show "unat (inode_tab_block s i) =
      unat (bg_inode_table (bgdt s (unat (inode_group s i)))) + table_off s i div unat (block_size s)"
    using assms(2) by (simp add: inode_tab_block_def unat_add_lem[THEN iffD1])
qed

lemma cached_table_room:
  assumes "mount_ok s" "inode_slot_ok s i" "cached_table s i m"
  shows "table_off s i + 128 \<le> length (raw m)"
proof -
  let ?k = "unat (sectors_per_block s)" and ?q = "table_off s i div unat (block_size s)"
  have b: "inode_tab_off s i = table_off s i mod unat (block_size s)"
    using assms(3) by (intro inode_slot_in_table) (simp_all add: cached_table_def)
  have "unat (block_size s) = 512 * ?k" using assms(1) by (simp add: mount_ok_def)
  then have "table_off s i + 128 \<le> 512 * ((?q + 1) * ?k)"
    using assms(2) b div_mult_mod_eq[of "table_off s i" "512 * ?k"] by (simp add: inode_slot_ok_def algebra_simps)
  also have "\<dots> \<le> length (raw m)" using assms(3) by (simp add: cached_table_def)
  finally show ?thesis .
qed

lemma inode_in_written_table:
  assumes ok: "mount_ok s" and slot: "inode_slot_ok s i" and tab: "cached_table s i m"
    and io: "io s (base_sector m) (num_sectors m) True"
  defines "k \<equiv> unat (sectors_per_block s)"
  shows "take 128 (drop (inode_tab_off s i) (concat (fetch (disk (DiskMem_WriteBack m s)) (block_lba s (inode_tab_block s i)) k)))
    = take 128 (drop (table_off s i) (raw m))"
proof -
  let ?T = "bg_inode_table (bgdt s (unat (inode_group s i)))" and ?q = "table_off s i div unat (block_size s)"
  let ?bs = "chunks 512 (raw m)"
  have tab: "base_sector m = block_lba s ?T" "num_sectors m < 2 ^ 32" "length (raw m) = 512 * num_sectors m"
    "table_off s i < 2 ^ 32" "(?q + 1) * k \<le> num_sectors m" "valid_block s ?T" "unat ?T + ?q < 2 ^ 32"
    using tab by (simp_all add: cached_table_def k_def)
  note b = inode_slot_in_table[OF tab(4,7)]
  have blk: "unat (block_size s) = 512 * k" "0 < k" using ok by (simp_all add: mount_ok_def k_def)
  have T: "0 < unat ?T" using tab(6) by (simp add: valid_block_def unat_gt_0)
  then have "unat (inode_tab_block s i) - 1 = (unat ?T - 1) + ?q" using b(1) by linarith
  moreover have "valid_block s (inode_tab_block s i)" using slot by (simp add: inode_slot_ok_def)
  ultimately have lba: "block_lba s (inode_tab_block s i) = base_sector m + of_nat (?q * k)"
    using tab(1) block_lba_valid[OF tab(6)] block_lba_valid[of s "inode_tab_block s i"]
    by (simp add: k_def algebra_simps)
  have len: "length ?bs = num_sectors m" using tab(3) by simp
  have "num_sectors m < 2 ^ 64" using tab(2) by (rule less_trans) simp
  then have f: "fetch (put (disk s) (base_sector m) ?bs) (base_sector m + of_nat (?q * k)) k = take k (drop (?q * k) ?bs)"
    using tab(5) len by (intro fetch_put_inner) (simp_all add: algebra_simps)
  have "disk (DiskMem_WriteBack m s) = put (disk s) (base_sector m) ?bs"
    using io tab(3) by (simp add: DiskMem_WriteBack_def disk_Write_def)
  then have "concat (fetch (disk (DiskMem_WriteBack m s)) (block_lba s (inode_tab_block s i)) k) =
      take (512 * k) (drop (512 * (?q * k)) (raw m))"
    using f lba concat_slice[of 512 "raw m" k "?q * k"] tab(3) by simp
  moreover have "inode_tab_off s i + 128 \<le> 512 * k" using slot blk by (simp add: inode_slot_ok_def)
  moreover have "512 * (?q * k) + inode_tab_off s i = table_off s i"
    using b(2) blk div_mult_mod_eq[of "table_off s i" "512 * k"] by (simp add: algebra_simps)
  ultimately show ?thesis by (simp add: drop_take drop_drop add.commute)
qed

text \<open>
  C23: the update of an inode is lost as soon as a vnode of its group is read again. \<open>ReadVNode\<close> looks the
  inode up in the table that was cached when the group was first read, not on the disk, and the
  destructor of its \<open>DiskMem\<close> writes that whole table back: the new object and the disk both have the
  inode from before the update.
\<close>
theorem ReadVNode_loses_update:
  assumes "mount_ok s" "inode_slot_ok s i" "wf_inode n" "cached_table s i m"
    and "io s (base_sector m) (num_sectors m) True" "WriteINode i n s = (True, s1)"
  shows "\<exists>s2 old. ReadVNode a i s1 = Some (Some a, s2) \<and> vnodes s2 a = Some \<lparr>inode_of = old, ino = i\<rparr> \<and>
    old = parse_inode (take 128 (drop (table_off s i) (raw m))) \<and> ReadINode i s2 = Some old"
proof -
  let ?old = "parse_inode (take 128 (drop (table_off s i) (raw m)))"
  have s1: "s1 = s\<lparr>disk := disk s1\<rparr>" by (rule WriteINode_block(1)[OF assms(1-3,6)])
  have geo: "table_off s1 i = table_off s i" "inode_tab_cache s1 = inode_tab_cache s" "inode_group s1 i = inode_group s i"
    "io s1 = io s" "vnodes s1 = vnodes s" "block_lba s1 c = block_lba s c" "sectors_per_block s1 = sectors_per_block s"
    "inode_tab_block s1 i = inode_tab_block s i" "inode_tab_off s1 i = inode_tab_off s i"
    "inode_local s1 i = inode_local s i" "super s1 = super s" "bgdt s1 = bgdt s" "block_size s1 = block_size s" for c
    by (subst s1, simp add: table_off_def)+
  have m1: "cached_table s1 i m"
    using assms(4) by (simp add: cached_table_def geo valid_block_def)
  have slot1: "inode_slot_ok s1 i" using assms(2) by (simp add: inode_slot_ok_def valid_block_def geo)
  have io1: "io s1 (base_sector m) (num_sectors m) True" using assms(5) by (simp add: geo)
  define s2 where "s2 = DiskMem_WriteBack m (new_vnode a \<lparr>inode_of = ?old, ino = i\<rparr> s1)"
  have cache: "inode_tab_cache s (inode_group s i) = Some m" using assms(4) by (simp add: cached_table_def)
  have off: "table_off s i < 2 ^ 32" "table_off s i + 128 \<le> length (raw m)"
    using cached_table_room[OF assms(1,2,4)] assms(4) by (simp_all add: cached_table_def)
  have run: "ReadVNode a i s1 = Some (Some a, s2)"
    using cache off table_off_word[OF off(1)] by (simp add: ReadVNode_def ReadINodeTable_def geo s2_def Let_def)
  have disk2: "disk s2 = disk (DiskMem_WriteBack m s1)"
    by (simp add: s2_def DiskMem_WriteBack_def disk_Write_def new_vnode_def)
  have vn2: "vnodes s2 a = Some \<lparr>inode_of = ?old, ino = i\<rparr>"
    by (simp add: s2_def DiskMem_WriteBack_def disk_Write_def new_vnode_def)
  have s2: "s2 = s1\<lparr>vnodes := vnodes s2, disk := disk s2\<rparr>"
    by (simp add: s2_def DiskMem_WriteBack_def disk_Write_def new_vnode_def)
  have geo2: "inode_tab_block s2 i = inode_tab_block s1 i" "inode_tab_off s2 i = inode_tab_off s1 i" "io s2 = io s1"
    "block_lba s2 c = block_lba s1 c" "sectors_per_block s2 = sectors_per_block s1" for c
    by (subst s2, simp add: inode_tab_block_def inode_tab_off_def inode_group_def inode_local_def block_lba_def)+
  have "io s (block_lba s (inode_tab_block s i)) (unat (sectors_per_block s)) False"
    using assms(6) by (auto simp: WriteINode_def ReadBlock_new_def disk_Read_new_def disk_Read_def split: option.splits if_splits)
  then have "ReadINode i s2 = Some ?old"
    using inode_in_written_table[OF write_read_inode(1)[OF assms(1-3,6)] slot1 m1 io1]
      assms(1)
    by (simp add: ReadINode_def ReadBlock_new_def disk_Read_new_def disk_Read_def geo2 geo disk2 mount_ok_def)
  then show ?thesis using run vn2 by blast
qed

section \<open>Bitmaps\<close>

definition bmap_bit :: "u64 list \<Rightarrow> nat \<Rightarrow> bool" where
  "bmap_bit ws k \<longleftrightarrow> bit (ws ! (k div 64)) (k mod 64)"

definition set_bmap_bit :: "nat \<Rightarrow> u64 list \<Rightarrow> u64 list" where
  "set_bmap_bit k ws = ws[k div 64 := ws ! (k div 64) OR push_bit (k mod 64) 1]"

lemma length_bmap [simp]: "length (set_bmap_bit k ws) = length ws" "length (clear_bit k ws) = length ws"
  by (simp_all add: set_bmap_bit_def clear_bit_def)

lemma bit_one_shift: "u < 64 \<Longrightarrow> bit (push_bit u 1 :: u64) v \<longleftrightarrow> v = u"
  by (auto simp: bit_simps)

lemma div_mod_64: "(j :: nat) div 64 = k div 64 \<Longrightarrow> j mod 64 = k mod 64 \<Longrightarrow> j = k"
  by (metis div_mult_mod_eq)

lemma bmap_bit_set:
  "k div 64 < length ws \<Longrightarrow> bmap_bit (set_bmap_bit k ws) j \<longleftrightarrow> j = k \<or> bmap_bit ws j"
  using div_mod_64[of j k] bit_one_shift[of "k mod 64" "j mod 64"]
  by (cases "j div 64 = k div 64") (auto simp: bmap_bit_def set_bmap_bit_def bit_or_iff)

lemma bmap_bit_clear:
  "k div 64 < length ws \<Longrightarrow> bmap_bit (clear_bit k ws) j \<longleftrightarrow> j \<noteq> k \<and> bmap_bit ws j"
  using div_mod_64[of j k] bit_one_shift[of "k mod 64" "j mod 64"]
  by (cases "j div 64 = k div 64") (auto simp: bmap_bit_def clear_bit_def bit_and_iff bit_not_iff)

lemma clear_set_bit: "k div 64 < length ws \<Longrightarrow> \<not> bmap_bit ws k \<Longrightarrow> clear_bit k (set_bmap_bit k ws) = ws"
proof (rule nth_equalityI)
  fix i assume k: "k div 64 < length ws" "\<not> bmap_bit ws k"
  have "bit ((ws ! (k div 64) OR push_bit (k mod 64) 1) AND NOT (push_bit (k mod 64) 1)) v \<longleftrightarrow> bit (ws ! (k div 64)) v" if "v < 64" for v
    using k(2) that bit_one_shift[of "k mod 64" v] by (auto simp: bmap_bit_def bit_simps)
  then have "(ws ! (k div 64) OR push_bit (k mod 64) 1) AND NOT (push_bit (k mod 64) 1) = ws ! (k div 64)"
    by (intro bit_word_eqI) simp
  then show "clear_bit k (set_bmap_bit k ws) ! i = ws ! i" using k(1)
    by (cases "i = k div 64") (simp_all add: clear_bit_def set_bmap_bit_def)
qed simp

text \<open>The search finds the lowest clear bit of the first word that is not full.\<close>

lemma find_Some_first:
  assumes "List.find P [0..<n] = Some u"
  shows "P u" "u < n" "\<forall>v<u. \<not> P v"
  using assms by (auto simp: find_Some_iff nth_append)

lemma ffsll_found: "x \<noteq> 0 \<Longrightarrow> \<exists>u<64. ffsll x = u + 1 \<and> bit x u"
proof -
  assume "x \<noteq> 0"
  then have "\<exists>n<64. bit x n" using bit_word_eqI[of x 0] by auto
  then obtain n where n: "n < 64" "bit x n" by blast
  show ?thesis
  proof (cases "List.find (bit x) [0..<64]")
    case None
    then show ?thesis using n by (simp add: find_None_iff)
  next
    case (Some u)
    then show ?thesis using find_Some_first[OF Some] by (auto simp: ffsll_def)
  qed
qed

lemma alloc_word:
  assumes "free_word n ws = Some j" "n \<le> length ws" "i = 0 \<Longrightarrow> bit (ws ! 0) 0"
  obtains k where "k < 64 * n" "k div 64 = j" "k div 64 < length ws" "\<not> bmap_bit ws k" "j * 64 + unset_bit i j (ws ! j) = k + 1"
    "ws[j := mark_bit (unset_bit i j (ws ! j)) (ws ! j)] = set_bmap_bit k ws"
proof -
  have j: "j < n" "ws ! j \<noteq> - 1" using find_Some_first[of "\<lambda>j. ws ! j \<noteq> - 1" n j] assms(1) by (auto simp: free_word_def)
  have "ws ! j OR 1 = ws ! j" if "i = 0" "j = 0"
    using assms(3)[OF that(1)] that(2) by (intro bit_word_eqI) (auto simp: bit_simps)
  then have un: "unset_bit i j (ws ! j) = ffsll (NOT (ws ! j))" by (auto simp: unset_bit_def)
  have "NOT (ws ! j) \<noteq> 0" using j(2) by (metis bit.double_compl bit.compl_zero)
  then obtain u where u: "u < 64" "ffsll (NOT (ws ! j)) = u + 1" "bit (NOT (ws ! j)) u" using ffsll_found by blast
  let ?k = "64 * j + u"
  have "?k div 64 = j" "?k mod 64 = u" using u(1) by simp_all
  moreover have "\<not> bit (ws ! j) u" using u(1,3) by (simp add: bit_not_iff)
  ultimately show thesis
    using that[of ?k] u(1,2) j(1) assms(2) by (simp add: bmap_bit_def set_bmap_bit_def mark_bit_def un)
qed

text \<open>A write-back changes nothing but the disk.\<close>

lemma WriteBack_frame [simp]:
  "inode_bmap_cache (DiskMem_WriteBack m s) = inode_bmap_cache s" "block_bmap_cache (DiskMem_WriteBack m s) = block_bmap_cache s"
  "inode_tab_cache (DiskMem_WriteBack m s) = inode_tab_cache s" "bgdt (DiskMem_WriteBack m s) = bgdt s"
  "super (DiskMem_WriteBack m s) = super s" "block_size (DiskMem_WriteBack m s) = block_size s"
  "sectors_per_block (DiskMem_WriteBack m s) = sectors_per_block s" "vnodes (DiskMem_WriteBack m s) = vnodes s"
  "num_pins (DiskMem_WriteBack m s) = num_pins s" "pinned_vnodes (DiskMem_WriteBack m s) = pinned_vnodes s"
  "words_per_block (DiskMem_WriteBack m s) = words_per_block s" "no_bgroups (DiskMem_WriteBack m s) = no_bgroups s"
  by (simp_all add: DiskMem_WriteBack_def disk_Write_def words_per_block_def no_bgroups_def)

text \<open>
  The bitmaps of the groups from \<open>i\<close> up to \<open>n\<close> have been read; bit 0 of the first one is taken, as on every
  file system (inode 1 and the first block are reserved).
\<close>

definition bitmaps_read :: "(u32 \<rightharpoonup> disk_mem) \<Rightarrow> nat \<Rightarrow> nat \<Rightarrow> nat \<Rightarrow> bool" where
  "bitmaps_read c w i n \<longleftrightarrow> n < 2 ^ 32 \<and>
     (\<forall>g. i \<le> g \<longrightarrow> g < n \<longrightarrow> (\<exists>m. c (of_nat g) = Some m \<and> w \<le> length (u64s (raw m)) \<and>
        (g = 0 \<longrightarrow> bmap_bit (u64s (raw m)) 0)))"

lemma bitmaps_read_Suc: "bitmaps_read c w i n \<Longrightarrow> bitmaps_read c w (i + 1) n"
  unfolding bitmaps_read_def by (metis add_leD1)

definition marked :: "(u32 \<rightharpoonup> disk_mem) \<Rightarrow> nat \<Rightarrow> nat \<Rightarrow> u32 \<rightharpoonup> disk_mem" where
  "marked c g k = c(of_nat g \<mapsto> (the (c (of_nat g)))\<lparr>raw := u64_bytes (set_bmap_bit k (u64s (raw (the (c (of_nat g))))))\<rparr>)"

text \<open>The number and bit an allocator found in group \<open>g\<close>.\<close>

definition free_in :: "(u32 \<rightharpoonup> disk_mem) \<Rightarrow> nat \<Rightarrow> nat \<Rightarrow> nat \<Rightarrow> bool" where
  "free_in c w g k \<longleftrightarrow> k < 64 * w \<and> k div 64 < length (u64s (raw (the (c (of_nat g))))) \<and> \<not> bmap_bit (u64s (raw (the (c (of_nat g))))) k"

lemma Alloc_inode_loop_finds:
  assumes "bitmaps_read (inode_bmap_cache s) (words_per_block s) i (i + n)" "Alloc_inode_loop n i s = (Some f, s')"
  shows "\<exists>g k. i \<le> g \<and> g < i + n \<and> free_in (inode_bmap_cache s) (words_per_block s) g k \<and>
    f = unat (of_nat g * s_inodes_per_group (super s)) + k + 1 \<and> inode_bmap_cache s' = marked (inode_bmap_cache s) g k \<and>
    s_inodes_per_group (super s') = s_inodes_per_group (super s) \<and> vnodes s' = vnodes s"
  using assms
proof (induction n arbitrary: i s)
  case (Suc n)
  obtain m where m: "inode_bmap_cache s (of_nat i) = Some m" "words_per_block s \<le> length (u64s (raw m))"
    "i = 0 \<longrightarrow> bmap_bit (u64s (raw m)) 0"
    using Suc.prems(1) by (auto simp: bitmaps_read_def)
  have next_group: ?case
    if "Alloc_inode_loop n (i + 1) t = (Some f, s')" and t: "inode_bmap_cache t = inode_bmap_cache s" "super t = super s"
      "words_per_block t = words_per_block s" "vnodes t = vnodes s" for t
  proof -
    have "bitmaps_read (inode_bmap_cache t) (words_per_block t) (i + 1) (i + 1 + n)"
      using bitmaps_read_Suc[OF Suc.prems(1)] t by simp
    from Suc.IH[OF this that(1)] show ?thesis unfolding t by (metis Suc_eq_plus1 Suc_leD add_Suc_shift)
  qed
  show ?case
  proof (cases "bg_free_inodes_count (bgdt s i) \<noteq> 0 \<and> free_word (words_per_block s) (u64s (raw m)) \<noteq> None")
    case True
    then obtain j where j: "free_word (words_per_block s) (u64s (raw m)) = Some j" by blast
    have "bit (u64s (raw m) ! 0) 0" if "i = 0" using m(3) that by (simp add: bmap_bit_def)
    from alloc_word[OF j m(2) this] obtain k where k: "k < 64 * words_per_block s" "k div 64 = j"
      "k div 64 < length (u64s (raw m))" "\<not> bmap_bit (u64s (raw m)) k"
      "j * 64 + unset_bit i j (u64s (raw m) ! j) = k + 1"
      "(u64s (raw m))[j := mark_bit (unset_bit i j (u64s (raw m) ! j)) (u64s (raw m) ! j)] = set_bmap_bit k (u64s (raw m))"
      by blast
    have res: "f = unat (of_nat i * s_inodes_per_group (super s)) + (k + 1)"
      "inode_bmap_cache s' = marked (inode_bmap_cache s) i k"
      "s_inodes_per_group (super s') = s_inodes_per_group (super s)" "vnodes s' = vnodes s"
      using Suc.prems(2) True j k(5)[symmetric] k(6)
      by (auto simp: ReadINodeBitmap_def m(1) Let_def set_inode_bmap_def marked_def)
    then show ?thesis using k m(1) by (intro exI[of _ i] exI[of _ k]) (simp add: free_in_def)
  next
    case False
    show ?thesis
    proof (cases "bg_free_inodes_count (bgdt s i) \<noteq> 0")
      case True
      then have "Alloc_inode_loop n (i + 1) (DiskMem_WriteBack m s) = (Some f, s')"
        using Suc.prems(2) False by (simp add: ReadINodeBitmap_def m(1) Let_def)
      then show ?thesis by (rule next_group) simp_all
    next
      case False
      then have "Alloc_inode_loop n (i + 1) s = (Some f, s')" using Suc.prems(2) by simp
      then show ?thesis by (rule next_group) simp_all
    qed
  qed
qed simp

lemma Alloc_block_loop_finds:
  assumes "bitmaps_read (block_bmap_cache s) (words_per_block s) i (i + n)" "Alloc_block_loop n i s = (Some f, s')"
  shows "\<exists>g k. i \<le> g \<and> g < i + n \<and> free_in (block_bmap_cache s) (words_per_block s) g k \<and>
    f = unat (of_nat g * s_blocks_per_group (super s)) + k + 1 \<and> block_bmap_cache s' = marked (block_bmap_cache s) g k \<and>
    s_blocks_per_group (super s') = s_blocks_per_group (super s) \<and> vnodes s' = vnodes s"
  using assms
proof (induction n arbitrary: i s)
  case (Suc n)
  obtain m where m: "block_bmap_cache s (of_nat i) = Some m" "words_per_block s \<le> length (u64s (raw m))"
    "i = 0 \<longrightarrow> bmap_bit (u64s (raw m)) 0"
    using Suc.prems(1) by (auto simp: bitmaps_read_def)
  have next_group: ?case
    if "Alloc_block_loop n (i + 1) t = (Some f, s')" and t: "block_bmap_cache t = block_bmap_cache s" "super t = super s"
      "words_per_block t = words_per_block s" "vnodes t = vnodes s" for t
  proof -
    have "bitmaps_read (block_bmap_cache t) (words_per_block t) (i + 1) (i + 1 + n)"
      using bitmaps_read_Suc[OF Suc.prems(1)] t by simp
    from Suc.IH[OF this that(1)] show ?thesis unfolding t by (metis Suc_eq_plus1 Suc_leD add_Suc_shift)
  qed
  show ?case
  proof (cases "bg_free_blocks_count (bgdt s i) \<noteq> 0 \<and> free_word (words_per_block s) (u64s (raw m)) \<noteq> None")
    case True
    then obtain j where j: "free_word (words_per_block s) (u64s (raw m)) = Some j" by blast
    have "bit (u64s (raw m) ! 0) 0" if "i = 0" using m(3) that by (simp add: bmap_bit_def)
    from alloc_word[OF j m(2) this] obtain k where k: "k < 64 * words_per_block s" "k div 64 = j"
      "k div 64 < length (u64s (raw m))" "\<not> bmap_bit (u64s (raw m)) k"
      "j * 64 + unset_bit i j (u64s (raw m) ! j) = k + 1"
      "(u64s (raw m))[j := mark_bit (unset_bit i j (u64s (raw m) ! j)) (u64s (raw m) ! j)] = set_bmap_bit k (u64s (raw m))"
      by blast
    have res: "f = unat (of_nat i * s_blocks_per_group (super s)) + (k + 1)"
      "block_bmap_cache s' = marked (block_bmap_cache s) i k"
      "s_blocks_per_group (super s') = s_blocks_per_group (super s)" "vnodes s' = vnodes s"
      using Suc.prems(2) True j k(5)[symmetric] k(6)
      by (auto simp: ReadBlockBitmap_def m(1) Let_def set_block_bmap_def marked_def)
    then show ?thesis using k m(1) by (intro exI[of _ i] exI[of _ k]) (simp add: free_in_def)
  next
    case False
    show ?thesis
    proof (cases "bg_free_blocks_count (bgdt s i) \<noteq> 0")
      case True
      then have "Alloc_block_loop n (i + 1) (DiskMem_WriteBack m s) = (Some f, s')"
        using Suc.prems(2) False by (simp add: ReadBlockBitmap_def m(1) Let_def)
      then show ?thesis by (rule next_group) simp_all
    next
      case False
      then have "Alloc_block_loop n (i + 1) s = (Some f, s')" using Suc.prems(2) by simp
      then show ?thesis by (rule next_group) simp_all
    qed
  qed
qed simp

text \<open>The bitmap of a group, once it has been read.\<close>

definition bitmap :: "(u32 \<rightharpoonup> disk_mem) \<Rightarrow> nat \<Rightarrow> u64 list" where
  "bitmap c g = (case c (of_nat g) of None \<Rightarrow> [] | Some m \<Rightarrow> u64s (raw m))"

lemma bitmap_marked:
  assumes "bitmaps_read c w 0 n" "g < n" "free_in c w g k" "h < n"
  shows "bitmap (marked c g k) h = (if h = g then set_bmap_bit k (bitmap c g) else bitmap c h)"
proof -
  have lim: "g < 2 ^ 32" "h < 2 ^ 32" using assms by (simp_all add: bitmaps_read_def)
  have "(of_nat h :: u32) = of_nat g \<longleftrightarrow> h = g"
    using lim by (simp add: word_unat_eq_iff unat_of_nat)
  then show ?thesis using assms by (auto simp: bitmap_def marked_def bitmaps_read_def)
qed

text \<open>The group and the bit of a number that an allocator returned.\<close>

lemma number_position:
  assumes "g * p + k + 1 < 2 ^ 32" "k < p" "p < (2 :: nat) ^ 32"
  shows "(of_nat (g * p + k) :: u32) div of_nat p = of_nat g" "(of_nat (g * p + k) :: u32) mod of_nat p = of_nat k"
proof -
  have lim: "g * p + k < 2 ^ 32" "p < 2 ^ 32" "g < 2 ^ 32" "k < 2 ^ 32"
  proof -
    have "g * 1 \<le> g * p" using assms(2) by (intro mult_le_mono2) simp
    then show "g * p + k < 2 ^ 32" "p < 2 ^ 32" "g < 2 ^ 32" "k < 2 ^ 32" using assms by linarith+
  qed
  have "unat (of_nat (g * p + k) :: u32) = g * p + k" "unat (of_nat p :: u32) = p"
    using lim by (simp_all add: unat_of_nat del: of_nat_add of_nat_mult)
  moreover have "(g * p + k) div p = g" "(g * p + k) mod p = k" using assms(2) by simp_all
  ultimately have "unat ((of_nat (g * p + k) :: u32) div of_nat p) = g" "unat ((of_nat (g * p + k) :: u32) mod of_nat p) = k"
    by (simp_all add: unat_div unat_mod del: of_nat_add of_nat_mult)
  then show "(of_nat (g * p + k) :: u32) div of_nat p = of_nat g" "(of_nat (g * p + k) :: u32) mod of_nat p = of_nat k"
    by (metis of_nat_unat ucast_id)+
qed

text \<open>The bits behind the last inode or block of a group are set, and all numbers fit into 32 bits.\<close>

definition groups_ok :: "(u32 \<rightharpoonup> disk_mem) \<Rightarrow> nat \<Rightarrow> nat \<Rightarrow> nat \<Rightarrow> bool" where
  "groups_ok c w n p \<longleftrightarrow> bitmaps_read c w 0 n \<and> n * p + 1 < 2 ^ 32 \<and>
     (\<forall>g<n. \<forall>k. p \<le> k \<longrightarrow> k < 64 * w \<longrightarrow> bmap_bit (bitmap c g) k)"

lemma groups_ok_free:
  assumes "groups_ok c w n p" "free_in c w g k" "g < n"
  shows "k < p" "g * p + k + 1 < 2 ^ 32" "\<not> bmap_bit (bitmap c g) k" "k div 64 < length (bitmap c g)" "g * p < 2 ^ 32"
proof -
  obtain m where "c (of_nat g) = Some m" using assms(1,3) by (auto simp: groups_ok_def bitmaps_read_def)
  then have free: "k < 64 * w" "\<not> bmap_bit (bitmap c g) k" "k div 64 < length (bitmap c g)"
    using assms(2) by (simp_all add: free_in_def bitmap_def)
  then show "\<not> bmap_bit (bitmap c g) k" "k div 64 < length (bitmap c g)" by simp_all
  show k: "k < p" using free(1,2) assms(1,3) by (meson groups_ok_def not_le)
  have "Suc g * p \<le> n * p" using assms(3) by (intro mult_le_mono1) simp
  moreover have "n * p + 1 < 2 ^ 32" using assms(1) by (simp add: groups_ok_def)
  ultimately show "g * p + k + 1 < 2 ^ 32" "g * p < 2 ^ 32" using k by simp_all
qed

lemma DeleteINode_cached:
  assumes "inode_bmap_cache s (inode_group s i) = Some m"
  shows "\<exists>s2. DeleteINode i s = (True, s2) \<and> inode_bmap_cache s2 = (inode_bmap_cache s)(inode_group s i \<mapsto>
    m\<lparr>raw := u64_bytes (clear_bit (unat (inode_local s i)) (u64s (raw m)))\<rparr>)"
  using assms by (simp add: DeleteINode_def ReadINodeBitmap_def set_inode_bmap_def Let_def)

lemma FreeBlock_cached:
  assumes "block_bmap_cache s ((b - 1) div s_blocks_per_group (super s)) = Some m"
  shows "\<exists>s2. FreeBlock b s = (True, s2) \<and> block_bmap_cache s2 = (block_bmap_cache s)((b - 1) div s_blocks_per_group (super s) \<mapsto>
    m\<lparr>raw := u64_bytes (clear_bit (unat ((b - 1) mod s_blocks_per_group (super s))) (u64s (raw m)))\<rparr>)"
  using assms by (simp add: FreeBlock_def ReadBlockBitmap_def set_block_bmap_def Let_def)

text \<open>Clearing a bit of a cached bitmap, seen through \<open>bitmap\<close>.\<close>

lemma bitmap_cleared:
  assumes "c (of_nat g) = Some m" "g < 2 ^ 32" "h < 2 ^ 32"
  shows "bitmap (c((of_nat g) \<mapsto> m\<lparr>raw := u64_bytes (clear_bit k (u64s (raw m)))\<rparr>)) h =
    (if h = g then clear_bit k (bitmap c g) else bitmap c h)"
proof -
  have "(of_nat h :: u32) = of_nat g \<longleftrightarrow> h = g" using assms(2,3) by (simp add: word_unat_eq_iff unat_of_nat)
  then show ?thesis using assms(1) by (simp add: bitmap_def)
qed

text \<open>
  C21: \<open>AllocVNode\<close> hands out an inode whose bit was clear, marks exactly that bit, and \<open>DeleteINode\<close> of the
  inode gives back exactly what was taken: all bitmaps are as before.
\<close>
theorem AllocVNode_DeleteINode:
  assumes ok: "groups_ok (inode_bmap_cache s) (words_per_block s) (no_bgroups s) (unat (s_inodes_per_group (super s)))"
    and run: "AllocVNode a type perms uid gid s = (Some b, s1)"
  shows "\<exists>g k v s2. g < no_bgroups s \<and> \<not> bmap_bit (bitmap (inode_bmap_cache s) g) k \<and>
    b = a \<and> vnodes s1 a = Some v \<and> ino v = of_nat (g * unat (s_inodes_per_group (super s)) + k + 1) \<and>
    (\<forall>h<no_bgroups s. bitmap (inode_bmap_cache s1) h =
       (if h = g then set_bmap_bit k (bitmap (inode_bmap_cache s) g) else bitmap (inode_bmap_cache s) h)) \<and>
    DeleteINode (ino v) s1 = (True, s2) \<and>
    (\<forall>h<no_bgroups s. bitmap (inode_bmap_cache s2) h = bitmap (inode_bmap_cache s) h)"
proof -
  let ?c = "inode_bmap_cache s" and ?p = "unat (s_inodes_per_group (super s))" and ?n = "no_bgroups s"
  obtain f t where alloc: "Alloc_inode_loop ?n 0 s = (Some f, t)" and b: "b = a"
    and s1: "inode_bmap_cache s1 = inode_bmap_cache t" "super s1 = super t"
      "vnodes s1 a = Some \<lparr>inode_of = inode_of (the (vnodes s1 a)), ino = of_nat f\<rparr>"
    using run by (auto simp: AllocVNode_def new_vnode_def split: prod.splits option.splits)
  have read: "bitmaps_read ?c (words_per_block s) 0 ?n" using ok by (simp add: groups_ok_def)
  obtain g k where gk: "g < ?n" "free_in ?c (words_per_block s) g k"
    "f = unat (of_nat g * s_inodes_per_group (super s)) + k + 1" "inode_bmap_cache t = marked ?c g k"
    "s_inodes_per_group (super t) = s_inodes_per_group (super s)"
    using Alloc_inode_loop_finds[of s 0 ?n f t] read alloc by auto
  note free = groups_ok_free[OF ok gk(2,1)]
  have lim: "?n < 2 ^ 32" using read by (simp add: bitmaps_read_def)
  then have g: "g < 2 ^ 32" using gk(1) by simp
  have "unat (of_nat g * s_inodes_per_group (super s)) = g * ?p"
    using free(5) g by (simp add: unat_mult_lem[THEN iffD1] unat_of_nat)
  then have f: "f = g * ?p + k + 1" using gk(3) by simp
  have p: "?p < 2 ^ 32" using unsigned_less[of "s_inodes_per_group (super s)", where 'a = nat] by simp
  have pos: "inode_group s1 (of_nat f) = of_nat g" "unat (inode_local s1 (of_nat f)) = k"
    using number_position[OF free(2,1) p] free(1) p s1(2) gk(5)
    by (simp_all add: f inode_group_def inode_local_def unat_of_nat)
  have marked: "bitmap (inode_bmap_cache s1) h = (if h = g then set_bmap_bit k (bitmap ?c g) else bitmap ?c h)" if "h < ?n" for h
    using bitmap_marked[OF read gk(1,2) that] gk(4) s1(1) by simp
  obtain m where m: "inode_bmap_cache s1 (inode_group s1 (of_nat f)) = Some m"
    unfolding pos using gk(4) s1(1) by (simp add: marked_def)
  obtain s2 where s2: "DeleteINode (of_nat f) s1 = (True, s2)"
    "inode_bmap_cache s2 = (inode_bmap_cache s1)(of_nat g \<mapsto> m\<lparr>raw := u64_bytes (clear_bit k (u64s (raw m)))\<rparr>)"
    using DeleteINode_cached[OF m] by (auto simp: pos)
  have "bitmap (inode_bmap_cache s2) h = bitmap ?c h" if h: "h < ?n" for h
    using bitmap_cleared[of "inode_bmap_cache s1" g m h k] m[unfolded pos] g s2(2) marked[OF h] marked[OF gk(1)] h lim
      clear_set_bit[OF free(4,3)] by auto
  then show ?thesis using gk(1) free(3) b s1(3) marked s2(1) f
    by (intro exI[of _ g] exI[of _ k] exI[of _ "\<lparr>inode_of = inode_of (the (vnodes s1 a)), ino = of_nat f\<rparr>"] exI[of _ s2]) simp
qed

text \<open>
  C22: \<open>AllocBlock\<close> does not return the block it marks. It sets a clear bit \<open>k\<close> and returns the block whose
  bit is \<open>k + 1\<close>, whether that is in use or not; \<open>FreeBlock\<close> of the returned block clears bit \<open>k + 1\<close> and
  leaves the bit that was taken set for ever.
\<close>
theorem AllocBlock_off_by_one:
  assumes ok: "groups_ok (block_bmap_cache s) (words_per_block s) (no_bgroups s) (unat (s_blocks_per_group (super s)))"
    and run: "AllocBlock s = (Some b, s1)"
  shows "\<exists>g k. g < no_bgroups s \<and> \<not> bmap_bit (bitmap (block_bmap_cache s) g) k \<and>
    bitmap (block_bmap_cache s1) g = set_bmap_bit k (bitmap (block_bmap_cache s) g) \<and>
    b = of_nat (g * unat (s_blocks_per_group (super s)) + k + 2) \<and>
    (k + 1 < unat (s_blocks_per_group (super s)) \<longrightarrow>
      (\<exists>s2. FreeBlock b s1 = (True, s2) \<and>
        bitmap (block_bmap_cache s2) g = clear_bit (k + 1) (set_bmap_bit k (bitmap (block_bmap_cache s) g)) \<and>
        bmap_bit (bitmap (block_bmap_cache s2) g) k))"
proof -
  let ?c = "block_bmap_cache s" and ?p = "unat (s_blocks_per_group (super s))" and ?n = "no_bgroups s"
  obtain f where alloc: "Alloc_block_loop ?n 0 s = (Some f, s1)" and b: "b = of_nat (f + 1)"
    using run by (auto simp: AllocBlock_def split: prod.splits option.splits)
  have read: "bitmaps_read ?c (words_per_block s) 0 ?n" using ok by (simp add: groups_ok_def)
  obtain g k where gk: "g < ?n" "free_in ?c (words_per_block s) g k"
    "f = unat (of_nat g * s_blocks_per_group (super s)) + k + 1" "block_bmap_cache s1 = marked ?c g k"
    "s_blocks_per_group (super s1) = s_blocks_per_group (super s)"
    using Alloc_block_loop_finds[of s 0 ?n f s1] read alloc by auto
  note free = groups_ok_free[OF ok gk(2,1)]
  have lim: "?n < 2 ^ 32" using read by (simp add: bitmaps_read_def)
  then have g: "g < 2 ^ 32" using gk(1) by simp
  have "unat (of_nat g * s_blocks_per_group (super s)) = g * ?p"
    using free(5) g by (simp add: unat_mult_lem[THEN iffD1] unat_of_nat)
  then have b': "b = of_nat (g * ?p + k + 2)" using gk(3) b by simp
  have p: "?p < 2 ^ 32" using unsigned_less[of "s_blocks_per_group (super s)", where 'a = nat] by simp
  have marked: "bitmap (block_bmap_cache s1) g = set_bmap_bit k (bitmap ?c g)"
    using bitmap_marked[OF read gk(1,2,1)] gk(4) by simp
  have "\<exists>s2. FreeBlock b s1 = (True, s2) \<and> bitmap (block_bmap_cache s2) g = clear_bit (k + 1) (set_bmap_bit k (bitmap ?c g)) \<and>
      bmap_bit (bitmap (block_bmap_cache s2) g) k" if k1: "k + 1 < ?p"
  proof -
    have "Suc g * ?p \<le> ?n * ?p" using gk(1) by (intro mult_le_mono1) simp
    then have "g * ?p + (k + 1) + 1 < 2 ^ 32" using ok k1 by (simp add: groups_ok_def)
    note np = number_position[OF this k1 p]
    have k1': "unat (of_nat (k + 1) :: u32) = k + 1" using k1 p by (simp add: unat_of_nat del: of_nat_add of_nat_Suc)
    have "b - 1 = of_nat (g * ?p + (k + 1))" by (simp add: b')
    then have pos: "(b - 1) div s_blocks_per_group (super s1) = of_nat g"
      "unat ((b - 1) mod s_blocks_per_group (super s1)) = k + 1"
      using np k1' gk(5) by (simp_all del: of_nat_add of_nat_mult of_nat_Suc)
    obtain m where m: "block_bmap_cache s1 ((b - 1) div s_blocks_per_group (super s1)) = Some m"
      unfolding pos using gk(4) by (simp add: marked_def)
    obtain s2 where s2: "FreeBlock b s1 = (True, s2)"
      "block_bmap_cache s2 = (block_bmap_cache s1)(of_nat g \<mapsto> m\<lparr>raw := u64_bytes (clear_bit (k + 1) (u64s (raw m)))\<rparr>)"
      using FreeBlock_cached[OF m] by (auto simp: pos)
    then have s2g: "bitmap (block_bmap_cache s2) g = clear_bit (k + 1) (set_bmap_bit k (bitmap ?c g))"
      using bitmap_cleared[of "block_bmap_cache s1" g m g "k + 1"] m[unfolded pos] g marked by simp
    have "bmap_bit (set_bmap_bit k (bitmap ?c g)) k" using bmap_bit_set[OF free(4)] by simp
    then have "bmap_bit (clear_bit (k + 1) (set_bmap_bit k (bitmap ?c g))) k"
      using bmap_bit_clear[of "k + 1" "set_bmap_bit k (bitmap ?c g)" k]
      by (cases "(k + 1) div 64 < length (bitmap ?c g)") (simp_all add: clear_bit_def list_update_beyond not_less)
    then show ?thesis using s2(1) s2g by auto
  qed
  then show ?thesis using gk(1) free(3) marked b' by blast
qed

section \<open>A small file system\<close>

text \<open>
  One group of 8 inodes and 8 blocks of 512 bytes, of which the first of each is in use; bitmaps in blocks
  3 and 4, the inode table in block 5, all cached.
\<close>

definition demo_bitmap :: "u64 list" where
  "demo_bitmap = 0xFFFFFFFFFFFFFF01 # replicate 63 (-1)"

definition demo_mem :: "nat \<Rightarrow> u8 list \<Rightarrow> disk_mem" where
  "demo_mem b bytes = \<lparr>base_sector = of_nat (b + 1), num_sectors = length bytes div 512, raw = bytes\<rparr>"

definition demo_ext2 :: ext2 where
  "demo_ext2 =
     \<lparr>partition_base_sector = 0,
      super = \<lparr>s_blocks_count = 8, s_free_inodes_count = 7, s_log_block_size = 0, s_blocks_per_group = 8,
               s_inodes_per_group = 8, s_inode_size = 128, s_feature_compat = 0, s_prealloc_blocks = 0,
               s_prealloc_dir_blocks = 0\<rparr>,
      block_size = 512, sectors_per_block = 1, bgdt_base = 3,
      bgdt = (\<lambda>_. \<lparr>bg_block_bitmap = 3, bg_inode_bitmap = 4, bg_inode_table = 5, bg_free_blocks_count = 7,
                    bg_free_inodes_count = 4, bg_rest = replicate 16 0\<rparr>),
      inode_tab_cache = [0 \<mapsto> demo_mem 5 (replicate 512 0)],
      inode_bmap_cache = [0 \<mapsto> demo_mem 4 (u64_bytes demo_bitmap)],
      block_bmap_cache = [0 \<mapsto> demo_mem 3 (u64_bytes demo_bitmap)],
      pinned_vnodes = Map.empty, num_pins = Map.empty, vnodes = Map.empty,
      disk = (\<lambda>_. replicate 512 0), io = (\<lambda>_ _ _. True)\<rparr>"

lemma demo_fields [simp]:
  "partition_base_sector demo_ext2 = 0" "block_size demo_ext2 = 512" "sectors_per_block demo_ext2 = 1"
  "s_blocks_count (super demo_ext2) = 8" "s_blocks_per_group (super demo_ext2) = 8"
  "s_inodes_per_group (super demo_ext2) = 8" "s_inode_size (super demo_ext2) = 128"
  "disk demo_ext2 a = replicate 512 0" "io demo_ext2 a n w" "bg_inode_table (bgdt demo_ext2 g) = 5"
  "bg_free_inodes_count (bgdt demo_ext2 g) = 4" "bg_free_blocks_count (bgdt demo_ext2 g) = 7"
  "inode_tab_cache demo_ext2 = [0 \<mapsto> demo_mem 5 (replicate 512 0)]"
  "inode_bmap_cache demo_ext2 = [0 \<mapsto> demo_mem 4 (u64_bytes demo_bitmap)]"
  "block_bmap_cache demo_ext2 = [0 \<mapsto> demo_mem 3 (u64_bytes demo_bitmap)]"
  by (simp_all add: demo_ext2_def)

lemma demo_mount_ok: "mount_ok demo_ext2"
  by (simp add: mount_ok_def)

lemma demo_slot: "inode_slot_ok demo_ext2 2"
  by (simp add: inode_slot_ok_def inode_tab_block_def inode_tab_off_def inode_local_def inode_group_def valid_block_def)

lemma zero_inode_wf: "wf_inode zero_inode"
  by (simp add: wf_inode_def zero_inode_def)

lemma demo_WriteINode: "WriteINode 2 zero_inode demo_ext2 = (True, snd (WriteINode 2 zero_inode demo_ext2))"
  by (simp add: WriteINode_def ReadBlock_new_def disk_Read_new_def disk_Read_def WriteBlock_def disk_Write_def inode_tab_block_def
      inode_local_def)

lemma demo_cached_table: "cached_table demo_ext2 2 (demo_mem 5 (replicate 512 0))"
  by (simp add: cached_table_def inode_group_def inode_local_def demo_mem_def table_off_def valid_block_def block_lba_def)

lemma demo_bitmap_bit: "8 \<le> k \<Longrightarrow> k < 4096 \<Longrightarrow> bmap_bit demo_bitmap k"
proof (cases "k < 64")
  case True
  assume "8 \<le> k"
  have "list_all (bit (0xFFFFFFFFFFFFFF01 :: u64)) [8..<64]" by code_simp
  then have "bit (0xFFFFFFFFFFFFFF01 :: u64) k"
    using True \<open>8 \<le> k\<close> unfolding list_all_iff set_upt by (meson atLeastLessThan_iff)
  then show ?thesis using True by (simp add: bmap_bit_def demo_bitmap_def)
next
  case False
  assume "k < 4096"
  then have "k div 64 < 64" "0 < k div 64" "k mod 64 < 64" using False by simp_all
  then show ?thesis by (simp add: bmap_bit_def demo_bitmap_def nth_Cons')
qed

lemma demo_no_bgroups [simp]: "no_bgroups demo_ext2 = 1" "words_per_block demo_ext2 = 64"
  by (simp_all add: no_bgroups_def words_per_block_def)

lemma demo_groups_ok: "groups_ok [0 \<mapsto> demo_mem b (u64_bytes demo_bitmap)] 64 1 8"
proof -
  have "bmap_bit demo_bitmap 0" by (simp add: bmap_bit_def demo_bitmap_def)
  moreover have "length demo_bitmap = 64" by (simp add: demo_bitmap_def)
  ultimately show ?thesis
    by (simp add: groups_ok_def bitmaps_read_def demo_mem_def bitmap_def demo_bitmap_bit)
qed

lemma demo_free_word: "free_word 64 demo_bitmap = Some 0"
proof -
  have "[0..<64] = 0 # [1..<64 :: nat]" by (simp add: upt_conv_Cons)
  then show ?thesis by (simp add: free_word_def demo_bitmap_def)
qed

lemma demo_AllocVNode: "AllocVNode 9 0x8000 0x1A4 0 0 demo_ext2 = (Some 9, snd (AllocVNode 9 0x8000 0x1A4 0 0 demo_ext2))"
  by (simp add: AllocVNode_def ReadINodeBitmap_def demo_mem_def demo_free_word Let_def)

lemma demo_AllocBlock: "\<exists>b. AllocBlock demo_ext2 = (Some b, snd (AllocBlock demo_ext2))"
  by (simp add: AllocBlock_def ReadBlockBitmap_def demo_mem_def demo_free_word Let_def)

theorem WriteINode_ReadINode_witness: "ReadINode 2 (snd (WriteINode 2 zero_inode demo_ext2)) = Some zero_inode"
  using WriteINode_ReadINode[OF demo_mount_ok demo_slot zero_inode_wf demo_WriteINode] by simp

theorem ReadVNode_loses_update_witness:
  "\<exists>s2 old. ReadVNode 7 2 (snd (WriteINode 2 zero_inode demo_ext2)) = Some (Some 7, s2) \<and> ReadINode 2 s2 = Some old \<and>
     old = parse_inode (take 128 (drop (table_off demo_ext2 2) (replicate 512 0)))"
  using ReadVNode_loses_update[OF demo_mount_ok demo_slot zero_inode_wf demo_cached_table _ demo_WriteINode, of 7]
  by (auto simp: demo_mem_def)

theorem AllocVNode_DeleteINode_witness:
  "\<exists>k v s2. vnodes (snd (AllocVNode 9 0x8000 0x1A4 0 0 demo_ext2)) 9 = Some v \<and> ino v = of_nat (k + 1) \<and>
     \<not> bmap_bit demo_bitmap k \<and> DeleteINode (ino v) (snd (AllocVNode 9 0x8000 0x1A4 0 0 demo_ext2)) = (True, s2) \<and>
     bitmap (inode_bmap_cache s2) 0 = demo_bitmap"
proof -
  have bm: "bitmap (inode_bmap_cache demo_ext2) 0 = demo_bitmap" by (simp add: bitmap_def demo_mem_def)
  show ?thesis
    using AllocVNode_DeleteINode[OF _ demo_AllocVNode] demo_groups_ok bm by fastforce
qed

theorem AllocBlock_off_by_one_witness:
  "\<exists>b k. fst (AllocBlock demo_ext2) = Some b \<and> b = of_nat (k + 2) \<and>
     \<not> bmap_bit demo_bitmap k \<and> bitmap (block_bmap_cache (snd (AllocBlock demo_ext2))) 0 = set_bmap_bit k demo_bitmap"
proof -
  have bm: "bitmap (block_bmap_cache demo_ext2) 0 = demo_bitmap" by (simp add: bitmap_def demo_mem_def)
  obtain b where b: "AllocBlock demo_ext2 = (Some b, snd (AllocBlock demo_ext2))" using demo_AllocBlock by blast
  then have "fst (AllocBlock demo_ext2) = Some b" by (metis fst_conv)
  then show ?thesis
    using AllocBlock_off_by_one[OF _ b] demo_groups_ok bm by fastforce
qed

end
