(* ===== verification/Ext2_VNode.thy ===== *)
theory Ext2_VNode
  imports Ext2_Mount Ds_String
begin

text \<open>
  \<open>src/sys/fs/ext2_vnode.cpp\<close>: files and directories of a mounted ext2 file system.

  A method works on a vnode object. The ones that only touch their own object take it as a value and return
  it changed (\<open>vnode \<Rightarrow> ext2 \<Rightarrow> ('a \<times> vnode \<times> ext2) run option\<close>); those that handle other vnode objects take the
  address of the object in \<open>vnodes\<close>. A result \<open>None\<close> means that the code never returns, \<open>Overrun\<close> that it reads
  or writes outside a buffer or through a pointer that is not valid. Allocations on the kernel heap succeed;
  \<open>fresh\<close> is the address they return for a new object, \<open>mem\<close> the contents of a new buffer that is not cleared.
  Sizes are below \<open>2 ^ 64\<close>; block numbers within a file are truncated to 32 bits where the code does.

  \<open>RefCntPtr\<close> frees the memory of its object without running the destructor, so dropping the last handle of a
  vnode is \<open>free_vnode\<close>; only \<open>Remove\<close> has a vnode on the stack, whose destructor does run.
\<close>

datatype 'a run = Overrun | Ret 'a

definition run_bind :: "'a run option \<Rightarrow> ('a \<Rightarrow> 'b run option) \<Rightarrow> 'b run option" where
  "run_bind m f = Option.bind m (\<lambda>r. case r of Overrun \<Rightarrow> Some Overrun | Ret x \<Rightarrow> f x)"

lemma run_bind_simps [simp]:
  "run_bind None f = None" "run_bind (Some Overrun) f = Some Overrun" "run_bind (Some (Ret x)) f = f x"
  by (simp_all add: run_bind_def)

lemma run_bind_Ret:
  "run_bind m f = Some (Ret y) \<longleftrightarrow> (\<exists>x. m = Some (Ret x) \<and> f x = Some (Ret y))"
  by (auto simp: run_bind_def split: Option.bind_splits run.splits)

lemma run_bind_Some:
  "run_bind m f = Some r \<longleftrightarrow> (m = Some Overrun \<and> r = Overrun) \<or> (\<exists>x. m = Some (Ret x) \<and> f x = Some r)"
  by (auto simp: run_bind_def split: Option.bind_splits run.splits)

lemma run_bind_mono [partial_function_mono]:
  assumes "mono_option B" "\<And>y. mono_option (\<lambda>f. C y f)"
  shows "mono_option (\<lambda>f. run_bind (B f) (\<lambda>y. C y f))"
proof -
  have "mono_option (\<lambda>f. case r of Overrun \<Rightarrow> Some Overrun | Ret x \<Rightarrow> C x f)" for r
    using assms(2) by (cases r) (simp_all add: option.const_mono)
  then show ?thesis unfolding run_bind_def using assms(1) by (intro bind_mono)
qed

section \<open>File types\<close>

datatype file_type = DIRECTORY | REGULAR | SYMLINK | BLOCK_DEV | CHAR_DEV | SOCKET | NAMED_PIPE | OTHER

definition EXT2_FT_UNKNOWN :: u8 where "EXT2_FT_UNKNOWN = 0"
definition EXT2_FT_REG_FILE :: u8 where "EXT2_FT_REG_FILE = 1"
definition EXT2_FT_DIR :: u8 where "EXT2_FT_DIR = 2"
definition EXT2_FT_CHRDEV :: u8 where "EXT2_FT_CHRDEV = 3"
definition EXT2_FT_BLKDEV :: u8 where "EXT2_FT_BLKDEV = 4"
definition EXT2_FT_FIFO :: u8 where "EXT2_FT_FIFO = 5"
definition EXT2_FT_SOCK :: u8 where "EXT2_FT_SOCK = 6"
definition EXT2_FT_SYMLINK :: u8 where "EXT2_FT_SYMLINK = 7"

lemmas ext2_ft_defs = EXT2_FT_UNKNOWN_def EXT2_FT_REG_FILE_def EXT2_FT_DIR_def EXT2_FT_CHRDEV_def
  EXT2_FT_BLKDEV_def EXT2_FT_FIFO_def EXT2_FT_SOCK_def EXT2_FT_SYMLINK_def

definition EXT2_S_IFSOCK :: u16 where "EXT2_S_IFSOCK = 0xC000"
definition EXT2_S_IFLNK :: u16 where "EXT2_S_IFLNK = 0xA000"
definition EXT2_S_IFREG :: u16 where "EXT2_S_IFREG = 0x8000"
definition EXT2_S_IFBLK :: u16 where "EXT2_S_IFBLK = 0x6000"
definition EXT2_S_IFDIR :: u16 where "EXT2_S_IFDIR = 0x4000"
definition EXT2_S_IFCHR :: u16 where "EXT2_S_IFCHR = 0x2000"
definition EXT2_S_IFIFO :: u16 where "EXT2_S_IFIFO = 0x1000"
definition EXT2_S_NONE :: u16 where "EXT2_S_NONE = 0"

lemmas ext2_mode_defs = EXT2_S_IFSOCK_def EXT2_S_IFLNK_def EXT2_S_IFREG_def EXT2_S_IFBLK_def EXT2_S_IFDIR_def
  EXT2_S_IFCHR_def EXT2_S_IFIFO_def EXT2_S_NONE_def

fun FileTypeToExt2FileType :: "file_type \<Rightarrow> u8" where
  "FileTypeToExt2FileType REGULAR = EXT2_FT_REG_FILE"
| "FileTypeToExt2FileType DIRECTORY = EXT2_FT_DIR"
| "FileTypeToExt2FileType SYMLINK = EXT2_FT_SYMLINK"
| "FileTypeToExt2FileType BLOCK_DEV = EXT2_FT_BLKDEV"
| "FileTypeToExt2FileType CHAR_DEV = EXT2_FT_CHRDEV"
| "FileTypeToExt2FileType NAMED_PIPE = EXT2_FT_FIFO"
| "FileTypeToExt2FileType SOCKET = EXT2_FT_SOCK"
| "FileTypeToExt2FileType OTHER = EXT2_FT_UNKNOWN"

definition FileModeToFileType :: "u16 \<Rightarrow> u8" where
  "FileModeToFileType mode =
     (if mode = EXT2_S_IFSOCK then EXT2_FT_SOCK
      else if mode = EXT2_S_IFLNK then EXT2_FT_SYMLINK
      else if mode = EXT2_S_IFREG then EXT2_FT_REG_FILE
      else if mode = EXT2_S_IFBLK then EXT2_FT_BLKDEV
      else if mode = EXT2_S_IFDIR then EXT2_FT_DIR
      else if mode = EXT2_S_IFCHR then EXT2_FT_CHRDEV
      else if mode = EXT2_S_IFIFO then EXT2_FT_FIFO
      else EXT2_FT_UNKNOWN)"

definition FileTypeToFileMode :: "u8 \<Rightarrow> u16" where
  "FileTypeToFileMode type =
     (if type = EXT2_FT_SOCK then EXT2_S_IFSOCK
      else if type = EXT2_FT_SYMLINK then EXT2_S_IFLNK
      else if type = EXT2_FT_REG_FILE then EXT2_S_IFREG
      else if type = EXT2_FT_BLKDEV then EXT2_S_IFBLK
      else if type = EXT2_FT_DIR then EXT2_S_IFDIR
      else if type = EXT2_FT_CHRDEV then EXT2_S_IFCHR
      else if type = EXT2_FT_FIFO then EXT2_S_IFIFO
      else EXT2_S_NONE)"

definition GetExt2FileType :: "inode \<Rightarrow> u16" where
  "GetExt2FileType nd = i_mode nd AND 0xF000"

definition GetFileType :: "inode \<Rightarrow> file_type" where
  "GetFileType nd =
     (let t = GetExt2FileType nd
      in if t = EXT2_S_IFREG then REGULAR
         else if t = EXT2_S_IFDIR then DIRECTORY
         else if t = EXT2_S_IFLNK then SYMLINK
         else if t = EXT2_S_IFBLK then BLOCK_DEV
         else if t = EXT2_S_IFCHR then CHAR_DEV
         else if t = EXT2_S_IFIFO then NAMED_PIPE
         else if t = EXT2_S_IFSOCK then SOCKET
         else OTHER)"

definition GetLength :: "inode \<Rightarrow> nat" where
  "GetLength nd = unat (i_size nd)"

definition GetPerms :: "inode \<Rightarrow> u16" where
  "GetPerms nd = i_mode nd AND 0x1FF"

definition Chmod :: "u16 \<Rightarrow> inode \<Rightarrow> bool \<times> inode" where
  "Chmod perms nd = (if perms > 0x1FF then (False, nd) else (True, nd\<lparr>i_mode := i_mode nd OR perms\<rparr>))"

section \<open>The constructor from the disk, the destructor\<close>

definition Ext2VNode :: "u32 \<Rightarrow> ext2 \<Rightarrow> vnode" where
  "Ext2VNode i s = \<lparr>inode_of = (case ReadINode i s of Some n \<Rightarrow> n | None \<Rightarrow> zero_inode), ino = i\<rparr>"

definition WriteBack :: "vnode \<Rightarrow> ext2 \<Rightarrow> bool \<times> ext2" where
  "WriteBack v s = WriteINode (ino v) (inode_of v) s"

definition Destroy_VNode :: "vnode \<Rightarrow> ext2 \<Rightarrow> ext2" where
  "Destroy_VNode v s = Unpin (ino v) (snd (WriteBack v s))"

section \<open>Extents\<close>

definition AddToExtentList :: "extent list \<Rightarrow> u32 \<Rightarrow> extent list" where
  "AddToExtentList es block =
     (if es \<noteq> [] \<and> block = fst (last es) + snd (last es)
      then butlast es @ [(fst (last es), snd (last es) + 1)]
      else es @ [(block, 1)])"

text \<open>The blocks of an extent, as the loops from \<open>start_\<close> up to \<open>start_ + len_\<close> visit them.\<close>

definition extent_blocks :: "extent \<Rightarrow> u32 list" where
  "extent_blocks e =
     (if unat (fst e) + unat (snd e) < 2 ^ 32 then map (\<lambda>i. fst e + of_nat i) [0..<unat (snd e)] else [])"

definition expand :: "extent list \<Rightarrow> u32 list" where
  "expand es = concat (map extent_blocks es)"

definition ptrs_per_block :: "ext2 \<Rightarrow> nat" where
  "ptrs_per_block s = unat (block_size s) div 4"

primrec PtrsPerIndirectBlock :: "nat \<Rightarrow> nat \<Rightarrow> nat" where
  "PtrsPerIndirectBlock p 0 = p"
| "PtrsPerIndirectBlock p (Suc level) = PtrsPerIndirectBlock p level * p"

definition Ensure_ptr :: "bool \<Rightarrow> u32 \<Rightarrow> ext2 \<Rightarrow> u32 option \<times> ext2" where
  "Ensure_ptr create p s = (if create \<and> p = 0 then AllocBlock s else (Some p, s))"

definition Count_block :: "bool \<Rightarrow> inode \<Rightarrow> inode" where
  "Count_block new nd = (if new then nd\<lparr>i_blocks := i_blocks nd + 1\<rparr> else nd)"

text \<open>
  The recursive function, level 0: \<open>n\<close> pointers of the block \<open>parent\<close> from \<open>ind\<close> on. The result is the number of
  blocks (\<open>None\<close> for -1), the block of pointers as it is then, and the extents, inode and file system.
\<close>

type_synonym walk = "extent list \<times> inode \<times> ext2"

fun Extents_leaf :: "bool \<Rightarrow> nat \<Rightarrow> nat \<Rightarrow> u32 list \<Rightarrow> walk \<Rightarrow> (bool \<times> u32 list \<times> walk) run" where
  "Extents_leaf create 0 ind parent w = Ret (True, parent, w)"
| "Extents_leaf create (Suc n) ind parent (es, nd, s) =
     (if length parent \<le> ind then Overrun
      else case Ensure_ptr create (parent ! ind) s of
             (None, s) \<Rightarrow> Ret (False, parent, es, nd, s)
           | (Some p, s) \<Rightarrow>
               (let nd = Count_block (create \<and> parent ! ind = 0) nd; parent = parent[ind := p]
                in if p = 0 then Ret (False, parent, es, nd, s)
                   else Extents_leaf create n (ind + 1) parent (AddToExtentList es p, nd, s)))"

text \<open>
  The loop of the levels above 0; \<open>sub\<close> is the function one level down. When a child block cannot be read the
  loop goes round again without progress.
\<close>

type_synonym walk_fun = "nat \<Rightarrow> nat \<Rightarrow> u32 list \<Rightarrow> walk \<Rightarrow> (nat option \<times> u32 list \<times> walk) run option"

partial_function (option) Extents_loop ::
  "walk_fun \<Rightarrow> nat \<Rightarrow> bool \<Rightarrow> bool \<Rightarrow> nat \<Rightarrow> nat \<Rightarrow> nat \<Rightarrow> u32 list \<Rightarrow> walk \<Rightarrow> (nat option \<times> u32 list \<times> walk) run option"
where
  "Extents_loop sub ptrs_in_child create mdata block_no len blocks_read parent w =
     (if blocks_read < len then
        (let parent_ind = block_no div ptrs_in_child
         in if length parent \<le> parent_ind then Some Overrun
            else case w of (es, nd, s) \<Rightarrow>
              (case Ensure_ptr (create \<and> block_no mod ptrs_in_child = 0) (parent ! parent_ind) s of
                 (None, s) \<Rightarrow> Some (Ret (None, parent, es, nd, s))
               | (Some p, s) \<Rightarrow>
                   (let parent = parent[parent_ind := p]
                    in case ReadBlock p s of
                         None \<Rightarrow> Extents_loop sub ptrs_in_child create mdata block_no len blocks_read parent (es, nd, s)
                       | Some bytes \<Rightarrow>
                           run_bind (sub (block_no mod ptrs_in_child) (min ptrs_in_child len) (u32s bytes)
                                       (if mdata then AddToExtentList es p else es, nd, s))
                             (\<lambda>(r, child, es, nd, s).
                                case r of
                                  None \<Rightarrow> Some (Ret (None, parent, es, nd, s))
                                | Some k \<Rightarrow>
                                    Extents_loop sub ptrs_in_child create mdata (block_no + k) (len - k)
                                      (blocks_read + k) parent
                                      (es, nd, if create then snd (WriteBlock (u32_bytes child) p s) else s)))))
      else Some (Ret (Some blocks_read, parent, w)))"

primrec Extents_walk :: "bool \<Rightarrow> bool \<Rightarrow> nat \<Rightarrow> nat \<Rightarrow> walk_fun" where
  "Extents_walk create mdata p 0 ind len parent w =
     Some (case Extents_leaf create len ind parent w of
             Overrun \<Rightarrow> Overrun
           | Ret (ok, parent, w) \<Rightarrow> Ret (if ok then Some len else None, parent, w))"
| "Extents_walk create mdata p (Suc level) ind len parent w =
     Extents_loop (Extents_walk create mdata p level) (PtrsPerIndirectBlock p level) create mdata ind len 0 parent w"

text \<open>
  The entry of \<open>i_block\<close> through which a block of the file is reached, and the number of the block below it.
\<close>

definition indirect_slot :: "nat \<Rightarrow> nat \<Rightarrow> (nat \<times> nat) option" where
  "indirect_slot p block_no =
     (if block_no < 12 + p then Some (12, block_no - 12)
      else if block_no < 12 + p + p * p then Some (13, block_no - (12 + p))
      else if block_no < 12 + p + p * p + p * (p * p) then Some (14, block_no - (12 + p + p * p))
      else None)"

definition set_i_block :: "nat \<Rightarrow> u32 \<Rightarrow> inode \<Rightarrow> inode" where
  "set_i_block i p nd = nd\<lparr>i_block := (i_block nd)[i := p]\<rparr>"

text \<open>
  \<open>GetOrCreateExtents\<close>: \<open>held\<close> is the indirect block that the buffer \<open>parent\<close> holds, with its number.
\<close>

definition Load_parent :: "bool \<Rightarrow> u32 \<Rightarrow> (u32 \<times> u32 list) option \<Rightarrow> extent list \<Rightarrow> ext2 \<Rightarrow> (u32 list \<times> extent list) option" where
  "Load_parent mdata p held es s =
     (case held of
        Some (q, parent) \<Rightarrow>
          if q = p then Some (parent, es)
          else map_option (\<lambda>b. (u32s b, if mdata then AddToExtentList es p else es)) (ReadBlock p s)
      | None \<Rightarrow> map_option (\<lambda>b. (u32s b, if mdata then AddToExtentList es p else es)) (ReadBlock p s))"

partial_function (option) Extents_top ::
  "bool \<Rightarrow> bool \<Rightarrow> nat \<Rightarrow> nat \<Rightarrow> (u32 \<times> u32 list) option \<Rightarrow> walk \<Rightarrow> (extent list option \<times> inode \<times> ext2) run option"
where
  "Extents_top create mdata block_no rem_len held w =
     (case w of (es, nd, s) \<Rightarrow>
        if rem_len = 0 then Some (Ret (Some es, nd, s))
        else if block_no < 12 then
          (case Ensure_ptr create (i_block nd ! block_no) s of
             (None, s) \<Rightarrow> Some (Ret (None, nd, s))
           | (Some p, s) \<Rightarrow>
               Extents_top create mdata (block_no + 1) (rem_len - 1) held
                 (AddToExtentList es p,
                  set_i_block block_no p (Count_block (create \<and> i_block nd ! block_no = 0) nd), s))
        else
          (case indirect_slot (ptrs_per_block s) block_no of
             None \<Rightarrow> Some (Ret (None, nd, s))
           | Some (block_ind, block_child_ind) \<Rightarrow>
               (case Ensure_ptr create (i_block nd ! block_ind) s of
                  (None, s) \<Rightarrow> Some (Ret (None, nd, s))
                | (Some p, s) \<Rightarrow>
                    (let nd = set_i_block block_ind p nd
                     in case Load_parent mdata p held es s of
                          None \<Rightarrow> Some (Ret (None, nd, s))
                        | Some (parent, es) \<Rightarrow>
                            run_bind (Extents_walk create mdata (ptrs_per_block s) (block_ind - 12) block_child_ind
                                        (min (PtrsPerIndirectBlock (ptrs_per_block s) (block_ind - 12)) rem_len)
                                        parent (es, nd, s))
                              (\<lambda>(r, parent, es, nd, s).
                                 let s = (if create then snd (WriteBlock (u32_bytes parent) (i_block nd ! block_ind) s) else s)
                                 in case r of
                                      None \<Rightarrow> Some (Ret (None, nd, s))
                                    | Some k \<Rightarrow>
                                        Extents_top create mdata ((block_no + k) mod 2 ^ 32) (rem_len - k)
                                          (Some (p, parent)) (es, nd, s))))))"

definition GetOrCreateExtents ::
  "nat \<Rightarrow> nat \<Rightarrow> bool \<Rightarrow> bool \<Rightarrow> inode \<Rightarrow> ext2 \<Rightarrow> (extent list option \<times> inode \<times> ext2) run option"
where
  "GetOrCreateExtents block_no len create mdata nd s =
     Extents_top create mdata (block_no mod 2 ^ 32) len None ([], nd, s)"

definition GetOrCreateBlock :: "nat \<Rightarrow> bool \<Rightarrow> inode \<Rightarrow> ext2 \<Rightarrow> (u32 option \<times> inode \<times> ext2) run option" where
  "GetOrCreateBlock block_no create nd s =
     run_bind (GetOrCreateExtents block_no 1 create False nd s)
       (\<lambda>(es, nd, s). case es of
          None \<Rightarrow> Some (Ret (None, nd, s))
        | Some [] \<Rightarrow> Some Overrun
        | Some (e # _) \<Rightarrow> Some (Ret (Some (fst e), nd, s)))"

definition Prealloc :: "inode \<Rightarrow> ext2 \<Rightarrow> (inode \<times> ext2) run option" where
  "Prealloc nd s =
     (if GetExt2FileType nd = EXT2_S_IFREG
      then run_bind (GetOrCreateExtents 0 (unat (GetPreallocBlocks s)) True False nd s) (\<lambda>(_, nd, s). Some (Ret (nd, s)))
      else if GetExt2FileType nd = EXT2_S_IFDIR
      then run_bind (GetOrCreateExtents 0 (unat (GetPreallocDirBlocks s)) True False nd s) (\<lambda>(_, nd, s). Some (Ret (nd, s)))
      else Some (Ret (nd, s)))"

section \<open>Reading and writing\<close>

text \<open>
  \<open>pos\<close> is where \<open>buff_ptr\<close> points into the caller's buffer. A copy that leaves the buffer is an \<open>Overrun\<close>; for a
  transfer of several extents this is decided before it starts.
\<close>

definition copy_in :: "nat \<Rightarrow> u8 list \<Rightarrow> u8 list \<Rightarrow> u8 list run" where
  "copy_in pos bytes buff = (if pos + length bytes \<le> length buff then Ret (patch pos bytes buff) else Overrun)"

definition copy_out :: "nat \<Rightarrow> nat \<Rightarrow> u8 list \<Rightarrow> u8 list run" where
  "copy_out pos n buff = (if pos + n \<le> length buff then Ret (take n (drop pos buff)) else Overrun)"

text \<open>The block that contains an offset inside a block (lines 438 to 463).\<close>

definition ReadWrite_head ::
  "bool \<Rightarrow> nat \<Rightarrow> u8 list \<Rightarrow> inode \<Rightarrow> ext2 \<Rightarrow> (nat option \<times> u8 list \<times> inode \<times> ext2) run option"
where
  "ReadWrite_head wr offset buff nd s =
     (let bs = unat (block_size s); off = offset mod bs; op_len = bs - off
      in if off = 0 then Some (Ret (Some 0, buff, nd, s))
         else run_bind (GetOrCreateBlock (offset div bs) wr nd s) (\<lambda>(b, nd, s).
           case b of
             None \<Rightarrow> Some (Ret (None, buff, nd, s))
           | Some b \<Rightarrow>
               if wr then
                 run_bind (Some (copy_out 0 op_len buff)) (\<lambda>_.
                   case ReadBlock b s of
                     None \<Rightarrow> Some (Ret (None, buff, nd, s))
                   | Some _ \<Rightarrow> Some (Ret (Some op_len, buff, nd, s)))
               else
                 (case ReadBlock b s of
                    None \<Rightarrow> Some (Ret (None, buff, nd, s))
                  | Some block \<Rightarrow>
                      run_bind (Some (copy_in 0 (take op_len (drop off block)) buff))
                        (\<lambda>buff. Some (Ret (Some op_len, buff, nd, s))))))"

text \<open>The full blocks (lines 467 to 491). The result carries the flag, position and remaining length.\<close>

definition extents_bytes :: "ext2 \<Rightarrow> extent list \<Rightarrow> nat" where
  "extents_bytes s es = (\<Sum>e\<leftarrow>es. unat (snd e) * unat (block_size s))"

partial_function (option) ReadWrite_rounds ::
  "bool \<Rightarrow> nat \<Rightarrow> nat \<Rightarrow> nat \<Rightarrow> u8 list \<Rightarrow> inode \<Rightarrow> ext2 \<Rightarrow>
     (bool \<times> nat \<times> nat \<times> u8 list \<times> inode \<times> ext2) run option"
where
  "ReadWrite_rounds wr offset rem_len pos buff nd s =
     (let bs = unat (block_size s)
      in if bs \<le> rem_len then
           run_bind (GetOrCreateExtents (offset div bs) (rem_len div bs) wr False nd s) (\<lambda>(es, nd, s).
             case es of
               None \<Rightarrow> Some (Ret (False, pos, rem_len, buff, nd, s))
             | Some es \<Rightarrow>
                 (let n = extents_bytes s es
                  in run_bind
                       (if wr then
                          run_bind (Some (copy_out pos n buff)) (\<lambda>bytes.
                            (case WriteBlocks es bytes s of (ok, s) \<Rightarrow> Some (Ret (ok, buff, s))))
                        else
                          (case ReadBlocks es s of
                             None \<Rightarrow> Some (Ret (False, buff, s))
                           | Some bytes \<Rightarrow> run_bind (Some (copy_in pos bytes buff)) (\<lambda>buff. Some (Ret (True, buff, s)))))
                       (\<lambda>(ok, buff, s).
                          if ok then ReadWrite_rounds wr (offset + n) (rem_len - n) (pos + n) buff nd s
                          else Some (Ret (False, pos, rem_len, buff, nd, s)))))
         else Some (Ret (True, pos, rem_len, buff, nd, s)))"

text \<open>
  The last partial block (lines 494 to 516): \<open>buff_ptr + start_off - offset\<close> is the start of the buffer again. The
  optional \<open>block_ind\<close> is not tested: without a value its contents are undefined.
\<close>

definition ReadWrite_tail ::
  "bool \<Rightarrow> nat \<Rightarrow> nat \<Rightarrow> nat \<Rightarrow> u8 list \<Rightarrow> inode \<Rightarrow> ext2 \<Rightarrow> (bool \<times> u8 list \<times> inode \<times> ext2) run option"
where
  "ReadWrite_tail wr len rem_len pos buff nd s =
     (if rem_len = 0 then Some (Ret (True, buff, nd, s))
      else
        (let bs = unat (block_size s)
         in run_bind (GetOrCreateBlock (len div bs) wr nd s) (\<lambda>(b, nd, s).
           case b of
             None \<Rightarrow> Some Overrun
           | Some b \<Rightarrow>
               if wr then
                 run_bind (Some (copy_out 0 rem_len buff)) (\<lambda>bytes.
                   (case WriteBlock (bytes @ replicate (bs - rem_len) 0) b s of
                      (ok, s) \<Rightarrow> Some (Ret (ok, buff, nd, s))))
               else
                 (case ReadBlock b s of
                    None \<Rightarrow> Some (Ret (False, buff, nd, s))
                  | Some block \<Rightarrow>
                      run_bind (Some (copy_in pos (take rem_len block) buff))
                        (\<lambda>buff. Some (Ret (True, buff, nd, s)))))))"

definition ReadWrite ::
  "bool \<Rightarrow> nat \<Rightarrow> nat \<Rightarrow> u8 list \<Rightarrow> inode \<Rightarrow> ext2 \<Rightarrow> (bool \<times> u8 list \<times> inode \<times> ext2) run option"
where
  "ReadWrite wr offset len buff nd s =
     run_bind (ReadWrite_head wr offset buff nd s) (\<lambda>(r, buff, nd, s).
       case r of
         None \<Rightarrow> Some (Ret (False, buff, nd, s))
       | Some op_len \<Rightarrow>
           run_bind (ReadWrite_rounds wr (offset + op_len) len op_len buff nd s) (\<lambda>(ok, pos, rem_len, buff, nd, s).
             if ok then ReadWrite_tail wr len rem_len pos buff nd s
             else Some (Ret (False, buff, nd, s))))"

text \<open>\<open>Read\<close> into a buffer of the caller, \<open>Write\<close> from one.\<close>

definition Read :: "u8 list \<Rightarrow> nat \<Rightarrow> nat \<Rightarrow> vnode \<Rightarrow> ext2 \<Rightarrow> ((bool \<times> u8 list) \<times> vnode \<times> ext2) run option" where
  "Read buff offset len v s =
     run_bind (ReadWrite False offset len buff (inode_of v) s)
       (\<lambda>(ok, buff, nd, s). Some (Ret ((ok, buff), v\<lparr>inode_of := nd\<rparr>, s)))"

definition Write :: "u8 list \<Rightarrow> nat \<Rightarrow> nat \<Rightarrow> vnode \<Rightarrow> ext2 \<Rightarrow> (bool \<times> vnode \<times> ext2) run option" where
  "Write buff offset len v s =
     run_bind (ReadWrite True offset len buff (inode_of v) s)
       (\<lambda>(ok, buff, nd, s).
          if ok then
            (let nd = (if offset > unat (i_size nd) then nd\<lparr>i_size := of_nat offset\<rparr> else nd);
                 v = v\<lparr>inode_of := nd\<rparr>
             in Some (Ret (True, v, snd (WriteBack v s))))
          else Some (Ret (False, v\<lparr>inode_of := nd\<rparr>, s)))"

section \<open>Directories\<close>

text \<open>The fields of the entry at an offset of a directory block.\<close>

definition e_inode :: "u8 list \<Rightarrow> nat \<Rightarrow> u32" where "e_inode b off = of_nat (field off 4 b)"
definition e_rec_len :: "u8 list \<Rightarrow> nat \<Rightarrow> nat" where "e_rec_len b off = field (off + 4) 2 b"
definition e_name_len :: "u8 list \<Rightarrow> nat \<Rightarrow> nat" where "e_name_len b off = field (off + 6) 1 b"

definition dir_header :: "u32 \<Rightarrow> u16 \<Rightarrow> u8 \<Rightarrow> u8 \<Rightarrow> u8 list" where
  "dir_header i rec_len name_len ftype = le_bytes 4 (unat i) @ le_bytes 2 (unat rec_len) @ [name_len, ftype]"

text \<open>
  The search of \<open>GetDirEntry\<close> in one block. \<open>entries_size\<close> is reduced by the length of the entry that comes next,
  so the first length is never subtracted. \<open>Past_end\<close>: a length or a name is read over the end of the block.
\<close>

datatype dir_search = Found nat | No_record | Exhausted | Past_end

definition name_matches :: "ds_string \<Rightarrow> u8 list \<Rightarrow> nat \<Rightarrow> bool" where
  "name_matches name b off \<longleftrightarrow>
     strncmp (block_mem (name @ b)) 0 (length name + (off + 8)) (e_name_len b off) = 0"

function Dir_search :: "ds_string \<Rightarrow> u8 list \<Rightarrow> nat \<Rightarrow> nat \<Rightarrow> dir_search" where
  "Dir_search name b off entries_size =
     (if entries_size = 0 then Exhausted
      else if length b < off + 6 then Past_end
      else if e_rec_len b off = 0 then No_record
      else if length b < off + 8 + e_name_len b off then Past_end
      else if name_matches name b off then Found off
      else (let next = off + e_rec_len b off
            in if length b < next + 6 then Past_end
               else Dir_search name b next ((entries_size + 2 ^ 64 - e_rec_len b next) mod 2 ^ 64)))"
  by auto

termination by (relation "measure (\<lambda>(name, b, off, entries_size). length b - off)") auto

declare Dir_search.simps [simp del]

fun Search_blocks :: "ds_string \<Rightarrow> nat \<Rightarrow> u32 list \<Rightarrow> ext2 \<Rightarrow> (u32 \<times> nat \<times> u8 list) option run" where
  "Search_blocks name entries_size [] s = Ret None"
| "Search_blocks name entries_size (b # bs) s =
     (case ReadBlock b s of
        None \<Rightarrow> Ret None
      | Some bytes \<Rightarrow>
          (case Dir_search name bytes 0 entries_size of
             Found off \<Rightarrow> Ret (Some (b, off, bytes))
           | No_record \<Rightarrow> Ret None
           | Exhausted \<Rightarrow> Search_blocks name entries_size bs s
           | Past_end \<Rightarrow> Overrun))"

definition GetDirEntry ::
  "ds_string \<Rightarrow> inode \<Rightarrow> ext2 \<Rightarrow> ((u32 \<times> nat \<times> u8 list) option \<times> inode \<times> ext2) run option"
where
  "GetDirEntry name nd s =
     (if GetExt2FileType nd \<noteq> EXT2_S_IFDIR then Some (Ret (None, nd, s))
      else run_bind (GetOrCreateExtents 0 (unat (i_blocks nd)) False False nd s) (\<lambda>(es, nd, s).
        case es of
          None \<Rightarrow> Some (Ret (None, nd, s))
        | Some es \<Rightarrow>
            run_bind (Some (Search_blocks name (min (unat (i_size nd)) (unat (block_size s))) (expand es) s))
              (\<lambda>r. Some (Ret (r, nd, s)))))"

text \<open>
  The search of \<open>MakeDirEntry\<close> for room in a block, from the offset \<open>off\<close> on: the offset of the new record in the
  block changed so far, or the offset behind the last entry. An entry of length 0 makes it loop.
\<close>

definition entry_size :: "nat \<Rightarrow> nat" where
  "entry_size name_len = (8 + name_len + 4 - 1) div 4 * 4"

partial_function (option) Find_room :: "nat \<Rightarrow> u8 list \<Rightarrow> nat \<Rightarrow> (nat option \<times> u8 list) run option" where
  "Find_room new_record_size b off =
     (if length b \<le> off then Some (Ret (None, b))
      else if length b < off + 8 then Some Overrun
      else (let expected = entry_size (e_name_len b off);
                rec_len = e_rec_len b off;
                empty_space = (if expected \<le> rec_len then rec_len - expected else rec_len)
            in if new_record_size < empty_space then
                 if length b < off + expected + 8 then Some Overrun
                 else Some (Ret (Some (off + expected),
                        patch (off + 4) (le_bytes 2 expected) (patch (off + expected + 4) (le_bytes 2 empty_space) b)))
               else Find_room new_record_size b (off + rec_len)))"

definition MakeDirEntry ::
  "ds_string \<Rightarrow> u32 \<Rightarrow> file_type \<Rightarrow> vnode \<Rightarrow> ext2 \<Rightarrow> (bool \<times> vnode \<times> ext2) run option"
where
  "MakeDirEntry name child_ino type v s =
     (let bs = unat (block_size s);
          last_blk = (unat (i_size (inode_of v)) div bs + 2 ^ 64 - 1) mod 2 ^ 64
      in run_bind (GetOrCreateBlock last_blk True (inode_of v) s) (\<lambda>(fs_blk_no, nd, s).
        let v = v\<lparr>inode_of := nd\<rparr> in
        case fs_blk_no of
          None \<Rightarrow> Some (Ret (False, v, s))
        | Some fs_blk_no \<Rightarrow>
            (case ReadBlock fs_blk_no s of
               None \<Rightarrow> Some (Ret (False, v, s))
             | Some entries \<Rightarrow>
                 run_bind (Find_room (length name + 8) entries 0) (\<lambda>(r, entries).
                   case r of
                     None \<Rightarrow>
                       run_bind (GetOrCreateBlock (last_blk + 1) True nd s) (\<lambda>(records_blk, nd, s).
                         case records_blk of
                           None \<Rightarrow> Some (Ret (False, v\<lparr>inode_of := nd\<rparr>, s))
                         | Some _ \<Rightarrow> Some Overrun)
                   | Some record_off \<Rightarrow>
                       if length entries < record_off + 8 + length name then Some Overrun
                       else
                         (let entries = patch record_off
                                (dir_header child_ino (of_nat bs) (of_nat (length name - 1))
                                   (FileTypeToExt2FileType type) @ name) entries
                          in case WriteBlock entries fs_blk_no s of
                               (False, s) \<Rightarrow> Some (Ret (False, v, s))
                             | (True, s) \<Rightarrow>
                                 (let v = v\<lparr>inode_of := nd\<lparr>i_size := i_size nd + of_nat bs\<rparr>\<rparr>
                                  in Some (Ret (True, v, snd (WriteBack v s)))))))))"

definition InitializeDir :: "u8 list \<Rightarrow> u32 \<Rightarrow> vnode \<Rightarrow> ext2 \<Rightarrow> (bool \<times> vnode \<times> ext2) run option" where
  "InitializeDir mem parent_ino v s =
     run_bind (GetOrCreateBlock 0 True (inode_of v) s) (\<lambda>(blk, nd, s).
       case blk of
         None \<Rightarrow> Some (Ret (False, v\<lparr>inode_of := nd\<rparr>, s))
       | Some blk \<Rightarrow>
           (let bs = unat (block_size s);
                entries = patch 0 (dir_header (ino v) 12 1 EXT2_FT_DIR @ [46]) mem;
                entries = patch 12 (dir_header parent_ino (of_nat (bs - 12)) 2 EXT2_FT_DIR @ [46, 46]) entries;
                v = v\<lparr>inode_of := nd\<lparr>i_size := block_size s, i_links_count := i_links_count nd + 1\<rparr>\<rparr>
            in case WriteBlock entries blk s of
                 (False, s) \<Rightarrow> Some (Ret (False, v, s))
               | (True, s) \<Rightarrow> (case WriteBack v s of (ok, s) \<Rightarrow> Some (Ret (ok, v, s)))))"

text \<open>The destructor at the end of \<open>Remove\<close> writes the inode of the child again and unpins it.\<close>

fun Free_blocks :: "u32 list \<Rightarrow> ext2 \<Rightarrow> bool \<times> ext2" where
  "Free_blocks [] s = (True, s)"
| "Free_blocks (b # bs) s = (case FreeBlock b s of (True, s) \<Rightarrow> Free_blocks bs s | (False, s) \<Rightarrow> (False, s))"

definition Remove_child :: "vnode \<Rightarrow> ext2 \<Rightarrow> (bool \<times> ext2) run option" where
  "Remove_child child s =
     (let nd = (inode_of child)\<lparr>i_links_count := i_links_count (inode_of child) - 1\<rparr>;
          child = child\<lparr>inode_of := nd\<rparr>
      in if i_links_count nd > 0 then Some (Ret (True, Destroy_VNode child (snd (WriteBack child s))))
         else run_bind (GetOrCreateExtents 0 (GetLength nd div unat (block_size s)) False True nd s) (\<lambda>(es, nd, s).
           case es of
             None \<Rightarrow> Some (Ret (False, Destroy_VNode (child\<lparr>inode_of := nd\<rparr>) s))
           | Some es \<Rightarrow>
               (case Free_blocks (expand es) s of
                  (False, s) \<Rightarrow> Some (Ret (False, Destroy_VNode (child\<lparr>inode_of := nd\<rparr>) s))
                | (True, s) \<Rightarrow>
                    (case WriteINode (ino child) zero_inode s of
                       (ok, s) \<Rightarrow> Some (Ret (ok, Destroy_VNode (child\<lparr>inode_of := nd\<rparr>) s))))))"

definition Remove :: "ds_string \<Rightarrow> vnode \<Rightarrow> ext2 \<Rightarrow> (bool \<times> vnode \<times> ext2) run option" where
  "Remove child_name v s =
     run_bind (GetDirEntry child_name (inode_of v) s) (\<lambda>(r, nd, s).
       let v = v\<lparr>inode_of := nd\<rparr> in
       case r of
         None \<Rightarrow> Some (Ret (False, v, s))
       | Some (block_no, off, entries) \<Rightarrow>
           (let child_ino = e_inode entries off;
                entries = patch off (le_bytes 4 0) entries;
                entries = patch (off + 8) (replicate (e_name_len entries off) 0) entries
            in case WriteBlock entries block_no s of
                 (False, s) \<Rightarrow> Some (Ret (False, v, s))
               | (True, s) \<Rightarrow>
                   run_bind (Remove_child (Ext2VNode child_ino s) s) (\<lambda>(ok, s). Some (Ret (ok, v, s)))))"

definition Unlink :: "ds_string \<Rightarrow> vnode \<Rightarrow> ext2 \<Rightarrow> (bool \<times> vnode \<times> ext2) run option" where
  "Unlink name v s = Remove name v s"

section \<open>Several vnode objects\<close>

text \<open>A method called on the object at an address.\<close>

definition on_vnode :: "nat \<Rightarrow> (vnode \<Rightarrow> ext2 \<Rightarrow> ('a \<times> vnode \<times> ext2) run option) \<Rightarrow> ext2 \<Rightarrow> ('a \<times> ext2) run option" where
  "on_vnode self m s =
     (case vnodes s self of
        None \<Rightarrow> Some Overrun
      | Some v \<Rightarrow> run_bind (m v s) (\<lambda>(r, v, s). Some (Ret (r, s\<lparr>vnodes := (vnodes s)(self \<mapsto> v)\<rparr>))))"

definition free_vnode :: "nat \<Rightarrow> ext2 \<Rightarrow> ext2" where
  "free_vnode a s = s\<lparr>vnodes := (vnodes s)(a := None)\<rparr>"

text \<open>The last handle of a vnode that is not pinned is dropped.\<close>

definition drop_handle :: "nat \<Rightarrow> ext2 \<Rightarrow> ext2" where
  "drop_handle a s =
     (case vnodes s a of
        None \<Rightarrow> s
      | Some v \<Rightarrow> if pinned_vnodes s (ino v) = Some a then s else free_vnode a s)"

definition WriteBack_m :: "vnode \<Rightarrow> ext2 \<Rightarrow> (bool \<times> vnode \<times> ext2) run option" where
  "WriteBack_m v s = (case WriteBack v s of (ok, s) \<Rightarrow> Some (Ret (ok, v, s)))"

definition Chmod_m :: "u16 \<Rightarrow> vnode \<Rightarrow> ext2 \<Rightarrow> (bool \<times> vnode \<times> ext2) run option" where
  "Chmod_m perms v s = (case Chmod perms (inode_of v) of (ok, nd) \<Rightarrow> Some (Ret (ok, v\<lparr>inode_of := nd\<rparr>, s)))"

definition Prealloc_m :: "vnode \<Rightarrow> ext2 \<Rightarrow> (unit \<times> vnode \<times> ext2) run option" where
  "Prealloc_m v s = run_bind (Prealloc (inode_of v) s) (\<lambda>(nd, s). Some (Ret ((), v\<lparr>inode_of := nd\<rparr>, s)))"

text \<open>
  \<open>MakeDirEntry(name, vnode)\<close> with a raw pointer makes a temporary \<open>RefCntPtr\<close>, which frees the vnode when the call
  has returned: the handle that \<open>MkDir\<close> and \<open>Touch\<close> then return points to freed memory.
\<close>

definition MakeDirEntry_raw :: "ds_string \<Rightarrow> nat \<Rightarrow> nat \<Rightarrow> ext2 \<Rightarrow> (bool \<times> ext2) run option" where
  "MakeDirEntry_raw name self child s =
     (case vnodes s child of
        None \<Rightarrow> Some Overrun
      | Some c \<Rightarrow>
          run_bind (on_vnode self (MakeDirEntry name (ino c) (GetFileType (inode_of c))) s)
            (\<lambda>(ok, s). Some (Ret (ok, free_vnode child s))))"

definition MkDir :: "(ext2 \<Rightarrow> nat) \<Rightarrow> u8 list \<Rightarrow> ds_string \<Rightarrow> nat \<Rightarrow> ext2 \<Rightarrow> (nat option \<times> ext2) run option" where
  "MkDir fresh mem name self s =
     (case vnodes s self of
        None \<Rightarrow> Some Overrun
      | Some this \<Rightarrow>
          (case AllocVNode (fresh s) EXT2_S_IFDIR 0x1FF 0 0 s of
             (None, s) \<Rightarrow> Some (Ret (None, s))
           | (Some c, s) \<Rightarrow>
               run_bind (on_vnode c Prealloc_m s) (\<lambda>(_, s).
               run_bind (on_vnode c (InitializeDir mem (ino this)) s) (\<lambda>(_, s).
               run_bind (on_vnode c (Chmod_m 0x1FF) s) (\<lambda>(_, s).
               run_bind (on_vnode c WriteBack_m s) (\<lambda>(_, s).
               run_bind (MakeDirEntry_raw name self c s) (\<lambda>(ok, s).
                 if ok then
                   run_bind (on_vnode self (\<lambda>v s.
                       let v = v\<lparr>inode_of := (inode_of v)\<lparr>i_links_count := i_links_count (inode_of v) + 1\<rparr>\<rparr>
                       in WriteBack_m v s) s)
                     (\<lambda>(_, s). Some (Ret (Some c, s)))
                 else Some (Ret (None, s)))))))))"

definition Touch :: "(ext2 \<Rightarrow> nat) \<Rightarrow> ds_string \<Rightarrow> nat \<Rightarrow> ext2 \<Rightarrow> (nat option \<times> ext2) run option" where
  "Touch fresh name self s =
     (case AllocVNode (fresh s) EXT2_S_IFREG 0x1FF 0 0 s of
        (None, s) \<Rightarrow> Some (Ret (None, s))
      | (Some c, s) \<Rightarrow>
          run_bind (on_vnode c Prealloc_m s) (\<lambda>(_, s).
          run_bind (on_vnode c (Chmod_m 0x1FF) s) (\<lambda>(_, s).
          run_bind (on_vnode c WriteBack_m s) (\<lambda>(_, s).
          run_bind (MakeDirEntry_raw name self c s) (\<lambda>(ok, s).
            Some (Ret (if ok then Some c else None, s)))))))"

definition Link :: "(ext2 \<Rightarrow> nat) \<Rightarrow> ds_string \<Rightarrow> u32 \<Rightarrow> nat \<Rightarrow> ext2 \<Rightarrow> (nat option \<times> ext2) run option" where
  "Link fresh name i self s =
     (case GetVNode (fresh s) i s of
        None \<Rightarrow> Some Overrun
      | Some (None, s) \<Rightarrow> Some (Ret (None, s))
      | Some (Some c, s) \<Rightarrow>
          (case vnodes s c of
             None \<Rightarrow> Some Overrun
           | Some v \<Rightarrow>
               run_bind (on_vnode self (MakeDirEntry name (ino v) (GetFileType (inode_of v))) s) (\<lambda>(ok, s).
                 if ok then run_bind (on_vnode c WriteBack_m s) (\<lambda>(_, s). Some (Ret (Some c, s)))
                 else Some (Ret (None, drop_handle c s)))))"

definition SymLink :: "(ext2 \<Rightarrow> nat) \<Rightarrow> ds_string \<Rightarrow> ds_string \<Rightarrow> nat \<Rightarrow> ext2 \<Rightarrow> (bool \<times> ext2) run option" where
  "SymLink fresh name target self s =
     (case AllocVNode (fresh s) EXT2_S_IFLNK 0x1FF 0 0 s of
        (None, s) \<Rightarrow> Some (Ret (False, s))
      | (Some c, s) \<Rightarrow>
          run_bind
            (if length target < 60
             then on_vnode c (\<lambda>v s. Some (Ret (True,
                    v\<lparr>inode_of := (inode_of v)\<lparr>i_block := u32s (patch 0 target (u32_bytes (i_block (inode_of v))))\<rparr>\<rparr>, s))) s
             else on_vnode c (Write target 0 (length target)) s)
            (\<lambda>(_, s). MakeDirEntry_raw name self c s))"

text \<open>
  \<open>ReadDir\<close>: the names of one block with the inodes behind them, the offset reached and the length that remains.
  The vnodes are handed out in the order of the entries; a second entry of the same name is dropped.
\<close>

definition Add_vnode ::
  "(ext2 \<Rightarrow> nat) \<Rightarrow> u8 list \<Rightarrow> nat \<Rightarrow> (ds_string \<times> nat) list \<Rightarrow> ext2 \<Rightarrow> ((ds_string \<times> nat) list option \<times> ext2) run"
where
  "Add_vnode fresh b off found s =
     (if e_inode b off = 0 then Ret (Some found, s)
      else case String_buf (drop (off + 8) b) (e_name_len b off) of
             None \<Rightarrow> Overrun
           | Some name \<Rightarrow>
               (case GetVNode (fresh s) (e_inode b off) s of
                  None \<Rightarrow> Overrun
                | Some (None, s) \<Rightarrow> Ret (None, fold (\<lambda>e. drop_handle (snd e)) found s)
                | Some (Some a, s) \<Rightarrow>
                    if map_of found name = None then Ret (Some (found @ [(name, a)]), s)
                    else Ret (Some found, drop_handle a s)))"

partial_function (option) ReadDir_block ::
  "(ext2 \<Rightarrow> nat) \<Rightarrow> u8 list \<Rightarrow> nat \<Rightarrow> nat \<Rightarrow> (ds_string \<times> nat) list \<Rightarrow> ext2 \<Rightarrow>
     ((nat \<times> nat \<times> (ds_string \<times> nat) list) option \<times> ext2) run option"
where
  "ReadDir_block fresh b block_off rem_len found s =
     (if block_off < length b \<and> rem_len \<noteq> 0 then
        if length b < block_off + 8 then Some Overrun
        else run_bind (Some (Add_vnode fresh b block_off found s)) (\<lambda>(r, s).
          case r of
            None \<Rightarrow> Some (Ret (None, s))
          | Some found \<Rightarrow>
              ReadDir_block fresh b (block_off + e_rec_len b block_off)
                ((rem_len + 2 ^ 64 - e_rec_len b block_off) mod 2 ^ 64) found s)
      else Some (Ret (Some (block_off, rem_len, found), s)))"

partial_function (option) ReadDir_blocks ::
  "(ext2 \<Rightarrow> nat) \<Rightarrow> nat \<Rightarrow> nat \<Rightarrow> (ds_string \<times> nat) list \<Rightarrow> inode \<Rightarrow> ext2 \<Rightarrow>
     ((ds_string \<times> nat) list option \<times> ext2) run option"
where
  "ReadDir_blocks fresh blk rem_len found nd s =
     (if rem_len = 0 then Some (Ret (Some found, s))
      else run_bind (GetOrCreateBlock blk False nd s) (\<lambda>(fs_blk_no, nd, s).
        case (case fs_blk_no of None \<Rightarrow> None | Some p \<Rightarrow> ReadBlock p s) of
          None \<Rightarrow> Some (Ret (None, fold (\<lambda>e. drop_handle (snd e)) found s))
        | Some b \<Rightarrow>
            run_bind (ReadDir_block fresh b 0 rem_len found s) (\<lambda>(r, s).
              case r of
                None \<Rightarrow> Some (Ret (None, s))
              | Some (block_off, rem_len, found) \<Rightarrow>
                  if block_off < length b \<and> e_inode b block_off = 0 then Some (Ret (Some found, s))
                  else ReadDir_blocks fresh (blk + 1) rem_len found nd s)))"

definition ReadDir :: "(ext2 \<Rightarrow> nat) \<Rightarrow> vnode \<Rightarrow> ext2 \<Rightarrow> ((ds_string \<times> nat) list option \<times> ext2) run option" where
  "ReadDir fresh v s =
     (if GetExt2FileType (inode_of v) \<noteq> EXT2_S_IFDIR then Some (Ret (None, s))
      else ReadDir_blocks fresh 0 (unat (i_size (inode_of v))) [] (inode_of v) s)"

text \<open>
  The first component of a path: from behind a leading slash up to and including the next slash or the byte behind
  the end of the string, whose value is \<open>pad\<close>; \<open>path_end\<close> is where the rest begins.
\<close>

definition path_start :: "ds_string \<Rightarrow> nat" where
  "path_start name = (if name \<noteq> [] \<and> hd name = 47 then 1 else 0)"

definition path_end :: "ds_string \<Rightarrow> nat" where
  "path_end name = path_start name + length (takeWhile (\<lambda>c. c \<noteq> 47) (drop (path_start name) name))"

definition Path_child :: "u8 \<Rightarrow> ds_string \<Rightarrow> ds_string option" where
  "Path_child pad name = String_buf (drop (path_start name) (name @ [pad])) (path_end name + 1 - path_start name)"

definition Path_rest :: "ds_string \<Rightarrow> ds_string option" where
  "Path_rest name = Substr name (int (path_end name)) (int (length name))"

end
