(* ===== verification/Ext2_Extents.thy ===== *)
theory Ext2_Extents
  imports Ext2_VNode Ext2_Theorems
begin

text \<open>
  The block map of a file. \<open>file_block\<close> is the reference definition: the disk block of the \<open>n\<close>-th block of a file,
  followed through the direct pointers and up to three levels of pointer blocks. The theorem says when
  \<open>GetOrCreateExtents\<close> returns exactly these blocks, in order; the others show where it reads outside a
  pointer block and where it never returns.
\<close>

section \<open>Extent lists\<close>

definition extents_ok :: "extent list \<Rightarrow> bool" where
  "extents_ok es \<longleftrightarrow> (\<forall>e\<in>set es. unat (fst e) + unat (snd e) < 2 ^ 32)"

lemma extent_blocks_1: "p \<noteq> - 1 \<Longrightarrow> extent_blocks (p, 1) = [p]" and extent_ok_1: "p \<noteq> - 1 \<Longrightarrow> unat (p :: u32) + 1 < 2 ^ 32"
proof -
  show ok: "unat p + 1 < 2 ^ 32" if "p \<noteq> - 1"
  proof (rule ccontr)
    assume "\<not> unat p + 1 < 2 ^ 32"
    then have "unat p = unat (- 1 :: u32)" using unsigned_less[of p, where 'a = nat] by (simp add: unsigned_minus_1_eq_mask mask_eq_exp_minus_1)
    then show False using that by (simp add: word_unat_eq_iff)
  qed
  then show "extent_blocks (p, 1) = [p]" if "p \<noteq> - 1" using that by (simp add: extent_blocks_def)
qed

lemma extent_blocks_grow:
  assumes "unat b + unat n < 2 ^ 32" "p = b + n" "p \<noteq> - 1"
  shows "extent_blocks (b, n + 1) = extent_blocks (b, n) @ [p]" "unat b + unat (n + 1) < 2 ^ 32"
proof -
  have p: "unat p = unat b + unat n" using assms(1,2) by (simp add: unat_add_lem[THEN iffD1])
  have n1: "unat (n + 1) = unat n + 1" using extent_ok_1[OF assms(3)] p by (simp add: unat_add_lem[THEN iffD1])
  show "unat b + unat (n + 1) < 2 ^ 32" using n1 p extent_ok_1[OF assms(3)] by simp
  then show "extent_blocks (b, n + 1) = extent_blocks (b, n) @ [p]"
    using assms(1,2) by (simp add: extent_blocks_def n1)
qed

lemma expand_AddToExtentList:
  assumes "extents_ok es" "p \<noteq> - 1"
  shows "expand (AddToExtentList es p) = expand es @ [p]" "extents_ok (AddToExtentList es p)"
proof -
  have "expand (AddToExtentList es p) = expand es @ [p] \<and> extents_ok (AddToExtentList es p)"
  proof (cases "es \<noteq> [] \<and> p = fst (last es) + snd (last es)")
    case True
    obtain b n where l: "last es = (b, n)" by (cases "last es")
    have es: "es = butlast es @ [(b, n)]" using True l by (metis append_butlast_last_id)
    have bn: "unat b + unat n < 2 ^ 32" using assms(1) True l last_in_set[of es] by (force simp: extents_ok_def)
    have "expand es = expand (butlast es) @ extent_blocks (b, n)"
      by (subst es) (simp add: expand_def)
    then show ?thesis
      using True l extent_blocks_grow[OF bn _ assms(2)] assms(1)
      by (auto simp: AddToExtentList_def expand_def extents_ok_def dest: in_set_butlastD)
  next
    case False
    then show ?thesis
      using assms extent_blocks_1[OF assms(2)] extent_ok_1[OF assms(2)]
      by (auto simp: AddToExtentList_def expand_def extents_ok_def)
  qed
  then show "expand (AddToExtentList es p) = expand es @ [p]" "extents_ok (AddToExtentList es p)" by simp_all
qed

lemma expand_foldl:
  assumes "extents_ok es" "- 1 \<notin> set ps"
  shows "expand (foldl AddToExtentList es ps) = expand es @ ps" "extents_ok (foldl AddToExtentList es ps)"
  using assms by (induction ps arbitrary: es) (auto simp: expand_AddToExtentList)

section \<open>The block map\<close>

fun block_ptr :: "ext2 \<Rightarrow> nat \<Rightarrow> u32 list \<Rightarrow> nat \<Rightarrow> u32 option" where
  "block_ptr s 0 parent ind = (if ind < length parent then Some (parent ! ind) else None)"
| "block_ptr s (Suc level) parent ind =
     (let c = PtrsPerIndirectBlock (ptrs_per_block s) level
      in if ind div c < length parent
         then Option.bind (ReadBlock (parent ! (ind div c)) s) (\<lambda>b. block_ptr s level (u32s b) (ind mod c))
         else None)"

definition file_block :: "inode \<Rightarrow> ext2 \<Rightarrow> nat \<Rightarrow> u32 option" where
  "file_block nd s n =
     (if n < 12 then Some (i_block nd ! n)
      else case indirect_slot (ptrs_per_block s) n of
             None \<Rightarrow> None
           | Some (i, ind) \<Rightarrow>
               Option.bind (ReadBlock (i_block nd ! i) s) (\<lambda>b. block_ptr s (i - 12) (u32s b) ind))"

text \<open>Pointer blocks that the code can follow: a block has as many pointers as it has room for.\<close>

definition map_ok :: "ext2 \<Rightarrow> bool" where
  "map_ok s \<longleftrightarrow> mount_ok s \<and> 12 + ptrs_per_block s + ptrs_per_block s * ptrs_per_block s < 2 ^ 32"

lemma ReadBlock_Some:
  assumes "mount_ok s" "ReadBlock p s = Some b"
  shows "p \<noteq> 0" "length b = unat (block_size s)" "length (u32s b) = ptrs_per_block s"
    "snd (WriteBlock (u32_bytes (u32s b)) p s) = s"
proof -
  show p: "p \<noteq> 0" using assms(2) by (auto simp: ReadBlock_def)
  have b: "b = concat (fetch (disk s) (block_lba s p) (unat (sectors_per_block s)))"
    using assms(2) p by (auto simp: ReadBlock_def disk_Read_def split: if_splits)
  have sec: "\<forall>x\<in>set (fetch (disk s) a n). length x = 512" for a n
    using assms(1) by (auto simp: mount_ok_def in_set_conv_nth nth_fetch)
  then have len: "length b = 512 * unat (sectors_per_block s)" by (simp add: b length_concat_uniform[OF sec])
  then show "length b = unat (block_size s)" "length (u32s b) = ptrs_per_block s"
    using assms(1) by (simp_all add: mount_ok_def ptrs_per_block_def)
  have "u32_bytes (u32s b) = b" using len by (simp add: u32_bytes_u32s)
  moreover have "chunks 512 b = fetch (disk s) (block_lba s p) (unat (sectors_per_block s))"
    unfolding b using sec by (simp add: chunks_concat)
  ultimately show "snd (WriteBlock (u32_bytes (u32s b)) p s) = s"
    using p by (simp add: WriteBlock_def disk_Write_def put_fetch)
qed

section \<open>Pointer blocks\<close>

lemma Ensure_ptr_mapped: "p \<noteq> 0 \<Longrightarrow> Ensure_ptr create p s = (Some p, s)"
  by (simp add: Ensure_ptr_def)

lemma Extents_leaf_mapped:
  assumes "ind + n \<le> length parent" "0 \<notin> set (take n (drop ind parent))"
  shows "Extents_leaf create n ind parent (es, nd, s) =
    Ret (True, parent, foldl AddToExtentList es (take n (drop ind parent)), nd, s)"
  using assms
proof (induction n arbitrary: ind es)
  case (Suc n)
  have d: "drop ind parent = parent ! ind # drop (Suc ind) parent" using Suc.prems(1) by (simp add: Cons_nth_drop_Suc)
  then have p: "parent ! ind \<noteq> 0" "0 \<notin> set (take n (drop (Suc ind) parent))" using Suc.prems(2) by auto
  show ?case using Suc.IH[of "Suc ind"] Suc.prems(1) p by (simp add: Ensure_ptr_mapped Count_block_def d)
qed simp

text \<open>Reaching behind the pointer block is an overrun.\<close>

lemma Extents_leaf_overrun:
  assumes "ind \<le> length parent" "length parent < ind + n" "0 \<notin> set (drop ind parent)"
  shows "Extents_leaf create n ind parent (es, nd, s) = Overrun"
  using assms
proof (induction n arbitrary: ind es)
  case (Suc n)
  show ?case
  proof (cases "ind = length parent")
    case False
    then have d: "drop ind parent = parent ! ind # drop (Suc ind) parent" using Suc.prems(1) by (simp add: Cons_nth_drop_Suc)
    then show ?thesis using Suc False by (simp add: Ensure_ptr_mapped Count_block_def)
  qed simp
qed simp

text \<open>The pointers of a run at a level.\<close>

definition mapped_run :: "ext2 \<Rightarrow> nat \<Rightarrow> u32 list \<Rightarrow> nat \<Rightarrow> u32 list \<Rightarrow> bool" where
  "mapped_run s level parent ind ps \<longleftrightarrow>
     (\<forall>i<length ps. block_ptr s level parent (ind + i) = Some (ps ! i) \<and> ps ! i \<noteq> 0)"

lemma mapped_run_0:
  assumes "mapped_run s 0 parent ind ps" "ps \<noteq> []"
  shows "ind + length ps \<le> length parent" "take (length ps) (drop ind parent) = ps" "0 \<notin> set ps"
proof -
  have at: "ind + i < length parent \<and> parent ! (ind + i) = ps ! i \<and> ps ! i \<noteq> 0" if "i < length ps" for i
    using assms(1) that by (auto simp: mapped_run_def split: if_splits)
  have "length ps - 1 < length ps" using assms(2) by (simp add: diff_less)
  from at[OF this] show len: "ind + length ps \<le> length parent" using assms(2) by (cases ps) auto
  show "take (length ps) (drop ind parent) = ps" using at len by (intro nth_equalityI) auto
  show "0 \<notin> set ps" using at by (auto simp: in_set_conv_nth)
qed

lemma Extents_walk_0:
  assumes "mapped_run s 0 parent ind ps"
  shows "Extents_walk create mdata p 0 ind (length ps) parent (es, nd, s) =
    Some (Ret (Some (length ps), parent, foldl AddToExtentList es ps, nd, s))"
proof (cases "ps = []")
  case False
  note m = mapped_run_0[OF assms False]
  then show ?thesis using Extents_leaf_mapped[OF m(1), of create es nd s] by simp
qed simp

text \<open>The loop above the leaves: it stops early, but only at a multiple of the pointers of a block.\<close>

definition leaf_run :: "nat \<Rightarrow> nat \<Rightarrow> nat \<Rightarrow> bool" where
  "leaf_run p ind len \<longleftrightarrow> ind mod p = 0 \<or> ind mod p + len \<le> p"

lemma div_mod_within:
  assumes "ind mod p + i < (p :: nat)"
  shows "(ind + i) div p = ind div p" "(ind + i) mod p = ind mod p + i"
proof -
  have e: "ind + i = (ind mod p + i) + p * (ind div p)" by simp
  show "(ind + i) div p = ind div p"
    unfolding e using assms div_mult_self2[of p "ind mod p + i" "ind div p"] by (simp only: div_less)
  show "(ind + i) mod p = ind mod p + i"
    unfolding e using assms mod_mult_self2[of "ind mod p + i" p "ind div p"] by (simp only: mod_less)
qed

lemma mapped_run_child:
  assumes "mapped_run s 1 parent ind ps" "mount_ok s" "p = ptrs_per_block s" "ind mod p + n \<le> p" "n \<le> length ps" "0 < n"
  shows "ind div p < length parent"
    and "\<exists>b. ReadBlock (parent ! (ind div p)) s = Some b \<and> mapped_run s 0 (u32s b) (ind mod p) (take n ps)"
proof -
  have at: "\<exists>b. ind div p < length parent \<and> ReadBlock (parent ! (ind div p)) s = Some b \<and>
      ind mod p + i < length (u32s b) \<and> u32s b ! (ind mod p + i) = ps ! i \<and> ps ! i \<noteq> 0" if "i < n" for i
  proof -
    have i: "ind mod p + i < p" "i < length ps" using that assms(4,5) by simp_all
    have "(ind + i) div p = ind div p" "(ind + i) mod p = ind mod p + i" using div_mod_within[OF i(1)] by simp_all
    moreover have "block_ptr s 1 parent (ind + i) = Some (ps ! i)" "ps ! i \<noteq> 0"
      using assms(1) i(2) by (simp_all add: mapped_run_def)
    ultimately show ?thesis using assms(3) by (auto simp: Let_def split: if_splits Option.bind_splits)
  qed
  from at[OF assms(6)] show "ind div p < length parent" by blast
  from at[OF assms(6)] obtain b where b: "ReadBlock (parent ! (ind div p)) s = Some b" by blast
  have "mapped_run s 0 (u32s b) (ind mod p) (take n ps)"
    using at b by (auto simp: mapped_run_def)
  then show "\<exists>b. ReadBlock (parent ! (ind div p)) s = Some b \<and> mapped_run s 0 (u32s b) (ind mod p) (take n ps)"
    using b by blast
qed

lemma mapped_run_drop: "mapped_run s l parent ind ps \<Longrightarrow> mapped_run s l parent (ind + n) (drop n ps)"
  by (auto simp: mapped_run_def add.assoc)

lemma Extents_loop_done:
  "\<not> br < len \<Longrightarrow> Extents_loop sub c create md ind len br parent w = Some (Ret (Some br, parent, w))"
  by (subst Extents_loop.simps) simp

lemma Extents_loop_mapped:
  assumes "mapped_run s 1 parent ind ps" "mount_ok s" "p = ptrs_per_block s" "0 < p" "leaf_run p ind (length ps)"
    "ind mod p = 0 \<or> br = 0"
  shows "\<exists>k\<le>length ps. (br < length ps \<longrightarrow> 0 < k) \<and> (k = length ps \<or> (ind + k) mod p = 0) \<and>
    Extents_loop (Extents_walk create False p 0) p create False ind (length ps) br parent (es, nd, s) =
      Some (Ret (Some (br + k), parent, foldl AddToExtentList es (take k ps), nd, s))"
  using assms(1,5,6)
proof (induction "length ps" arbitrary: ps ind br es rule: less_induct)
  case less
  let ?loop = "Extents_loop (Extents_walk create False p 0) p create False"
  show ?case
  proof (cases "br < length ps")
    case False
    then have "?loop ind (length ps) br parent (es, nd, s) = Some (Ret (Some br, parent, es, nd, s))"
      by (rule Extents_loop_done)
    then show ?thesis using False less.prems(3) by (intro exI[of _ 0]) auto
  next
    case True
    define n where "n = min p (length ps)"
    have n: "0 < n" "n \<le> length ps" "ind mod p + n \<le> p"
      using True less.prems(2) assms(4) by (auto simp: n_def leaf_run_def)
    note child = mapped_run_child[OF less.prems(1) assms(2,3) n(3,2,1)]
    obtain b where b: "ReadBlock (parent ! (ind div p)) s = Some b" "mapped_run s 0 (u32s b) (ind mod p) (take n ps)"
      using child(2) by blast
    note blk = ReadBlock_Some[OF assms(2) b(1)]
    have walk: "Extents_walk create False p 0 (ind mod p) n (u32s b) (es, nd, s) =
        Some (Ret (Some n, u32s b, foldl AddToExtentList es (take n ps), nd, s))"
      using Extents_walk_0[OF b(2), of create False p es nd] n(2) by simp
    have step: "?loop ind (length ps) br parent (es, nd, s) =
        ?loop (ind + n) (length (drop n ps)) (br + n) parent (foldl AddToExtentList es (take n ps), nd, s)"
      using True child(1) b(1) walk blk
      by (simp add: Extents_loop.simps[where block_no = ind] Ensure_ptr_mapped n_def[symmetric])
    show ?thesis
    proof (cases "n = length ps")
      case n_all: True
      then show ?thesis
        using True step by (intro exI[of _ n]) (auto simp: Extents_loop_done)
    next
      case False
      then have np: "n = p" "p < length ps" by (auto simp: n_def)
      then have al: "ind mod p = 0" using n(3) by simp
      then have al': "(ind + p) mod p = 0" by simp
      have IH: "length (drop p ps) < length ps" "mapped_run s 1 parent (ind + p) (drop p ps)"
        "leaf_run p (ind + p) (length (drop p ps))"
        using np assms(4) mapped_run_drop[OF less.prems(1)] al' by (simp_all only: leaf_run_def) simp_all
      obtain k where k: "k \<le> length (drop p ps)" "k = length (drop p ps) \<or> (ind + p + k) mod p = 0"
        "?loop (ind + p) (length (drop p ps)) (br + p) parent (foldl AddToExtentList es (take p ps), nd, s) =
          Some (Ret (Some (br + p + k), parent, foldl AddToExtentList (foldl AddToExtentList es (take p ps)) (take k (drop p ps)), nd, s))"
        using less.hyps[OF IH disjI1[OF al'], of "br + p" "foldl AddToExtentList es (take p ps)"]
        by (elim exE conjE) (rule that, assumption+)
      have "take (p + k) ps = take p ps @ take k (drop p ps)" by (simp add: take_add)
      then have eq: "?loop ind (length ps) br parent (es, nd, s) =
          Some (Ret (Some (br + (p + k)), parent, foldl AddToExtentList es (take (p + k) ps), nd, s))"
        unfolding step np(1) k(3) by (simp only: foldl_append add.assoc)
      have al_k: "p + k = length ps \<or> (ind + (p + k)) mod p = 0"
        using k(2)
      proof
        assume "k = length (drop p ps)"
        then show ?thesis using np(2) by simp
      next
        assume "(ind + p + k) mod p = 0"
        then show ?thesis by (metis add.assoc)
      qed
      have le: "p + k \<le> length ps" "0 < p + k" using k(1) np assms(4) by simp_all
      show ?thesis by (intro exI[of _ "p + k"] conjI impI) (rule le eq al_k)+
    qed
  qed
qed

section \<open>The block list of a file\<close>

text \<open>
  A run of blocks that the code can follow: it starts in the direct blocks, at the first block of a pointer
  block, or stays inside one pointer block, and does not reach the triply indirect blocks.
\<close>

definition run_ok :: "ext2 \<Rightarrow> nat \<Rightarrow> nat \<Rightarrow> bool" where
  "run_ok s n len \<longleftrightarrow>
     n + len \<le> 12 + ptrs_per_block s + ptrs_per_block s * ptrs_per_block s \<and>
     (n \<le> 12 \<or> leaf_run (ptrs_per_block s) (n - 12) len)"

definition file_run :: "inode \<Rightarrow> ext2 \<Rightarrow> nat \<Rightarrow> u32 list \<Rightarrow> bool" where
  "file_run nd s n ps \<longleftrightarrow> (\<forall>i<length ps. file_block nd s (n + i) = Some (ps ! i) \<and> ps ! i \<noteq> 0)"

definition held_ok :: "(u32 \<times> u32 list) option \<Rightarrow> ext2 \<Rightarrow> bool" where
  "held_ok held s \<longleftrightarrow> (\<forall>q parent. held = Some (q, parent) \<longrightarrow> (\<exists>b. ReadBlock q s = Some b \<and> parent = u32s b))"

lemma Load_parent_held:
  "held_ok held s \<Longrightarrow> ReadBlock p s = Some b \<Longrightarrow> Load_parent False p held es s = Some (u32s b, es)"
  by (auto simp: Load_parent_def held_ok_def split: option.splits)

lemma set_i_block_same [simp]: "set_i_block i (i_block nd ! i) nd = nd"
  by (simp add: set_i_block_def)

lemma Count_block_False [simp]: "Count_block False nd = nd"
  by (simp add: Count_block_def)

lemma Extents_walk_mapped:
  assumes "l \<le> 1" "mapped_run s l parent ind ps" "mount_ok s" "0 < ptrs_per_block s" "leaf_run (ptrs_per_block s) ind (length ps)"
    "ps \<noteq> []"
  obtains k where "k \<le> length ps" "0 < k" "k = length ps \<or> (ind + k) mod ptrs_per_block s = 0"
    "Extents_walk create False (ptrs_per_block s) l ind (length ps) parent (es, nd, s) =
      Some (Ret (Some k, parent, foldl AddToExtentList es (take k ps), nd, s))"
proof (cases "l = 0")
  case True
  then show thesis using Extents_walk_0[of s parent ind ps create False _ es nd] assms(2,6) that[of "length ps"] by simp
next
  case False
  then have l: "l = Suc 0" using assms(1) by simp
  have m: "mapped_run s 1 parent ind ps" using assms(2) l by simp
  obtain k where k: "k \<le> length ps" "0 < length ps \<longrightarrow> 0 < k" "k = length ps \<or> (ind + k) mod ptrs_per_block s = 0"
    "Extents_loop (Extents_walk create False (ptrs_per_block s) 0) (ptrs_per_block s) create False ind (length ps) 0 parent (es, nd, s) =
      Some (Ret (Some (0 + k), parent, foldl AddToExtentList es (take k ps), nd, s))"
    using Extents_loop_mapped[OF m assms(3) refl assms(4,5) disjI2[OF refl], of create es nd]
    by (elim exE conjE) (rule that, assumption+)
  then show thesis using l assms(6) that[of k] by simp
qed

text \<open>One round through an indirect block: the slot and the run below it.\<close>

lemma file_run_indirect:
  assumes "file_run nd s n ps" "ps \<noteq> []" "12 \<le> n" "run_ok s n (length ps)" "0 < ptrs_per_block s"
  obtains l ind b where "l \<le> 1" "indirect_slot (ptrs_per_block s) n = Some (12 + l, ind)"
    "ReadBlock (i_block nd ! (12 + l)) s = Some b" "leaf_run (ptrs_per_block s) ind (length ps)"
    "ind + min (PtrsPerIndirectBlock (ptrs_per_block s) l) (length ps) \<le> PtrsPerIndirectBlock (ptrs_per_block s) l"
    "mapped_run s l (u32s b) ind (take (PtrsPerIndirectBlock (ptrs_per_block s) l) ps)"
    "\<And>k. (ind + k) mod ptrs_per_block s = (n + k - 12) mod ptrs_per_block s"
proof -
  let ?p = "ptrs_per_block s"
  define l where "l = (if n < 12 + ?p then 0 else 1 :: nat)"
  define ind where "ind = n - 12 - l * ?p"
  let ?c = "PtrsPerIndirectBlock ?p l"
  have lim: "n + length ps \<le> 12 + ?p + ?p * ?p" using assms(4) by (simp add: run_ok_def)
  have n: "n = ind + 12 + l * ?p" using assms(3) by (simp add: ind_def l_def)
  have leaf: "leaf_run ?p ind (length ps)"
    using assms(3,4) n by (auto simp: run_ok_def leaf_run_def)
  have c: "l = 0 \<and> ?c = ?p \<and> ind < ?p \<or> l = 1 \<and> ?c = ?p * ?p \<and> ind + length ps \<le> ?p * ?p"
  proof (cases "n < 12 + ?p")
    case True
    then have "l = 0" by (simp add: l_def)
    then show ?thesis using n True by simp
  next
    case False
    then have l1: "l = 1" by (simp add: l_def)
    then have "n = ind + 12 + ?p" using n by simp
    then have "ind + length ps \<le> ?p * ?p" using lim by linarith
    then show ?thesis using l1 by simp
  qed
  have fits: "ind + min ?c (length ps) \<le> ?c" using c leaf by (auto simp: leaf_run_def)
  have slot: "indirect_slot ?p (n + i) = Some (12 + l, ind + i)" if "i < min ?c (length ps)" for i
    using that c fits n by (auto simp: indirect_slot_def)
  have at: "file_block nd s (n + i) = Option.bind (ReadBlock (i_block nd ! (12 + l)) s) (\<lambda>b. block_ptr s l (u32s b) (ind + i))"
    if "i < min ?c (length ps)" for i
    using slot[OF that] assms(3) by (simp add: file_block_def)
  have pos: "0 < min ?c (length ps)" using c assms(2,5) by auto
  have "file_block nd s n = Some (ps ! 0)" using assms(1,2) by (auto simp: file_run_def)
  then obtain b where b: "ReadBlock (i_block nd ! (12 + l)) s = Some b"
    using at[OF pos] by (auto split: Option.bind_splits)
  have "mapped_run s l (u32s b) ind (take ?c ps)"
    using at b assms(1) by (auto simp: mapped_run_def file_run_def)
  moreover have "(ind + k) mod ?p = (n + k - 12) mod ?p" for k
  proof -
    have "n + k - 12 = ind + k + ?p * l" using n by simp
    then show ?thesis by simp
  qed
  moreover have "l \<le> 1" by (simp add: l_def)
  ultimately show thesis using that[OF _ _ b leaf fits] slot[OF pos] by simp
qed

lemma Extents_top_0: "Extents_top create md n 0 held (es, nd, s) = Some (Ret (Some es, nd, s))"
  by (subst Extents_top.simps) simp

lemma Extents_top_direct:
  assumes "n < 12" "0 < len" "i_block nd ! n \<noteq> 0"
  shows "Extents_top create md n len held (es, nd, s) =
    Extents_top create md (n + 1) (len - 1) held (AddToExtentList es (i_block nd ! n), nd, s)"
  using assms by (subst Extents_top.simps) (simp add: Ensure_ptr_mapped)

lemma Extents_top_indirect:
  assumes "\<not> n < 12" "0 < len" "indirect_slot (ptrs_per_block s) n = Some (i, ind)" "mount_ok s"
    "ReadBlock (i_block nd ! i) s = Some b" "held_ok held s"
    "Extents_walk create False (ptrs_per_block s) (i - 12) ind (min (PtrsPerIndirectBlock (ptrs_per_block s) (i - 12)) len) (u32s b) (es, nd, s) =
       Some (Ret (Some k, u32s b, es', nd, s))"
    "(n + k) < 2 ^ 32"
  shows "Extents_top create False n len held (es, nd, s) =
    Extents_top create False (n + k) (len - k) (Some (i_block nd ! i, u32s b)) (es', nd, s)"
proof -
  note blk = ReadBlock_Some[OF assms(4,5)]
  show ?thesis
    using assms blk by (subst Extents_top.simps) (simp add: Ensure_ptr_mapped Load_parent_held)
qed

lemma Extents_top_mapped:
  assumes "file_run nd s n ps" "map_ok s" "run_ok s n (length ps)" "held_ok held s" "0 < ptrs_per_block s"
  shows "Extents_top create False n (length ps) held (es, nd, s) =
    Some (Ret (Some (foldl AddToExtentList es ps), nd, s))"
  using assms(1,3,4)
proof (induction "length ps" arbitrary: ps n held es rule: less_induct)
  case less
  let ?p = "ptrs_per_block s"
  have ok: "mount_ok s" "12 + ?p + ?p * ?p < 2 ^ 32" using assms(2) by (simp_all add: map_ok_def)
  have lim: "n + length ps \<le> 12 + ?p + ?p * ?p" using less.prems(2) by (simp add: run_ok_def)
  have rest: "file_run nd s (n + k) (drop k ps)" for k
    using less.prems(1) by (auto simp: file_run_def add.assoc)
  show ?case
  proof (cases "ps = []")
    case True
    then show ?thesis by (simp add: Extents_top_0)
  next
    case ne: False
    show ?thesis
    proof (cases "n < 12")
      case True
      obtain p qs where ps: "ps = p # qs" using ne by (cases ps) auto
      have "file_block nd s (n + 0) = Some p" "p \<noteq> 0" using less.prems(1) ps by (auto simp: file_run_def)
      then have p: "i_block nd ! n = p" "p \<noteq> 0" using True by (simp_all add: file_block_def)
      have "run_ok s (n + 1) (length qs)" using less.prems(2) True ps by (simp add: run_ok_def)
      then show ?thesis
        using less.hyps[of qs "n + 1" held] rest[of 1] less.prems(3) ps p True Extents_top_direct[OF True, of "length ps" nd] by simp
    next
      case False
      then have "12 \<le> n" by simp
      obtain l ind b where l: "l \<le> 1" "indirect_slot ?p n = Some (12 + l, ind)"
        "ReadBlock (i_block nd ! (12 + l)) s = Some b" "leaf_run ?p ind (length ps)"
        "ind + min (PtrsPerIndirectBlock ?p l) (length ps) \<le> PtrsPerIndirectBlock ?p l"
        "mapped_run s l (u32s b) ind (take (PtrsPerIndirectBlock ?p l) ps)"
        "\<And>k. (ind + k) mod ?p = (n + k - 12) mod ?p"
        by (rule file_run_indirect[OF less.prems(1) ne \<open>12 \<le> n\<close> less.prems(2) assms(5)]) (rule that, assumption+)
      let ?c = "PtrsPerIndirectBlock ?p l" let ?qs = "take (PtrsPerIndirectBlock ?p l) ps"
      have cmod: "?c mod ?p = 0" "0 < ?c" using l(1) assms(5) by (cases l; simp)+
      have qs: "?qs \<noteq> []" "leaf_run ?p ind (length ?qs)" using ne cmod(2) l(4) by (auto simp: leaf_run_def)
      obtain k where k: "k \<le> length ?qs" "0 < k" "k = length ?qs \<or> (ind + k) mod ?p = 0"
        "Extents_walk create False ?p l ind (length ?qs) (u32s b) (es, nd, s) =
          Some (Ret (Some k, u32s b, foldl AddToExtentList es (take k ?qs), nd, s))"
        by (rule Extents_walk_mapped[OF l(1,6) ok(1) assms(5) qs(2,1)]) (rule that, assumption+)
      have "k \<le> ?c" "k \<le> length ps" using k(1) by simp_all
      then have kps: "k \<le> length ps" "take k ?qs = take k ps" by (simp_all add: min_absorb1)
      have "(n + k) < 2 ^ 32" using lim kps(1) ok(2) by simp
      then have step: "Extents_top create False n (length ps) held (es, nd, s) =
          Extents_top create False (n + k) (length (drop k ps)) (Some (i_block nd ! (12 + l), u32s b)) (foldl AddToExtentList es (take k ps), nd, s)"
        using Extents_top_indirect[OF False _ l(2) ok(1) l(3) less.prems(3), of "length ps" create es k "foldl AddToExtentList es (take k ps)"]
          ne k(4) kps(2) by (simp add: min.commute)
      have join: "foldl AddToExtentList (foldl AddToExtentList es (take k ps)) (drop k ps) = foldl AddToExtentList es ps"
        by (metis append_take_drop_id foldl_append)
      show ?thesis
      proof (cases "k = length ps")
        case True
        then show ?thesis unfolding step by (simp add: Extents_top_0)
      next
        case False
        have "(ind + k) mod ?p = 0"
        proof (cases "k = length ?qs")
          case True
          then have "k = ?c" "ind = 0" using False l(5) kps(1) by auto
          then show ?thesis using cmod(1) by simp
        qed (use k(3) in blast)
        then have "(n + k - 12) mod ?p = 0" using l(7) by metis
        then have "run_ok s (n + k) (length (drop k ps))"
          using lim kps(1) by (simp add: run_ok_def leaf_run_def)
        moreover have "held_ok (Some (i_block nd ! (12 + l), u32s b)) s" using l(3) by (simp add: held_ok_def)
        moreover have "length (drop k ps) < length ps" using k(2) ne by simp
        ultimately show ?thesis using less.hyps[OF _ rest] join unfolding step by metis
      qed
    qed
  qed
qed

lemma ptrs_pos: "mount_ok s \<Longrightarrow> 0 < ptrs_per_block s"
  by (auto simp: mount_ok_def ptrs_per_block_def)

lemma GetOrCreateExtents_run:
  assumes "map_ok s" "run_ok s n (length ps)" "file_run nd s n ps"
  shows "GetOrCreateExtents n (length ps) create False nd s = Some (Ret (Some (foldl AddToExtentList [] ps), nd, s))"
proof -
  have "n < 2 ^ 32" using assms(1,2) by (simp add: map_ok_def run_ok_def)
  moreover have "0 < ptrs_per_block s" using assms(1) ptrs_pos by (simp add: map_ok_def)
  ultimately show ?thesis
    using Extents_top_mapped[OF assms(3,1,2), of None create "[]"] by (simp add: GetOrCreateExtents_def held_ok_def)
qed

lemma GetOrCreateBlock_mapped:
  assumes "map_ok s" "run_ok s n 1" "file_block nd s n = Some p" "p \<noteq> 0"
  shows "GetOrCreateBlock n create nd s = Some (Ret (Some p, nd, s))"
  using GetOrCreateExtents_run[of s n "[p]" nd create] assms
  by (simp add: GetOrCreateBlock_def file_run_def AddToExtentList_def)

text \<open>
  C24: for a run of existing blocks that does not leave a pointer block in which it started (\<open>run_ok\<close>: the run starts at a
  direct block or at the first indirect one, or its pointers are in one block), \<open>GetOrCreateExtents\<close> returns exactly the
  blocks that the pointers of the inode lead to, in order, and changes neither the inode nor the disk, whether it may
  create blocks or not.
\<close>
theorem GetOrCreateExtents_blocks:
  assumes "map_ok s" "run_ok s n len" "\<forall>i<len. \<exists>p. file_block nd s (n + i) = Some p \<and> p \<noteq> 0 \<and> p \<noteq> - 1"
  shows "\<exists>es. GetOrCreateExtents n len create False nd s = Some (Ret (Some es, nd, s)) \<and>
    expand es = map (\<lambda>i. the (file_block nd s (n + i))) [0..<len]"
proof -
  let ?ps = "map (\<lambda>i. the (file_block nd s (n + i))) [0..<len]"
  have run: "file_run nd s n ?ps" using assms(3) by (force simp: file_run_def)
  have "- 1 \<notin> set ?ps" using assms(3) by force
  then show ?thesis
    using GetOrCreateExtents_run[OF assms(1) _ run, of create] assms(2) expand_foldl[of "[]" ?ps]
    by (simp add: extents_ok_def expand_def)
qed

section \<open>Where the code leaves a pointer block or never returns\<close>

text \<open>
  A run that starts inside the pointer block of \<open>i_block[12]\<close> and goes beyond it is not split: the code reads on
  behind the block.
\<close>
theorem GetOrCreateExtents_overruns:
  assumes "map_ok s" "12 \<le> n" "n < 12 + ptrs_per_block s" "12 + ptrs_per_block s < n + min (ptrs_per_block s) len"
    and "ReadBlock (i_block nd ! 12) s = Some b" "0 \<notin> set (u32s b)"
  shows "GetOrCreateExtents n len create False nd s = Some Overrun"
proof -
  let ?p = "ptrs_per_block s"
  have ok: "mount_ok s" "12 + ?p + ?p * ?p < 2 ^ 32" using assms(1) by (simp_all add: map_ok_def)
  note blk = ReadBlock_Some[OF ok(1) assms(5)]
  have slot: "indirect_slot ?p n = Some (12, n - 12)" using assms(3) by (simp add: indirect_slot_def)
  have "0 \<notin> set (drop (n - 12) (u32s b))" using assms(6) by (meson in_set_dropD)
  then have leaf: "Extents_leaf create (min ?p len) (n - 12) (u32s b) ([], nd, s) = Overrun"
    using assms(2-4) blk(3) by (intro Extents_leaf_overrun) auto
  have "n mod 2 ^ 32 = n" "0 < len" using assms(3,4) ok(2) by auto
  then show ?thesis
    using assms(2,5) slot leaf blk unfolding GetOrCreateExtents_def
    by (subst Extents_top.simps) (simp add: Ensure_ptr_mapped Load_parent_def)
qed

lemma Extents_loop_stuck_induct:
  assumes "Extents_loop sub c create md ind len br parent w = Some r"
  shows "br < len \<longrightarrow> \<not> create \<longrightarrow> ind div c < length parent \<longrightarrow>
    ReadBlock (parent ! (ind div c)) (snd (snd w)) = None \<longrightarrow> False"
  using assms
proof (rule Extents_loop.raw_induct[where P = "\<lambda>sub c create md ind len br parent w r. br < len \<longrightarrow> \<not> create \<longrightarrow>
    ind div c < length parent \<longrightarrow> ReadBlock (parent ! (ind div c)) (snd (snd w)) = None \<longrightarrow> False", rotated], goal_cases)
  case step: (1 loop sub c create md ind len br parent w r)
  show ?case
  proof (intro impI)
    assume a: "br < len" "\<not> create" "ind div c < length parent" "ReadBlock (parent ! (ind div c)) (snd (snd w)) = None"
    obtain es nd s where w: "w = (es, nd, s)" by (cases w)
    have "loop sub c create md ind len br parent (es, nd, s) = Some r"
      using step(2) a w by (simp add: Ensure_ptr_def Let_def)
    from step(1)[OF this] show False using a w by simp
  qed
qed

lemma Extents_loop_stuck:
  assumes "br < len" "ind div c < length parent" "ReadBlock (parent ! (ind div c)) s = None"
  shows "Extents_loop sub c False md ind len br parent (es, nd, s) = None"
  using Extents_loop_stuck_induct[of sub c False md ind len br parent "(es, nd, s)"] assms
  by (cases "Extents_loop sub c False md ind len br parent (es, nd, s)") auto

text \<open>
  C25: Looking up a block below the doubly indirect pointer never returns when the second-level pointer block cannot be
  read: its pointer is zero (the whole block of pointers is missing) or the disk fails.
\<close>
theorem GetOrCreateExtents_never_returns:
  assumes "map_ok s" "12 + ptrs_per_block s \<le> n" "n < 12 + ptrs_per_block s + ptrs_per_block s * ptrs_per_block s" "0 < len"
    and "ReadBlock (i_block nd ! 13) s = Some b"
    and "ReadBlock (u32s b ! ((n - 12) div ptrs_per_block s - 1)) s = None"
  shows "GetOrCreateExtents n len False False nd s = None"
proof -
  let ?p = "ptrs_per_block s"
  have ok: "mount_ok s" "12 + ?p + ?p * ?p < 2 ^ 32" using assms(1) by (simp_all add: map_ok_def)
  note blk = ReadBlock_Some[OF ok(1) assms(5)]
  have p: "0 < ?p" using assms(2,3) by (cases "?p = 0") auto
  have slot: "indirect_slot ?p n = Some (13, n - (12 + ?p))" using assms(2,3) by (simp add: indirect_slot_def)
  have eq: "n - 12 = (n - (12 + ?p)) + ?p" using assms(2) by simp
  have "(a + ?p) div ?p - 1 = a div ?p" for a using p div_add_self2[of ?p a] by simp
  from this[of "n - (12 + ?p)"] have div: "(n - 12) div ?p - 1 = (n - (12 + ?p)) div ?p" unfolding eq .
  have "n - (12 + ?p) < ?p * ?p" using assms(2,3) by simp
  then have "(n - (12 + ?p)) div ?p < ?p" by (simp add: less_mult_imp_div_less)
  then have stuck: "Extents_walk False False ?p (Suc 0) (n - (12 + ?p)) (min (?p * ?p) len) (u32s b) ([], nd, s) = None"
    using assms(4,6) p blk(3) div by (simp add: Extents_loop_stuck)
  have "n mod 2 ^ 32 = n" "\<not> n < 12" using assms(2,3) ok(2) by auto
  then show ?thesis
    using assms(4,5) slot stuck blk unfolding GetOrCreateExtents_def
    by (subst Extents_top.simps) (simp add: Ensure_ptr_def Load_parent_def)
qed

end
