(* ===== verification/Ext2_Files.thy ===== *)
theory Ext2_Files
  imports Ext2_Extents
begin

text \<open>
  What \<open>ReadWrite\<close> does to the contents of a file: the blocks of a run as a list of bytes, reading and writing
  at block boundaries, the partial block at the end, and the offsets that are not at a block boundary.
\<close>

section \<open>Blocks as bytes\<close>

definition data_block :: "ext2 \<Rightarrow> u32 \<Rightarrow> u8 list" where
  "data_block s b = concat (fetch (disk s) (block_lba s b) (unat (sectors_per_block s)))"

definition in_range :: "ext2 \<Rightarrow> u32 \<Rightarrow> bool" where
  "in_range s b \<longleftrightarrow> b \<noteq> 0 \<and> (unat b + 1) * unat (sectors_per_block s) < 2 ^ 32"

definition disk_ok :: "ext2 \<Rightarrow> bool" where
  "disk_ok s \<longleftrightarrow> (\<forall>a n w. io s a n w)"

lemma disk_Read_ok: "disk_ok s \<Longrightarrow> disk_Read a n s = Some (concat (fetch (disk s) a n))"
  by (simp add: disk_Read_def disk_ok_def)

lemma disk_Write_ok: "disk_ok s \<Longrightarrow> disk_Write a n b s = (True, s\<lparr>disk := put (disk s) a (take n (chunks 512 b))\<rparr>)"
  by (simp add: disk_Write_def disk_ok_def)

lemma ReadBlock_ok: "disk_ok s \<Longrightarrow> b \<noteq> 0 \<Longrightarrow> ReadBlock b s = Some (data_block s b)"
  by (simp add: ReadBlock_def disk_Read_ok data_block_def)

lemma in_range_valid: "in_range s b \<Longrightarrow> valid_block s b"
proof -
  assume b: "in_range s b"
  have "(unat b - 1) * unat (sectors_per_block s) \<le> (unat b + 1) * unat (sectors_per_block s)" by (intro mult_le_mono1) simp
  then show ?thesis using b by (simp add: in_range_def valid_block_def)
qed

lemma in_range_not_max: "mount_ok s \<Longrightarrow> in_range s b \<Longrightarrow> b \<noteq> - 1"
proof
  assume m: "mount_ok s" "in_range s b" and "b = - 1"
  then have "unat b = 2 ^ 32 - 1" by (simp add: unsigned_minus_1_eq_mask mask_eq_exp_minus_1)
  moreover have "(unat b + 1) * 1 \<le> (unat b + 1) * unat (sectors_per_block s)"
    using m(1) by (intro mult_le_mono2) (simp add: mount_ok_def)
  ultimately show False using m(2) by (simp add: in_range_def)
qed

lemma length_data_block: "mount_ok s \<Longrightarrow> length (data_block s b) = unat (block_size s)"
proof -
  assume m: "mount_ok s"
  have sec: "\<forall>x\<in>set (fetch (disk s) (block_lba s b) (unat (sectors_per_block s))). length x = 512"
    using m by (auto simp: mount_ok_def in_set_conv_nth nth_fetch)
  show ?thesis using m length_concat_uniform[OF sec] by (simp add: data_block_def mount_ok_def)
qed

lemma block_lba_next:
  assumes "in_range s b"
  shows "block_lba s (b + 1) = block_lba s b + ucast (sectors_per_block s)"
proof -
  let ?n = "unat (sectors_per_block s)"
  have b: "0 < unat b" using assms by (simp add: in_range_def unat_gt_0)
  have lt: "(unat b + 1) * ?n < 2 ^ 32" using assms by (simp add: in_range_def)
  have "unat b * ?n \<le> (unat b + 1) * ?n" by (intro mult_le_mono1) simp
  then have bn: "unat b * ?n < 2 ^ 32" using lt by simp
  then have "unat (b * sectors_per_block s) = unat b * ?n" by (simp add: unat_mult_lem[THEN iffD1])
  then have "(ucast (b * sectors_per_block s) :: u64) = of_nat (unat b * ?n)" by (metis of_nat_unat)
  then have "block_lba s (b + 1) = partition_base_sector s + 2 + of_nat (unat b * ?n)" by (simp add: block_lba_def)
  moreover have "unat b * ?n = (unat b - 1) * ?n + ?n" using b by (cases "unat b") simp_all
  ultimately show ?thesis using block_lba_valid[OF in_range_valid[OF assms]] by (simp del: of_nat_mult)
qed

text \<open>\<open>n\<close> consecutive blocks, read and written in one transfer.\<close>

definition blocks_from :: "u32 \<Rightarrow> nat \<Rightarrow> u32 list" where
  "blocks_from b n = map (\<lambda>i. b + of_nat i) [0..<n]"

lemma blocks_from_Suc: "blocks_from b (Suc n) = b # blocks_from (b + 1) n"
  by (simp add: blocks_from_def upt_conv_Cons map_Suc_upt[symmetric] algebra_simps del: upt_Suc)

lemma extent_blocks_from: "unat (fst e) + unat (snd e) < 2 ^ 32 \<Longrightarrow> extent_blocks e = blocks_from (fst e) (unat (snd e))"
  by (simp add: extent_blocks_def blocks_from_def)

lemma fetch_blocks:
  assumes "\<forall>c\<in>set (blocks_from b n). in_range s c"
  shows "concat (fetch f (block_lba s b) (n * unat (sectors_per_block s))) =
    concat (map (\<lambda>c. concat (fetch f (block_lba s c) (unat (sectors_per_block s)))) (blocks_from b n))"
  using assms
proof (induction n arbitrary: b)
  case (Suc n)
  have "in_range s b" using Suc.prems by (simp add: blocks_from_Suc)
  then show ?case
    using Suc.IH[of "b + 1"] Suc.prems block_lba_next[of s b] by (simp add: blocks_from_Suc fetch_append)
qed (simp add: blocks_from_def)

fun put_blocks :: "ext2 \<Rightarrow> (u64 \<Rightarrow> u8 list) \<Rightarrow> u32 list \<Rightarrow> u8 list list \<Rightarrow> (u64 \<Rightarrow> u8 list)" where
  "put_blocks s d [] cs = d"
| "put_blocks s d (b # bs) cs =
     put_blocks s (put d (block_lba s b) (take (unat (sectors_per_block s)) cs)) bs (drop (unat (sectors_per_block s)) cs)"

lemma put_blocks_append:
  "put_blocks s d (bs @ bs') cs = put_blocks s (put_blocks s d bs cs) bs' (drop (length bs * unat (sectors_per_block s)) cs)"
  by (induction bs arbitrary: d cs) (simp_all add: add.commute)

lemma put_blocks_from:
  assumes "\<forall>c\<in>set (blocks_from b n). in_range s c" "n * unat (sectors_per_block s) \<le> length cs"
  shows "put d (block_lba s b) (take (n * unat (sectors_per_block s)) cs) = put_blocks s d (blocks_from b n) cs"
  using assms
proof (induction n arbitrary: b cs d)
  case (Suc n)
  let ?k = "unat (sectors_per_block s)"
  have b: "in_range s b" using Suc.prems by (simp add: blocks_from_Suc)
  have len: "length (take ?k cs) = ?k" using Suc.prems(2) by simp
  have "take (Suc n * ?k) cs = take ?k cs @ take (n * ?k) (drop ?k cs)" by (simp add: take_add)
  then show ?case
    using Suc.IH[of "b + 1" "drop ?k cs"] Suc.prems b len
    by (simp add: blocks_from_Suc put_append block_lba_next del: length_take)
qed (simp add: blocks_from_def)

text \<open>What \<open>put_blocks\<close> leaves in each block.\<close>

lemma fetch_put_block:
  assumes "in_range s b" "in_range s c" "length cs = unat (sectors_per_block s)"
  shows "fetch (put d (block_lba s b) cs) (block_lba s c) (unat (sectors_per_block s)) =
    (if c = b then cs else fetch d (block_lba s c) (unat (sectors_per_block s)))"
proof -
  let ?n = "unat (sectors_per_block s)"
  have n: "?n < 2 ^ 64" using unsigned_less[of "sectors_per_block s", where 'a = nat] by simp
  show ?thesis
  proof (cases "c = b")
    case True
    then show ?thesis using fetch_put_same[of cs d "block_lba s b"] n assms(3) by simp
  next
    case False
    then show ?thesis
      using block_disjoint[of s b c] assms n by (auto intro!: fetch_put_other simp: in_range_valid)
  qed
qed

lemma fetch_put_blocks:
  assumes "distinct bs" "\<forall>b\<in>set bs. in_range s b" "in_range s c" "length bs * unat (sectors_per_block s) \<le> length cs"
  shows "c \<notin> set bs \<Longrightarrow> fetch (put_blocks s d bs cs) (block_lba s c) (unat (sectors_per_block s)) =
      fetch d (block_lba s c) (unat (sectors_per_block s))"
    and "i < length bs \<Longrightarrow> fetch (put_blocks s d bs cs) (block_lba s (bs ! i)) (unat (sectors_per_block s)) =
      take (unat (sectors_per_block s)) (drop (i * unat (sectors_per_block s)) cs)"
proof -
  let ?n = "unat (sectors_per_block s)"
  have other: "c \<notin> set bs \<Longrightarrow> fetch (put_blocks s d bs cs) (block_lba s c) ?n = fetch d (block_lba s c) ?n"
    if "\<forall>b\<in>set bs. in_range s b" "in_range s c" "length bs * ?n \<le> length cs" for bs c d cs
    using that by (induction bs arbitrary: d cs) (simp_all add: fetch_put_block)
  show "c \<notin> set bs \<Longrightarrow> fetch (put_blocks s d bs cs) (block_lba s c) ?n = fetch d (block_lba s c) ?n"
    using other assms by blast
  show "i < length bs \<Longrightarrow> fetch (put_blocks s d bs cs) (block_lba s (bs ! i)) ?n = take ?n (drop (i * ?n) cs)"
    using assms(1,2,4)
  proof (induction bs arbitrary: d cs i)
    case (Cons b bs)
    then show ?case
      by (cases i) (simp_all add: other fetch_put_block add.commute)
  qed simp
qed

text \<open>The effect of a write on the contents of blocks.\<close>

lemma block_lba_disk [simp]: "block_lba (s\<lparr>disk := d\<rparr>) b = block_lba s b"
  by (simp add: block_lba_def)

lemma drop_chunks: "0 < k \<Longrightarrow> chunks k (drop (k * n) bytes) = drop n (chunks k bytes)"
proof (induction n arbitrary: bytes)
  case (Suc n)
  show ?case
  proof (cases "k \<le> length bytes")
    case True
    then show ?thesis using Suc.IH[of "drop k bytes"] Suc.prems chunks_Cons[of k bytes] by (simp add: add.commute)
  next
    case False
    then show ?thesis by (simp add: chunks_def)
  qed
qed simp

section \<open>Lists of extents\<close>

definition expand_ok :: "ext2 \<Rightarrow> extent list \<Rightarrow> bool" where
  "expand_ok s es \<longleftrightarrow> extents_ok es \<and> (\<forall>b\<in>set (expand es). in_range s b)"

lemma expand_ok_Cons: "expand_ok s (e # es) \<Longrightarrow> expand_ok s es"
  by (simp add: expand_ok_def extents_ok_def expand_def)

lemma extent_range_ok:
  assumes "expand_ok s (e # es)"
  shows "snd (extent_range s e) = unat (snd e) * unat (sectors_per_block s)"
    "extent_blocks e = blocks_from (fst e) (unat (snd e))" "\<forall>c\<in>set (blocks_from (fst e) (unat (snd e))). in_range s c"
proof -
  have e: "unat (fst e) + unat (snd e) < 2 ^ 32" using assms by (simp add: expand_ok_def extents_ok_def)
  show blocks: "extent_blocks e = blocks_from (fst e) (unat (snd e))" by (rule extent_blocks_from[OF e])
  show rng: "\<forall>c\<in>set (blocks_from (fst e) (unat (snd e))). in_range s c"
    using assms blocks by (simp add: expand_ok_def expand_def)
  have "unat (snd e) * unat (sectors_per_block s) < 2 ^ 32"
  proof (cases "unat (snd e)")
    case (Suc n)
    have "fst e + of_nat n \<in> set (blocks_from (fst e) (unat (snd e)))" using Suc by (simp add: blocks_from_def)
    then have "in_range s (fst e + of_nat n)" using rng by blast
    moreover have "unat (fst e + of_nat n) = unat (fst e) + n"
      using e Suc by (simp add: unat_add_lem[THEN iffD1] unat_of_nat)
    moreover have "unat (snd e) * unat (sectors_per_block s) \<le> (unat (fst e) + n + 1) * unat (sectors_per_block s)"
      using Suc by (intro mult_le_mono1) simp
    ultimately show ?thesis by (simp add: in_range_def)
  qed simp
  then show "snd (extent_range s e) = unat (snd e) * unat (sectors_per_block s)"
    by (simp add: extent_range_def unat_mult_lem[THEN iffD1])
qed

lemma ReadBlocks_expand:
  assumes "disk_ok s" "expand_ok s es"
  shows "ReadBlocks es s = Some (concat (map (data_block s) (expand es)))"
  unfolding ReadBlocks_def using assms
proof (induction es)
  case (Cons e es)
  note r = extent_range_ok[OF Cons.prems(2)]
  show ?case
    using Cons.IH[OF Cons.prems(1) expand_ok_Cons[OF Cons.prems(2)]] Cons.prems(1) r(1,2) fetch_blocks[OF r(3)]
    by (simp add: extent_range_def disk_Read_ok expand_def data_block_def)
qed (simp add: expand_def)

lemma disk_ok_disk [simp]: "disk_ok (s\<lparr>disk := d\<rparr>) = disk_ok s"
  by (simp add: disk_ok_def)

lemma Write_ranges_expand:
  assumes "disk_ok s" "expand_ok s es" "length (expand es) * (512 * unat (sectors_per_block s)) \<le> length bytes"
  shows "disk_Write_ranges (map (extent_range s) es) bytes (s\<lparr>disk := d\<rparr>) =
    (True, s\<lparr>disk := put_blocks s d (expand es) (chunks 512 bytes)\<rparr>)"
  using assms(2,3)
proof (induction es arbitrary: bytes d)
  case (Cons e es)
  let ?n = "unat (snd e) * unat (sectors_per_block s)"
  note r = extent_range_ok[OF Cons.prems(1)]
  have len: "length (extent_blocks e) = unat (snd e)" by (simp add: r(2) blocks_from_def)
  then have "(unat (snd e) + length (expand es)) * (512 * unat (sectors_per_block s)) \<le> length bytes"
    using Cons.prems(2) by (simp add: expand_def)
  then have room: "512 * ?n + length (expand es) * (512 * unat (sectors_per_block s)) \<le> length bytes"
    by (simp add: algebra_simps)
  have rest: "length (expand es) * (512 * unat (sectors_per_block s)) \<le> length (drop (512 * ?n) bytes)" using room by simp
  have "512 * ?n div 512 \<le> length bytes div 512" using room by (intro div_le_mono) simp
  then have "put d (block_lba s (fst e)) (take ?n (chunks 512 bytes)) = put_blocks s d (extent_blocks e) (chunks 512 bytes)"
    using put_blocks_from[OF r(3), of "chunks 512 bytes" d] by (simp add: r(2))
  then show ?case
    using Cons.IH[OF expand_ok_Cons[OF Cons.prems(1)] rest] assms(1) r(1) len
    by (simp add: extent_range_def disk_Write_ok expand_def put_blocks_append drop_chunks)
qed (simp add: expand_def)

lemma WriteBlocks_expand:
  assumes "disk_ok s" "expand_ok s es" "length (expand es) * (512 * unat (sectors_per_block s)) \<le> length bytes"
  shows "WriteBlocks es bytes s = (True, s\<lparr>disk := put_blocks s (disk s) (expand es) (chunks 512 bytes)\<rparr>)"
  using Write_ranges_expand[OF assms, of "disk s"] by (simp add: WriteBlocks_def)

lemma extents_bytes_expand: "extents_ok es \<Longrightarrow> extents_bytes s es = length (expand es) * unat (block_size s)"
  by (induction es) (auto simp: extents_bytes_def extents_ok_def expand_def extent_blocks_def algebra_simps)

text \<open>The blocks of a run in a file, their contents, and the extents the code makes of them.\<close>

definition run_data_ok :: "inode \<Rightarrow> ext2 \<Rightarrow> nat \<Rightarrow> u32 list \<Rightarrow> bool" where
  "run_data_ok nd s n ps \<longleftrightarrow> file_run nd s n ps \<and> run_ok s n (length ps) \<and> (\<forall>p\<in>set ps. in_range s p)"

lemma run_extents:
  assumes "map_ok s" "run_data_ok nd s n ps"
  shows "\<exists>es. GetOrCreateExtents n (length ps) create False nd s = Some (Ret (Some es, nd, s)) \<and> expand_ok s es \<and>
    expand es = ps \<and> extents_bytes s es = length ps * unat (block_size s)"
proof -
  have m: "mount_ok s" using assms(1) by (simp add: map_ok_def)
  have "- 1 \<notin> set ps" using assms(2) in_range_not_max[OF m] by (auto simp: run_data_ok_def)
  then have "expand (foldl AddToExtentList [] ps) = ps" "extents_ok (foldl AddToExtentList [] ps)"
    using expand_foldl[of "[]" ps] by (simp_all add: extents_ok_def expand_def)
  then show ?thesis
    using GetOrCreateExtents_run[OF assms(1), of n ps nd create] assms(2)
    by (simp add: run_data_ok_def expand_ok_def extents_bytes_expand)
qed

section \<open>Whole blocks\<close>

lemma patch_Nil [simp]: "patch off [] bytes = bytes"
  by (simp add: patch_def)

lemma length_blocks: "mount_ok s \<Longrightarrow> length (concat (map (data_block s) ps)) = length ps * unat (block_size s)"
  by (induction ps) (simp_all add: length_data_block)

lemma mount_block_size: "mount_ok s \<Longrightarrow> unat (block_size s) = 512 * unat (sectors_per_block s)" "mount_ok s \<Longrightarrow> 0 < unat (block_size s)"
  by (auto simp: mount_ok_def)

lemma rounds_done:
  "rem_len < unat (block_size s) \<Longrightarrow> ReadWrite_rounds wr offset rem_len pos buff nd s = Some (Ret (True, pos, rem_len, buff, nd, s))"
  by (subst ReadWrite_rounds.simps) simp

lemma rounds_read:
  assumes "map_ok s" "disk_ok s" "run_data_ok nd s (offset div unat (block_size s)) ps" "r < unat (block_size s)"
    "pos + length ps * unat (block_size s) \<le> length buff"
  shows "ReadWrite_rounds False offset (length ps * unat (block_size s) + r) pos buff nd s =
    Some (Ret (True, pos + length ps * unat (block_size s), r, patch pos (concat (map (data_block s) ps)) buff, nd, s))"
proof (cases "ps = []")
  case True
  then show ?thesis using assms(4) by (simp add: rounds_done)
next
  case False
  let ?bs = "unat (block_size s)"
  have m: "mount_ok s" using assms(1) by (simp add: map_ok_def)
  obtain es where es: "GetOrCreateExtents (offset div ?bs) (length ps) False False nd s = Some (Ret (Some es, nd, s))"
    "expand_ok s es" "expand es = ps" "extents_bytes s es = length ps * ?bs"
    using run_extents[OF assms(1,3), of False] by blast
  have "?bs \<le> length ps * ?bs + r" using False by (cases ps) simp_all
  then show ?thesis
    using es ReadBlocks_expand[OF assms(2) es(2)] assms(4,5) m length_blocks[OF m, of ps] mount_block_size(2)[OF m]
    by (subst ReadWrite_rounds.simps) (simp add: copy_in_def rounds_done)
qed

lemma rounds_read_overrun:
  assumes "map_ok s" "disk_ok s" "run_data_ok nd s (offset div unat (block_size s)) ps" "r < unat (block_size s)"
    "length buff < pos + length ps * unat (block_size s)" "ps \<noteq> []"
  shows "ReadWrite_rounds False offset (length ps * unat (block_size s) + r) pos buff nd s = Some Overrun"
proof -
  let ?bs = "unat (block_size s)"
  have m: "mount_ok s" using assms(1) by (simp add: map_ok_def)
  obtain es where es: "GetOrCreateExtents (offset div ?bs) (length ps) False False nd s = Some (Ret (Some es, nd, s))"
    "expand_ok s es" "expand es = ps" "extents_bytes s es = length ps * ?bs"
    using run_extents[OF assms(1,3), of False] by blast
  have "?bs \<le> length ps * ?bs + r" using assms(6) by (cases ps) simp_all
  then show ?thesis
    using es ReadBlocks_expand[OF assms(2) es(2)] assms(4,5) m length_blocks[OF m, of ps] mount_block_size(2)[OF m]
    by (subst ReadWrite_rounds.simps) (simp add: copy_in_def)
qed

lemma rounds_write:
  assumes "map_ok s" "disk_ok s" "run_data_ok nd s (offset div unat (block_size s)) ps" "r < unat (block_size s)"
    "pos + length ps * unat (block_size s) \<le> length buff"
  shows "ReadWrite_rounds True offset (length ps * unat (block_size s) + r) pos buff nd s =
    Some (Ret (True, pos + length ps * unat (block_size s), r, buff, nd,
      s\<lparr>disk := put_blocks s (disk s) ps (chunks 512 (take (length ps * unat (block_size s)) (drop pos buff)))\<rparr>))"
proof (cases "ps = []")
  case True
  then show ?thesis using assms(4) by (simp add: rounds_done)
next
  case False
  let ?bs = "unat (block_size s)" let ?bytes = "take (length ps * ?bs) (drop pos buff)"
  have m: "mount_ok s" using assms(1) by (simp add: map_ok_def)
  obtain es where es: "GetOrCreateExtents (offset div ?bs) (length ps) True False nd s = Some (Ret (Some es, nd, s))"
    "expand_ok s es" "expand es = ps" "extents_bytes s es = length ps * ?bs"
    using run_extents[OF assms(1,3), of True] by blast
  have "WriteBlocks es ?bytes s = (True, s\<lparr>disk := put_blocks s (disk s) ps (chunks 512 ?bytes)\<rparr>)"
    using WriteBlocks_expand[OF assms(2) es(2), of ?bytes] es(3) assms(5) mount_block_size(1)[OF m] by simp
  moreover have "?bs \<le> length ps * ?bs + r" using False by (cases ps) simp_all
  ultimately show ?thesis
    using es assms(4,5) mount_block_size(2)[OF m]
    by (subst ReadWrite_rounds.simps) (simp add: copy_out_def rounds_done Let_def)
qed

section \<open>Reading\<close>

definition mapped :: "inode \<Rightarrow> ext2 \<Rightarrow> nat \<Rightarrow> nat \<Rightarrow> bool" where
  "mapped nd s a n \<longleftrightarrow> run_ok s a n \<and> (\<forall>i<n. \<exists>p. file_block nd s (a + i) = Some p \<and> in_range s p)"

definition file_blocks :: "inode \<Rightarrow> ext2 \<Rightarrow> nat \<Rightarrow> nat \<Rightarrow> u32 list" where
  "file_blocks nd s a n = map (\<lambda>i. the (file_block nd s (a + i))) [0..<n]"

lemma length_file_blocks [simp]: "length (file_blocks nd s a n) = n"
  by (simp add: file_blocks_def)

lemma file_blocks_Suc: "file_blocks nd s a (n + 1) = file_blocks nd s a n @ [the (file_block nd s (a + n))]"
  by (simp add: file_blocks_def)

lemma mapped_data_ok: "mapped nd s a n \<Longrightarrow> run_data_ok nd s a (file_blocks nd s a n)"
  by (force simp: mapped_def run_data_ok_def file_run_def file_blocks_def in_range_def)

lemma mapped_prefix: "mapped nd s a n \<Longrightarrow> k \<le> n \<Longrightarrow> mapped nd s a k"
  by (auto simp: mapped_def run_ok_def leaf_run_def)

lemma mapped_one:
  assumes "mapped nd s a n" "i < n" "mount_ok s"
  shows "mapped nd s (a + i) 1"
proof -
  have "(a + i - 12) mod ptrs_per_block s < ptrs_per_block s" using ptrs_pos[OF assms(3)] by simp
  then have "leaf_run (ptrs_per_block s) (a + i - 12) 1" by (auto simp: leaf_run_def)
  then show ?thesis using assms(1,2) by (auto simp: mapped_def run_ok_def)
qed

lemma GetOrCreateBlock_one:
  assumes "map_ok s" "mapped nd s a 1"
  shows "\<exists>p. GetOrCreateBlock a create nd s = Some (Ret (Some p, nd, s)) \<and> file_block nd s a = Some p \<and> in_range s p"
proof -
  have m: "mount_ok s" using assms(1) by (simp add: map_ok_def)
  obtain p where p: "file_block nd s a = Some p" "in_range s p" using assms(2) by (auto simp: mapped_def)
  then show ?thesis
    using GetOrCreateBlock_mapped[OF assms(1) _ p(1), of create] assms(2) by (auto simp: mapped_def in_range_def)
qed

text \<open>The bytes of a file as its block map and the disk have them.\<close>

definition file_bytes :: "inode \<Rightarrow> ext2 \<Rightarrow> nat \<Rightarrow> nat \<Rightarrow> u8 list" where
  "file_bytes nd s a n = concat (map (data_block s) (file_blocks nd s a n))"

text \<open>Whole blocks, read and written.\<close>

lemma read_blocks:
  assumes "map_ok s" "disk_ok s" "offset mod unat (block_size s) = 0" "len = k * unat (block_size s)" "len \<le> length buff"
    and "mapped nd s (offset div unat (block_size s)) k"
  shows "ReadWrite False offset len buff nd s =
    Some (Ret (True, file_bytes nd s (offset div unat (block_size s)) k @ drop len buff, nd, s))"
proof -
  let ?bs = "unat (block_size s)" let ?a = "offset div ?bs" let ?ps = "file_blocks nd s ?a k"
  have m: "mount_ok s" using assms(1) by (simp add: map_ok_def)
  have "length ?ps * ?bs \<le> length buff" using assms(4,5) by simp
  then have "ReadWrite_rounds False offset len 0 buff nd s =
      Some (Ret (True, len, 0, patch 0 (concat (map (data_block s) ?ps)) buff, nd, s))"
    using rounds_read[OF assms(1,2) mapped_data_ok[OF assms(6)] mount_block_size(2)[OF m], of 0 buff] assms(4) by simp
  moreover have "length (concat (map (data_block s) ?ps)) = len" using length_blocks[OF m, of ?ps] assms(4) by simp
  ultimately show ?thesis
    using assms(3) by (simp add: ReadWrite_def ReadWrite_head_def ReadWrite_tail_def file_bytes_def patch_def)
qed

text \<open>
  C26: Reading at a block boundary, whole blocks or any length from the start of the file, delivers exactly the bytes of
  the file and leaves the rest of the buffer, the inode and the disk alone, when the blocks exist and the run does not
  leave a pointer block in which it started (both are in \<open>mapped\<close>), on a disk that performs every transfer.
\<close>
theorem ReadWrite_reads_file:
  assumes "map_ok s" "disk_ok s" "offset mod unat (block_size s) = 0" "offset = 0 \<or> len mod unat (block_size s) = 0"
    and "mapped nd s (offset div unat (block_size s)) ((len + unat (block_size s) - 1) div unat (block_size s))"
    and "len \<le> length buff"
  shows "ReadWrite False offset len buff nd s =
    Some (Ret (True, take len (file_bytes nd s (offset div unat (block_size s)) ((len + unat (block_size s) - 1) div unat (block_size s)))
      @ drop len buff, nd, s))"
proof -
  let ?bs = "unat (block_size s)"
  define a where "a = offset div ?bs"
  define k where "k = len div ?bs"
  define r where "r = len mod ?bs"
  have m: "mount_ok s" using assms(1) by (simp add: map_ok_def)
  note bs = mount_block_size(2)[OF m]
  have len: "len = k * ?bs + r" "r < ?bs" using bs by (simp_all add: k_def r_def)
  have ceil: "(len + ?bs - 1) div ?bs = (if r = 0 then k else k + 1)"
  proof (cases "r = 0")
    case True
    then have "len + ?bs - 1 = (?bs - 1) + k * ?bs" using len bs by simp
    moreover have "?bs - 1 < ?bs" using bs by simp
    ultimately show ?thesis using True bs by (simp only: div_mult_self1 div_less) simp
  next
    case False
    then have "len + ?bs - 1 = (r - 1) + (k + 1) * ?bs" using len by simp
    moreover have "r - 1 < ?bs" using len by simp
    ultimately show ?thesis using False bs by (simp only: div_mult_self1 div_less) simp
  qed
  have mp: "mapped nd s a (if r = 0 then k else k + 1)" using assms(5) unfolding a_def ceil .
  then have mk: "mapped nd s a k" by (rule mapped_prefix) simp
  let ?ps = "file_blocks nd s a k"
  have "length ?ps * ?bs \<le> length buff" using assms(6) len by simp
  then have rounds: "ReadWrite_rounds False offset len 0 buff nd s =
      Some (Ret (True, k * ?bs, r, patch 0 (concat (map (data_block s) ?ps)) buff, nd, s))"
    using rounds_read[OF assms(1,2) mapped_data_ok[OF mk, unfolded a_def] len(2), of 0 buff] by (simp add: len(1)[symmetric] a_def)
  have lb: "length (concat (map (data_block s) ?ps)) = k * ?bs" using length_blocks[OF m, of ?ps] by simp
  show ?thesis
  proof (cases "r = 0")
    case True
    then have l: "length (file_bytes nd s a k) = len" using lb len(1) by (simp add: file_bytes_def)
    have "ReadWrite False offset len buff nd s = Some (Ret (True, file_bytes nd s a k @ drop len buff, nd, s))"
      using read_blocks[OF assms(1-3) _ assms(6), of k nd] mk len(1) True by (simp add: a_def)
    moreover have "(if r = 0 then k else k + 1) = k" using True by simp
    moreover have "take len (file_bytes nd s a k) = file_bytes nd s a k" using l by simp
    ultimately show ?thesis unfolding ceil a_def[symmetric] by (simp only:)
  next
    case False
    then have "offset = 0" using assms(4) r_def by metis
    then have a0: "a = 0" "offset = 0" by (simp_all add: a_def)
    have "mapped nd s k 1" using mapped_one[OF mp _ m, of k] False a0 by simp
    then obtain p where p: "GetOrCreateBlock k False nd s = Some (Ret (Some p, nd, s))" "file_block nd s k = Some p" "in_range s p"
      using GetOrCreateBlock_one[OF assms(1), of nd k False] by blast
    have rd: "ReadBlock p s = Some (data_block s p)" using p(3) assms(2) by (simp add: ReadBlock_ok in_range_def)
    have fb: "file_bytes nd s 0 (k + 1) = concat (map (data_block s) ?ps) @ data_block s p"
      using p(2) a0(1) file_blocks_Suc[of nd s 0 k] by (simp add: file_bytes_def)
    have tk: "take len (file_bytes nd s 0 (k + 1)) = concat (map (data_block s) ?ps) @ take r (data_block s p)"
      unfolding fb using lb len(1) by simp
    have lp: "length (data_block s p) = ?bs" by (rule length_data_block[OF m])
    have "ReadWrite False offset len buff nd s =
        Some (Ret (True, concat (map (data_block s) ?ps) @ take r (data_block s p) @ drop len buff, nd, s))"
      using a0 rounds p(1) rd lb lp False assms(6) len
      by (simp add: ReadWrite_def ReadWrite_head_def ReadWrite_tail_def copy_in_def k_def[symmetric] patch_def add.commute)
    moreover have "(if r = 0 then k else k + 1) = k + 1" using False by simp
    moreover have "take len (file_bytes nd s a (k + 1)) = concat (map (data_block s) ?ps) @ take r (data_block s p)"
      using tk a0(1) by simp
    ultimately show ?thesis unfolding ceil a_def[symmetric] by (simp only: append_assoc)
  qed
qed

text \<open>
  C27: Reading from an offset inside a block into a buffer of the length asked for always runs over the end of
  the buffer: the bytes of the first block are not subtracted from the length that remains.
\<close>
theorem ReadWrite_unaligned_overruns:
  assumes "map_ok s" "disk_ok s" "offset mod unat (block_size s) \<noteq> 0"
    and "mapped nd s (offset div unat (block_size s)) 1"
    and "mapped nd s (offset div unat (block_size s) + 1) (length buff div unat (block_size s))"
    and "mapped nd s (length buff div unat (block_size s)) 1"
  shows "ReadWrite False offset (length buff) buff nd s = Some Overrun"
proof -
  let ?bs = "unat (block_size s)" let ?len = "length buff"
  define off where "off = offset mod ?bs"
  define op_len where "op_len = ?bs - off"
  have m: "mount_ok s" using assms(1) by (simp add: map_ok_def)
  note bs = mount_block_size(2)[OF m]
  have off: "0 < off" "off < ?bs" "0 < op_len" using assms(3) bs by (simp_all add: off_def op_len_def)
  obtain p where p: "GetOrCreateBlock (offset div ?bs) False nd s = Some (Ret (Some p, nd, s))" "in_range s p"
    using GetOrCreateBlock_one[OF assms(1,4)] by blast
  have rd: "ReadBlock p s = Some (data_block s p)" using p(2) assms(2) by (simp add: ReadBlock_ok in_range_def)
  define first where "first = take op_len (drop off (data_block s p))"
  have first: "length first = op_len"
    using length_data_block[OF m, of p] off by (simp add: first_def op_len_def)
  have head: "ReadWrite_head False offset buff nd s =
      (if op_len \<le> ?len then Some (Ret (Some op_len, patch 0 first buff, nd, s)) else Some Overrun)"
    using p(1) rd off(1) first by (simp add: ReadWrite_head_def Let_def off_def[symmetric] op_len_def[symmetric] copy_in_def first_def[symmetric])
  show ?thesis
  proof (cases "op_len \<le> ?len")
    case False
    then show ?thesis using head by (simp add: ReadWrite_def)
  next
    case fits: True
    define k where "k = ?len div ?bs"
    define r where "r = ?len mod ?bs"
    have len: "?len = k * ?bs + r" "r < ?bs" using bs by (simp_all add: k_def r_def)
    have "offset = offset div ?bs * ?bs + off" by (simp add: off_def)
    then have "offset + op_len = offset div ?bs * ?bs + ?bs" using off(2) unfolding op_len_def by linarith
    moreover have "(q * ?bs + ?bs) div ?bs = q + 1" for q using bs by simp
    ultimately have next_blk: "(offset + op_len) div ?bs = offset div ?bs + 1" by metis
    let ?ps = "file_blocks nd s (offset div ?bs + 1) k"
    have ps: "run_data_ok nd s ((offset + op_len) div ?bs) ?ps"
      using mapped_data_ok[OF assms(5)] next_blk by (simp add: k_def)
    have buff: "length (patch 0 first buff) = ?len" using fits first by (simp add: length_patch)
    show ?thesis
    proof (cases "?len < op_len + k * ?bs")
      case True
      then have "?ps \<noteq> []" using fits by (cases k) (auto simp: file_blocks_def)
      then show ?thesis
        using rounds_read_overrun[OF assms(1,2) ps len(2), of "patch 0 first buff" op_len] True buff head fits
        by (simp add: ReadWrite_def len(1)[symmetric])
    next
      case False
      then have r: "r \<noteq> 0" "op_len \<le> r" using len off(3) by simp_all
      have rounds: "ReadWrite_rounds False (offset + op_len) ?len op_len (patch 0 first buff) nd s =
          Some (Ret (True, op_len + k * ?bs, r, patch op_len (concat (map (data_block s) ?ps)) (patch 0 first buff), nd, s))"
        using rounds_read[OF assms(1,2) ps len(2), of op_len "patch 0 first buff"] False buff by (simp add: len(1)[symmetric])
      have b2: "length (patch op_len (concat (map (data_block s) ?ps)) (patch 0 first buff)) = ?len"
        using buff False length_blocks[OF m, of ?ps] by (simp add: length_patch)
      obtain q where q: "GetOrCreateBlock k False nd s = Some (Ret (Some q, nd, s))" "in_range s q"
        using GetOrCreateBlock_one[OF assms(1,6)] by (auto simp: k_def)
      have "ReadBlock q s = Some (data_block s q)" using q(2) assms(2) by (simp add: ReadBlock_ok in_range_def)
      then show ?thesis
        using head fits rounds q(1) r b2 len length_data_block[OF m, of q] off(3)
        by (simp add: ReadWrite_def ReadWrite_tail_def copy_in_def k_def[symmetric])
    qed
  qed
qed

section \<open>Writing\<close>

lemma put_all: "\<forall>x. P (f x) \<Longrightarrow> \<forall>b\<in>set bs. P b \<Longrightarrow> P (put f a bs x)"
  by (induction bs arbitrary: f a) auto

lemma put_blocks_all: "\<forall>x. P (d x) \<Longrightarrow> \<forall>c\<in>set cs. P c \<Longrightarrow> P (put_blocks s d bs cs x)"
proof (induction bs arbitrary: d cs)
  case (Cons b bs)
  have "\<forall>c\<in>set (take k cs). P c" "\<forall>c\<in>set (drop k cs). P c" for k
    using Cons.prems(2) by (meson in_set_takeD, meson in_set_dropD)
  then show ?case using Cons.IH Cons.prems(1) by (simp add: put_all)
qed simp

lemma mount_ok_put_blocks: "mount_ok s \<Longrightarrow> mount_ok (s\<lparr>disk := put_blocks s (disk s) bs (chunks 512 bytes)\<rparr>)"
  using put_blocks_all[of "\<lambda>x. length x = 512" "disk s" "chunks 512 bytes" s bs] length_chunk[of _ 512 bytes]
  by (simp add: mount_ok_def)

lemma ptrs_disk [simp]: "ptrs_per_block (s\<lparr>disk := d\<rparr>) = ptrs_per_block s" "in_range (s\<lparr>disk := d\<rparr>) b = in_range s b"
  by (simp_all add: ptrs_per_block_def in_range_def)

text \<open>The contents of the blocks of a run after whole blocks have been written.\<close>

lemma data_put_blocks:
  assumes "mount_ok s" "distinct bs" "\<forall>b\<in>set bs. in_range s b" "length bytes = length bs * unat (block_size s)"
    "s' = s\<lparr>disk := put_blocks s (disk s) bs (chunks 512 bytes)\<rparr>"
  shows "i < length bs \<Longrightarrow> data_block s' (bs ! i) = take (unat (block_size s)) (drop (i * unat (block_size s)) bytes)"
    and "in_range s c \<Longrightarrow> c \<notin> set bs \<Longrightarrow> data_block s' c = data_block s c"
proof -
  let ?n = "unat (sectors_per_block s)"
  have bs: "unat (block_size s) = 512 * ?n" by (rule mount_block_size(1)[OF assms(1)])
  have len: "length bs * ?n \<le> length (chunks 512 bytes)" using assms(4) bs by simp
  have dvd: "512 dvd length bytes" using assms(4) bs by simp
  show "in_range s c \<Longrightarrow> c \<notin> set bs \<Longrightarrow> data_block s' c = data_block s c"
    using fetch_put_blocks(1)[OF assms(2,3) _ len] by (simp add: data_block_def assms(5))
  assume i: "i < length bs"
  then have "in_range s (bs ! i)" using assms(3) by simp
  then have "data_block s' (bs ! i) = concat (take ?n (drop (i * ?n) (chunks 512 bytes)))"
    using fetch_put_blocks(2)[OF assms(2,3) _ len i] by (simp add: data_block_def assms(5))
  also have "\<dots> = take (512 * ?n) (drop (512 * (i * ?n)) bytes)" by (rule concat_slice[OF _ dvd]) simp
  finally show "data_block s' (bs ! i) = take (unat (block_size s)) (drop (i * unat (block_size s)) bytes)"
    by (simp add: bs ac_simps)
qed

text \<open>
  C28: Writing whole blocks at a block boundary stores the buffer in the blocks of the run and changes no other block of
  the disk, when the blocks exist, are distinct and the run does not leave a pointer block in which it started
  (\<open>mapped\<close>), on a disk that performs every transfer.
\<close>
theorem ReadWrite_writes_blocks:
  assumes "map_ok s" "disk_ok s" "offset mod unat (block_size s) = 0" "len = k * unat (block_size s)" "len \<le> length buff"
    and "mapped nd s (offset div unat (block_size s)) k" "distinct (file_blocks nd s (offset div unat (block_size s)) k)"
  shows "\<exists>s'. ReadWrite True offset len buff nd s = Some (Ret (True, buff, nd, s')) \<and> s' = s\<lparr>disk := disk s'\<rparr> \<and>
    (\<forall>i<k. data_block s' (file_blocks nd s (offset div unat (block_size s)) k ! i) =
       take (unat (block_size s)) (drop (i * unat (block_size s)) buff)) \<and>
    (\<forall>b. in_range s b \<longrightarrow> b \<notin> set (file_blocks nd s (offset div unat (block_size s)) k) \<longrightarrow> data_block s' b = data_block s b)"
proof -
  let ?bs = "unat (block_size s)" let ?ps = "file_blocks nd s (offset div unat (block_size s)) k"
  let ?bytes = "take (k * ?bs) buff"
  have m: "mount_ok s" using assms(1) by (simp add: map_ok_def)
  note bs = mount_block_size(2)[OF m]
  define s' where "s' = s\<lparr>disk := put_blocks s (disk s) ?ps (chunks 512 ?bytes)\<rparr>"
  note ps = mapped_data_ok[OF assms(6)]
  have rng: "\<forall>b\<in>set ?ps. in_range s b" using ps by (simp add: run_data_ok_def)
  have "ReadWrite True offset len buff nd s = Some (Ret (True, buff, nd, s'))"
    using rounds_write[OF assms(1,2) ps bs, of 0 buff] assms(3-5)
    by (simp add: ReadWrite_def ReadWrite_head_def ReadWrite_tail_def s'_def)
  moreover have "length ?bytes = length ?ps * ?bs" using assms(4,5) by simp
  note data = data_put_blocks[OF m assms(7) rng this s'_def]
  have "data_block s' (?ps ! i) = take ?bs (drop (i * ?bs) buff)" if "i < k" for i
  proof -
    have "Suc i * ?bs \<le> k * ?bs" using that by (intro mult_le_mono1) simp
    then have "?bs \<le> k * ?bs - i * ?bs" by simp
    then show ?thesis using data(1)[of i] that by (simp add: drop_take min_absorb1)
  qed
  ultimately show ?thesis using data(2) by (intro exI[of _ s']) (simp add: s'_def)
qed

text \<open>Direct blocks do not depend on the disk.\<close>

lemma direct_same:
  assumes "s' = s\<lparr>disk := d\<rparr>" "a + n \<le> 12"
  shows "mapped nd s' a n = mapped nd s a n" "file_blocks nd s' a n = file_blocks nd s a n"
  using assms by (auto simp: mapped_def file_blocks_def file_block_def run_ok_def)

lemma concat_slices:
  assumes "\<And>i. i < k \<Longrightarrow> f i = take b (drop (i * b) buff)" "k * b \<le> length buff"
  shows "concat (map f [0..<k]) = take (k * b) buff"
  using assms
proof (induction k)
  case (Suc k)
  have "take (Suc k * b) buff = take (k * b) buff @ take b (drop (k * b) buff)"
    using take_add[of "k * b" b buff] by (simp add: add.commute)
  then show ?case using Suc by simp
qed simp

lemma write_direct:
  assumes "map_ok s" "disk_ok s" "offset mod unat (block_size s) = 0" "len = k * unat (block_size s)" "len \<le> length buff"
    and "offset div unat (block_size s) + k \<le> 12"
    and "mapped nd s (offset div unat (block_size s)) k" "distinct (file_blocks nd s (offset div unat (block_size s)) k)"
  obtains s' where "ReadWrite True offset len buff nd s = Some (Ret (True, buff, nd, s'))" "s' = s\<lparr>disk := disk s'\<rparr>"
    "map_ok s'" "disk_ok s'" "mapped nd s' (offset div unat (block_size s)) k"
    "file_blocks nd s' (offset div unat (block_size s)) k = file_blocks nd s (offset div unat (block_size s)) k"
    "file_bytes nd s' (offset div unat (block_size s)) k = take len buff"
proof -
  let ?bs = "unat (block_size s)" let ?a = "offset div ?bs" let ?ps = "file_blocks nd s ?a k"
  have m: "mount_ok s" using assms(1) by (simp add: map_ok_def)
  note bs = mount_block_size(2)[OF m]
  define s' where "s' = s\<lparr>disk := put_blocks s (disk s) ?ps (chunks 512 (take (k * ?bs) buff))\<rparr>"
  have ps: "run_data_ok nd s ?a ?ps" by (rule mapped_data_ok[OF assms(7)])
  have run: "ReadWrite True offset len buff nd s = Some (Ret (True, buff, nd, s'))"
    using rounds_write[OF assms(1,2) ps bs, of 0 buff] assms(3-5)
    by (simp add: ReadWrite_def ReadWrite_head_def ReadWrite_tail_def s'_def)
  have same: "mapped nd s' ?a k" "file_blocks nd s' ?a k = ?ps"
    using direct_same[OF s'_def assms(6)] assms(7) by simp_all
  have bs': "block_size s' = block_size s" by (simp add: s'_def)
  have ok': "map_ok s'" "disk_ok s'"
    using assms(1,2) mount_ok_put_blocks[OF m] by (simp_all add: map_ok_def s'_def)
  have len: "length (take (k * ?bs) buff) = length ?ps * ?bs" using assms(4,5) by simp
  note data = data_put_blocks(1)[OF m assms(8) _ len s'_def]
  have "data_block s' (?ps ! i) = take ?bs (drop (i * ?bs) (take (k * ?bs) buff))" if "i < k" for i
    using data ps that by (simp add: run_data_ok_def)
  then have "concat (map (\<lambda>i. data_block s' (?ps ! i)) [0..<k]) = take (k * ?bs) (take (k * ?bs) buff)"
    using assms(4,5) by (intro concat_slices) simp_all
  moreover have "map (data_block s') ?ps = map (\<lambda>i. data_block s' (?ps ! i)) [0..<k]"
    by (intro nth_equalityI) simp_all
  ultimately have bytes: "file_bytes nd s' ?a k = take len buff"
    using assms(4) by (simp only: file_bytes_def same(2)) simp
  show thesis by (rule that[OF run _ ok' same bytes]) (simp add: s'_def)
qed

text \<open>
  C29: What has been written to whole direct blocks of a file reads back.
\<close>
theorem ReadWrite_roundtrip:
  assumes "map_ok s" "disk_ok s" "offset mod unat (block_size s) = 0" "len = k * unat (block_size s)" "len \<le> length buff"
    and "offset div unat (block_size s) + k \<le> 12"
    and "mapped nd s (offset div unat (block_size s)) k" "distinct (file_blocks nd s (offset div unat (block_size s)) k)"
    and "len \<le> length buff2"
  shows "\<exists>s'. ReadWrite True offset len buff nd s = Some (Ret (True, buff, nd, s')) \<and>
    ReadWrite False offset len buff2 nd s' = Some (Ret (True, take len buff @ drop len buff2, nd, s'))"
proof -
  let ?bs = "unat (block_size s)" let ?a = "offset div ?bs"
  obtain s' where s': "ReadWrite True offset len buff nd s = Some (Ret (True, buff, nd, s'))" "s' = s\<lparr>disk := disk s'\<rparr>"
    "map_ok s'" "disk_ok s'" "mapped nd s' ?a k" "file_bytes nd s' ?a k = take len buff"
    by (rule write_direct[OF assms(1-8)]) (rule that, assumption+)
  have bs: "block_size s' = block_size s" by (subst s'(2)) simp
  have "ReadWrite False offset len buff2 nd s' = Some (Ret (True, take len buff @ drop len buff2, nd, s'))"
    using read_blocks[OF s'(3,4), of offset len k buff2 nd] assms(3,4,9) s'(5,6) by (simp add: bs)
  then show ?thesis using s'(1) by blast
qed

lemma data_WriteBlock:
  assumes "mount_ok s" "in_range s p" "length bytes = unat (block_size s)" "WriteBlock bytes p s = (True, s')"
  shows "data_block s' p = bytes" "in_range s c \<Longrightarrow> c \<noteq> p \<Longrightarrow> data_block s' c = data_block s c" "s' = s\<lparr>disk := disk s'\<rparr>"
proof -
  have len: "length bytes = 512 * unat (sectors_per_block s)" using assms(1,3) mount_block_size(1) by simp
  have w: "disk_Write (block_lba s p) (unat (sectors_per_block s)) bytes s = (True, s')"
    using assms(2,4) by (simp add: WriteBlock_def in_range_def)
  then show s': "s' = s\<lparr>disk := disk s'\<rparr>" by (auto simp: disk_Write_def split: if_splits)
  have lba: "block_lba s' b = block_lba s b" "sectors_per_block s' = sectors_per_block s" for b by (subst s', simp)+
  show "data_block s' p = bytes" using read_written[OF assms(4) len] by (simp add: data_block_def lba)
  show "in_range s c \<Longrightarrow> c \<noteq> p \<Longrightarrow> data_block s' c = data_block s c"
    using read_other_block[OF w in_range_valid[OF assms(2)] in_range_valid] by (simp add: data_block_def lba)
qed

text \<open>
  C30: The last, partial block of a write gets the first bytes of the buffer instead of the last ones: after a
  write from the start of the file of \<open>k\<close> blocks and \<open>r\<close> bytes the block \<open>k\<close> starts with the first \<open>r\<close> bytes
  of the buffer again, and zeros follow.
\<close>
theorem ReadWrite_tail_wrong_bytes:
  assumes "map_ok s" "disk_ok s" "len = k * unat (block_size s) + r" "0 < r" "r < unat (block_size s)" "len \<le> length buff"
    and "k < 12" "mapped nd s 0 (k + 1)" "distinct (file_blocks nd s 0 (k + 1))"
  shows "\<exists>s'. ReadWrite True 0 len buff nd s = Some (Ret (True, buff, nd, s')) \<and>
    (\<forall>i<k. data_block s' (i_block nd ! i) = take (unat (block_size s)) (drop (i * unat (block_size s)) buff)) \<and>
    data_block s' (i_block nd ! k) = take r buff @ replicate (unat (block_size s) - r) 0"
proof -
  let ?bs = "unat (block_size s)" let ?ps = "file_blocks nd s 0 k"
  have m: "mount_ok s" using assms(1) by (simp add: map_ok_def)
  have mk: "mapped nd s 0 k" by (rule mapped_prefix[OF assms(8)]) simp
  note ps = mapped_data_ok[OF mk]
  have at: "file_block nd s i = Some (i_block nd ! i)" "?ps ! j = i_block nd ! j" if "i < 12" "j < k" for i j
    using that assms(7) by (simp_all add: file_block_def file_blocks_def)
  have split: "file_blocks nd s 0 (k + 1) = ?ps @ [i_block nd ! k]" using file_blocks_Suc[of nd s 0 k] assms(7) by (simp add: file_block_def)
  have d: "distinct ?ps" "i_block nd ! k \<notin> set ?ps" using assms(9) unfolding split by simp_all
  define s1 where "s1 = s\<lparr>disk := put_blocks s (disk s) ?ps (chunks 512 (take (k * ?bs) buff))\<rparr>"
  have room: "k * ?bs \<le> length buff" using assms(3,6) by simp
  have rounds: "ReadWrite_rounds True 0 len 0 buff nd s = Some (Ret (True, k * ?bs, r, buff, nd, s1))"
    using rounds_write[OF assms(1,2) _ assms(5), of nd 0 ?ps 0 buff] ps room assms(3) by (simp add: s1_def)
  have s1: "map_ok s1" "disk_ok s1" "mount_ok s1" "block_size s1 = block_size s"
    using assms(1,2) mount_ok_put_blocks[OF m] by (simp_all add: map_ok_def s1_def)
  have "mapped nd s1 0 (k + 1)" using direct_same(1)[OF s1_def, of 0 "k + 1" nd] assms(7,8) by simp
  from mapped_one[OF this _ s1(3), of k] have "mapped nd s1 k 1" by simp
  then obtain p where "GetOrCreateBlock k True nd s1 = Some (Ret (Some p, nd, s1))" "file_block nd s1 k = Some p" "in_range s1 p"
    using GetOrCreateBlock_one[OF s1(1), of nd k True] by blast
  then have p: "GetOrCreateBlock k True nd s1 = Some (Ret (Some (i_block nd ! k), nd, s1))" "in_range s1 (i_block nd ! k)"
    using assms(7) by (simp_all add: file_block_def)
  define last where "last = take r buff @ replicate (?bs - r) 0"
  have last: "length last = unat (block_size s1)" using assms(3,5,6) s1(4) by (simp add: last_def)
  define s2 where "s2 = snd (WriteBlock last (i_block nd ! k) s1)"
  have w: "WriteBlock last (i_block nd ! k) s1 = (True, s2)"
    using p(2) s1(2) by (simp add: s2_def WriteBlock_def disk_Write_ok in_range_def)
  note wr = data_WriteBlock[OF s1(3) p(2) last w]
  have "len div ?bs = k" using assms(3,5) by simp
  then have run: "ReadWrite True 0 len buff nd s = Some (Ret (True, buff, nd, s2))"
    using rounds p(1) w assms(3,4,6) s1(4)
    by (simp add: ReadWrite_def ReadWrite_head_def ReadWrite_tail_def copy_out_def last_def[symmetric])
  have bytes: "length (take (k * ?bs) buff) = length ?ps * ?bs" using room by simp
  have rng: "\<forall>b\<in>set ?ps. in_range s b" using ps by (simp add: run_data_ok_def)
  have "data_block s2 (i_block nd ! i) = take ?bs (drop (i * ?bs) buff)" if i: "i < k" for i
  proof -
    have "?ps ! i \<in> set ?ps" using i by (intro nth_mem) simp
    then have pi: "?ps ! i \<in> set ?ps" "?ps ! i = i_block nd ! i" using i at(2)[of 0 i] by simp_all
    then have "in_range s1 (i_block nd ! i)" "i_block nd ! i \<noteq> i_block nd ! k" using rng d(2) by (auto simp: s1_def)
    then have "data_block s2 (i_block nd ! i) = data_block s1 (?ps ! i)" using wr(2) pi(2) by simp
    also have "\<dots> = take ?bs (drop (i * ?bs) (take (k * ?bs) buff))"
      using data_put_blocks(1)[OF m d(1) rng bytes s1_def] i by simp
    also have "\<dots> = take ?bs (drop (i * ?bs) buff)"
    proof -
      have "Suc i * ?bs \<le> k * ?bs" using i by (intro mult_le_mono1) simp
      then show ?thesis by (simp add: drop_take min_absorb1)
    qed
    finally show ?thesis .
  qed
  then show ?thesis using run wr(1) by (auto simp: last_def)
qed

text \<open>Writing an inode changes the block of the inode table it is in.\<close>

lemma WriteINode_ok:
  assumes "mount_ok s" "disk_ok s" "inode_slot_ok s i" "wf_inode n" "in_range s (inode_tab_block s i)"
  shows "\<exists>s'. WriteINode i n s = (True, s') \<and> mount_ok s' \<and> s' = s\<lparr>disk := disk s'\<rparr> \<and> ReadINode i s' = Some n \<and>
    (\<forall>c. in_range s c \<longrightarrow> c \<noteq> inode_tab_block s i \<longrightarrow> data_block s' c = data_block s c)"
proof -
  define s' where "s' = snd (WriteINode i n s)"
  have "inode_tab_block s i \<noteq> 0" using assms(3) by (simp add: inode_slot_ok_def valid_block_def)
  then have w: "WriteINode i n s = (True, s')"
    using assms(1,2) by (simp add: s'_def WriteINode_def ReadBlock_new_def disk_Read_new_def disk_Read_ok WriteBlock_def disk_Write_ok mount_ok_def)
  note b = WriteINode_block[OF assms(1,3,4) w]
  have len: "length (patch (inode_tab_off s i) (inode_bytes n)
      (concat (fetch (disk s) (block_lba s (inode_tab_block s i)) (unat (sectors_per_block s))))) = unat (block_size s)"
    using b(5) mount_block_size(1)[OF assms(1)] by simp
  have "\<forall>c. in_range s c \<longrightarrow> c \<noteq> inode_tab_block s i \<longrightarrow> data_block s' c = data_block s c"
    using data_WriteBlock(2)[OF assms(1,5) len b(3)] by blast
  then show ?thesis
    using w write_read_inode(1,2)[OF assms(1,3,4) w] b(1) by blast
qed

end
