(* ===== verification/Ext2_Dirs.thy ===== *)
theory Ext2_Dirs
  imports Ext2_Files "HOL-Library.Sublist"
begin

text \<open>
  Directories: the search for a name in a well-formed block, the new entry of \<open>MakeDirEntry\<close>, the handles that
  \<open>Touch\<close> and \<open>MkDir\<close> return, and what \<open>Remove\<close> leaves behind. The file types come first.
\<close>

section \<open>File types\<close>

text \<open>
  C31: The three encodings of a file type agree: mode bits and directory entry types determine each other, the
  type written into a directory entry is the one the mode says, and \<open>Chmod\<close> changes neither the type nor
  clears a permission.
\<close>
theorem file_types_agree:
  "(t \<le> 7 \<longrightarrow> FileModeToFileType (FileTypeToFileMode t) = t) \<and>
   FileTypeToExt2FileType (GetFileType nd) = FileModeToFileType (GetExt2FileType nd) \<and>
   (Chmod perms nd = (True, nd') \<longrightarrow> GetFileType nd' = GetFileType nd \<and> GetPerms nd' = GetPerms nd OR perms)"
proof (intro conjI[of "_ \<longrightarrow> _"] conjI[of "_ = _" "_ \<longrightarrow> _"] impI)
  show "FileModeToFileType (FileTypeToFileMode t) = t" if "t \<le> 7"
  proof -
    have "unat t \<le> 7" using that by (simp add: word_le_nat_alt)
    then have "unat t \<in> {0, 1, 2, 3, 4, 5, 6, 7}" by auto
    then have "t \<in> {0, 1, 2, 3, 4, 5, 6, 7}"
      by (auto simp: word_unat_eq_iff)
    then show ?thesis by (auto simp: FileModeToFileType_def FileTypeToFileMode_def ext2_ft_defs ext2_mode_defs)
  qed
  show "FileTypeToExt2FileType (GetFileType nd) = FileModeToFileType (GetExt2FileType nd)"
    by (simp add: GetFileType_def FileModeToFileType_def Let_def ext2_mode_defs)
  assume "Chmod perms nd = (True, nd')"
  then have p: "perms \<le> 0x1FF" "nd' = nd\<lparr>i_mode := i_mode nd OR perms\<rparr>" by (auto simp: Chmod_def split: if_splits)
  have perms: "perms AND 0x1FF = perms"
  proof -
    have "unat perms < 2 ^ 9" using p(1) by (simp add: word_le_nat_alt)
    then have "take_bit 9 perms = perms" by (simp add: word_unat_eq_iff unsigned_take_bit_eq take_bit_nat_eq_self)
    then show ?thesis by (simp add: take_bit_eq_mask mask_eq_exp_minus_1)
  qed
  have "(m OR (q AND 0x1FF)) AND 0xF000 = m AND 0xF000" "(m OR (q AND 0x1FF)) AND 0x1FF = (m AND 0x1FF) OR (q AND 0x1FF)" for m q :: u16
    by (simp_all add: bit.conj_disj_distrib2 and.assoc)
  from this[of "i_mode nd" perms] show "GetFileType nd' = GetFileType nd \<and> GetPerms nd' = GetPerms nd OR perms"
    by (simp add: p(2) perms GetFileType_def GetExt2FileType_def GetPerms_def)
qed

section \<open>Searching a block\<close>

definition entry_name :: "u8 list \<Rightarrow> nat \<Rightarrow> u8 list" where
  "entry_name b off = take (e_name_len b off) (drop (off + 8) b)"

text \<open>The offsets of the entries of a block whose lengths add up to the block.\<close>

fun dir_chain :: "u8 list \<Rightarrow> nat \<Rightarrow> nat list \<Rightarrow> bool" where
  "dir_chain b off [] \<longleftrightarrow> off = length b"
| "dir_chain b off (x # xs) \<longleftrightarrow>
     x = off \<and> 8 + e_name_len b off \<le> e_rec_len b off \<and> dir_chain b (off + e_rec_len b off) xs"

lemma dir_chain_le: "dir_chain b off xs \<Longrightarrow> off \<le> length b"
  by (induction xs arbitrary: off) fastforce+

lemma Dir_search_chain:
  assumes "dir_chain b off (off # xs)" "length b < 2 ^ 64" "0 < r0" "r0 \<le> off + e_rec_len b off"
  shows "Dir_search name b off (r0 + (length b - (off + e_rec_len b off))) =
    (case find (name_matches name b) (off # xs) of Some x \<Rightarrow> Found x | None \<Rightarrow> Past_end)"
  using assms
proof (induction xs arbitrary: off)
  case Nil
  then show ?case by (subst Dir_search.simps) (simp add: Let_def)
next
  case (Cons x xs)
  let ?next = "off + e_rec_len b off"
  have x: "x = ?next" "dir_chain b ?next (?next # xs)" "8 + e_name_len b off \<le> e_rec_len b off" using Cons.prems(1) by simp_all
  then have le: "?next + e_rec_len b ?next \<le> length b" "8 \<le> e_rec_len b ?next" using dir_chain_le[of b _ xs] by simp_all
  have "(r0 + (length b - ?next) + 2 ^ 64 - e_rec_len b ?next) mod 2 ^ 64 =
      (r0 + (length b - (?next + e_rec_len b ?next)) + 2 ^ 64) mod 2 ^ 64"
    using le by (intro arg_cong[where f = "\<lambda>n. n mod 2 ^ 64"]) simp
  also have "\<dots> = r0 + (length b - (?next + e_rec_len b ?next))"
  proof -
    have "r0 + (length b - (?next + e_rec_len b ?next)) < 2 ^ 64" using Cons.prems(2,4) le(1) by simp
    then show ?thesis by (simp only: mod_add_self2 mod_less)
  qed
  finally have es: "(r0 + (length b - ?next) + 2 ^ 64 - e_rec_len b ?next) mod 2 ^ 64 =
    r0 + (length b - (?next + e_rec_len b ?next))" .
  have "r0 \<le> ?next + e_rec_len b ?next" using Cons.prems(4) by simp
  note IH = Cons.IH[OF x(2) Cons.prems(2,3) this]
  show ?case
    using IH x(1,3) le es Cons.prems(3) by (subst Dir_search.simps) (simp add: Let_def)
qed

text \<open>The comparison of names: the name of the entry is a prefix of the name looked for.\<close>

lemma strncmp_loop_zero:
  assumes "\<forall>i\<le>k. m (r + i) \<noteq> 0"
  shows "strncmp_loop m l r k = 0 \<longleftrightarrow> (\<forall>i\<le>k. m (l + i) = m (r + i))"
  using assms
proof (induction k arbitrary: l r)
  case 0
  then show ?case by (simp add: word_uint_eq_iff)
next
  case (Suc k)
  have all: "(\<forall>i\<le>Suc k. P i) \<longleftrightarrow> P 0 \<and> (\<forall>i\<le>k. P (Suc i))" for P by (metis Suc_le_mono le0 not0_implies_Suc)
  have r: "m r \<noteq> 0" "\<forall>i\<le>k. m (r + 1 + i) \<noteq> 0" using Suc.prems by (auto simp: all)
  have "strncmp_loop m l r (Suc k) = 0 \<longleftrightarrow> m l = m r \<and> strncmp_loop m (l + 1) (r + 1) k = 0"
    using r(1) by (auto simp: word_uint_eq_iff)
  then show ?case using Suc.IH[OF r(2), of "l + 1"] by (simp add: all)
qed

lemma name_matches_text:
  assumes "0 \<notin> set t" "0 < e_name_len b off" "e_name_len b off < 256" "off + 8 + e_name_len b off \<le> length b"
    "0 \<notin> set (entry_name b off)"
  shows "name_matches (t @ 0 # junk) b off \<longleftrightarrow> prefix (entry_name b off) t"
proof -
  let ?n = "e_name_len b off" let ?m = "block_mem ((t @ 0 # junk) @ b)"
  have len: "length (entry_name b off) = ?n" using assms(4) by (simp add: entry_name_def)
  have rhs: "?m (length (t @ 0 # junk) + (off + 8) + i) = entry_name b off ! i" if "i < ?n" for i
    using that assms(4) by (simp add: block_mem_def entry_name_def nth_append ac_simps)
  have nz: "entry_name b off ! i \<noteq> 0" if "i < ?n" for i using that len assms(5) by (metis nth_mem)
  have lhs: "?m i = (t @ 0 # junk) ! i" if "i \<le> length t" for i using that by (simp add: block_mem_def nth_append)
  have "unat (of_nat ?n - 1 :: u64) = ?n - 1"
    using assms(2,3) by (simp add: unat_minus_one unat_of_nat word_unat_eq_iff)
  then have "name_matches (t @ 0 # junk) b off \<longleftrightarrow> (\<forall>i\<le>?n - 1. ?m (0 + i) = ?m (length (t @ 0 # junk) + (off + 8) + i))"
    unfolding name_matches_def strncmp_def using strncmp_loop_zero[of "?n - 1" ?m] rhs nz assms(2) by simp
  also have "\<dots> \<longleftrightarrow> (\<forall>i<?n. ?m i = entry_name b off ! i)"
    using rhs assms(2) by (metis Suc_pred' add_0 less_Suc_eq_le)
  also have "\<dots> \<longleftrightarrow> prefix (entry_name b off) t"
  proof
    assume eq: "\<forall>i<?n. ?m i = entry_name b off ! i"
    have "?n \<le> length t"
    proof (rule ccontr)
      assume "\<not> ?n \<le> length t"
      then have "?m (length t) = entry_name b off ! length t" "entry_name b off ! length t \<noteq> 0" using eq nz by simp_all
      then show False using lhs[of "length t"] by simp
    qed
    then have "entry_name b off = take ?n t" using eq lhs len by (intro nth_equalityI) (auto simp: nth_append)
    then show "prefix (entry_name b off) t" by (simp add: take_is_prefix)
  next
    assume p: "prefix (entry_name b off) t"
    then have "entry_name b off = take ?n t" "?n \<le> length t" using len by (metis prefix_def append_eq_conv_conj, metis prefix_length_le)
    then show "\<forall>i<?n. ?m i = entry_name b off ! i" using lhs by (auto simp: nth_append)
  qed
  finally show ?thesis .
qed

lemmas name_matches_prefix = name_matches_text[of _ _ _ "[]"]

text \<open>The same for a name that holds other bytes behind its NUL.\<close>

lemma Dir_search_text:
  assumes "dir_chain b 0 xs" "xs \<noteq> []" "length b < 2 ^ 64" "0 \<notin> set t"
    and "\<forall>x\<in>set xs. 0 < e_name_len b x \<and> 0 \<notin> set (entry_name b x)"
  shows "Dir_search (t @ 0 # junk) b 0 (length b) =
    (case find (\<lambda>x. prefix (entry_name b x) t) xs of Some x \<Rightarrow> Found x | None \<Rightarrow> Past_end)"
proof -
  obtain ys where xs: "xs = 0 # ys" using assms(1,2) by (cases xs) auto
  have r0: "e_rec_len b 0 \<le> length b" "0 < e_rec_len b 0"
    using assms(1) dir_chain_le[of b "e_rec_len b 0" ys] by (simp_all add: xs)
  have inside: "x + 8 + e_name_len b x \<le> length b" if "x \<in> set zs" "dir_chain b off zs" for x off zs
    using that by (induction zs arbitrary: off) (auto dest: dir_chain_le)
  have "e_name_len b x < 256" for x
  proof (cases "drop (x + 6) b")
    case (Cons c cs)
    then show ?thesis using unsigned_less[of c, where 'a = nat] by (simp add: e_name_len_def field_def)
  qed (simp add: e_name_len_def field_def)
  then have "name_matches (t @ 0 # junk) b x = prefix (entry_name b x) t" if "x \<in> set xs" for x
    using name_matches_text[OF assms(4)] assms(5) inside[OF that assms(1)] that by (simp add: add.assoc)
  then have "find (name_matches (t @ 0 # junk) b) xs = find (\<lambda>x. prefix (entry_name b x) t) xs"
    by (intro find_cong) auto
  then show ?thesis
    using Dir_search_chain[of b 0 ys "e_rec_len b 0" "t @ 0 # junk"] assms(1,3) r0 by (simp add: xs)
qed

text \<open>
  C32: In a well-formed directory block the search finds the first entry whose name is a prefix of the name
  looked for, and when there is none it runs past the end of the block: it never finds out that a name is
  absent, and never reaches a second block.
\<close>
theorem Dir_search_first_prefix:
  assumes "dir_chain b 0 xs" "xs \<noteq> []" "length b < 2 ^ 64" "0 \<notin> set t"
    and "\<forall>x\<in>set xs. 0 < e_name_len b x \<and> 0 \<notin> set (entry_name b x)"
  shows "Dir_search (t @ [0]) b 0 (length b) =
    (case find (\<lambda>x. prefix (entry_name b x) t) xs of Some x \<Rightarrow> Found x | None \<Rightarrow> Past_end)"
  using Dir_search_text[OF assms, of "[]"] by simp

section \<open>A new entry\<close>

text \<open>The fields of a block in which other bytes were overwritten.\<close>

lemma field_patch_other:
  assumes "off + length new \<le> length b" "k + n \<le> off \<or> off + length new \<le> k" "k + n \<le> length b"
  shows "field k n (patch off new b) = field k n b"
  using patch_outside[OF assms] by (simp add: field_def)

lemma field_patch_inside:
  assumes "off + length new \<le> length b" "k + n \<le> length new"
  shows "field (off + k) n (patch off new b) = field k n new"
  using assms by (simp add: field_def patch_def)

lemma drop_patch:
  "off \<le> length b \<Longrightarrow> k \<le> length new \<Longrightarrow> drop (off + k) (patch off new b) = drop k new @ drop (off + length new) b"
  by (simp add: patch_def)

lemma field_le_bytes: "v < 256 ^ n \<Longrightarrow> field 0 n (le_bytes n v) = v"
  by (simp add: field_def)

text \<open>Where \<open>Find_room\<close> stops: at the first entry that is followed by enough room.\<close>

definition has_room :: "nat \<Rightarrow> u8 list \<Rightarrow> nat \<Rightarrow> bool" where
  "has_room n b off \<longleftrightarrow>
     n < (if entry_size (e_name_len b off) \<le> e_rec_len b off then e_rec_len b off - entry_size (e_name_len b off)
          else e_rec_len b off)"

lemma entry_size_ge: "8 + n \<le> entry_size n" "entry_size n \<le> n + 11"
  by (simp_all add: entry_size_def)

lemma Find_room_step:
  assumes "off + 8 \<le> length b" "\<not> has_room n b off"
  shows "Find_room n b off = Find_room n b (off + e_rec_len b off)"
  using assms by (subst Find_room.simps) (auto simp: has_room_def Let_def)

lemma Find_room_found:
  assumes "off + 8 \<le> length b" "has_room n b off" "entry_size (e_name_len b off) \<le> e_rec_len b off"
    "off + entry_size (e_name_len b off) + 8 \<le> length b"
  shows "Find_room n b off = Some (Ret (Some (off + entry_size (e_name_len b off)),
    patch (off + 4) (le_bytes 2 (entry_size (e_name_len b off)))
      (patch (off + entry_size (e_name_len b off) + 4) (le_bytes 2 (e_rec_len b off - entry_size (e_name_len b off))) b)))"
  using assms by (subst Find_room.simps) (auto simp: has_room_def Let_def)

lemma Find_room_chain:
  assumes "dir_chain b off (xs @ [l])" "\<forall>x\<in>set xs. \<not> has_room n b x"
  shows "Find_room n b off = Find_room n b l"
  using assms
proof (induction xs arbitrary: off)
  case (Cons x xs)
  then have "off + 8 \<le> length b" using dir_chain_le[of b "off + e_rec_len b off" "xs @ [l]"] by simp
  then show ?case using Cons Find_room_step[of off b n] by auto
qed simp

text \<open>Entries from an offset up to another one.\<close>

fun dir_path :: "u8 list \<Rightarrow> nat \<Rightarrow> nat list \<Rightarrow> nat \<Rightarrow> bool" where
  "dir_path b off [] e \<longleftrightarrow> off = e"
| "dir_path b off (x # xs) e \<longleftrightarrow>
     x = off \<and> 8 + e_name_len b off \<le> e_rec_len b off \<and> dir_path b (off + e_rec_len b off) xs e"

lemma dir_path_append: "dir_path b off (xs @ ys) e \<longleftrightarrow> (\<exists>m. dir_path b off xs m \<and> dir_path b m ys e)"
  by (induction xs arbitrary: off) auto

lemma dir_chain_path: "dir_chain b off xs = dir_path b off xs (length b)"
  by (induction xs arbitrary: off) auto

lemma dir_path_le: "dir_path b off xs e \<Longrightarrow> off \<le> e"
  by (induction xs arbitrary: off) fastforce+

lemma dir_path_mem:
  assumes "dir_path b off xs e" "x \<in> set xs"
  shows "off \<le> x" "8 + e_name_len b x \<le> e_rec_len b x" "x + e_rec_len b x \<le> e"
  using assms by (induction xs arbitrary: off) (fastforce dest: dir_path_le)+

lemma dir_path_cong:
  assumes "dir_path b off xs e" "\<And>x. x \<in> set xs \<Longrightarrow> e_rec_len b' x = e_rec_len b x \<and> e_name_len b' x = e_name_len b x"
  shows "dir_path b' off xs e"
  using assms by (induction xs arbitrary: off) auto

lemma Dir_search_path:
  assumes "dir_path b off (off # ys) e" "\<forall>y\<in>set (off # ys). \<not> name_matches name b y"
    and "e + 8 + e_name_len b e \<le> length b" "e_rec_len b e = length b" "name_matches name b e"
    and "length b < 2 ^ 64" "0 < r0" "r0 < e" "r0 \<le> off + e_rec_len b off"
  shows "Dir_search name b off (r0 + (length b - (off + e_rec_len b off))) = Found e"
  using assms(1,2,9)
proof (induction ys arbitrary: off)
  case Nil
  then have e: "off + e_rec_len b off = e" by simp
  have ne: "b \<noteq> []" using assms(3) by auto
  have "(r0 + (length b - e) + 2 ^ 64 - length b) mod 2 ^ 64 = 2 ^ 64 - (e - r0)"
    using assms(3,6,7,8) by simp
  then have "Dir_search name b e ((r0 + (length b - e) + 2 ^ 64 - e_rec_len b e) mod 2 ^ 64) = Found e"
    using assms(3-8) ne by (subst Dir_search.simps) simp
  then show ?case using Nil e assms(3,7) dir_path_le[of b off "[off]" e] by (subst Dir_search.simps) (simp add: Let_def)
next
  case (Cons y ys)
  let ?next = "off + e_rec_len b off"
  have y: "y = ?next" "dir_path b ?next (?next # ys) e" "8 + e_name_len b off \<le> e_rec_len b off" using Cons.prems(1) by simp_all
  then have le: "?next + e_rec_len b ?next \<le> e" "8 \<le> e_rec_len b ?next" using dir_path_le[of b _ ys e] by simp_all
  have "(r0 + (length b - ?next) + 2 ^ 64 - e_rec_len b ?next) mod 2 ^ 64 =
      (r0 + (length b - (?next + e_rec_len b ?next)) + 2 ^ 64) mod 2 ^ 64"
    using le assms(3) by (intro arg_cong[where f = "\<lambda>n. n mod 2 ^ 64"]) simp
  also have "\<dots> = r0 + (length b - (?next + e_rec_len b ?next))"
  proof -
    have "r0 + (length b - (?next + e_rec_len b ?next)) < 2 ^ 64" using assms(3,6) Cons.prems(3) le(1) by simp
    then show ?thesis by (simp only: mod_add_self2 mod_less)
  qed
  finally have es: "(r0 + (length b - ?next) + 2 ^ 64 - e_rec_len b ?next) mod 2 ^ 64 =
    r0 + (length b - (?next + e_rec_len b ?next))" .
  have "\<forall>z\<in>set (?next # ys). \<not> name_matches name b z" using Cons.prems(2) y(1) by simp
  note IH = Cons.IH[OF y(2) this trans_le_add1[OF Cons.prems(3)]]
  show ?case
    using IH y(1,3) le es assms(3,7) Cons.prems(2) by (subst Dir_search.simps) (simp add: Let_def)
qed

text \<open>The block after a new record was put behind the entry at \<open>l\<close>, the last one of the block.\<close>

definition with_entry :: "u8 list \<Rightarrow> nat \<Rightarrow> u32 \<Rightarrow> ds_string \<Rightarrow> u8 \<Rightarrow> u8 list" where
  "with_entry b l child name ftype =
     (let e = entry_size (e_name_len b l); rec = l + e
      in patch rec (dir_header child (of_nat (length b)) (of_nat (length name - 1)) ftype @ name)
           (patch (l + 4) (le_bytes 2 e) (patch (rec + 4) (le_bytes 2 (e_rec_len b l - e)) b)))"

definition room_at_end :: "u8 list \<Rightarrow> nat \<Rightarrow> ds_string \<Rightarrow> bool" where
  "room_at_end b l name \<longleftrightarrow>
     l + e_rec_len b l = length b \<and> entry_size (e_name_len b l) + length name + 8 < e_rec_len b l \<and>
     name \<noteq> [] \<and> length name \<le> 256 \<and> length b < 2 ^ 16"

lemma e_name_len_less: "e_name_len b x < 256"
proof (cases "drop (x + 6) b")
  case (Cons c cs)
  then show ?thesis using unsigned_less[of c, where 'a = nat] by (simp add: e_name_len_def field_def)
qed (simp add: e_name_len_def field_def)


lemma with_entry_room:
  assumes room: "room_at_end b l name" and e: "e = entry_size (e_name_len b l)" and r: "r = l + e"
  shows "r + 8 + length name < length b" "8 + e_name_len b l \<le> e"
  using room entry_size_ge(1)[of "e_name_len b l"] by (simp_all add: room_at_end_def e r)

lemma length_with_entry:
  assumes room: "room_at_end b l name" and b': "b' = with_entry b l child name ftype"
    and e: "e = entry_size (e_name_len b l)" and r: "r = l + e"
  shows "length b' = length b"
proof -
  note with_entry_room = with_entry_room[OF room e r]
  let ?b1 = "patch (r + 4) (le_bytes 2 (e_rec_len b l - e)) b" let ?b2 = "patch (l + 4) (le_bytes 2 e) ?b1"
  have l1: "length ?b1 = length b" using with_entry_room by (simp add: length_patch)
  have l2: "length ?b2 = length b" using with_entry_room l1 r by (simp add: length_patch)
  show ?thesis
    unfolding b' with_entry_def Let_def e[symmetric] r[symmetric]
    using with_entry_room l2 by (subst length_patch) (simp_all add: dir_header_def)
qed

lemma with_entry_slice:
  assumes room: "room_at_end b l name" and b': "b' = with_entry b l child name ftype"
    and e: "e = entry_size (e_name_len b l)" and r: "r = l + e"
    and kn: "k + n \<le> l + 4 \<or> l + 6 \<le> k" "k + n \<le> r"
  shows "take n (drop k b') = take n (drop k b)"
proof -
  note with_entry_room = with_entry_room[OF room e r]
  let ?b1 = "patch (r + 4) (le_bytes 2 (e_rec_len b l - e)) b" let ?b2 = "patch (l + 4) (le_bytes 2 e) ?b1"
  have l1: "length ?b1 = length b" using with_entry_room by (simp add: length_patch)
  have l2: "length ?b2 = length b" using with_entry_room l1 r by (simp add: length_patch)
  have "take n (drop k b') = take n (drop k ?b2)"
    unfolding b' with_entry_def Let_def e[symmetric] r[symmetric]
    using kn with_entry_room l2 by (intro patch_outside) (simp_all add: dir_header_def)
  also have "\<dots> = take n (drop k ?b1)" using kn with_entry_room l1 r by (intro patch_outside) auto
  also have "\<dots> = take n (drop k b)" using kn with_entry_room by (intro patch_outside) auto
  finally show ?thesis .
qed

lemma with_entry_old:
  assumes room: "room_at_end b l name" and b': "b' = with_entry b l child name ftype"
    and e: "e = entry_size (e_name_len b l)" and r: "r = l + e"
    and kn: "x + e_rec_len b x \<le> l" "8 + e_name_len b x \<le> e_rec_len b x"
  shows "e_rec_len b' x = e_rec_len b x" "e_name_len b' x = e_name_len b x" "entry_name b' x = entry_name b x"
proof -
  note with_entry_slice = with_entry_slice[OF room b' e r]
  show "e_rec_len b' x = e_rec_len b x" using with_entry_slice[of "x + 4" 2] kn r by (simp add: e_rec_len_def field_def)
  show nl: "e_name_len b' x = e_name_len b x" using with_entry_slice[of "x + 6" 1] kn r by (simp add: e_name_len_def field_def)
  show "entry_name b' x = entry_name b x"
    using with_entry_slice[of "x + 8" "e_name_len b x"] kn r by (simp add: entry_name_def nl)
qed

lemma with_entry_last:
  assumes room: "room_at_end b l name" and b': "b' = with_entry b l child name ftype"
    and e: "e = entry_size (e_name_len b l)" and r: "r = l + e"
  shows "e_rec_len b' l = e" "e_name_len b' l = e_name_len b l" "entry_name b' l = entry_name b l"
proof -
  note with_entry_room = with_entry_room[OF room e r]
  note with_entry_slice = with_entry_slice[OF room b' e r]
  let ?b1 = "patch (r + 4) (le_bytes 2 (e_rec_len b l - e)) b" let ?b2 = "patch (l + 4) (le_bytes 2 e) ?b1"
  have l1: "length ?b1 = length b" using with_entry_room by (simp add: length_patch)
  have l2: "length ?b2 = length b" using with_entry_room l1 r by (simp add: length_patch)
  show nl: "e_name_len b' l = e_name_len b l"
    using with_entry_slice[of "l + 6" 1] with_entry_room r by (simp add: e_name_len_def field_def)
  show "entry_name b' l = entry_name b l"
    using with_entry_slice[of "l + 8" "e_name_len b l"] with_entry_room r by (simp add: entry_name_def nl)
  have "e_rec_len b' l = field (l + 4) 2 ?b2"
    unfolding e_rec_len_def b' with_entry_def Let_def e[symmetric] r[symmetric]
    using with_entry_room l2 r by (intro field_patch_other) (simp_all add: dir_header_def)
  also have "\<dots> = field 0 2 (le_bytes 2 e)"
    using field_patch_inside[of "l + 4" "le_bytes 2 e" ?b1 0 2] with_entry_room l1 r by simp
  also have "\<dots> = e" using entry_size_ge(2)[of "e_name_len b l"] e_name_len_less[of b l] by (simp add: field_def e)
  finally show "e_rec_len b' l = e" .
qed

lemma with_entry_new:
  assumes room: "room_at_end b l name" and b': "b' = with_entry b l child name ftype"
    and e: "e = entry_size (e_name_len b l)" and r: "r = l + e"
  shows "e_inode b' r = child" "e_rec_len b' r = length b" "e_name_len b' r = length name - 1"
    "entry_name b' r = take (length name - 1) name"
proof -
  note with_entry_room = with_entry_room[OF room e r]
  let ?new = "dir_header child (of_nat (length b)) (of_nat (length name - 1)) ftype @ name"
  let ?b2 = "patch (l + 4) (le_bytes 2 e) (patch (r + 4) (le_bytes 2 (e_rec_len b l - e)) b)"
  have l2: "length ?b2 = length b" using with_entry_room r by (simp add: length_patch)
  have len: "length name - 1 < 256" "length b < 2 ^ 16" using room by (auto simp: room_at_end_def)
  have at: "field (r + k) n b' = field k n ?new" if "k + n \<le> 8" for k n
    unfolding b' with_entry_def Let_def e[symmetric] r[symmetric]
    using that with_entry_room l2 by (intro field_patch_inside) (simp_all add: dir_header_def)
  show "e_inode b' r = child" using at[of 0 4] by (simp add: e_inode_def field_def dir_header_def)
  show "e_rec_len b' r = length b"
    using at[of 4 2] len by (simp add: e_rec_len_def field_def dir_header_def unat_of_nat)
  show nl: "e_name_len b' r = length name - 1"
    using at[of 6 1] len by (simp add: e_name_len_def field_def dir_header_def unat_of_nat)
  have "drop (r + 8) b' = name @ drop (r + length ?new) ?b2"
  proof -
    have "8 \<le> length ?new" "drop 8 ?new = name" by (simp_all add: dir_header_def)
    then show ?thesis
      unfolding b' with_entry_def Let_def e[symmetric] r[symmetric] using with_entry_room l2 by (simp add: drop_patch)
  qed
  then show "entry_name b' r = take (length name - 1) name" by (simp add: entry_name_def nl)
qed

text \<open>
  A block with room behind its last entry \<open>l\<close>, not before, in which no entry shadows the name \<open>t\<close>.
\<close>

definition room_for :: "u8 list \<Rightarrow> nat list \<Rightarrow> nat \<Rightarrow> u8 list \<Rightarrow> bool" where
  "room_for b xs l t \<longleftrightarrow>
     dir_path b 0 xs l \<and> xs \<noteq> [] \<and> room_at_end b l (t @ [0]) \<and> t \<noteq> [] \<and> 0 \<notin> set t \<and>
     (\<forall>x\<in>set xs. \<not> has_room (length t + 9) b x) \<and>
     (\<forall>x\<in>set (xs @ [l]). 0 < e_name_len b x \<and> 0 \<notin> set (entry_name b x) \<and> \<not> prefix (entry_name b x) t)"

lemma room_for_search:
  fixes child :: u32 and ftype :: u8
  assumes "room_for b xs l t"
  defines "b' \<equiv> with_entry b l child (t @ [0]) ftype" and "r \<equiv> l + entry_size (e_name_len b l)"
  shows "Dir_search (t @ [0]) b' 0 (length b) = Found r" "dir_path b' 0 (xs @ [l]) r"
proof -
  let ?e = "entry_size (e_name_len b l)"
  have room: "room_at_end b l (t @ [0])" and path: "dir_path b 0 xs l" and t: "0 \<notin> set t" "t \<noteq> []"
    using assms(1) by (simp_all add: room_for_def)
  have b': "b' = with_entry b l child (t @ [0]) ftype" and r: "r = l + ?e" by (simp_all add: b'_def r_def)
  note rm = with_entry_room[OF room refl r]
  note last = with_entry_last[OF room b' refl r] and new = with_entry_new[OF room b' refl r]
  note old = with_entry_old[OF room b' refl r dir_path_mem(3,2)[OF path]]
  note len = length_with_entry[OF room b' refl r]
  have "dir_path b' 0 xs l" using dir_path_cong[OF path] old by blast
  moreover have "dir_path b' l [l] r" using last rm(2) by (simp add: r)
  ultimately show path': "dir_path b' 0 (xs @ [l]) r" by (auto simp: dir_path_append)
  obtain ys where xs: "xs = 0 # ys" using assms(1) by (cases xs) (auto simp: room_for_def)
  have "\<not> name_matches (t @ [0]) b' x" if x: "x \<in> set (xs @ [l])" for x
  proof -
    have nl: "e_name_len b' x = e_name_len b x" "entry_name b' x = entry_name b x" using x old last by auto
    have pos: "0 < e_name_len b x" "0 \<notin> set (entry_name b x)" "\<not> prefix (entry_name b x) t"
      using assms(1) x by (auto simp: room_for_def)
    have "x + e_rec_len b' x \<le> r" "8 + e_name_len b' x \<le> e_rec_len b' x" using dir_path_mem[OF path' x] by simp_all
    then have inside: "x + 8 + e_name_len b' x \<le> length b'" using rm(1) len by simp
    show ?thesis using name_matches_prefix[OF t(1) _ e_name_len_less inside] pos by (simp add: nl)
  qed
  then have none: "\<forall>y\<in>set (0 # (ys @ [l])). \<not> name_matches (t @ [0]) b' y" by (auto simp: xs)
  have inside: "r + 8 + e_name_len b' r \<le> length b'" using rm(1) len new(3) by simp
  have "name_matches (t @ [0]) b' r"
    using name_matches_prefix[OF t(1) _ e_name_len_less inside] new(3,4) t by simp
  moreover have r0: "e_rec_len b 0 \<le> l" "8 \<le> e_rec_len b 0" using dir_path_mem[OF path, of 0] by (simp_all add: xs)
  moreover have "e_rec_len b' 0 = e_rec_len b 0" using old(1)[of 0] by (simp add: xs)
  moreover have "l < r" using rm(2) by (simp add: r)
  moreover have "length b' < 2 ^ 64" using room len by (simp add: room_at_end_def)
  moreover have "dir_path b' 0 (0 # (ys @ [l])) r" using path' by (simp add: xs)
  ultimately have "Dir_search (t @ [0]) b' 0 (e_rec_len b 0 + (length b' - (0 + e_rec_len b' 0))) = Found r"
    using none inside new(2) len by (intro Dir_search_path) auto
  then show "Dir_search (t @ [0]) b' 0 (length b) = Found r"
    using \<open>e_rec_len b' 0 = e_rec_len b 0\<close> r0 \<open>l < r\<close> rm(1) len by simp
qed

lemma room_for_Find_room:
  assumes "room_for b xs l t"
  shows "\<exists>c. Find_room (length t + 9) b 0 = Some (Ret (Some (l + entry_size (e_name_len b l)), c)) \<and>
    with_entry b l child (t @ [0]) ftype =
      patch (l + entry_size (e_name_len b l)) (dir_header child (of_nat (length b)) (of_nat (length t)) ftype @ t @ [0]) c \<and>
    length c = length b \<and> l + entry_size (e_name_len b l) + 9 + length t < length b"
proof -
  have room: "room_at_end b l (t @ [0])" using assms by (simp add: room_for_def)
  note rm = with_entry_room[OF room refl refl]
  have le: "entry_size (e_name_len b l) \<le> e_rec_len b l" "has_room (length t + 9) b l" "l + e_rec_len b l = length b"
    using room by (auto simp: room_at_end_def has_room_def less_diff_conv)
  have "dir_path b l [l] (length b)" using le(1,3) entry_size_ge(1)[of "e_name_len b l"] by simp
  then have "dir_chain b 0 (xs @ [l])" using assms by (auto simp: room_for_def dir_chain_path dir_path_append)
  then have "Find_room (length t + 9) b 0 = Find_room (length t + 9) b l"
    using assms by (intro Find_room_chain) (auto simp: room_for_def)
  also have "\<dots> = Some (Ret (Some (l + entry_size (e_name_len b l)),
      patch (l + 4) (le_bytes 2 (entry_size (e_name_len b l)))
        (patch (l + entry_size (e_name_len b l) + 4) (le_bytes 2 (e_rec_len b l - entry_size (e_name_len b l))) b)))"
    using le rm by (intro Find_room_found) simp_all
  finally show ?thesis using rm by (simp add: with_entry_def Let_def length_patch)
qed

text \<open>A directory of one block, and what a new entry does to it.\<close>

definition small_dir :: "ext2 \<Rightarrow> vnode \<Rightarrow> bool" where
  "small_dir s v \<longleftrightarrow>
     GetExt2FileType (inode_of v) = EXT2_S_IFDIR \<and> i_size (inode_of v) = block_size s \<and> i_blocks (inode_of v) = 1 \<and>
     wf_inode (inode_of v) \<and> mapped (inode_of v) s 0 1 \<and> unat (block_size s) < 2 ^ 16 \<and>
     inode_slot_ok s (ino v) \<and> in_range s (inode_tab_block s (ino v)) \<and>
     inode_tab_block s (ino v) \<noteq> i_block (inode_of v) ! 0"

definition grown :: "ext2 \<Rightarrow> vnode \<Rightarrow> vnode" where
  "grown s v = v\<lparr>inode_of := (inode_of v)\<lparr>i_size := i_size (inode_of v) + block_size s\<rparr>\<rparr>"

lemma MakeDirEntry_result:
  assumes "map_ok s" "disk_ok s" "small_dir s v" "room_for (data_block s (i_block (inode_of v) ! 0)) xs l t"
  obtains s' where "MakeDirEntry (t @ [0]) child type v s = Some (Ret (True, grown s v, s'))" "mount_ok s'"
    "s' = s\<lparr>disk := disk s'\<rparr>" "ReadINode (ino v) s' = Some (inode_of (grown s v))"
    "data_block s' (i_block (inode_of v) ! 0) =
       with_entry (data_block s (i_block (inode_of v) ! 0)) l child (t @ [0]) (FileTypeToExt2FileType type)"
proof -
  let ?nd = "inode_of v" and ?bs = "unat (block_size s)" let ?p = "i_block (inode_of v) ! 0" let ?b = "data_block s ?p"
  let ?new = "with_entry ?b l child (t @ [0]) (FileTypeToExt2FileType type)"
  have m: "mount_ok s" using assms(1) by (simp add: map_ok_def)
  note bs = mount_block_size(2)[OF m]
  have d: "mapped ?nd s 0 1" "i_size ?nd = block_size s" using assms(3) by (simp_all add: small_dir_def)
  have p: "in_range s ?p" using d(1) by (simp add: mapped_def file_block_def)
  obtain q where "GetOrCreateBlock 0 True ?nd s = Some (Ret (Some q, ?nd, s))" "file_block ?nd s 0 = Some q"
    using GetOrCreateBlock_one[OF assms(1) d(1)] by blast
  then have blk: "GetOrCreateBlock 0 True ?nd s = Some (Ret (Some ?p, ?nd, s))" by (simp add: file_block_def)
  have len: "length ?b = ?bs" by (rule length_data_block[OF m])
  obtain c where c: "Find_room (length t + 9) ?b 0 = Some (Ret (Some (l + entry_size (e_name_len ?b l)), c))"
    "?new = patch (l + entry_size (e_name_len ?b l)) (dir_header child (of_nat ?bs) (of_nat (length t)) (FileTypeToExt2FileType type) @ t @ [0]) c"
    "length c = ?bs" "l + entry_size (e_name_len ?b l) + 9 + length t < ?bs"
    using room_for_Find_room[OF assms(4), of child "FileTypeToExt2FileType type"] len by auto
  have lnew: "length ?new = ?bs" using c(3,4) by (simp add: c(2) dir_header_def length_patch)
  define s1 where "s1 = snd (WriteBlock ?new ?p s)"
  have w: "WriteBlock ?new ?p s = (True, s1)"
    using p assms(2) by (simp add: s1_def WriteBlock_def disk_Write_ok in_range_def)
  note wr = data_WriteBlock[OF m p lnew w]
  have dw: "disk_Write (block_lba s ?p) (unat (sectors_per_block s)) ?new s = (True, s1)"
    using w p by (simp add: WriteBlock_def in_range_def)
  have m1: "mount_ok s1"
    by (rule mount_ok_write[OF m dw]) (use lnew mount_block_size(1)[OF m] unsigned_less[of "sectors_per_block s", where 'a = nat] in simp_all)
  have geo: "disk_ok s1 = disk_ok s" "inode_slot_ok s1 i = inode_slot_ok s i" "in_range s1 i = in_range s i"
    "inode_tab_block s1 i = inode_tab_block s i" "block_size s1 = block_size s" for i
    by (subst wr(3), simp add: inode_slot_ok_def valid_block_def)+
  have "wf_inode (inode_of (grown s v))" using assms(3) by (simp add: small_dir_def grown_def wf_inode_def)
  moreover have "disk_ok s1" "inode_slot_ok s1 (ino v)" "in_range s1 (inode_tab_block s1 (ino v))" "in_range s1 ?p"
    "?p \<noteq> inode_tab_block s1 (ino v)"
    using assms(2,3) p by (auto simp: small_dir_def geo)
  ultimately obtain s2 where s2: "WriteINode (ino v) (inode_of (grown s v)) s1 = (True, s2)" "mount_ok s2" "s2 = s1\<lparr>disk := disk s2\<rparr>"
    "ReadINode (ino v) s2 = Some (inode_of (grown s v))" "data_block s2 ?p = data_block s1 ?p"
    using WriteINode_ok[OF m1] by metis
  have frame: "s2 = s\<lparr>disk := disk s2\<rparr>" by (subst s2(3), subst wr(3), simp)
  have last: "(?bs div ?bs + 2 ^ 64 - 1) mod 2 ^ 64 = 0" using bs by simp
  have blk0: "GetOrCreateBlock ((unat (i_size ?nd) div ?bs + 2 ^ 64 - 1) mod 2 ^ 64) True ?nd s = Some (Ret (Some ?p, ?nd, s))"
    unfolding d(2) last by (rule blk)
  have read: "ReadBlock ?p s = Some ?b" using p assms(2) by (simp add: ReadBlock_ok in_range_def)
  have len_t: "length (t @ [0]) + 8 = length t + 9" "length (t @ [0]) - 1 = length t" by simp_all
  have wb: "WriteBack (v\<lparr>inode_of := ?nd\<lparr>i_size := i_size ?nd + of_nat ?bs\<rparr>\<rparr>) s1 = (True, s2)"
    using s2(1) by (simp add: WriteBack_def grown_def)
  have "MakeDirEntry (t @ [0]) child type v s = Some (Ret (True, grown s v, s2))"
    unfolding MakeDirEntry_def Let_def blk0 run_bind_simps prod.case option.case read len_t c(1)
    using c(2-4) w wb by (simp add: grown_def)
  then show thesis using that[OF _ s2(2) frame s2(4)] s2(5) wr(1) by simp
qed

text \<open>
  C33: In a directory of one block (\<open>small_dir\<close>) with room behind its last entry, and for a name that has no name of an
  existing entry as a prefix (\<open>room_for\<close>; so not for a name that begins with a dot, as "." is there), the name that
  \<open>MakeDirEntry\<close> has put behind the last entry is found by the next \<open>GetDirEntry\<close>, with the inode number it was made
  with, and the inode of the directory is on the disk as it is in memory.
\<close>
theorem MakeDirEntry_found:
  assumes "map_ok s" "disk_ok s" "small_dir s v" "room_for (data_block s (i_block (inode_of v) ! 0)) xs l t"
  shows "\<exists>v' s' r b. MakeDirEntry (t @ [0]) child type v s = Some (Ret (True, v', s')) \<and>
    GetDirEntry (t @ [0]) (inode_of v') s' = Some (Ret (Some (i_block (inode_of v) ! 0, r, b), inode_of v', s')) \<and>
    e_inode b r = child \<and> ReadINode (ino v) s' = Some (inode_of v')"
proof -
  let ?p = "i_block (inode_of v) ! 0" let ?b = "data_block s ?p"
  let ?new = "with_entry ?b l child (t @ [0]) (FileTypeToExt2FileType type)" and ?r = "l + entry_size (e_name_len ?b l)"
  have m: "mount_ok s" using assms(1) by (simp add: map_ok_def)
  obtain s' where s': "MakeDirEntry (t @ [0]) child type v s = Some (Ret (True, grown s v, s'))" "mount_ok s'"
    "s' = s\<lparr>disk := disk s'\<rparr>" "ReadINode (ino v) s' = Some (inode_of (grown s v))" "data_block s' ?p = ?new"
    by (rule MakeDirEntry_result[OF assms, of child type]) (rule that, assumption+)
  let ?nd = "inode_of (grown s v)"
  have same: "ptrs_per_block s' = ptrs_per_block s" "disk_ok s' = disk_ok s" "block_size s' = block_size s"
    by (subst s'(3), simp)+
  then have geo: "map_ok s'" "disk_ok s'" "block_size s' = block_size s"
    using s'(2) assms(1,2) by (simp_all add: map_ok_def)
  have d: "mapped (inode_of v) s 0 1" "i_size (inode_of v) = block_size s" "unat (block_size s) < 2 ^ 16"
    "i_blocks ?nd = 1" "GetExt2FileType ?nd = EXT2_S_IFDIR"
    using assms(3) by (simp_all add: small_dir_def grown_def GetExt2FileType_def)
  have p: "in_range s ?p" using d(1) by (simp add: mapped_def file_block_def)
  have run: "file_run ?nd s' 0 [?p]" "run_ok s' 0 (length [?p])"
    using d(1) p by (subst s'(3), simp add: file_run_def file_block_def grown_def in_range_def mapped_def run_ok_def)+
  have "GetOrCreateExtents 0 1 False False ?nd s' = Some (Ret (Some [(?p, 1)], ?nd, s'))"
    using GetOrCreateExtents_run[OF geo(1) run(2,1), of False] by (simp add: AddToExtentList_def)
  moreover have "expand [(?p, 1)] = [?p]"
    using extent_blocks_1[OF in_range_not_max[OF m p]] by (simp add: expand_def)
  moreover have "unat (i_size ?nd) = 2 * unat (block_size s)"
  proof -
    have "unat (block_size s + block_size s) = unat (block_size s) + unat (block_size s)"
      using d(3) by (subst unat_add_lem[THEN iffD1]) simp_all
    then show ?thesis using d(2) by (simp add: grown_def)
  qed
  moreover have "ReadBlock ?p s' = Some ?new" using ReadBlock_ok[OF geo(2)] p s'(5) by (simp add: in_range_def)
  moreover have "Dir_search (t @ [0]) ?new 0 (unat (block_size s)) = Found ?r"
    using room_for_search(1)[OF assms(4)] length_data_block[OF m] by simp
  ultimately have "GetDirEntry (t @ [0]) ?nd s' = Some (Ret (Some (?p, ?r, ?new), ?nd, s'))"
    using d(4,5) by (simp add: GetDirEntry_def geo(3))
  moreover have "e_inode ?new ?r = child"
    using with_entry_new(1)[OF _ refl refl refl] assms(4) by (simp add: room_for_def)
  ultimately show ?thesis using s'(1,4) by blast
qed

section \<open>Listing a directory after that\<close>

lemma ReadDir_block_step:
  assumes "ReadDir_block fresh b off n found s = Some (Ret (Some r, s'))" "off + 8 \<le> length b" "n \<noteq> 0"
  shows "\<exists>found1 s1. ReadDir_block fresh b (off + e_rec_len b off) ((n + 2 ^ 64 - e_rec_len b off) mod 2 ^ 64) found1 s1 =
    Some (Ret (Some r, s'))"
proof -
  have step: "run_bind (Some (Add_vnode fresh b off found s)) (\<lambda>(r, s).
      case r of
        None \<Rightarrow> Some (Ret (None, s))
      | Some found \<Rightarrow>
          ReadDir_block fresh b (off + e_rec_len b off) ((n + 2 ^ 64 - e_rec_len b off) mod 2 ^ 64) found s) =
    Some (Ret (Some r, s'))"
    using assms(1) unfolding ReadDir_block.simps[of fresh b off] using assms(2,3) by simp
  then show ?thesis unfolding run_bind_Ret by (auto split: option.splits)
qed

lemma ReadDir_block_path:
  assumes "ReadDir_block fresh b off (2 * length b - off) found s = Some (Ret (Some (off', n', found'), s'))"
    and "dir_path b off xs e" "e_rec_len b e = length b" "e + 8 \<le> length b" "length b < 2 ^ 16"
  shows "off' = e + length b \<and> n' = length b - e"
  using assms(1,2)
proof (induction xs arbitrary: off found s)
  case Nil
  have mod: "(2 * length b - e + 2 ^ 64 - length b) mod 2 ^ 64 = length b - e"
  proof -
    have "2 * length b - e + 2 ^ 64 - length b = (length b - e) + 2 ^ 64" "length b - e < 2 ^ 64" using assms(4,5) by simp_all
    then show ?thesis by (simp only: mod_add_self2 mod_less)
  qed
  have off: "off = e" using Nil.prems(2) by simp
  have "2 * length b - e \<noteq> 0" using assms(4) by simp
  then obtain found1 s1 where "ReadDir_block fresh b (e + length b) (length b - e) found1 s1 = Some (Ret (Some (off', n', found'), s'))"
    using ReadDir_block_step[OF Nil.prems(1)[unfolded off] assms(4)] unfolding assms(3) mod by blast
  then show ?case by (subst (asm) ReadDir_block.simps) simp
next
  case (Cons x xs)
  let ?next = "off + e_rec_len b off"
  have x: "dir_path b ?next xs e" "8 + e_name_len b off \<le> e_rec_len b off" using Cons.prems(2) by simp_all
  then have le: "?next \<le> e" by (simp add: dir_path_le)
  have mod: "(2 * length b - off + 2 ^ 64 - e_rec_len b off) mod 2 ^ 64 = 2 * length b - ?next"
  proof -
    have "2 * length b - off + 2 ^ 64 - e_rec_len b off = (2 * length b - ?next) + 2 ^ 64" using le assms(4) by simp
    moreover have "2 * length b - ?next < 2 ^ 64" using assms(5) by simp
    ultimately show ?thesis by (simp only: mod_add_self2 mod_less)
  qed
  have "off + 8 \<le> length b" "2 * length b - off \<noteq> 0" using le x(2) assms(4) by simp_all
  then obtain found1 s1 where "ReadDir_block fresh b ?next (2 * length b - ?next) found1 s1 = Some (Ret (Some (off', n', found'), s'))"
    using ReadDir_block_step[OF Cons.prems(1)] unfolding mod by blast
  then show ?case using Cons.IH x(1) by blast
qed

lemma GetOrCreateBlock_hole:
  assumes "n < 12" "i_block nd ! n = 0"
  shows "GetOrCreateBlock n False nd s = Some (Ret (Some 0, nd, s))"
proof -
  have "set_i_block n 0 nd = nd" using assms(2) set_i_block_same[of n nd] by simp
  then have "GetOrCreateExtents n 1 False False nd s = Some (Ret (Some [(0, 1)], nd, s))"
    using assms unfolding GetOrCreateExtents_def
    by (subst Extents_top.simps) (simp add: Ensure_ptr_def Extents_top_0 AddToExtentList_def)
  then show ?thesis by (simp add: GetOrCreateBlock_def)
qed

lemma ReadDir_blocks_hole:
  assumes "n < 12" "i_block nd ! n = 0" "rem_len \<noteq> 0"
  shows "\<exists>s'. ReadDir_blocks fresh n rem_len found nd s = Some (Ret (None, s'))"
  using assms by (subst ReadDir_blocks.simps) (simp add: GetOrCreateBlock_hole ReadBlock_def)

lemma ReadDir_blocks_Some:
  assumes "ReadDir_blocks fresh blk n found nd s = Some (Ret (Some names, s''))" "n \<noteq> 0"
    and "GetOrCreateBlock blk False nd s = Some (Ret (Some p, nd, s))" "ReadBlock p s = Some b"
  shows "\<exists>off' n' found' s1. ReadDir_block fresh b 0 n found s = Some (Ret (Some (off', n', found'), s1)) \<and>
    (if off' < length b \<and> e_inode b off' = 0 then Some (Ret (Some found', s1))
     else ReadDir_blocks fresh (blk + 1) n' found' nd s1) = Some (Ret (Some names, s''))"
proof -
  have "run_bind (ReadDir_block fresh b 0 n found s) (\<lambda>(r, s).
      case r of
        None \<Rightarrow> Some (Ret (None, s))
      | Some (block_off, rem_len, found) \<Rightarrow>
          if block_off < length b \<and> e_inode b block_off = 0 then Some (Ret (Some found, s))
          else ReadDir_blocks fresh (blk + 1) rem_len found nd s) = Some (Ret (Some names, s''))"
    using assms(1) unfolding ReadDir_blocks.simps[of fresh blk] using assms(2-4) by simp
  then obtain r s1 where r: "ReadDir_block fresh b 0 n found s = Some (Ret (r, s1))"
    "(case r of
        None \<Rightarrow> Some (Ret (None, s1))
      | Some (block_off, rem_len, found) \<Rightarrow>
          if block_off < length b \<and> e_inode b block_off = 0 then Some (Ret (Some found, s1))
          else ReadDir_blocks fresh (blk + 1) rem_len found nd s1) = Some (Ret (Some names, s''))"
    unfolding run_bind_Ret by auto
  then obtain off' n' found' where x: "r = Some (off', n', found')" by (cases r) auto
  show ?thesis
    using r unfolding x option.case prod.case by blast
qed

text \<open>
  A directory of one block can no longer be listed once a name has been added: the size grows by a block that
  does not exist, and \<open>ReadDir\<close> fails on it.
\<close>
theorem ReadDir_fails_after_entry:
  assumes "map_ok s" "disk_ok s" "small_dir s v" "room_for (data_block s (i_block (inode_of v) ! 0)) xs l t"
    and "i_block (inode_of v) ! 1 = 0"
  shows "\<exists>v' s'. MakeDirEntry (t @ [0]) child type v s = Some (Ret (True, v', s')) \<and>
    (\<forall>fresh names s''. ReadDir fresh v' s' \<noteq> Some (Ret (Some names, s'')))"
proof -
  let ?p = "i_block (inode_of v) ! 0" let ?b = "data_block s ?p" and ?bs = "unat (block_size s)"
  let ?new = "with_entry ?b l child (t @ [0]) (FileTypeToExt2FileType type)" and ?r = "l + entry_size (e_name_len ?b l)"
  let ?nd = "inode_of (grown s v)"
  have m: "mount_ok s" using assms(1) by (simp add: map_ok_def)
  obtain s' where s': "MakeDirEntry (t @ [0]) child type v s = Some (Ret (True, grown s v, s'))" "mount_ok s'"
    "s' = s\<lparr>disk := disk s'\<rparr>" "ReadINode (ino v) s' = Some ?nd" "data_block s' ?p = ?new"
    by (rule MakeDirEntry_result[OF assms(1-4), of child type]) (rule that, assumption+)
  have same: "ptrs_per_block s' = ptrs_per_block s" "disk_ok s' = disk_ok s" by (subst s'(3), simp)+
  then have geo: "map_ok s'" "disk_ok s'" using s'(2) assms(1,2) by (simp_all add: map_ok_def)
  have d: "mapped (inode_of v) s 0 1" "i_size (inode_of v) = block_size s" "?bs < 2 ^ 16"
    "GetExt2FileType ?nd = EXT2_S_IFDIR" "i_block ?nd = i_block (inode_of v)"
    using assms(3) by (simp_all add: small_dir_def grown_def GetExt2FileType_def)
  have p: "in_range s ?p" using d(1) by (simp add: mapped_def file_block_def)
  have "mapped ?nd s' 0 1"
    using d(1) direct_same(1)[OF s'(3), of 0 1 ?nd] by (simp add: mapped_def file_block_def d(5) run_ok_def)
  then obtain q where "GetOrCreateBlock 0 False ?nd s' = Some (Ret (Some q, ?nd, s'))" "file_block ?nd s' 0 = Some q"
    using GetOrCreateBlock_one[OF geo(1)] by blast
  then have blk: "GetOrCreateBlock 0 False ?nd s' = Some (Ret (Some ?p, ?nd, s'))" by (simp add: file_block_def d(5))
  have read: "ReadBlock ?p s' = Some ?new" using ReadBlock_ok[OF geo(2)] p s'(5) by (simp add: in_range_def)
  have room: "room_at_end ?b l (t @ [0])" using assms(4) by (simp add: room_for_def)
  have len: "length ?new = ?bs" using length_with_entry[OF room refl refl refl] length_data_block[OF m] by simp
  note path = room_for_search(2)[OF assms(4), of child "FileTypeToExt2FileType type"]
  have rec: "e_rec_len ?new ?r = length ?new" "?r + 8 \<le> length ?new"
    using with_entry_new(2)[OF room refl refl refl] with_entry_room(1)[OF room refl refl] len length_data_block[OF m] by simp_all
  have size: "unat (i_size ?nd) = 2 * length ?new"
  proof -
    have "unat (block_size s + block_size s) = ?bs + ?bs" using d(3) by (subst unat_add_lem[THEN iffD1]) simp_all
    then show ?thesis using d(2) len by (simp add: grown_def)
  qed
  have "ReadDir fresh (grown s v) s' \<noteq> Some (Ret (Some names, s''))" for fresh names s''
  proof
    assume "ReadDir fresh (grown s v) s' = Some (Ret (Some names, s''))"
    then have "ReadDir_blocks fresh 0 (2 * length ?new) [] ?nd s' = Some (Ret (Some names, s''))"
      using d(4) by (simp add: ReadDir_def size)
    moreover have "2 * length ?new \<noteq> 0" using rec(2) by auto
    ultimately obtain off' n' found' s1 where
      blk1: "ReadDir_block fresh ?new 0 (2 * length ?new) [] s' = Some (Ret (Some (off', n', found'), s1))" and
      rest: "(if off' < length ?new \<and> e_inode ?new off' = 0 then Some (Ret (Some found', s1))
        else ReadDir_blocks fresh (0 + 1) n' found' ?nd s1) = Some (Ret (Some names, s''))"
      using ReadDir_blocks_Some[OF _ _ blk read] by blast
    have "off' = ?r + length ?new \<and> n' = length ?new - ?r"
      using ReadDir_block_path[OF _ path rec(1,2), of fresh] blk1 d(3) len by simp
    then have "ReadDir_blocks fresh 1 n' found' ?nd s1 = Some (Ret (Some names, s''))" "n' \<noteq> 0" using rest rec(2) by (auto split: if_splits)
    then show False using ReadDir_blocks_hole[of 1 ?nd n' fresh found' s1] assms(5) d(5) by auto
  qed
  then show ?thesis using s'(1) by blast
qed

end
