(* ===== verification/Ext2_Objects.thy ===== *)
theory Ext2_Objects
  imports Ext2_Files
begin

text \<open>
  Operations on whole files: looking up blocks without creating them changes nothing, what \<open>Remove\<close> leaves of a
  file whose last name is gone, the vnode handles that \<open>Touch\<close> and \<open>MkDir\<close> return, and the pin counts.
\<close>

section \<open>Looking up without creating\<close>

definition keeps :: "walk \<Rightarrow> ('a \<times> u32 list \<times> walk) run \<Rightarrow> bool" where
  "keeps w r = (case r of Overrun \<Rightarrow> True | Ret (_, _, w') \<Rightarrow> snd w' = snd w)"

lemma keeps_simps [simp]: "keeps w Overrun" "keeps w (Ret (k, c, es, nd, s)) \<longleftrightarrow> (nd, s) = snd w"
  by (simp_all add: keeps_def)

lemma Extents_leaf_keeps: "keeps w (Extents_leaf False n ind parent w)"
proof (induction n arbitrary: ind parent w)
  case (Suc n)
  obtain es nd s where w: "w = (es, nd, s)" by (cases w)
  have "keeps (AddToExtentList es (parent ! ind), nd, s)
      (Extents_leaf False n (ind + 1) (parent[ind := parent ! ind]) (AddToExtentList es (parent ! ind), nd, s))" by (rule Suc.IH)
  then show ?case by (auto simp: w keeps_def Ensure_ptr_def Let_def split: run.splits)
qed (simp add: keeps_def)

lemma Extents_loop_keeps_induct:
  assumes "Extents_loop sub c create md ind len br parent w = Some r"
  shows "\<not> create \<longrightarrow> (\<forall>i l p w r. sub i l p w = Some r \<longrightarrow> keeps w r) \<longrightarrow> keeps w r"
  using assms
proof (rule Extents_loop.raw_induct[where P = "\<lambda>sub c create md ind len br parent w r.
    \<not> create \<longrightarrow> (\<forall>i l p w r. sub i l p w = Some r \<longrightarrow> keeps w r) \<longrightarrow> keeps w r", rotated], goal_cases)
  case step: (1 loop sub c create md ind len br parent w r)
  obtain es nd s where w: "w = (es, nd, s)" by (cases w)
  show ?case
  proof (intro impI)
    assume a: "\<not> create" "\<forall>i l p w r. sub i l p w = Some r \<longrightarrow> keeps w r"
    then have c: "create = False" by simp
    note step2 = step(2)[unfolded c w if_False Let_def prod.case]
    have rec: "keeps (es, nd, s) r" if "loop sub c False md i l b p (es', nd, s) = Some r" for i l b p es'
      using step(1)[OF that] a by (cases r) (auto simp: keeps_def)
    consider "\<not> br < len" | "br < len" "length parent \<le> ind div c"
      | "br < len" "ind div c < length parent" "ReadBlock (parent ! (ind div c)) s = None"
      | b where "br < len" "ind div c < length parent" "ReadBlock (parent ! (ind div c)) s = Some b"
      by (cases "ReadBlock (parent ! (ind div c)) s") fastforce+
    then show "keeps w r"
    proof cases
      case 1
      then show ?thesis using step(2) by (auto simp: keeps_def)
    next
      case 2
      then show ?thesis using step(2) by (auto simp: keeps_def)
    next
      case 3
      then show ?thesis using step(2) a(1) by (auto simp: w Ensure_ptr_def intro: rec)
    next
      case 4
      let ?w = "(if md then AddToExtentList es (parent ! (ind div c)) else es, nd, s)"
      have run: "run_bind (sub (ind mod c) (min c len) (u32s b) ?w) (\<lambda>(r, child, es, nd, s).
          case r of None \<Rightarrow> Some (Ret (None, parent[ind div c := parent ! (ind div c)], es, nd, s))
          | Some k \<Rightarrow> loop sub c False md (ind + k) (len - k) (br + k) (parent[ind div c := parent ! (ind div c)]) (es, nd, s)) = Some r"
        using step2 4 by (cases md) (simp_all add: Ensure_ptr_def)
      show ?thesis
      proof (cases "sub (ind mod c) (min c len) (u32s b) ?w")
        case (Some r1)
        then have "keeps ?w r1" using a(2) by blast
        then show ?thesis
          using run Some by (cases r1) (auto simp: w split: option.splits dest: rec)
      qed (use run in simp)
    qed
  qed
qed

lemma Extents_walk_keeps: "Extents_walk False md p level ind len parent w = Some r \<Longrightarrow> keeps w r"
proof (induction level arbitrary: ind len parent w r)
  case 0
  then show ?case using Extents_leaf_keeps[of w len ind parent] by (auto simp: keeps_def split: run.splits)
next
  case (Suc level)
  then show ?case
    using Extents_loop_keeps_induct[of "Extents_walk False md p level" "PtrsPerIndirectBlock p level" False md ind len 0 parent w r]
    by auto
qed

lemma Extents_top_keeps_induct:
  assumes "Extents_top create md n len held w = Some r"
  shows "\<not> create \<longrightarrow> (case r of Overrun \<Rightarrow> True | Ret (_, st) \<Rightarrow> st = snd w)"
  using assms
proof (rule Extents_top.raw_induct[where P = "\<lambda>create md n len held w r.
    \<not> create \<longrightarrow> (case r of Overrun \<Rightarrow> True | Ret (_, st) \<Rightarrow> st = snd w)", rotated], goal_cases)
  case step: (1 top create md n len held w r)
  obtain es nd s where w: "w = (es, nd, s)" by (cases w)
  show ?case
  proof (intro impI)
    assume a: "\<not> create"
    then have c: "create = False" by simp
    note step2 = step(2)[unfolded c w if_False Let_def prod.case]
    have rec: "case r of Overrun \<Rightarrow> True | Ret (_, st) \<Rightarrow> st = (nd, s)"
      if "top False md i l h (es', nd, s) = Some r" for i l h es'
      using step(1)[OF that] a by (cases r) auto
    have "case r of Overrun \<Rightarrow> True | Ret (_, st) \<Rightarrow> st = (nd, s)"
    proof (cases "len = 0 \<or> n < 12")
      case True
      then show ?thesis using step2 by (auto simp: Ensure_ptr_def split: if_splits dest: rec)
    next
      case False
      show ?thesis
      proof (cases "indirect_slot (ptrs_per_block s) n")
        case None
        then show ?thesis using step2 False by auto
      next
        case (Some slot)
        obtain i ind where slot: "indirect_slot (ptrs_per_block s) n = Some (i, ind)" using Some by (cases slot) simp
        show ?thesis
        proof (cases "Load_parent md (i_block nd ! i) held es s")
          case None
          then show ?thesis using step2 False slot by (auto simp: Ensure_ptr_def)
        next
          case (Some pe)
          obtain parent es1 where pe: "Load_parent md (i_block nd ! i) held es s = Some (parent, es1)" using Some by (cases pe) simp
          let ?walk = "Extents_walk False md (ptrs_per_block s) (i - 12) ind
              (min (PtrsPerIndirectBlock (ptrs_per_block s) (i - 12)) len) parent (es1, nd, s)"
          have run: "run_bind ?walk (\<lambda>(r, parent, es, nd2, s2).
              case r of None \<Rightarrow> Some (Ret (None, nd2, s2))
              | Some k \<Rightarrow> top False md ((n + k) mod 2 ^ 32) (len - k) (Some (i_block nd ! i, parent)) (es, nd2, s2)) = Some r"
            using step2 False slot pe by (simp add: Ensure_ptr_def)
          show ?thesis
          proof (cases ?walk)
            case (Some r1)
            then have "keeps (es1, nd, s) r1" using a Extents_walk_keeps by fastforce
            then show ?thesis
              using run Some by (cases r1) (auto simp: keeps_def split: option.splits dest: rec)
          qed (use run in simp)
        qed
      qed
    qed
    then show "case r of Overrun \<Rightarrow> True | Ret (_, st) \<Rightarrow> st = snd w" by (cases r) (auto simp: w)
  qed
qed

lemma GetOrCreateExtents_keeps:
  "GetOrCreateExtents n len False md nd s = Some (Ret (es, nd', s')) \<Longrightarrow> nd' = nd \<and> s' = s"
  using Extents_top_keeps_induct[of False md "n mod 2 ^ 32" len None "([], nd, s)"]
  by (fastforce simp: GetOrCreateExtents_def)

section \<open>Removing a file\<close>

lemma mount_ok_put:
  assumes "mount_ok s"
  shows "mount_ok (s\<lparr>disk := put (disk s) a (take n (chunks 512 bytes))\<rparr>)"
proof -
  have c: "\<forall>c\<in>set (take n (chunks 512 bytes)). length c = 512"
    using length_chunk[of _ 512 bytes] in_set_takeD[of _ n "chunks 512 bytes"] by blast
  have d: "\<forall>x. length (disk s x) = 512" using assms by (simp add: mount_ok_def)
  have "length (put (disk s) a (take n (chunks 512 bytes)) x) = 512" for x
    by (rule put_all[of "\<lambda>x. length x = 512", OF d c])
  then show ?thesis using assms by (simp add: mount_ok_def)
qed

lemma mount_ok_bmap [simp]: "mount_ok (s\<lparr>block_bmap_cache := c\<rparr>) = mount_ok s"
  by (simp add: mount_ok_def)

text \<open>Freeing blocks changes their bitmaps and the disk, nothing else.\<close>

definition blocks_freed :: "ext2 \<Rightarrow> ext2 \<Rightarrow> bool" where
  "blocks_freed s s' \<longleftrightarrow> (\<exists>c d. s' = s\<lparr>block_bmap_cache := c, disk := d\<rparr>) \<and> (mount_ok s \<longrightarrow> mount_ok s')"

lemma blocks_freedI: "s' = s\<lparr>block_bmap_cache := c, disk := d\<rparr> \<Longrightarrow> (mount_ok s \<Longrightarrow> mount_ok s') \<Longrightarrow> blocks_freed s s'"
  unfolding blocks_freed_def by blast

lemma blocks_freed_trans:
  assumes "blocks_freed s s1" "blocks_freed s1 s2"
  shows "blocks_freed s s2"
proof -
  obtain c d c' d' where "s1 = s\<lparr>block_bmap_cache := c, disk := d\<rparr>" "s2 = s1\<lparr>block_bmap_cache := c', disk := d'\<rparr>"
    using assms unfolding blocks_freed_def by blast
  then have "s2 = s\<lparr>block_bmap_cache := c', disk := d'\<rparr>" by simp
  then show ?thesis using assms by (intro blocks_freedI) (auto simp: blocks_freed_def)
qed

lemma blocks_freed_cache: "blocks_freed s (s\<lparr>block_bmap_cache := c\<rparr>)"
  by (rule blocks_freedI[where c = c and d = "disk s"]) simp_all

lemma blocks_freed_WriteBack: "blocks_freed s (DiskMem_WriteBack m s)"
proof (cases "io s (base_sector m) (num_sectors m) True")
  case True
  then have "DiskMem_WriteBack m s =
      s\<lparr>block_bmap_cache := block_bmap_cache s, disk := put (disk s) (base_sector m) (take (num_sectors m) (chunks 512 (raw m)))\<rparr>"
    by (simp add: DiskMem_WriteBack_def disk_Write_def)
  then show ?thesis
    using mount_ok_put[of s "base_sector m" "num_sectors m" "raw m"] by (intro blocks_freedI[where c = "block_bmap_cache s"]) simp_all
next
  case False
  then have "DiskMem_WriteBack m s = s" by (simp add: DiskMem_WriteBack_def disk_Write_def)
  then show ?thesis using blocks_freed_cache[of s "block_bmap_cache s"] by simp
qed

lemma FreeBlock_frame: "FreeBlock b s = (ok, s') \<Longrightarrow> blocks_freed s s'"
proof -
  assume a: "FreeBlock b s = (ok, s')"
  obtain r s1 where rd: "ReadBlockBitmap ((b - 1) div s_blocks_per_group (super s)) s = (r, s1)" by fastforce
  then have s1: "blocks_freed s s1"
    using blocks_freed_cache[of s "block_bmap_cache s"] blocks_freed_cache[of s]
    by (auto simp: ReadBlockBitmap_def split: option.splits)
  show ?thesis
  proof (cases r)
    case None
    then show ?thesis using a rd s1 by (simp add: FreeBlock_def Let_def)
  next
    case (Some m)
    then have "\<exists>m' c. s' = DiskMem_WriteBack m' (s1\<lparr>block_bmap_cache := c\<rparr>)"
      using a rd by (simp add: FreeBlock_def Let_def set_block_bmap_def) blast
    then obtain m' c where "s' = DiskMem_WriteBack m' (s1\<lparr>block_bmap_cache := c\<rparr>)" by blast
    then show ?thesis
      using blocks_freed_trans[OF s1 blocks_freed_trans[OF blocks_freed_cache blocks_freed_WriteBack]] by simp
  qed
qed

lemma Free_blocks_frame: "Free_blocks bs s = (ok, s') \<Longrightarrow> blocks_freed s s'"
proof (induction bs arbitrary: s)
  case Nil
  then show ?case using blocks_freed_cache[of s "block_bmap_cache s"] by simp
next
  case (Cons b bs)
  obtain ok1 s1 where f: "FreeBlock b s = (ok1, s1)" by fastforce
  show ?case
  proof (cases ok1)
    case True
    then have "Free_blocks bs s1 = (ok, s')" using Cons.prems f by simp
    then show ?thesis using Cons.IH FreeBlock_frame[OF f] blocks_freed_trans by blast
  next
    case False
    then show ?thesis using Cons.prems f FreeBlock_frame[OF f] by simp
  qed
qed

lemma ReadINode_pins [simp]:
  "ReadINode i (s\<lparr>num_pins := p\<rparr>) = ReadINode i s" "ReadINode i (s\<lparr>pinned_vnodes := q\<rparr>) = ReadINode i s"
  by (simp_all add: ReadINode_def ReadBlock_new_def disk_Read_new_def disk_Read_def block_lba_def
      block_sectors_def inode_tab_block_def inode_tab_off_def inode_group_def inode_local_def)

lemma Unpin_frame: "ReadINode i (Unpin k s) = ReadINode i s" "inode_bmap_cache (Unpin k s) = inode_bmap_cache s"
proof -
  have "\<exists>p q. Unpin k s = s\<lparr>num_pins := p, pinned_vnodes := q\<rparr>"
  proof (cases "num_pins s k")
    case None
    then have "Unpin k s = s\<lparr>num_pins := num_pins s, pinned_vnodes := pinned_vnodes s\<rparr>" by (simp add: Unpin_def)
    then show ?thesis by (intro exI)
  next
    case (Some n)
    show ?thesis
    proof (cases "n = 1")
      case True
      with Some show ?thesis unfolding Unpin_def Some option.case if_P[OF True] by iprover
    next
      case False
      have "s\<lparr>num_pins := p\<rparr> = s\<lparr>num_pins := p, pinned_vnodes := pinned_vnodes s\<rparr>" for p by simp
      then show ?thesis unfolding Unpin_def Some option.case if_not_P[OF False] by (intro exI)
    qed
  qed
  then obtain p q where "Unpin k s = s\<lparr>num_pins := p, pinned_vnodes := q\<rparr>" by iprover
  then show "ReadINode i (Unpin k s) = ReadINode i s" "inode_bmap_cache (Unpin k s) = inode_bmap_cache s" by simp_all
qed

text \<open>
  C34: When the last name of a file is removed its inode stays on the disk: \<open>Remove\<close> clears it, and then the
  destructor of its local vnode writes the old contents back, with a link count of 0. The bit in the inode bitmap
  stays set, so the inode is never used again.
\<close>
theorem Remove_child_keeps_inode:
  assumes "mount_ok s" "disk_ok s" "inode_slot_ok s (ino child)" "in_range s (inode_tab_block s (ino child))"
    and "wf_inode (inode_of child)" "i_links_count (inode_of child) = 1"
    and "Remove_child child s = Some (Ret (True, s'))"
  shows "ReadINode (ino child) s' = Some ((inode_of child)\<lparr>i_links_count := 0\<rparr>) \<and> inode_bmap_cache s' = inode_bmap_cache s"
proof -
  let ?nd = "(inode_of child)\<lparr>i_links_count := 0\<rparr>" let ?child = "child\<lparr>inode_of := ?nd\<rparr>"
  let ?n = "GetLength ?nd div unat (block_size s)"
  have run: "run_bind (GetOrCreateExtents 0 ?n False True ?nd s) (\<lambda>(es, nd, s).
      case es of
        None \<Rightarrow> Some (Ret (False, Destroy_VNode (?child\<lparr>inode_of := nd\<rparr>) s))
      | Some es \<Rightarrow>
          (case Free_blocks (expand es) s of
             (False, s) \<Rightarrow> Some (Ret (False, Destroy_VNode (?child\<lparr>inode_of := nd\<rparr>) s))
           | (True, s) \<Rightarrow>
               (case WriteINode (ino ?child) zero_inode s of
                  (ok, s) \<Rightarrow> Some (Ret (ok, Destroy_VNode (?child\<lparr>inode_of := nd\<rparr>) s))))) = Some (Ret (True, s'))"
    using assms(6,7) by (simp add: Remove_child_def Let_def)
  then obtain es nd s0 where ext: "GetOrCreateExtents 0 ?n False True ?nd s = Some (Ret (es, nd, s0))"
    unfolding run_bind_Ret by auto
  then have same: "nd = ?nd" "s0 = s" using GetOrCreateExtents_keeps by blast+
  obtain es' s1 s2 where s1: "Free_blocks (expand es') s = (True, s1)" and s2: "WriteINode (ino child) zero_inode s1 = (True, s2)"
    and s': "s' = Destroy_VNode ?child s2"
    using run ext by (auto simp: same split: option.splits prod.splits bool.splits)
  obtain c d where fr: "s1 = s\<lparr>block_bmap_cache := c, disk := d\<rparr>" "mount_ok s1"
    using Free_blocks_frame[OF s1] assms(1) by (auto simp: blocks_freed_def)
  have geo1: "inode_slot_ok s1 i = inode_slot_ok s i" "in_range s1 b = in_range s b" "inode_tab_block s1 i = inode_tab_block s i"
    "disk_ok s1 = disk_ok s" "inode_bmap_cache s1 = inode_bmap_cache s" for i b
    by (simp_all add: fr(1) inode_slot_ok_def valid_block_def in_range_def disk_ok_def inode_tab_block_def
      inode_tab_off_def inode_group_def inode_local_def)
  have zero: "wf_inode zero_inode" "wf_inode ?nd" using assms(5) by (simp_all add: wf_inode_def zero_inode_def)
  have s2m: "mount_ok s2" "s2 = s1\<lparr>disk := disk s2\<rparr>"
    using write_read_inode(1)[OF fr(2) _ zero(1) s2] WriteINode_block(1)[OF fr(2) _ zero(1) s2] assms(3) by (simp_all add: geo1)
  have "inode_slot_ok s2 i = inode_slot_ok s1 i" "in_range s2 b = in_range s1 b" "inode_tab_block s2 i = inode_tab_block s1 i"
    "disk_ok s2 = disk_ok s1" "inode_bmap_cache s2 = inode_bmap_cache s1" for i b
    by (subst s2m(2), simp add: inode_slot_ok_def valid_block_def)+
  then have geo2: "inode_slot_ok s2 i = inode_slot_ok s i" "in_range s2 b = in_range s b" "inode_tab_block s2 i = inode_tab_block s i"
    "disk_ok s2 = disk_ok s" "inode_bmap_cache s2 = inode_bmap_cache s" for i b
    by (simp_all add: geo1)
  obtain s3 where s3: "WriteINode (ino child) ?nd s2 = (True, s3)" "ReadINode (ino child) s3 = Some ?nd" "s3 = s2\<lparr>disk := disk s3\<rparr>"
    using WriteINode_ok[OF s2m(1) _ _ zero(2), of "ino child"] assms(2-4) by (auto simp: geo2)
  have "inode_bmap_cache s3 = inode_bmap_cache s" by (subst s3(3)) (simp add: geo2)
  then show ?thesis using s3 by (simp add: s' Destroy_VNode_def WriteBack_def Unpin_frame)
qed

section \<open>Handles of new files\<close>

lemma WriteINode_vnodes: "WriteINode i n s = (ok, s') \<Longrightarrow> vnodes s' = vnodes s"
  by (auto simp: WriteINode_def WriteBlock_def disk_Write_def split: option.splits if_splits)

lemma MakeDirEntry_raw_frees: "MakeDirEntry_raw name self c s = Some (Ret (ok, s')) \<Longrightarrow> vnodes s' c = None"
  by (auto simp: MakeDirEntry_raw_def run_bind_Ret free_vnode_def split: option.splits)

lemma on_vnode_keeps_freed:
  assumes "on_vnode self m s = Some (Ret (x, s'))" "vnodes s c = None"
    and "\<And>v x v' s'. m v s = Some (Ret (x, v', s')) \<Longrightarrow> vnodes s' = vnodes s"
  shows "vnodes s' c = None"
proof -
  obtain v v' s1 where v: "vnodes s self = Some v" "m v s = Some (Ret (x, v', s1))" "s' = s1\<lparr>vnodes := (vnodes s1)(self \<mapsto> v')\<rparr>"
    using assms(1) by (auto simp: on_vnode_def run_bind_Ret split: option.splits)
  then show ?thesis using assms(2) assms(3)[OF v(2)] by auto
qed

lemma WriteBack_m_vnodes: "WriteBack_m v s = Some (Ret (x, v', s')) \<Longrightarrow> vnodes s' = vnodes s"
  by (auto simp: WriteBack_m_def WriteBack_def split: prod.splits dest: WriteINode_vnodes)

lemma on_vnode_WriteBack_freed:
  assumes "on_vnode self (\<lambda>v. WriteBack_m (f v)) s = Some (Ret (x, s'))" "vnodes s c = None"
  shows "vnodes s' c = None"
  using assms by (rule on_vnode_keeps_freed) (rule WriteBack_m_vnodes)

text \<open>
  C35: The handle that \<open>Touch\<close> or \<open>MkDir\<close> returns for a new file points to freed memory: the temporary
  \<open>RefCntPtr\<close> made for the call of \<open>MakeDirEntry\<close> has freed the vnode.
\<close>
theorem Touch_MkDir_dangling:
  "(Touch fresh name self s = Some (Ret (Some c, s')) \<longrightarrow> vnodes s' c = None) \<and>
   (MkDir fresh mem name self s = Some (Ret (Some c, s')) \<longrightarrow> vnodes s' c = None)"
proof (intro conjI impI)
  show "vnodes s' c = None" if "Touch fresh name self s = Some (Ret (Some c, s'))"
    using that unfolding Touch_def
    by (auto simp: run_bind_Ret split: option.splits prod.splits if_splits dest!: MakeDirEntry_raw_frees)
  show "vnodes s' c = None" if "MkDir fresh mem name self s = Some (Ret (Some c, s'))"
    using that unfolding MkDir_def
    by (auto simp: run_bind_Ret split: option.splits prod.splits if_splits
      dest!: MakeDirEntry_raw_frees dest: on_vnode_WriteBack_freed)
qed

end
