(* ===== verification/Vfs.thy ===== *)
theory Vfs
  imports Ext2_Dirs Ext2_Objects Gpt Hash_Map Murmur_Hash
begin

text \<open>
  \<open>src/sys/fs/vfs.cpp\<close> and the path operations of \<open>src/sys/fs/ext2_vnode.cpp\<close>: names of files in a tree of mounted
  file systems, file handles, and the mount points of directories.

  A vnode is named by the index of its file system in \<open>mounts\<close> and its address there. Each file system has its own
  view of the disk (\<open>Ext2_Mount\<close>), so no partition is mounted twice. \<open>mnt_tabs\<close> are the tables \<open>mnts_\<close> of the
  vnodes, an absent one is still empty; the keys of these tables are NUL-terminated names, for which \<open>operator==\<close>
  is equality (\<open>String_eq_stored\<close>). A mounted root stays referenced for ever, because \<open>HashMap::Delete\<close> destroys no
  entry; \<open>mnt_roots\<close> lists them.

  As in \<open>Ext2_VNode\<close>: \<open>None\<close> does not return, \<open>Overrun\<close> follows a bad pointer; \<open>fresh\<close> and \<open>mem\<close> are the addresses and
  contents of new objects and buffers. \<open>pad\<close> gives the byte behind a string in memory, which \<open>Lookup\<close> reads.
\<close>

type_synonym handle = "nat \<times> nat"

record vfs =
  mounts :: "ext2 list"
  mnt_tabs :: "handle \<rightharpoonup> (ds_string, handle) hash_map"
  mnt_roots :: "handle list"
  root :: "handle option"
  open_handles :: "(ds_string, nat) hash_map"

lemma String_eq_stored:
  assumes "str_ok s" "length s < 2 ^ 64"
  shows "String_eq s t \<longleftrightarrow> s = t"
proof -
  obtain u where s: "s = u @ [0]" "0 \<notin> set u" using assms(1) by (meson str_okE)
  have eq: "t = u @ [0]"
    if "length t = length u + 1" "strncmp_loop m l r (length u) = 0"
      "\<forall>i<length u. m (l + i) = u ! i" "m (l + length u) = 0" "\<forall>i<length t. m (r + i) = t ! i" for m l r
    using that s(2)
  proof (induction u arbitrary: t l r)
    case Nil
    then show ?case by (cases t) (auto simp: word_uint_eq_iff)
  next
    case (Cons c u)
    obtain d t' where t: "t = d # t'" using Cons.prems(1) by (cases t) auto
    have "m l = c" "m r = d" "c \<noteq> 0" using Cons.prems(3,5,6) by (force simp: t)+
    then have "d = c" "strncmp_loop m (l + 1) (r + 1) (length u) = 0"
      using Cons.prems(2) by (auto simp: word_uint_eq_iff split: if_splits)
    moreover have "t' = u @ [0]" using Cons.prems calculation(2) by (intro Cons.IH[of t' "l + 1" "r + 1"]) (force simp: t)+
    ultimately show ?case by (simp add: t)
  qed
  show ?thesis
  proof
    assume e: "String_eq s t"
    have "unat (of_nat (length s) - 1 :: u64) = length u"
      using assms(2) s(1) by (simp add: unat_of_nat)
    then have "strncmp_loop (block_mem (s @ t)) 0 (length s) (length u) = 0" "length t = length u + 1"
      using e s(1) by (auto simp: String_eq_def strncmp_def)
    then have "t = u @ [0]"
      by (intro eq[where m = "block_mem (s @ t)" and l = 0 and r = "length s"]) (simp_all add: block_mem_def s(1) nth_append)
    then show "s = t" by (simp add: s(1))
  next
    assume "s = t"
    then show "String_eq s t" using String_eq_iff[OF assms(1) assms(1) assms(2)] by simp
  qed
qed

section \<open>Operations of one file system\<close>

definition on_fs :: "nat \<Rightarrow> (ext2 \<Rightarrow> ('a \<times> ext2) run option) \<Rightarrow> vfs \<Rightarrow> ('a \<times> vfs) run option" where
  "on_fs m f s =
     (if m < length (mounts s)
      then run_bind (f (mounts s ! m)) (\<lambda>(x, e). Some (Ret (x, s\<lparr>mounts := (mounts s)[m := e]\<rparr>)))
      else Some Overrun)"

definition at_handle :: "handle \<Rightarrow> (vnode \<Rightarrow> ext2 \<Rightarrow> ('a \<times> vnode \<times> ext2) run option) \<Rightarrow> vfs \<Rightarrow> ('a \<times> vfs) run option" where
  "at_handle h f s = on_fs (fst h) (on_vnode (snd h) f) s"

definition mnt_tab :: "vfs \<Rightarrow> handle \<Rightarrow> (ds_string, handle) hash_map" where
  "mnt_tab s h = (case mnt_tabs s h of None \<Rightarrow> HashMap 1 | Some t \<Rightarrow> t)"

text \<open>A \<open>RefCntPtr\<close> of the caller goes out of scope: the object is freed unless it is pinned, mounted or the root.\<close>

definition release_vnode :: "handle \<Rightarrow> vfs \<Rightarrow> vfs" where
  "release_vnode h s =
     (if h \<in> set (mnt_roots s) \<or> root s = Some h \<or> length (mounts s) \<le> fst h then s
      else (let e = drop_handle (snd h) (mounts s ! fst h)
            in s\<lparr>mounts := (mounts s)[fst h := e],
                 mnt_tabs := (if vnodes e (snd h) = None then (mnt_tabs s)(h := None) else mnt_tabs s)\<rparr>))"

section \<open>Paths and mount points of a vnode\<close>

definition DirEntry_m :: "ds_string \<Rightarrow> vnode \<Rightarrow> ext2 \<Rightarrow> ((u32 \<times> nat \<times> u8 list) option \<times> vnode \<times> ext2) run option" where
  "DirEntry_m name v s =
     run_bind (GetDirEntry name (inode_of v) s) (\<lambda>(r, nd, s). Some (Ret (r, v\<lparr>inode_of := nd\<rparr>, s)))"

definition GetVNode_m :: "(ext2 \<Rightarrow> nat) \<Rightarrow> u32 \<Rightarrow> ext2 \<Rightarrow> (nat option \<times> ext2) run option" where
  "GetVNode_m fresh i e = (case GetVNode (fresh e) i e of None \<Rightarrow> Some Overrun | Some (r, e) \<Rightarrow> Some (Ret (r, e)))"

text \<open>One component: an entry of the directory comes before a mount point.\<close>

definition Lookup_child ::
  "(ext2 \<Rightarrow> nat) \<Rightarrow> ds_string \<Rightarrow> handle \<Rightarrow> vfs \<Rightarrow> (handle option \<times> vfs) run option"
where
  "Lookup_child fresh child h s =
     run_bind (at_handle h (DirEntry_m child) s) (\<lambda>(raw, s).
       case raw of
         Some (block_no, off, entries) \<Rightarrow>
           run_bind (on_fs (fst h) (GetVNode_m fresh (e_inode entries off)) s)
             (\<lambda>(r, s). Some (Ret (map_option (Pair (fst h)) r, s)))
       | None \<Rightarrow> map_option (\<lambda>r. Ret (r, s)) (Hash_Map.Lookup Hash (mnt_tab s h) child))"

partial_function (option) VNode_Lookup ::
  "(ext2 \<Rightarrow> nat) \<Rightarrow> (ds_string \<Rightarrow> u8) \<Rightarrow> ds_string \<Rightarrow> handle \<Rightarrow> vfs \<Rightarrow> (handle option \<times> vfs) run option"
where
  "VNode_Lookup fresh pad name h s =
     (case Path_child (pad name) name of
        None \<Rightarrow> Some Overrun
      | Some child \<Rightarrow>
          run_bind (Lookup_child fresh child h s) (\<lambda>(r, s).
            case r of
              None \<Rightarrow> Some (Ret (None, s))
            | Some c \<Rightarrow>
                (case Path_rest name of
                   None \<Rightarrow> Some Overrun
                 | Some remaining \<Rightarrow>
                     if String_eq remaining [0] \<or> String_eq remaining [47, 0] then Some (Ret (Some c, s))
                     else run_bind (VNode_Lookup fresh pad remaining c s)
                            (\<lambda>(r, s). Some (Ret (r, release_vnode c s))))))"

text \<open>
  \<open>LookupAndPin\<close> counts the pin in the file system of the directory where the search began. A handle of another file
  system never comes out of \<open>Lookup\<close> (\<open>Mounted_never_found\<close>).
\<close>

definition LookupAndPin ::
  "(ext2 \<Rightarrow> nat) \<Rightarrow> (ds_string \<Rightarrow> u8) \<Rightarrow> ds_string \<Rightarrow> handle \<Rightarrow> vfs \<Rightarrow> (handle option \<times> vfs) run option"
where
  "LookupAndPin fresh pad name h s =
     run_bind (VNode_Lookup fresh pad name h s) (\<lambda>(r, s).
       case r of
         None \<Rightarrow> Some (Ret (None, s))
       | Some c \<Rightarrow>
           run_bind (on_fs (fst h) (\<lambda>e. Some (case Pin (snd c) e of None \<Rightarrow> Overrun | Some e \<Rightarrow> Ret ((), e))) s)
             (\<lambda>(_, s). Some (Ret (Some c, s))))"

definition VNode_Unpin :: "vnode \<Rightarrow> ext2 \<Rightarrow> (unit \<times> vnode \<times> ext2) run option" where
  "VNode_Unpin v e = Some (Ret ((), v, Ext2_Mount.Unpin (ino v) e))"

definition VNode_Mount :: "ds_string \<Rightarrow> handle \<Rightarrow> handle \<Rightarrow> vfs \<Rightarrow> (bool \<times> vfs) option" where
  "VNode_Mount mntpt mnt_root h s =
     map_option (\<lambda>(ok, t). (ok, s\<lparr>mnt_tabs := (mnt_tabs s)(h \<mapsto> t), mnt_roots := (if ok then mnt_root # mnt_roots s else mnt_roots s)\<rparr>))
       (Insert Hash (mnt_tab s h) mntpt mnt_root)"

definition VNode_Unmount :: "ds_string \<Rightarrow> handle \<Rightarrow> vfs \<Rightarrow> (bool \<times> vfs) option" where
  "VNode_Unmount mntpt h s =
     map_option (\<lambda>(ok, t). (ok, s\<lparr>mnt_tabs := (mnt_tabs s)(h \<mapsto> t)\<rparr>)) (Delete Hash (mnt_tab s h) mntpt)"

definition GetNumMounts :: "handle \<Rightarrow> vfs \<Rightarrow> nat" where
  "GetNumMounts h s = Len (mnt_tab s h)"

section \<open>File handles\<close>

record file_handle =
  fh_vnode :: handle
  fh_path :: ds_string
  fh_offset :: nat
  readable :: bool
  writeable :: bool
  valid :: bool

definition FileHandle :: "handle \<Rightarrow> ds_string \<Rightarrow> bool \<Rightarrow> bool \<Rightarrow> file_handle" where
  "FileHandle v path rd wr =
     \<lparr>fh_vnode = v, fh_path = path, fh_offset = 0, readable = rd, writeable = wr, valid = True\<rparr>"

definition Seek :: "nat \<Rightarrow> file_handle \<Rightarrow> file_handle" where
  "Seek off fh = fh\<lparr>fh_offset := off\<rparr>"

definition Handle_Read ::
  "(nat \<Rightarrow> u8 list) \<Rightarrow> nat \<Rightarrow> file_handle \<Rightarrow> vfs \<Rightarrow> (ds_string option \<times> file_handle \<times> vfs) run option"
where
  "Handle_Read mem len fh s =
     (if valid fh \<and> readable fh then
        run_bind (at_handle (fh_vnode fh) (Read (mem len) (fh_offset fh) len) s) (\<lambda>((ok, buff), s).
          if ok then
            (case String_buf buff len of
               None \<Rightarrow> Some Overrun
             | Some text \<Rightarrow> Some (Ret (Some text, fh\<lparr>fh_offset := fh_offset fh + len\<rparr>, s)))
          else Some (Ret (None, fh, s)))
      else Some (Ret (None, fh, s)))"

definition Handle_Write ::
  "ds_string \<Rightarrow> nat \<Rightarrow> file_handle \<Rightarrow> vfs \<Rightarrow> (bool \<times> file_handle \<times> vfs) run option"
where
  "Handle_Write buff_str len fh s =
     (if valid fh \<and> writeable fh then
        run_bind (at_handle (fh_vnode fh) (Write buff_str (fh_offset fh) len) s) (\<lambda>(ok, s).
          if ok then Some (Ret (True, fh\<lparr>fh_offset := fh_offset fh + len\<rparr>, s))
          else Some (Ret (False, fh, s)))
      else Some (Ret (False, fh, s)))"

definition Handle_GetLength :: "file_handle \<Rightarrow> vfs \<Rightarrow> (nat \<times> vfs) run option" where
  "Handle_GetLength fh s = at_handle (fh_vnode fh) (\<lambda>v e. Some (Ret (GetLength (inode_of v), v, e))) s"

definition GetPath :: "file_handle \<Rightarrow> ds_string" where
  "GetPath fh = copy_String (fh_path fh)"

definition SuspendIO :: "file_handle \<Rightarrow> vfs \<Rightarrow> (file_handle \<times> vfs) run option" where
  "SuspendIO fh s =
     run_bind (at_handle (fh_vnode fh) VNode_Unpin s) (\<lambda>(_, s). Some (Ret (fh\<lparr>valid := False\<rparr>, s)))"

section \<open>The virtual file system\<close>

text \<open>Directory and last component of a path; the scan starts at the byte behind the string, which reads as NUL.\<close>

fun last_slash :: "ds_string \<Rightarrow> nat \<Rightarrow> int" where
  "last_slash s 0 = (if at_const s 0 = Some 47 then 0 else - 1)"
| "last_slash s (Suc i) = (if at_const s (int (Suc i)) = Some 47 then int (Suc i) else last_slash s i)"

definition DecomposePath :: "ds_string \<Rightarrow> (ds_string \<times> ds_string) option" where
  "DecomposePath path_str =
     (let i = last_slash path_str (length path_str)
      in case (Substr path_str 0 (i + 1), Substr path_str (i + 1) (int (length path_str))) of
           (Some dir, Some file) \<Rightarrow> Some (dir, file)
         | _ \<Rightarrow> None)"

text \<open>
  Most operations look up the directory of a path from the root and call a method of its vnode; \<open>in_parent\<close> is that
  pattern. The directory is released when they return.
\<close>

definition root_Lookup ::
  "(ext2 \<Rightarrow> nat) \<Rightarrow> (ds_string \<Rightarrow> u8) \<Rightarrow> ds_string \<Rightarrow> vfs \<Rightarrow> (handle option \<times> vfs) run option"
where
  "root_Lookup fresh pad name s =
     (case root s of None \<Rightarrow> Some Overrun | Some r \<Rightarrow> VNode_Lookup fresh pad name r s)"

definition in_parent ::
  "(ext2 \<Rightarrow> nat) \<Rightarrow> (ds_string \<Rightarrow> u8) \<Rightarrow> ds_string \<Rightarrow> (ds_string \<Rightarrow> handle \<Rightarrow> vfs \<Rightarrow> (bool \<times> vfs) run option) \<Rightarrow> vfs \<Rightarrow>
     (bool \<times> vfs) run option"
where
  "in_parent fresh pad name op s =
     (case DecomposePath name of
        None \<Rightarrow> Some Overrun
      | Some (dir, file) \<Rightarrow>
          run_bind (root_Lookup fresh pad dir s) (\<lambda>(r, s).
            case r of
              None \<Rightarrow> Some (Ret (False, s))
            | Some parent_dir \<Rightarrow>
                run_bind (op file parent_dir s) (\<lambda>(ok, s). Some (Ret (ok, release_vnode parent_dir s)))))"

definition made :: "(nat option \<times> ext2) run option \<Rightarrow> (bool \<times> ext2) run option" where
  "made r = run_bind r (\<lambda>(a, e). Some (Ret (a \<noteq> None, e)))"

definition VFS_Touch :: "(ext2 \<Rightarrow> nat) \<Rightarrow> (ds_string \<Rightarrow> u8) \<Rightarrow> ds_string \<Rightarrow> vfs \<Rightarrow> (bool \<times> vfs) run option" where
  "VFS_Touch fresh pad name s = in_parent fresh pad name (\<lambda>file d. on_fs (fst d) (\<lambda>e. made (Touch fresh file (snd d) e))) s"

definition VFS_MkDir :: "(ext2 \<Rightarrow> nat) \<Rightarrow> (ds_string \<Rightarrow> u8) \<Rightarrow> u8 list \<Rightarrow> ds_string \<Rightarrow> vfs \<Rightarrow> (bool \<times> vfs) run option" where
  "VFS_MkDir fresh pad mem name s = in_parent fresh pad name (\<lambda>file d. on_fs (fst d) (\<lambda>e. made (MkDir fresh mem file (snd d) e))) s"

definition VFS_Remove :: "(ext2 \<Rightarrow> nat) \<Rightarrow> (ds_string \<Rightarrow> u8) \<Rightarrow> ds_string \<Rightarrow> vfs \<Rightarrow> (bool \<times> vfs) run option" where
  "VFS_Remove fresh pad name s = in_parent fresh pad name (\<lambda>file d. at_handle d (Ext2_VNode.Remove file)) s"

definition VFS_SymLink :: "(ext2 \<Rightarrow> nat) \<Rightarrow> (ds_string \<Rightarrow> u8) \<Rightarrow> ds_string \<Rightarrow> ds_string \<Rightarrow> vfs \<Rightarrow> (bool \<times> vfs) run option" where
  "VFS_SymLink fresh pad name target s = in_parent fresh pad target (\<lambda>file d. on_fs (fst d) (SymLink fresh file name (snd d))) s"

definition VFS_Unlink :: "(ext2 \<Rightarrow> nat) \<Rightarrow> (ds_string \<Rightarrow> u8) \<Rightarrow> ds_string \<Rightarrow> ds_string \<Rightarrow> vfs \<Rightarrow> (bool \<times> vfs) run option" where
  "VFS_Unlink fresh pad name target s = in_parent fresh pad target (\<lambda>file d. at_handle d (Unlink file)) s"

definition FindVNode ::
  "(ext2 \<Rightarrow> nat) \<Rightarrow> (ds_string \<Rightarrow> u8) \<Rightarrow> ds_string \<Rightarrow> bool \<Rightarrow> bool \<Rightarrow> vfs \<Rightarrow> (handle option \<times> vfs) run option"
where
  "FindVNode fresh pad filename create pin s =
     (if create then
        (case DecomposePath filename of
           None \<Rightarrow> Some Overrun
         | Some (dir, file) \<Rightarrow>
             run_bind (if String_eq dir [47, 0] then Some (Ret (root s, s)) else root_Lookup fresh pad dir s) (\<lambda>(r, s).
               case r of
                 None \<Rightarrow> Some (Ret (None, s))
               | Some d \<Rightarrow>
                   run_bind (on_fs (fst d) (Touch fresh file (snd d)) s)
                     (\<lambda>(r, s). Some (Ret (map_option (Pair (fst d)) r, release_vnode d s)))))
      else if pin then (case root s of None \<Rightarrow> Some Overrun | Some r \<Rightarrow> LookupAndPin fresh pad filename r s)
      else root_Lookup fresh pad filename s)"

definition VFS_Link :: "(ext2 \<Rightarrow> nat) \<Rightarrow> (ds_string \<Rightarrow> u8) \<Rightarrow> ds_string \<Rightarrow> ds_string \<Rightarrow> vfs \<Rightarrow> (bool \<times> vfs) run option" where
  "VFS_Link fresh pad name target s =
     run_bind (FindVNode fresh pad name False False s) (\<lambda>(r, s).
       case r of
         None \<Rightarrow> Some (Ret (False, s))
       | Some c \<Rightarrow>
           run_bind (in_parent fresh pad target (\<lambda>file d s.
               run_bind (at_handle c (\<lambda>v e. Some (Ret (ino v, v, e))) s) (\<lambda>(i, s).
                 on_fs (fst d) (\<lambda>e. run_bind (Link fresh file i (snd d) e)
                   (\<lambda>(r, e). Some (Ret (r \<noteq> None, case r of None \<Rightarrow> e | Some a \<Rightarrow> drop_handle a e)))) s)) s)
             (\<lambda>(ok, s). Some (Ret (ok, release_vnode c s))))"

definition VFS_Open ::
  "(ext2 \<Rightarrow> nat) \<Rightarrow> (ds_string \<Rightarrow> u8) \<Rightarrow> ds_string \<Rightarrow> bool \<Rightarrow> bool \<Rightarrow> bool \<Rightarrow> vfs \<Rightarrow> (file_handle option \<times> vfs) run option"
where
  "VFS_Open fresh pad filename rd wr create s =
     run_bind (FindVNode fresh pad filename create True s) (\<lambda>(r, s).
       case r of
         None \<Rightarrow> Some (Ret (None, s))
       | Some v \<Rightarrow>
           Option.bind (Contains Hash (open_handles s) filename) (\<lambda>found.
           Option.bind
             (if found then map_option Ret (update_at Hash (open_handles s) filename Suc)
              else map_option (\<lambda>(_, t). Ret t) (Insert Hash (open_handles s) filename 1)) (\<lambda>t.
             run_bind (Some t) (\<lambda>t. Some (Ret (Some (FileHandle v filename rd wr), s\<lparr>open_handles := t\<rparr>))))))"

definition VFS_Close :: "file_handle \<Rightarrow> vfs \<Rightarrow> (bool \<times> file_handle \<times> vfs) run option" where
  "VFS_Close fh s = run_bind (SuspendIO fh s) (\<lambda>(fh, s). Some (Ret (True, fh, s)))"

section \<open>Mounting\<close>

definition ESP_GUID_LO :: u64 where "ESP_GUID_LO = 0x11d2f81fc12a7328"
definition ESP_GUID_HI :: u64 where "ESP_GUID_HI = 0x3bc93ec9a0004bba"

text \<open>The disk of a port: its sectors and whether a transfer succeeds. The result may hold a null pointer.\<close>

type_synonym port_disk = "(u64 \<Rightarrow> u8 list) \<times> (u64 \<Rightarrow> nat \<Rightarrow> bool \<Rightarrow> bool)"

definition GetRootVNode ::
  "(ext2 \<Rightarrow> nat) \<Rightarrow> port_disk \<Rightarrow> gpt_entry \<Rightarrow> vfs \<Rightarrow> (handle option option \<times> vfs) run option"
where
  "GetRootVNode fresh dev part s =
     (if part_type_guid_lo part = ESP_GUID_LO \<and> part_type_guid_hi part = ESP_GUID_HI then
        (case Ext2Mount (start_lba part) (fst dev) (snd dev) of
           None \<Rightarrow> Some Overrun
         | Some e \<Rightarrow>
             (case ReadRootDir (fresh e) e of
                None \<Rightarrow> Some Overrun
              | Some (r, e) \<Rightarrow> Some (Ret (Some (map_option (Pair (length (mounts s))) r), s\<lparr>mounts := mounts s @ [e]\<rparr>))))
      else Some (Ret (None, s)))"

definition no_vfs :: vfs where
  "no_vfs = \<lparr>mounts = [], mnt_tabs = Map.empty, mnt_roots = [], root = None, open_handles = HashMap 1\<rparr>"

definition VFS_entry :: "(ext2 \<Rightarrow> nat) \<Rightarrow> port_disk \<Rightarrow> gpt_entry \<Rightarrow> vfs run option" where
  "VFS_entry fresh dev part =
     run_bind (GetRootVNode fresh dev part no_vfs) (\<lambda>(r, s). Some (Ret (case r of None \<Rightarrow> s | Some p \<Rightarrow> s\<lparr>root := p\<rparr>)))"

definition VFS_part :: "(ext2 \<Rightarrow> nat) \<Rightarrow> port_disk \<Rightarrow> gpt_table \<Rightarrow> nat \<Rightarrow> vfs run option" where
  "VFS_part fresh dev gpt part_num =
     (case GetNthPartition part_num gpt of
        None \<Rightarrow> Some Overrun
      | Some None \<Rightarrow> Some (Ret no_vfs)
      | Some (Some part) \<Rightarrow> VFS_entry fresh dev part)"

definition VFS_Mount ::
  "(ext2 \<Rightarrow> nat) \<Rightarrow> (ds_string \<Rightarrow> u8) \<Rightarrow> ds_string \<Rightarrow> port_disk \<Rightarrow> gpt_table \<Rightarrow> nat \<Rightarrow> vfs \<Rightarrow> (bool \<times> vfs) run option"
where
  "VFS_Mount fresh pad mnt_path_str dev gpt part_num s =
     (case DecomposePath mnt_path_str of
        None \<Rightarrow> Some Overrun
      | Some (dir, file) \<Rightarrow>
          (case root s of
             None \<Rightarrow> Some Overrun
           | Some r \<Rightarrow>
               run_bind (LookupAndPin fresh pad dir r s) (\<lambda>(p, s).
                 case p of
                   None \<Rightarrow> Some (Ret (False, s))
                 | Some mnt_parent \<Rightarrow>
                     (case GetNthPartition part_num gpt of
                        None \<Rightarrow> Some Overrun
                      | Some None \<Rightarrow> Some (Ret (False, release_vnode mnt_parent s))
                      | Some (Some part) \<Rightarrow>
                          run_bind (GetRootVNode fresh dev part s) (\<lambda>(m, s).
                            case m of
                              None \<Rightarrow> Some (Ret (False, release_vnode mnt_parent s))
                            | Some None \<Rightarrow> Some Overrun
                            | Some (Some mnt_root) \<Rightarrow>
                                map_option (\<lambda>(_, s). Ret (True, release_vnode mnt_parent (release_vnode mnt_root s)))
                                  (VNode_Mount file mnt_root mnt_parent s))))))"

definition VFS_Unmount :: "(ext2 \<Rightarrow> nat) \<Rightarrow> (ds_string \<Rightarrow> u8) \<Rightarrow> ds_string \<Rightarrow> vfs \<Rightarrow> (bool \<times> vfs) run option" where
  "VFS_Unmount fresh pad mnt_path_str s =
     in_parent fresh pad mnt_path_str (\<lambda>file mnt_parent s.
       Option.bind (VNode_Unmount file mnt_parent s) (\<lambda>(ok, s).
         if \<not> ok then Some (Ret (False, s))
         else if GetNumMounts mnt_parent s = 0
         then run_bind (at_handle mnt_parent VNode_Unpin s) (\<lambda>(_, s). Some (Ret (True, s)))
         else Some (Ret (True, s)))) s"

end
