(* ===== verification/Vfs_Theorems.thy ===== *)
theory Vfs_Theorems
  imports Vfs
begin

text \<open>
  What the virtual file system does with names: how paths are taken apart, that a lookup follows the components of a
  path, why mounted file systems and the root directory are out of reach, and reading back through a handle.
\<close>

section \<open>Taking paths apart\<close>

definition plain :: "u8 list \<Rightarrow> bool" where
  "plain c \<longleftrightarrow> 0 \<notin> set c \<and> 47 \<notin> set c"

definition join :: "u8 list list \<Rightarrow> u8 list" where
  "join cs = concat (map (Cons 47) cs)"

lemma join_simps [simp]: "join [] = []" "join (c # cs) = 47 # c @ join cs"
  by (simp_all add: join_def)

lemma join_nul: "\<forall>c\<in>set cs. plain c \<Longrightarrow> 0 \<notin> set (join cs)"
  by (induction cs) (auto simp: plain_def)

text \<open>The string with which the last component of a path is looked up has the byte behind the path in it.\<close>

definition last_child :: "u8 \<Rightarrow> u8 list \<Rightarrow> ds_string" where
  "last_child p c = (if p = 0 then c @ [0, 0] else c @ [0, p, 0])"

lemma takeWhile_plain: "47 \<notin> set c \<Longrightarrow> takeWhile (\<lambda>x. x \<noteq> 47) (c @ xs) = c @ takeWhile (\<lambda>x. x \<noteq> 47) xs"
  by (induction c) auto

lemma path_end_last: "47 \<notin> set c \<Longrightarrow> path_end (47 # c @ [0]) = length c + 2"
  and path_end_more: "47 \<notin> set c \<Longrightarrow> path_end (47 # c @ 47 # xs) = length c + 1"
  by (simp_all add: path_end_def path_start_def takeWhile_plain)

lemma Path_child_last: "47 \<notin> set c \<Longrightarrow> Path_child p (47 # c @ [0]) = Some (last_child p c)"
  by (auto simp: Path_child_def path_end_last path_start_def String_buf_def last_child_def nth_append list_update_append)

lemma Path_child_more: "47 \<notin> set c \<Longrightarrow> Path_child p (47 # c @ 47 # xs) = Some (c @ [47, 0])"
  by (auto simp: Path_child_def path_end_more path_start_def String_buf_def nth_append list_update_append)

lemma Path_rest_last: "47 \<notin> set c \<Longrightarrow> length c < 2 ^ 31 \<Longrightarrow> Path_rest (47 # c @ [0]) = Some [0]"
  by (simp add: Path_rest_def path_end_last Substr_def Let_def String_cstr_eq)

lemma Path_rest_more:
  assumes "47 \<notin> set c" "0 \<notin> set c" "0 \<notin> set xs" "length c + length xs + 2 < 2 ^ 31"
  shows "Path_rest (47 # c @ 47 # xs @ [0]) = Some (47 # xs @ [0])"
  using Substr_text[of "47 # c @ 47 # xs" "length c + 1" "length (47 # c @ 47 # xs) + 1"] assms
  by (simp add: Path_rest_def path_end_more[of c "xs @ [0]"])

lemma DecomposePath_splits_text:
  assumes "0 \<notin> set d" "plain f" "length d + length f + 1 < 2 ^ 31"
  shows "DecomposePath (d @ 47 # f @ [0]) = Some (d @ [47, 0], f @ [0])" "DecomposePath (f @ [0]) = Some ([0], f @ [0])"
proof -
  have skip: "last_slash s (i + k) = last_slash s i"
    if "\<forall>j. i < j \<longrightarrow> j \<le> i + k \<longrightarrow> at_const s (int j) \<noteq> Some 47" for s i k
    using that
  proof (induction k)
    case (Suc k)
    then have "at_const s (int (Suc (i + k))) \<noteq> Some 47" by (simp del: of_nat_Suc)
    then show ?case using Suc by (simp del: of_nat_Suc)
  qed simp
  have at: "at_const s (int j) = Some (if j < length s then s ! j else 0)" for s j by (simp add: at_const_def)
  have f: "f ! i \<noteq> 47" if "i < length f" for i using that assms(2) by (metis nth_mem plain_def)
  let ?s = "d @ 47 # f @ [0]"
  have "last_slash ?s (length d + (length f + 2)) = last_slash ?s (length d)"
    using f by (intro skip) (auto simp: at nth_append nth_Cons' split: if_splits)
  also have "\<dots> = int (length d)"
  proof -
    have "at_const ?s (int (length d)) = Some 47" unfolding at by simp
    then show ?thesis by (cases "length d") (simp_all del: of_nat_Suc)
  qed
  finally have i: "last_slash ?s (length ?s) = int (length d)" by simp
  have "last_slash (f @ [0]) (0 + (length f + 1)) = last_slash (f @ [0]) 0"
    using f by (intro skip) (auto simp: at nth_append split: if_splits)
  also have "\<dots> = - 1" using f[of 0] by (cases f) (simp_all add: at_const_def)
  finally have i': "last_slash (f @ [0]) (length (f @ [0])) = - 1" by simp
  have nul: "0 \<notin> set (d @ 47 # f)" "0 \<notin> set f" using assms by (simp_all add: plain_def)
  have "Substr ?s 0 (int (length d) + 1) = Some (d @ [47, 0])" "Substr ?s (int (length d) + 1) (int (length ?s)) = Some (f @ [0])"
    using Substr_text[OF nul(1), of 0 "length d + 1"] Substr_text[OF nul(1), of "length d + 1" "length ?s"] assms(3) by (simp_all add: add.commute)
  moreover have "Substr (f @ [0]) 0 0 = Some [0]" "Substr (f @ [0]) 0 (int (length (f @ [0]))) = Some (f @ [0])"
    using Substr_text[OF nul(2), of 0 0] Substr_text[OF nul(2), of 0 "length f + 1"] assms(3) by (simp_all add: add.commute)
  ultimately show "DecomposePath (d @ 47 # f @ [0]) = Some (d @ [47, 0], f @ [0])" "DecomposePath (f @ [0]) = Some ([0], f @ [0])"
    using i i' by (simp_all add: DecomposePath_def)
qed

text \<open>
  \<open>DecomposePath\<close> splits a path behind its last slash; a path without one has an empty directory.
\<close>
theorem DecomposePath_splits:
  assumes "0 \<notin> set d" "plain f" "length d + length f + 1 < 2 ^ 31"
  shows "DecomposePath (d @ 47 # f @ [0]) = Some (d @ [47, 0], f @ [0]) \<and> DecomposePath (f @ [0]) = Some ([0], f @ [0])"
  using DecomposePath_splits_text[OF assms] by simp

section \<open>Following a path\<close>

text \<open>The reference: one component after the other.\<close>

fun Walk :: "(ext2 \<Rightarrow> nat) \<Rightarrow> (ds_string \<Rightarrow> u8) \<Rightarrow> u8 list list \<Rightarrow> handle \<Rightarrow> vfs \<Rightarrow> (handle option \<times> vfs) run option" where
  "Walk fresh pad [] h s = Some (Ret (Some h, s))"
| "Walk fresh pad [c] h s = Lookup_child fresh (last_child (pad (47 # c @ [0])) c) h s"
| "Walk fresh pad (c # d # cs) h s =
     run_bind (Lookup_child fresh (c @ [47, 0]) h s) (\<lambda>(r, s).
       case r of
         None \<Rightarrow> Some (Ret (None, s))
       | Some x \<Rightarrow> run_bind (Walk fresh pad (d # cs) x s) (\<lambda>(r, s). Some (Ret (r, release_vnode x s))))"

lemma walk_components:
  assumes "cs \<noteq> []" "\<forall>c\<in>set cs. plain c \<and> c \<noteq> []" "length (join cs) < 2 ^ 31"
  shows "VNode_Lookup fresh pad (join cs @ [0]) h s = Walk fresh pad cs h s"
  using assms
proof (induction fresh pad cs h s rule: Walk.induct)
  case (2 fresh pad c h s)
  have empty: "String_eq [0] [0]" using String_eq_stored[of "[0]" "[0]"] by (simp add: str_ok_def)
  have c: "47 \<notin> set c" "length c < 2 ^ 31" using "2.prems" by (simp_all add: plain_def)
  have "run_bind m (\<lambda>(r, s). case r of None \<Rightarrow> Some (Ret (None, s)) | Some c \<Rightarrow> Some (Ret (Some c, s))) = m"
    for m :: "(handle option \<times> vfs) run option"
    by (cases m; cases "the m") (auto split: option.splits)
  then show ?case
    using Path_child_last[OF c(1)] Path_rest_last[OF c] empty by (subst VNode_Lookup.simps) (simp cong: option.case_cong)
next
  case (3 fresh pad c d cs h s)
  have c: "47 \<notin> set c" "0 \<notin> set c" and d: "d \<noteq> []" using "3.prems" by (simp_all add: plain_def)
  have nul: "0 \<notin> set (d @ join cs)" using "3.prems"(2) join_nul[of "d # cs"] by simp
  have "str_ok ((47 # d @ join cs) @ [0])" by (rule str_ok_cstr) (use nul in simp)
  then have "\<not> String_eq (47 # d @ join cs @ [0]) [0]" "\<not> String_eq (47 # d @ join cs @ [0]) [47, 0]"
    using String_eq_stored[of "(47 # d @ join cs) @ [0]"] "3.prems"(3) d by auto
  moreover have "Path_rest (47 # c @ 47 # (d @ join cs) @ [0]) = Some (47 # (d @ join cs) @ [0])"
    using c nul "3.prems"(3) by (intro Path_rest_more) simp_all
  ultimately have "VNode_Lookup fresh pad (join (c # d # cs) @ [0]) h s =
      run_bind (Lookup_child fresh (c @ [47, 0]) h s) (\<lambda>(r, s). case r of None \<Rightarrow> Some (Ret (None, s))
        | Some x \<Rightarrow> run_bind (VNode_Lookup fresh pad (join (d # cs) @ [0]) x s) (\<lambda>(r, s). Some (Ret (r, release_vnode x s))))"
    using Path_child_more[OF c(1), of _ "d @ join cs @ [0]"] by (subst VNode_Lookup.simps) (simp cong: option.case_cong)
  moreover have "VNode_Lookup fresh pad (join (d # cs) @ [0]) x t = Walk fresh pad (d # cs) x t" for x t
    using "3.prems" by (intro "3.IH") simp_all
  ultimately show ?case by (simp cong: option.case_cong)
qed simp

text \<open>
  C36: looking up a path is looking up its components one after the other, each in the directory found before, and
  it returns whenever these lookups do; directories on the way are released.
\<close>
theorem Lookup_components:
  assumes "cs \<noteq> []" "\<forall>c\<in>set cs. plain c \<and> c \<noteq> []" "length (join cs) < 2 ^ 31"
  shows "VNode_Lookup fresh pad (join cs @ [0]) h s = Walk fresh pad cs h s"
  using assms by (rule walk_components)

section \<open>Mount points\<close>

definition mnt_names_ok :: "vfs \<Rightarrow> handle \<Rightarrow> bool" where
  "mnt_names_ok s h \<longleftrightarrow>
     hm_inv Hash (mnt_tab s h) \<and> (\<forall>k v. hm_abs (mnt_tab s h) k = Some v \<longrightarrow> (\<exists>f. plain f \<and> k = f @ [0]))"

lemma child_not_name:
  assumes "plain c" "plain f"
  shows "last_child p c \<noteq> f @ [0]" "c @ [47, 0] \<noteq> f @ [0]"
proof -
  have "c @ 0 # ys \<noteq> f" "c @ [47] \<noteq> f" for ys using assms by (auto simp: plain_def)
  from this(1)[of "[]"] this(1)[of "[p]"] this(2) show "last_child p c \<noteq> f @ [0]" "c @ [47, 0] \<noteq> f @ [0]"
    using append_same_eq[of "c @ [0]" "[0]" f] append_same_eq[of "c @ [0, p]" "[0]" f] append_same_eq[of "c @ [47]" "[0]" f]
    by (auto simp: last_child_def)
qed

text \<open>The tables of mount points of every directory hold names, as \<open>VFS::Mount\<close> stores them.\<close>

definition mnts_ok :: "vfs \<Rightarrow> bool" where
  "mnts_ok s \<longleftrightarrow> (\<forall>h. mnt_names_ok s h)"

definition path_ok :: "u8 list list \<Rightarrow> bool" where
  "path_ok cs \<longleftrightarrow> cs \<noteq> [] \<and> (\<forall>c\<in>set cs. plain c \<and> c \<noteq> []) \<and> length (join cs) < 2 ^ 31"

lemma mnts_ok_tabs: "mnt_tabs s' = mnt_tabs s \<Longrightarrow> mnts_ok s' = mnts_ok s"
  by (simp add: mnts_ok_def mnt_names_ok_def mnt_tab_def)

lemma mnts_ok_release: "mnts_ok s \<Longrightarrow> mnts_ok (release_vnode c s)"
proof -
  have "hm_inv Hash (HashMap 1 :: (ds_string, handle) hash_map)" "hm_abs (HashMap 1 :: (ds_string, handle) hash_map) = Map.empty"
    by (rule hm_inv_HashMap; simp)+
  then show "mnts_ok s \<Longrightarrow> mnts_ok (release_vnode c s)"
    by (auto simp: mnts_ok_def mnt_names_ok_def mnt_tab_def release_vnode_def Let_def)
qed

lemma at_handle_tabs: "at_handle h m s = Some (Ret (x, s')) \<Longrightarrow> mnt_tabs s' = mnt_tabs s"
  by (auto simp: at_handle_def on_fs_def run_bind_Ret split: if_splits)

lemma on_fs_tabs: "on_fs m f s = Some (Ret (x, s')) \<Longrightarrow> mnt_tabs s' = mnt_tabs s"
  by (auto simp: on_fs_def run_bind_Ret split: if_splits)

lemma Lookup_child_stays:
  assumes "mnts_ok s" "plain c" "child = last_child p c \<or> child = c @ [47, 0]"
    and "Lookup_child fresh child h s = Some (Ret (r, s'))"
  shows "mnts_ok s'" "r = Some x \<Longrightarrow> fst x = fst h"
proof -
  obtain raw s1 where raw: "at_handle h (DirEntry_m child) s = Some (Ret (raw, s1))"
    using assms(4) by (auto simp: Lookup_child_def run_bind_Ret)
  note tabs = at_handle_tabs[OF raw]
  have ok: "mnt_names_ok s1 h" using assms(1) mnts_ok_tabs[OF tabs] unfolding mnts_ok_def by blast
  have "hm_abs (mnt_tab s1 h) child = None"
  proof (cases "hm_abs (mnt_tab s1 h) child")
    case (Some r)
    then obtain f where "plain f" "child = f @ [0]" using ok unfolding mnt_names_ok_def by blast
    then show ?thesis using child_not_name[OF assms(2)] assms(3) by metis
  qed
  then have none: "Hash_Map.Lookup Hash (mnt_tab s1 h) child = Some None"
    using ok hmap.lookup_abs[of Hash "mnt_tab s1 h" child] by (simp add: mnt_names_ok_def)
  have "mnt_tabs s' = mnt_tabs s \<and> (r = Some x \<longrightarrow> fst x = fst h)"
  proof (cases raw)
    case None
    then show ?thesis using assms(4) raw tabs none by (simp add: Lookup_child_def)
  next
    case (Some e)
    then show ?thesis using assms(4) raw tabs by (auto simp: Lookup_child_def run_bind_Ret dest: on_fs_tabs split: prod.splits)
  qed
  then show "mnts_ok s'" "r = Some x \<Longrightarrow> fst x = fst h" using assms(1) mnts_ok_tabs by blast+
qed

lemma Walk_stays:
  assumes "mnts_ok s" "\<forall>c\<in>set cs. plain c" "Walk fresh pad cs h s = Some (Ret (r, s'))"
  shows "mnts_ok s' \<and> (r = Some x \<longrightarrow> fst x = fst h)"
  using assms
proof (induction fresh pad cs h s arbitrary: r s' rule: Walk.induct)
  case (2 fresh pad c h s)
  have "plain c" "Lookup_child fresh (last_child (pad (47 # c @ [0])) c) h s = Some (Ret (r, s'))" using "2.prems" by simp_all
  then show ?case using Lookup_child_stays[OF "2.prems"(1) _ disjI1[OF refl]] by blast
next
  case (3 fresh pad c d cs h s)
  obtain q s1 where q: "Lookup_child fresh (c @ [47, 0]) h s = Some (Ret (q, s1))"
    using "3.prems"(3) by (auto simp: run_bind_Ret)
  have s1: "mnts_ok s1" "\<And>y. q = Some y \<Longrightarrow> fst y = fst h"
    using Lookup_child_stays[OF "3.prems"(1) _ _ q, of c] "3.prems"(2) by auto
  show ?case
  proof (cases q)
    case None
    then show ?thesis using "3.prems"(3) q s1 by simp
  next
    case (Some y)
    obtain r1 s2 where w: "Walk fresh pad (d # cs) y s1 = Some (Ret (r1, s2))" "r = r1" "s' = release_vnode y s2"
      using "3.prems"(3) q Some by (auto simp: run_bind_Ret)
    then show ?thesis using "3.IH"[OF Some s1(1) _ w(1)] "3.prems"(2) s1(2)[OF Some] mnts_ok_release by auto
  qed
qed auto

text \<open>
  Later states: further file systems are mounted under names that are not in use, and paths are looked up, in any order.
\<close>

inductive mnt_run :: "(ext2 \<Rightarrow> nat) \<Rightarrow> (ds_string \<Rightarrow> u8) \<Rightarrow> vfs \<Rightarrow> vfs \<Rightarrow> bool" for fresh pad s where
  start: "mnt_run fresh pad s s"
| mount: "mnt_run fresh pad s t \<Longrightarrow> plain f \<Longrightarrow> hm_room (Suc n) (mnt_tab t d) \<Longrightarrow> hm_abs (mnt_tab t d) (f @ [0]) = None \<Longrightarrow>
    VNode_Mount (f @ [0]) mnt_root d t = Some (ok, t') \<Longrightarrow> mnt_run fresh pad s t'"
| lookup: "mnt_run fresh pad s t \<Longrightarrow> path_ok cs \<Longrightarrow> VNode_Lookup fresh pad (join cs @ [0]) d t = Some (Ret (r, t')) \<Longrightarrow>
    mnt_run fresh pad s t'"

lemma VNode_Lookup_stays:
  assumes "mnts_ok t" "path_ok cs" "VNode_Lookup fresh pad (join cs @ [0]) d t = Some (Ret (r, t'))"
  shows "mnts_ok t'" "r = Some x \<Longrightarrow> fst x = fst d"
  using Walk_stays[OF assms(1), of cs fresh pad d r t' x] walk_components[of cs fresh pad d t] assms(2,3)
  by (auto simp: path_ok_def)

lemma VNode_Mount_stores:
  assumes "mnts_ok s" "hm_room (Suc n) (mnt_tab s h)" "plain f" "hm_abs (mnt_tab s h) (f @ [0]) = None"
  shows "\<exists>s'. VNode_Mount (f @ [0]) mnt_root h s = Some (True, s') \<and> hm_abs (mnt_tab s' h) (f @ [0]) = Some mnt_root \<and> mnts_ok s'"
proof -
  have ok: "hm_inv Hash (mnt_tab s h)" using assms(1) unfolding mnts_ok_def mnt_names_ok_def by blast
  obtain t where t: "Insert Hash (mnt_tab s h) (f @ [0]) mnt_root = Some (True, t)" "hm_inv Hash t"
    "hm_abs t = (hm_abs (mnt_tab s h))(f @ [0] \<mapsto> mnt_root)"
    using hmap.insert_fresh[OF ok assms(2,4), of mnt_root] by auto
  let ?s = "s\<lparr>mnt_tabs := (mnt_tabs s)(h \<mapsto> t), mnt_roots := mnt_root # mnt_roots s\<rparr>"
  have tab: "mnt_tab ?s d = (if d = h then t else mnt_tab s d)" for d by (simp add: mnt_tab_def)
  have old: "mnt_names_ok s d" for d using assms(1) unfolding mnts_ok_def by blast
  have "\<exists>f. plain f \<and> k = f @ [0]" if "hm_abs t k = Some v" for k v
  proof (cases "k = f @ [0]")
    case False
    then have "hm_abs (mnt_tab s h) k = Some v" using that t(3) by simp
    then show ?thesis using old[of h] unfolding mnt_names_ok_def by blast
  qed (use assms(3) in blast)
  then have "mnt_names_ok ?s d" for d
    using old[of d] t(2) unfolding mnt_names_ok_def tab by (auto split: if_splits simp del: split_paired_All split_paired_Ex)
  then have "mnts_ok ?s" by (simp add: mnts_ok_def)
  moreover have "VNode_Mount (f @ [0]) mnt_root h s = Some (True, ?s)" using t(1) by (simp add: VNode_Mount_def)
  ultimately show ?thesis using t(3) tab[of h] by (intro exI[of _ ?s]) simp
qed

lemma mnt_run_ok: "mnt_run fresh pad s t \<Longrightarrow> mnts_ok s \<Longrightarrow> mnts_ok t"
proof (induction rule: mnt_run.induct)
  case (mount t f n d mnt_root ok t')
  then show ?case using VNode_Mount_stores[of t n d f mnt_root] by auto
next
  case (lookup t cs d r t')
  then show ?case using VNode_Lookup_stays(1) by blast
qed

text \<open>
  C40: a file system that is mounted under a name is never found. The name is stored in the table of the directory, but
  whatever path is looked up from whatever directory, at once or after further mounts and lookups, the vnode that is found
  is of the file system where the lookup began: a component is looked up as a string with one byte more than a name, so
  it equals no name in a table.
\<close>
theorem Mounted_never_found:
  assumes "mnts_ok s" "hm_room (Suc n) (mnt_tab s h)" "plain f" "hm_abs (mnt_tab s h) (f @ [0]) = None"
  shows "\<exists>s'. VNode_Mount (f @ [0]) mnt_root h s = Some (True, s') \<and> hm_abs (mnt_tab s' h) (f @ [0]) = Some mnt_root \<and>
    (\<forall>fresh pad t cs d x t'. mnt_run fresh pad s' t \<longrightarrow> path_ok cs \<longrightarrow>
       VNode_Lookup fresh pad (join cs @ [0]) d t = Some (Ret (Some x, t')) \<longrightarrow> fst x = fst d)"
proof -
  obtain s' where s': "VNode_Mount (f @ [0]) mnt_root h s = Some (True, s')" "hm_abs (mnt_tab s' h) (f @ [0]) = Some mnt_root" "mnts_ok s'"
    using VNode_Mount_stores[OF assms] by blast
  then show ?thesis using mnt_run_ok VNode_Lookup_stays(2) by (intro exI[of _ s']) blast
qed

section \<open>Directories of one block\<close>

definition dir_data :: "ext2 \<Rightarrow> vnode \<Rightarrow> u8 list" where
  "dir_data e v = data_block e (i_block (inode_of v) ! 0)"

definition one_block_dir :: "ext2 \<Rightarrow> vnode \<Rightarrow> nat list \<Rightarrow> bool" where
  "one_block_dir e v xs \<longleftrightarrow>
     map_ok e \<and> disk_ok e \<and> GetExt2FileType (inode_of v) = EXT2_S_IFDIR \<and> i_size (inode_of v) = block_size e \<and>
     i_blocks (inode_of v) = 1 \<and> mapped (inode_of v) e 0 1 \<and> dir_chain (dir_data e v) 0 xs \<and> xs \<noteq> [] \<and>
     (\<forall>x\<in>set xs. 0 < e_name_len (dir_data e v) x \<and> 0 \<notin> set (entry_name (dir_data e v) x))"

definition dir_find :: "ext2 \<Rightarrow> vnode \<Rightarrow> nat list \<Rightarrow> u8 list \<Rightarrow> nat option" where
  "dir_find e v xs t = find (\<lambda>x. prefix (entry_name (dir_data e v) x) t) xs"

lemma GetDirEntry_one_block:
  assumes "one_block_dir e v xs" "0 \<notin> set t"
  shows "GetDirEntry (t @ 0 # junk) (inode_of v) e =
    (case dir_find e v xs t of
       Some x \<Rightarrow> Some (Ret (Some (i_block (inode_of v) ! 0, x, dir_data e v), inode_of v, e))
     | None \<Rightarrow> Some Overrun)"
proof -
  let ?nd = "inode_of v" let ?p = "i_block ?nd ! 0"
  have d: "map_ok e" "disk_ok e" "GetExt2FileType ?nd = EXT2_S_IFDIR" "i_size ?nd = block_size e" "i_blocks ?nd = 1"
    "mapped ?nd e 0 1" "dir_chain (dir_data e v) 0 xs" "xs \<noteq> []"
    "\<forall>x\<in>set xs. 0 < e_name_len (dir_data e v) x \<and> 0 \<notin> set (entry_name (dir_data e v) x)"
    using assms(1) by (simp_all add: one_block_dir_def)
  have m: "mount_ok e" using d(1) by (simp add: map_ok_def)
  have p: "in_range e ?p" using d(6) by (simp add: mapped_def file_block_def)
  have run: "file_run ?nd e 0 [?p]" "run_ok e 0 (length [?p])"
    using d(6) p by (simp_all add: file_run_def file_block_def in_range_def mapped_def)
  have ext: "GetOrCreateExtents 0 1 False False ?nd e = Some (Ret (Some [(?p, 1)], ?nd, e))"
    using GetOrCreateExtents_run[OF d(1) run(2,1), of False] by (simp add: AddToExtentList_def)
  have one: "expand [(?p, 1)] = [?p]"
    using extent_blocks_1[OF in_range_not_max[OF m p]] by (simp add: expand_def)
  have rd: "ReadBlock ?p e = Some (dir_data e v)" using ReadBlock_ok[OF d(2)] p by (simp add: in_range_def dir_data_def)
  have len: "length (dir_data e v) = unat (block_size e)" by (simp add: dir_data_def length_data_block[OF m])
  then have "length (dir_data e v) < 2 ^ 64"
    using unsigned_less[of "block_size e", where 'a = nat] by (simp add: less_trans[of _ "2 ^ 32"])
  from Dir_search_text[OF d(7,8) this assms(2) d(9), of junk]
  have "Dir_search (t @ 0 # junk) (dir_data e v) 0 (unat (block_size e)) =
      (case dir_find e v xs t of Some x \<Rightarrow> Found x | None \<Rightarrow> Past_end)" by (simp add: len dir_find_def)
  then show ?thesis
    using d(3-5) ext one rd by (simp add: GetDirEntry_def split: option.splits)
qed

lemma last_child_text: "\<exists>junk. last_child p c = c @ 0 # junk" "\<exists>junk. c @ [47, 0] = (c @ [47]) @ 0 # junk"
  by (auto simp: last_child_def)

lemma at_handle_same:
  assumes "m < length (mounts s)" "vnodes (mounts s ! m) a = Some v" "f v (mounts s ! m) = Some (Ret (x, v, mounts s ! m))"
  shows "at_handle (m, a) f s = Some (Ret (x, s))"
proof -
  have "(mounts s ! m)\<lparr>vnodes := (vnodes (mounts s ! m))(a \<mapsto> v)\<rparr> = mounts s ! m" using assms(2) by (simp add: fun_upd_idem)
  then show ?thesis using assms by (simp add: at_handle_def on_fs_def on_vnode_def)
qed

definition dir_at :: "vfs \<Rightarrow> handle \<Rightarrow> vnode \<Rightarrow> nat list \<Rightarrow> bool" where
  "dir_at s h v xs \<longleftrightarrow>
     fst h < length (mounts s) \<and> vnodes (mounts s ! fst h) (snd h) = Some v \<and> one_block_dir (mounts s ! fst h) v xs"

lemma Lookup_child_dir:
  assumes "dir_at s h v xs" "0 \<notin> set t" "e = mounts s ! fst h"
  shows "Lookup_child fresh (t @ 0 # junk) h s =
    (case dir_find e v xs t of
       Some x \<Rightarrow> run_bind (on_fs (fst h) (GetVNode_m fresh (e_inode (dir_data e v) x)) s)
                  (\<lambda>(r, s). Some (Ret (map_option (Pair (fst h)) r, s)))
     | None \<Rightarrow> Some Overrun)"
proof -
  obtain m a where h: "h = (m, a)" by (cases h)
  have d: "m < length (mounts s)" "vnodes (mounts s ! m) a = Some v" "one_block_dir (mounts s ! m) v xs" "e = mounts s ! m"
    using assms(1,3) by (simp_all add: dir_at_def h)
  note g = GetDirEntry_one_block[OF d(3) assms(2), of junk]
  show ?thesis
  proof (cases "dir_find e v xs t")
    case None
    then show ?thesis
      using g d by (simp add: Lookup_child_def at_handle_def on_fs_def on_vnode_def DirEntry_m_def h)
  next
    case (Some x)
    have "DirEntry_m (t @ 0 # junk) v e = Some (Ret (Some (i_block (inode_of v) ! 0, x, dir_data e v), v, e))"
      unfolding DirEntry_m_def d(4) g Some[unfolded d(4)] by simp
    then have "at_handle h (DirEntry_m (t @ 0 # junk)) s = Some (Ret (Some (i_block (inode_of v) ! 0, x, dir_data e v), s))"
      unfolding h using d by (intro at_handle_same) simp_all
    then show ?thesis using Some by (simp add: Lookup_child_def h)
  qed
qed

section \<open>The root directory\<close>

lemma Lookup_root_overruns:
  assumes "dir_at s h v xs"
  shows "VNode_Lookup fresh pad [47, 0] h s = Some Overrun"
proof -
  have "dir_find (mounts s ! fst h) v xs [] = None"
  proof -
    have "entry_name (dir_data (mounts s ! fst h) v) x \<noteq> []" if "x \<in> set xs" for x
    proof -
      let ?b = "dir_data (mounts s ! fst h) v"
      have "dir_chain ?b 0 xs" "0 < e_name_len ?b x" using assms that by (simp_all add: dir_at_def one_block_dir_def)
      moreover have "8 + e_name_len ?b x + x \<le> length ?b" if "dir_chain ?b off ys" "x \<in> set ys" for off ys
        using that by (induction ys arbitrary: off) (auto dest: dir_chain_le)
      ultimately show ?thesis using \<open>x \<in> set xs\<close> by (force simp: entry_name_def)
    qed
    then show ?thesis by (auto simp: dir_find_def find_None_iff)
  qed
  then have "Lookup_child fresh (last_child p []) h s = Some Overrun" for p
    using Lookup_child_dir[OF assms, of "[]"] last_child_text(1)[of p "[]"] by auto
  then show ?thesis
    using Path_child_last[of "[]"] by (subst VNode_Lookup.simps) simp
qed

text \<open>
  C39: in a root directory of one block, \<open>Touch\<close>, \<open>MkDir\<close>, \<open>Remove\<close>, \<open>SymLink\<close>, \<open>Unlink\<close>, \<open>Mount\<close> and \<open>Unmount\<close> of the path
  of a file never reach it: they look the directory up as "/", which searches the root directory for an empty name; no
  entry of a well-formed directory has one, and the search runs over the end of the block. \<open>Open\<close> (which treats "/"
  separately) and the first argument of \<open>Link\<close> (looked up as a whole path) are not among them.
\<close>
theorem Root_files_unreachable:
  assumes "root s = Some h" "dir_at s h v xs" "plain f" "length f < 2 ^ 30"
  shows "VFS_Touch fresh pad (47 # f @ [0]) s = Some Overrun \<and>
    VFS_MkDir fresh pad mem (47 # f @ [0]) s = Some Overrun \<and>
    VFS_Remove fresh pad (47 # f @ [0]) s = Some Overrun \<and>
    VFS_SymLink fresh pad name (47 # f @ [0]) s = Some Overrun \<and>
    VFS_Unlink fresh pad name (47 # f @ [0]) s = Some Overrun \<and>
    VFS_Mount fresh pad (47 # f @ [0]) dev gpt part_num s = Some Overrun \<and>
    VFS_Unmount fresh pad (47 # f @ [0]) s = Some Overrun"
proof -
  have split: "DecomposePath (47 # f @ [0]) = Some ([47, 0], f @ [0])"
    using DecomposePath_splits_text[of "[]" f] assms(3,4) by simp
  have "root_Lookup fresh pad [47, 0] s = Some Overrun"
    using Lookup_root_overruns[OF assms(2)] assms(1) by (simp add: root_Lookup_def)
  then have "in_parent fresh pad (47 # f @ [0]) op s = Some Overrun" for op by (simp add: in_parent_def split)
  moreover have "VFS_Mount fresh pad (47 # f @ [0]) dev gpt part_num s = Some Overrun"
    using Lookup_root_overruns[OF assms(2)] assms(1) by (simp add: VFS_Mount_def split LookupAndPin_def)
  ultimately show ?thesis
    by (simp add: VFS_Touch_def VFS_MkDir_def VFS_Remove_def VFS_SymLink_def VFS_Unlink_def VFS_Unmount_def)
qed

text \<open>
  With a partition table that fills its sectors, no partition is ever mounted and no file system made from a partition
  number: \<open>GetNthPartition\<close> has no entry for any number.
\<close>
theorem Mount_never_succeeds:
  assumes "length (concat sectors) = num_part_entries hdr * entry_size hdr" "part_num * entry_size hdr < 2 ^ 64"
  shows "VFS_Mount fresh pad path dev (hdr, Some sectors) part_num s \<noteq> Some (Ret (True, s')) \<and>
   VFS_part fresh dev (hdr, Some sectors) part_num = (if part_num < num_part_entries hdr then Some (Ret no_vfs) else Some Overrun)"
proof
  note gpt = GetNthPartition_never[OF assms]
  then show "VFS_Mount fresh pad path dev (hdr, Some sectors) part_num s \<noteq> Some (Ret (True, s'))"
    by (cases "part_num < num_part_entries hdr") (auto simp: VFS_Mount_def run_bind_Ret split: option.splits prod.splits)
  show "VFS_part fresh dev (hdr, Some sectors) part_num = (if part_num < num_part_entries hdr then Some (Ret no_vfs) else Some Overrun)"
    using gpt by (simp add: VFS_part_def)
qed

section \<open>Opening a file\<close>

lemma GetVNode_fresh:
  assumes "pinned_vnodes e i = None" "num_pins e i = None" "inode_tab_cache e (inode_group e i) = Some tab"
    and "table_off e i < 2 ^ 32" "table_off e i + 128 \<le> length (raw tab)"
  obtains e' where "GetVNode c i e = Some (Some c, e')"
    "vnodes e' c = Some \<lparr>inode_of = parse_inode (take 128 (drop (table_off e i) (raw tab))), ino = i\<rparr>"
    "pinned_vnodes e' = pinned_vnodes e" "num_pins e' = num_pins e"
proof -
  let ?e = "DiskMem_WriteBack tab (new_vnode c \<lparr>inode_of = parse_inode (take 128 (drop (table_off e i) (raw tab))), ino = i\<rparr> e)"
  have "GetVNode c i e = Some (Some c, ?e)"
    using assms table_off_word[OF assms(4)] by (simp add: GetVNode_def ReadVNode_def ReadINodeTable_def Let_def)
  moreover have "vnodes ?e c = Some \<lparr>inode_of = parse_inode (take 128 (drop (table_off e i) (raw tab))), ino = i\<rparr>"
    "pinned_vnodes ?e = pinned_vnodes e" "num_pins ?e = num_pins e"
    by (simp_all add: DiskMem_WriteBack_def disk_Write_def new_vnode_def)
  ultimately show thesis by (rule that)
qed

text \<open>
  C37: opening a file of a root directory of one block for the first time, with the inode table of its group cached and
  the inode inside the table, gives a handle to a new vnode with the inode that the cached table holds for the first
  matching entry; the vnode is pinned once and the file counted once. Closing the handle releases the pin, but the file
  stays counted.
\<close>
theorem Open_finds_file:
  assumes "root s = Some h" "dir_at s h v xs" "e = mounts s ! fst h" "plain t" "t \<noteq> []" "length t < 2 ^ 30"
    and "dir_find e v xs t = Some x" "i = e_inode (dir_data e v) x"
    and "pinned_vnodes e i = None" "num_pins e i = None" "inode_tab_cache e (inode_group e i) = Some tab"
    and "table_off e i < 2 ^ 32" "table_off e i + 128 \<le> length (raw tab)"
    and "hm_inv Hash (open_handles s)" "hm_room (Suc n) (open_handles s)" "hm_abs (open_handles s) (47 # t @ [0]) = None"
  shows "\<exists>fh s' fh2 s2 w. VFS_Open fresh pad (47 # t @ [0]) rd wr False s = Some (Ret (Some fh, s')) \<and>
    fh_vnode fh = (fst h, fresh e) \<and> vnodes (mounts s' ! fst h) (fresh e) = Some w \<and> ino w = i \<and>
    inode_of w = parse_inode (take 128 (drop (table_off e i) (raw tab))) \<and>
    pinned_vnodes (mounts s' ! fst h) i = Some (fresh e) \<and> num_pins (mounts s' ! fst h) i = Some 1 \<and>
    hm_abs (open_handles s') (47 # t @ [0]) = Some 1 \<and>
    VFS_Close fh s' = Some (Ret (True, fh2, s2)) \<and> pinned_vnodes (mounts s2 ! fst h) i = None \<and>
    hm_abs (open_handles s2) (47 # t @ [0]) = Some 1"
proof -
  obtain m a where h: "h = (m, a)" by (cases h)
  let ?name = "47 # t @ [0]" let ?w = "\<lparr>inode_of = parse_inode (take 128 (drop (table_off e i) (raw tab))), ino = i\<rparr>"
  have m: "m < length (mounts s)" "e = mounts s ! m" using assms(2,3) by (simp_all add: dir_at_def h)
  have t: "47 \<notin> set t" "0 \<notin> set t" "length t < 2 ^ 31" using assms(4,6) by (simp_all add: plain_def)
  obtain e1 where e1: "GetVNode (fresh e) i e = Some (Some (fresh e), e1)" "vnodes e1 (fresh e) = Some ?w"
    "pinned_vnodes e1 = pinned_vnodes e" "num_pins e1 = num_pins e"
    by (rule GetVNode_fresh[OF assms(9-13), of "fresh e"])
  let ?e2 = "e1\<lparr>num_pins := (num_pins e1)(i \<mapsto> 1), pinned_vnodes := (pinned_vnodes e1)(i \<mapsto> fresh e)\<rparr>"
  let ?s1 = "s\<lparr>mounts := (mounts s)[m := ?e2]\<rparr>" let ?fh = "FileHandle (m, fresh e) ?name rd wr"
  have "Lookup_child fresh (last_child (pad ?name) t) h s = Some (Ret (Some (m, fresh e), s\<lparr>mounts := (mounts s)[m := e1]\<rparr>))"
    using Lookup_child_dir[OF assms(2) t(2) assms(3)] last_child_text(1)[of "pad ?name" t] assms(7,8) m e1(1)
    by (auto simp: on_fs_def GetVNode_m_def h)
  moreover have "String_eq [0] [0]" using String_eq_stored[of "[0]" "[0]"] by (simp add: str_ok_def)
  ultimately have "VNode_Lookup fresh pad ?name h s = Some (Ret (Some (m, fresh e), s\<lparr>mounts := (mounts s)[m := e1]\<rparr>))"
    using Path_child_last[OF t(1)] Path_rest_last[OF t(1,3)] by (subst VNode_Lookup.simps) simp
  moreover have "Pin (fresh e) e1 = Some ?e2" using e1 assms(9,10) by (simp add: Pin_def)
  ultimately have find: "FindVNode fresh pad ?name False True s = Some (Ret (Some (m, fresh e), ?s1))"
    using assms(1) m(1) by (simp add: FindVNode_def LookupAndPin_def on_fs_def h)
  obtain tb where tb: "Insert Hash (open_handles s) ?name 1 = Some (True, tb)" "hm_abs tb = (hm_abs (open_handles s))(?name \<mapsto> 1)"
    using hmap.insert_fresh[OF assms(14-16), of 1] by blast
  have "Contains Hash (open_handles s) ?name = Some False" using hmap.contains_abs[OF assms(14)] assms(16) by simp
  then have "VFS_Open fresh pad ?name rd wr False s = Some (Ret (Some ?fh, ?s1\<lparr>open_handles := tb\<rparr>))"
    using find tb(1) by (simp add: VFS_Open_def)
  moreover obtain fh2 s2 where "VFS_Close ?fh (?s1\<lparr>open_handles := tb\<rparr>) = Some (Ret (True, fh2, s2))"
      "pinned_vnodes (mounts s2 ! m) i = None" "open_handles s2 = tb"
    using m(1) e1(2) by (simp add: VFS_Close_def SuspendIO_def FileHandle_def at_handle_def on_fs_def on_vnode_def VNode_Unpin_def Unpin_def)
  ultimately show ?thesis
    using m(1) e1(2) tb(2)
    by (intro exI[of _ ?fh] exI[of _ "?s1\<lparr>open_handles := tb\<rparr>"] exI[of _ fh2] exI[of _ s2] exI[of _ ?w])
      (simp add: h, simp add: FileHandle_def)
qed

section \<open>Reading back through a handle\<close>

lemma mapped_same_blocks:
  assumes "i_block nd' = i_block nd" "block_size e' = block_size e" "sectors_per_block e' = sectors_per_block e" "a + n \<le> 12"
  shows "mapped nd' e' a n = mapped nd e a n" "file_blocks nd' e' a n = file_blocks nd e a n"
  using assms by (auto simp: mapped_def file_blocks_def file_block_def run_ok_def in_range_def)

text \<open>\<open>Write\<close> of whole direct blocks, with the inode written behind it.\<close>

lemma Write_direct:
  assumes "map_ok e" "disk_ok e" "off mod unat (block_size e) = 0" "len = k * unat (block_size e)" "len \<le> length buff"
    and "off div unat (block_size e) + k \<le> 12"
    and "mapped (inode_of v) e (off div unat (block_size e)) k" "distinct (file_blocks (inode_of v) e (off div unat (block_size e)) k)"
    and "wf_inode (inode_of v)" "inode_slot_ok e (ino v)" "in_range e (inode_tab_block e (ino v))"
    and "inode_tab_block e (ino v) \<notin> set (file_blocks (inode_of v) e (off div unat (block_size e)) k)"
  obtains v' e' where "Write buff off len v e = Some (Ret (True, v', e'))" "e' = e\<lparr>disk := disk e'\<rparr>" "map_ok e'" "disk_ok e'"
    "mapped (inode_of v') e' (off div unat (block_size e)) k" "file_bytes (inode_of v') e' (off div unat (block_size e)) k = take len buff"
proof -
  let ?nd = "inode_of v" let ?a = "off div unat (block_size e)"
  obtain e1 where e1: "ReadWrite True off len buff ?nd e = Some (Ret (True, buff, ?nd, e1))" "e1 = e\<lparr>disk := disk e1\<rparr>"
    "map_ok e1" "disk_ok e1" "mapped ?nd e1 ?a k" "file_blocks ?nd e1 ?a k = file_blocks ?nd e ?a k" "file_bytes ?nd e1 ?a k = take len buff"
    by (rule write_direct[OF assms(1-8)])
  define nd where "nd = (if off > unat (i_size ?nd) then ?nd\<lparr>i_size := of_nat off\<rparr> else ?nd)"
  have nd: "wf_inode nd" "i_block nd = i_block ?nd" using assms(9) by (simp_all add: nd_def wf_inode_def)
  have geo: "inode_slot_ok e1 (ino v) = inode_slot_ok e (ino v)" "inode_tab_block e1 (ino v) = inode_tab_block e (ino v)"
    "in_range e1 b = in_range e b" for b
    by (subst e1(2), simp add: inode_slot_ok_def valid_block_def)+
  have "mount_ok e1" using e1(3) by (simp add: map_ok_def)
  then obtain e2 where e2: "WriteINode (ino v) nd e1 = (True, e2)" "mount_ok e2" "e2 = e1\<lparr>disk := disk e2\<rparr>"
    "\<forall>c. in_range e1 c \<longrightarrow> c \<noteq> inode_tab_block e1 (ino v) \<longrightarrow> data_block e2 c = data_block e1 c"
    using WriteINode_ok[OF _ e1(4) _ nd(1)] assms(10,11) geo by metis
  have e2e: "e2 = e\<lparr>disk := disk e2\<rparr>" by (subst e2(3), subst e1(2), simp)
  have ok: "map_ok e2" "disk_ok e2" "block_size e2 = block_size e1" "sectors_per_block e2 = sectors_per_block e1"
    using e1(3,4) e2(2) by (simp add: map_ok_def, subst (1 2 3) e2(3), simp, subst e2(3), simp, subst e2(3), simp, subst e2(3), simp)
  note same = mapped_same_blocks[OF nd(2) ok(3,4) assms(6)]
  have "data_block e2 b = data_block e1 b" if "b \<in> set (file_blocks ?nd e1 ?a k)" for b
  proof -
    have "in_range e1 b" using e1(5) that mapped_data_ok[OF e1(5)] by (simp add: run_data_ok_def)
    then show ?thesis using e2(4) that assms(12) e1(6) geo(2) by metis
  qed
  then have "file_bytes nd e2 ?a k = take len buff"
    using e1(7) by (simp add: file_bytes_def same(2) cong: map_cong)
  moreover have "Write buff off len v e = Some (Ret (True, v\<lparr>inode_of := nd\<rparr>, e2))"
    using e1(1) e2(1) by (simp add: Write_def WriteBack_def nd_def Let_def)
  ultimately show thesis using e2e ok(1,2) same(1) e1(5) by (intro that[of "v\<lparr>inode_of := nd\<rparr>" e2]) simp_all
qed

text \<open>
  C38: a text without NUL bytes that fills whole blocks, written through a handle at a block boundary into existing,
  distinct direct blocks (among the first 12 of the file, none of them the block of the inode), is the text that a read
  from the same position through the same handle returns; both move the handle to the end of the text.
\<close>
theorem Handle_roundtrip:
  assumes "valid fh" "readable fh" "writeable fh" "fh_vnode fh = (m, a)" "m < length (mounts s)" "e = mounts s ! m" "vnodes e a = Some v"
    and "map_ok e" "disk_ok e" "fh_offset fh mod unat (block_size e) = 0" "length t = k * unat (block_size e)" "t \<noteq> []" "0 \<notin> set t"
    and "fh_offset fh div unat (block_size e) + k \<le> 12"
    and "mapped (inode_of v) e (fh_offset fh div unat (block_size e)) k"
    and "distinct (file_blocks (inode_of v) e (fh_offset fh div unat (block_size e)) k)"
    and "wf_inode (inode_of v)" "inode_slot_ok e (ino v)" "in_range e (inode_tab_block e (ino v))"
    and "inode_tab_block e (ino v) \<notin> set (file_blocks (inode_of v) e (fh_offset fh div unat (block_size e)) k)"
    and "length (mem (length t)) = length t"
  shows "\<exists>fh' s' s''. Handle_Write (t @ [0]) (length t) fh s = Some (Ret (True, fh', s')) \<and>
    fh' = Seek (fh_offset fh + length t) fh \<and>
    Handle_Read mem (length t) (Seek (fh_offset fh) fh') s' = Some (Ret (Some (t @ [0]), fh', s''))"
proof -
  let ?off = "fh_offset fh" let ?a = "?off div unat (block_size e)"
  have "length t \<le> length (t @ [0])" by simp
  from Write_direct[OF assms(8-11) this assms(14-20)] obtain v' e' where
    w: "Write (t @ [0]) ?off (length t) v e = Some (Ret (True, v', e'))" "e' = e\<lparr>disk := disk e'\<rparr>" "map_ok e'" "disk_ok e'"
    "mapped (inode_of v') e' ?a k" "file_bytes (inode_of v') e' ?a k = t" by auto
  let ?e = "e'\<lparr>vnodes := (vnodes e')(a \<mapsto> v')\<rparr>" let ?s = "s\<lparr>mounts := (mounts s)[m := ?e]\<rparr>"
  have bs: "block_size e' = block_size e" by (subst w(2)) simp
  have "mount_ok ?e = mount_ok e'" "ptrs_per_block ?e = ptrs_per_block e'" by (simp_all add: mount_ok_def ptrs_per_block_def)
  then have "map_ok ?e" "disk_ok ?e" "block_size ?e = block_size e" "sectors_per_block ?e = sectors_per_block e'"
    using w(3,4) bs by (simp_all only: map_ok_def disk_ok_def) simp_all
  moreover note same = mapped_same_blocks[OF refl, of ?e e' ?a k "inode_of v'"]
  moreover have "data_block ?e = data_block e'" by (intro ext) (simp add: data_block_def block_lba_def)
  ultimately have "ReadWrite False ?off (length t) (mem (length t)) (inode_of v') ?e =
      Some (Ret (True, t @ drop (length t) (mem (length t)), inode_of v', ?e))"
    using read_blocks[of ?e ?off "length t" k "mem (length t)" "inode_of v'"] assms(10,11,14,21) w(5,6) bs
    by (simp add: file_bytes_def)
  then have "Read (mem (length t)) ?off (length t) v' ?e = Some (Ret ((True, t), v', ?e))"
    using assms(21) by (simp add: Read_def)
  then have rd: "at_handle (m, a) (Read (mem (length t)) ?off (length t)) ?s = Some (Ret ((True, t), ?s))"
    using assms(5) by (intro at_handle_same) simp_all
  have "t ! (length t - 1) \<noteq> 0" using assms(12,13) by (metis last_conv_nth last_in_set)
  then have buf: "String_buf t (length t) = Some (t @ [0])" using assms(12) by (simp add: String_buf_def list_update_append)
  have "Handle_Write (t @ [0]) (length t) fh s = Some (Ret (True, Seek (?off + length t) fh, ?s))"
    using w(1) assms(3-7,1) by (simp add: Handle_Write_def Seek_def at_handle_def on_fs_def on_vnode_def)
  moreover have "Handle_Read mem (length t) (Seek ?off (Seek (?off + length t) fh)) ?s = Some (Ret (Some (t @ [0]), Seek (?off + length t) fh, ?s))"
    using rd buf assms(1,2,4) by (simp add: Handle_Read_def Seek_def)
  ultimately show ?thesis by blast
qed

end
