(* ===== verification/Ext2_Examples.thy ===== *)
theory Ext2_Examples
  imports Ext2_Dirs Ext2_Objects
begin

text \<open>
  Concrete inputs for the theorems about files and directories: the mount \<open>demo_ext2\<close>, a regular file whose direct
  blocks are 10 to 21, and a directory of one block that holds only "." and "..".
\<close>

section \<open>A file\<close>

definition demo_file :: inode where
  "demo_file = zero_inode\<lparr>i_mode := 0x81A4, i_size := 100, i_links_count := 1, i_blocks := 12,
     i_block := map (\<lambda>i. of_nat (i + 10)) [0..<12] @ [30, 30, 0]\<rparr>"

lemma demo_i_block: "i < 12 \<Longrightarrow> i_block demo_file ! i = of_nat (i + 10)"
  "i_block demo_file ! 12 = 30" "i_block demo_file ! 13 = 30"
  by (simp_all add: demo_file_def nth_append)

lemma demo_ptrs [simp]: "ptrs_per_block demo_ext2 = 128"
  by (simp add: ptrs_per_block_def)

lemma demo_map_ok: "map_ok demo_ext2"
  using demo_mount_ok by (simp add: map_ok_def)

lemma demo_disk_ok: "disk_ok demo_ext2"
  by (simp add: disk_ok_def)

lemma demo_file_block: "i < 12 \<Longrightarrow> file_block demo_file demo_ext2 i = Some (of_nat (i + 10))"
  by (simp add: file_block_def demo_i_block)

lemma demo_mapped: "a + n \<le> 12 \<Longrightarrow> mapped demo_file demo_ext2 a n"
proof -
  assume a: "a + n \<le> 12"
  have "of_nat (k + 10) \<noteq> (0 :: u32)" "unat (of_nat (k + 10) :: u32) = k + 10" if "k < 12" for k
    using that by (simp_all add: word_unat_eq_iff unat_of_nat del: of_nat_add of_nat_Suc)
  then show ?thesis
    using a by (auto simp: mapped_def run_ok_def demo_file_block in_range_def simp del: of_nat_add)
qed

lemma demo_file_blocks: "a + n \<le> 12 \<Longrightarrow> file_blocks demo_file demo_ext2 a n = map (\<lambda>i. of_nat (i + 10)) [a..<a + n]"
  by (intro nth_equalityI) (simp_all add: file_blocks_def demo_file_block)

lemma demo_distinct: "a + n \<le> 12 \<Longrightarrow> distinct (file_blocks demo_file demo_ext2 a n)"
proof -
  assume a: "a + n \<le> 12"
  have "inj_on (\<lambda>i. of_nat (i + 10) :: u32) {a..<a + n}"
    using a by (intro inj_onI) (simp add: word_unat_eq_iff unat_of_nat del: of_nat_add)
  then show ?thesis using a by (simp add: demo_file_blocks distinct_map)
qed

theorem ReadWrite_reads_file_witness:
  "\<exists>bytes. ReadWrite False 512 1024 (replicate 1500 7) demo_file demo_ext2 = Some (Ret (True, bytes, demo_file, demo_ext2))"
  using ReadWrite_reads_file[of demo_ext2 512 1024 demo_file "replicate 1500 7"] demo_map_ok demo_disk_ok demo_mapped[of 1 2] by simp

theorem ReadWrite_unaligned_overruns_witness: "ReadWrite False 100 600 (replicate 600 7) demo_file demo_ext2 = Some Overrun"
  using ReadWrite_unaligned_overruns[of demo_ext2 100 demo_file "replicate 600 7"]
    demo_map_ok demo_disk_ok demo_mapped[of 0 1] demo_mapped[of 1 1] by simp

theorem ReadWrite_writes_blocks_witness:
  "\<exists>s'. ReadWrite True 512 1024 (replicate 1500 7) demo_file demo_ext2 = Some (Ret (True, replicate 1500 7, demo_file, s'))"
  using ReadWrite_writes_blocks[of demo_ext2 512 1024 2 "replicate 1500 7" demo_file]
    demo_map_ok demo_disk_ok demo_mapped[of 1 2] demo_distinct[of 1 2] by auto

theorem ReadWrite_roundtrip_witness:
  "\<exists>s'. ReadWrite False 512 1024 (replicate 1024 0) demo_file s' = Some (Ret (True, replicate 1024 7, demo_file, s'))"
  using ReadWrite_roundtrip[of demo_ext2 512 1024 2 "replicate 1024 7" demo_file "replicate 1024 0"]
    demo_map_ok demo_disk_ok demo_mapped[of 1 2] demo_distinct[of 1 2] by auto

theorem ReadWrite_tail_wrong_bytes_witness:
  "\<exists>s'. ReadWrite True 0 600 (replicate 512 1 @ replicate 88 2) demo_file demo_ext2 =
     Some (Ret (True, replicate 512 1 @ replicate 88 2, demo_file, s')) \<and> data_block s' 11 = replicate 88 1 @ replicate 424 0"
proof -
  let ?buff = "replicate 512 1 @ replicate 88 2 :: u8 list"
  have "i_block demo_file ! 1 = 11" by (simp add: demo_i_block)
  moreover have "take 88 ?buff @ replicate (unat (block_size demo_ext2) - 88) 0 = replicate 88 1 @ replicate 424 0" by simp
  moreover have "mapped demo_file demo_ext2 0 (1 + 1)" "distinct (file_blocks demo_file demo_ext2 0 (1 + 1))"
    by (rule demo_mapped demo_distinct, simp)+
  ultimately show ?thesis
    using ReadWrite_tail_wrong_bytes[OF demo_map_ok demo_disk_ok, of 600 1 88 ?buff demo_file] by auto
qed

section \<open>Pointer blocks\<close>

definition demo_ones :: ext2 where
  "demo_ones = demo_ext2\<lparr>disk := \<lambda>_. replicate 512 1\<rparr>"

lemma demo_ReadBlock: "p \<noteq> 0 \<Longrightarrow> ReadBlock p demo_ext2 = Some (replicate 512 0)" "p \<noteq> 0 \<Longrightarrow> ReadBlock p demo_ones = Some (replicate 512 1)"
  by (simp_all add: ReadBlock_def disk_Read_def demo_ones_def block_lba_def)

lemma u32s_replicate: "u32s (replicate (4 * n) b) = replicate n (of_nat (le_num (replicate 4 b)))"
  by (intro nth_equalityI) (auto simp: u32s_def chunks_def min_def)

lemma le_num_4: "le_num (replicate 4 b) = unat b * 0x1010101"
proof -
  have "replicate 4 b = [b, b, b, b]" by (simp add: eval_nat_numeral)
  then show ?thesis by simp
qed

lemma le_bytes_concrete:
  "le_bytes 2 v = [of_nat (v mod 256), of_nat (v div 256 mod 256)]"
  "le_bytes 4 v = [of_nat (v mod 256), of_nat (v div 256 mod 256), of_nat (v div 256 div 256 mod 256), of_nat (v div 256 div 256 div 256 mod 256)]"
proof -
  have "le_bytes (Suc (Suc 0)) v = [of_nat (v mod 256), of_nat (v div 256 mod 256)]"
    "le_bytes (Suc (Suc (Suc (Suc 0)))) v = [of_nat (v mod 256), of_nat (v div 256 mod 256), of_nat (v div 256 div 256 mod 256), of_nat (v div 256 div 256 div 256 mod 256)]"
    by (simp_all only: le_bytes.simps)
  then show "le_bytes 2 v = [of_nat (v mod 256), of_nat (v div 256 mod 256)]"
    "le_bytes 4 v = [of_nat (v mod 256), of_nat (v div 256 mod 256), of_nat (v div 256 div 256 mod 256), of_nat (v div 256 div 256 div 256 mod 256)]"
    by (simp_all only: eval_nat_numeral BitM.simps)
qed

lemma u32s_512: "u32s (replicate 512 b) = replicate 128 (of_nat (le_num (replicate 4 b)))"
  using u32s_replicate[of 128 b] by simp

text \<open>A run from the last direct block into the pointer block, and a block below the doubly indirect pointer.\<close>

lemma demo_ones_block:
  "file_block demo_file demo_ones 11 = Some 21" "file_block demo_file demo_ones 12 = Some 0x1010101"
  "file_block demo_file demo_ones 140 = Some 0x1010101"
proof -
  have p: "ptrs_per_block demo_ones = 128" by (simp add: demo_ones_def ptrs_per_block_def)
  have u: "u32s (replicate 512 1) = replicate 128 0x1010101" unfolding u32s_512 le_num_4 by simp
  show "file_block demo_file demo_ones 11 = Some 21" "file_block demo_file demo_ones 12 = Some 0x1010101"
    "file_block demo_file demo_ones 140 = Some 0x1010101"
    by (simp_all add: file_block_def indirect_slot_def p demo_i_block demo_ReadBlock u)
qed

theorem GetOrCreateExtents_blocks_witness:
  "(\<exists>es. GetOrCreateExtents 11 2 True False demo_file demo_ones = Some (Ret (Some es, demo_file, demo_ones)) \<and> expand es = [21, 0x1010101]) \<and>
   (\<exists>es. GetOrCreateExtents 140 1 False False demo_file demo_ones = Some (Ret (Some es, demo_file, demo_ones)) \<and> expand es = [0x1010101])"
proof -
  have ok: "map_ok demo_ones" "run_ok demo_ones 11 2" "run_ok demo_ones 140 1"
    by (simp_all add: demo_ones_def map_ok_def mount_ok_def ptrs_per_block_def run_ok_def leaf_run_def)
  have "\<forall>i<2. \<exists>p. file_block demo_file demo_ones (11 + i) = Some p \<and> p \<noteq> 0 \<and> p \<noteq> - 1"
    "\<forall>i<1. \<exists>p. file_block demo_file demo_ones (140 + i) = Some p \<and> p \<noteq> 0 \<and> p \<noteq> - 1"
    by (auto simp: demo_ones_block less_2_cases_iff)
  moreover have "map (\<lambda>i. the (file_block demo_file demo_ones (11 + i))) [0..<2] = [21, 0x1010101]"
    by (simp add: demo_ones_block upt_rec)
  ultimately show ?thesis
    using GetOrCreateExtents_blocks[OF ok(1,2), of demo_file True] GetOrCreateExtents_blocks[OF ok(1,3), of demo_file False]
    by (simp add: demo_ones_block)
qed

theorem GetOrCreateExtents_overruns_witness: "GetOrCreateExtents 13 128 False False demo_file demo_ones = Some Overrun"
proof -
  have "map_ok demo_ones" "ptrs_per_block demo_ones = 128" by (simp_all add: demo_ones_def map_ok_def mount_ok_def ptrs_per_block_def)
  moreover have "0 \<notin> set (u32s (replicate 512 1))" unfolding u32s_512 le_num_4 by simp
  ultimately show ?thesis
    using GetOrCreateExtents_overruns[of demo_ones 13 128 demo_file "replicate 512 1"] by (simp add: demo_i_block demo_ReadBlock)
qed

theorem GetOrCreateExtents_never_returns_witness: "GetOrCreateExtents 140 1 False False demo_file demo_ext2 = None"
proof -
  have "u32s (replicate 512 0) ! 0 = 0" unfolding u32s_512 le_num_4 by simp
  then show ?thesis
    using GetOrCreateExtents_never_returns[of demo_ext2 140 1 demo_file "replicate 512 0"] demo_map_ok
    by (simp add: demo_i_block demo_ReadBlock) (simp add: ReadBlock_def)
qed

section \<open>A directory\<close>

theorem file_types_agree_witness:
  "FileModeToFileType (FileTypeToFileMode 2) = 2 \<and>
   FileTypeToExt2FileType (GetFileType demo_file) = FileModeToFileType (GetExt2FileType demo_file) \<and>
   GetPerms (snd (Chmod 0x1FF demo_file)) = 0x1FF"
proof -
  have "Chmod 0x1FF demo_file = (True, snd (Chmod 0x1FF demo_file))" by (simp add: Chmod_def)
  with file_types_agree[of 2 demo_file "0x1FF" "snd (Chmod 0x1FF demo_file)"] show ?thesis
    by (simp add: GetPerms_def demo_file_def)
qed

definition demo_block :: "u8 list" where
  "demo_block = dir_header 2 12 1 EXT2_FT_DIR @ [46, 0, 0, 0] @ dir_header 2 500 2 EXT2_FT_DIR @ [46, 46] @ replicate 490 0"

lemma length_demo_block [simp]: "length demo_block = 512"
  by (simp add: demo_block_def dir_header_def)

lemma demo_dir_entries [simp]:
  "e_name_len demo_block 0 = 1" "e_rec_len demo_block 0 = 12" "entry_name demo_block 0 = [46]"
  "e_name_len demo_block 12 = 2" "e_rec_len demo_block 12 = 500" "entry_name demo_block 12 = [46, 46]"
  by (simp_all add: e_name_len_def e_rec_len_def entry_name_def demo_block_def dir_header_def field_def le_bytes_concrete)

lemma demo_chain: "dir_chain demo_block 0 [0, 12]"
  by simp

theorem Dir_search_first_prefix_witness:
  "Dir_search [46, 46, 0] demo_block 0 512 = Found 0 \<and> Dir_search [97, 0] demo_block 0 512 = Past_end"
  using Dir_search_first_prefix[of demo_block "[0, 12]" "[46, 46]"] Dir_search_first_prefix[of demo_block "[0, 12]" "[97]"]
  by simp

definition demo_dir :: vnode where
  "demo_dir = \<lparr>inode_of = demo_file\<lparr>i_mode := 0x41FF, i_size := 512, i_blocks := 1, i_block := 10 # replicate 14 0\<rparr>, ino = 2\<rparr>"

definition demo_tree :: ext2 where
  "demo_tree = demo_ext2\<lparr>disk := \<lambda>_. demo_block\<rparr>"

lemma demo_room: "room_for demo_block [0] 12 [97, 98]"
  by (simp add: room_for_def room_at_end_def has_room_def entry_size_def)

lemma demo_tree_ok: "map_ok demo_tree" "disk_ok demo_tree"
  by (simp_all add: demo_tree_def map_ok_def mount_ok_def disk_ok_def ptrs_per_block_def)

lemma demo_data_block: "data_block demo_tree b = demo_block"
  by (simp add: data_block_def demo_tree_def)

lemma demo_small_dir: "small_dir demo_tree demo_dir"
  by (simp add: small_dir_def demo_tree_def demo_dir_def demo_file_def zero_inode_def GetExt2FileType_def EXT2_S_IFDIR_def
    wf_inode_def mapped_def run_ok_def file_block_def in_range_def inode_slot_ok_def valid_block_def
    inode_tab_block_def inode_tab_off_def inode_local_def inode_group_def)

theorem MakeDirEntry_found_witness:
  "\<exists>v' s'. MakeDirEntry [97, 98, 0] 7 REGULAR demo_dir demo_tree = Some (Ret (True, v', s')) \<and> ReadINode 2 s' = Some (inode_of v')"
  using MakeDirEntry_found[OF demo_tree_ok demo_small_dir, of "[0]" 12 "[97, 98]" 7 REGULAR] demo_room
  by (fastforce simp: demo_data_block demo_dir_def)

theorem ReadDir_fails_after_entry_witness:
  "\<exists>v' s'. MakeDirEntry [97, 98, 0] 7 REGULAR demo_dir demo_tree = Some (Ret (True, v', s')) \<and>
     (\<forall>fresh names s''. ReadDir fresh v' s' \<noteq> Some (Ret (Some names, s'')))"
  using ReadDir_fails_after_entry[OF demo_tree_ok demo_small_dir, of "[0]" 12 "[97, 98]" 7 REGULAR] demo_room
  by (simp add: demo_data_block demo_dir_def)

section \<open>Removing and creating\<close>

definition demo_child :: vnode where
  "demo_child = \<lparr>inode_of = demo_file, ino = 3\<rparr>"

lemma demo_WriteINode_child: "\<exists>s'. WriteINode 3 zero_inode demo_ext2 = (True, s')"
  by (simp add: WriteINode_def ReadBlock_new_def disk_Read_new_def disk_Read_def WriteBlock_def disk_Write_def inode_tab_block_def
      inode_local_def)

theorem Remove_child_keeps_inode_witness:
  "\<exists>s'. Remove_child demo_child demo_ext2 = Some (Ret (True, s')) \<and> inode_bmap_cache s' = inode_bmap_cache demo_ext2 \<and>
     ReadINode 3 s' = Some (demo_file\<lparr>i_links_count := 0\<rparr>)"
proof -
  have "GetOrCreateExtents 0 0 False True nd demo_ext2 = Some (Ret (Some [], nd, demo_ext2))" for nd
    unfolding GetOrCreateExtents_def by (subst Extents_top.simps) simp
  moreover obtain s2 where "WriteINode 3 zero_inode demo_ext2 = (True, s2)" using demo_WriteINode_child by blast
  ultimately obtain s' where s': "Remove_child demo_child demo_ext2 = Some (Ret (True, s'))"
    by (simp add: Remove_child_def demo_child_def demo_file_def GetLength_def expand_def)
  show ?thesis
    using Remove_child_keeps_inode[OF demo_mount_ok demo_disk_ok _ _ _ _ s'] s'
    by (simp add: demo_child_def demo_file_def zero_inode_def wf_inode_def inode_slot_ok_def valid_block_def in_range_def
      inode_tab_block_def inode_tab_off_def inode_local_def inode_group_def)
qed

text \<open>A disk on which only block 10, the one of the directory, can be written.\<close>

definition demo_touch :: ext2 where
  "demo_touch = demo_tree\<lparr>io := \<lambda>a n w. w \<longrightarrow> a = 11, vnodes := [1 \<mapsto> demo_dir]\<rparr>"

lemma DiskMem_WriteBack_fails: "\<not> io s (base_sector m) (num_sectors m) True \<Longrightarrow> DiskMem_WriteBack m s = s"
  by (simp add: DiskMem_WriteBack_def disk_Write_def)

lemma demo_touch_fields [simp]:
  "partition_base_sector demo_touch = 0" "block_size demo_touch = 512" "sectors_per_block demo_touch = 1"
  "s_blocks_count (super demo_touch) = 8" "s_blocks_per_group (super demo_touch) = 8"
  "s_inodes_per_group (super demo_touch) = 8" "s_inode_size (super demo_touch) = 128" "bgdt_base demo_touch = 3"
  "disk demo_touch a = demo_block" "io demo_touch a n w \<longleftrightarrow> (w \<longrightarrow> a = 11)" "bg_inode_table (bgdt demo_touch g) = 5"
  "bg_free_inodes_count (bgdt demo_touch g) = 4" "s_prealloc_blocks (super demo_touch) = 0"
  "inode_bmap_cache demo_touch = [0 \<mapsto> demo_mem 4 (u64_bytes demo_bitmap)]" "vnodes demo_touch = [1 \<mapsto> demo_dir]"
  by (simp_all add: demo_touch_def demo_tree_def demo_ext2_def)

lemma demo_unset: "Ext2_Mount.unset_bit 0 0 (demo_bitmap ! 0) = 2"
proof -
  have "[0..<64] = 0 # 1 # [2..<64]" by (simp add: upt_conv_Cons)
  then show ?thesis by (simp add: Ext2_Mount.unset_bit_def demo_bitmap_def ffsll_def)
qed

lemma demo_touch_alloc: "\<exists>b sb c v. AllocVNode 9 EXT2_S_IFREG 0x1FF 0 0 demo_touch =
    (Some 9, demo_touch\<lparr>bgdt := b, super := sb, inode_bmap_cache := c, vnodes := [1 \<mapsto> demo_dir, 9 \<mapsto> v]\<rparr>) \<and>
    s_prealloc_blocks sb = 0 \<and> ino v = 2 \<and> GetExt2FileType (inode_of v) = EXT2_S_IFREG \<and>
    s_inodes_per_group sb = 8 \<and> s_inode_size sb = 128 \<and> (\<forall>g. bg_inode_table (b g) = 5)"
proof -
  have "no_bgroups demo_touch = 1" "words_per_block demo_touch = 64" by (simp_all add: no_bgroups_def words_per_block_def)
  then show ?thesis
    apply (simp add: AllocVNode_def ReadINodeBitmap_def demo_mem_def demo_free_word Let_def set_inode_bmap_def bgdt_mem_def
       DiskMem_WriteBack_fails new_vnode_def)
    apply (intro exI conjI, rule refl)
    by (simp_all add: GetExt2FileType_def EXT2_S_IFREG_def demo_unset)
qed

lemma WriteINode_fails: "(\<And>a n. io s a n True \<Longrightarrow> a \<noteq> block_lba s (inode_tab_block s i)) \<Longrightarrow> snd (WriteINode i n s) = s"
  by (auto simp: WriteINode_def WriteBlock_def disk_Write_def split: option.splits)

lemma demo_Find_room: "\<exists>c. Find_room 11 demo_block 0 = Some (Ret (Some 24, c)) \<and> length c = 512"
proof -
  have "\<not> has_room 11 demo_block 0" "has_room 11 demo_block 12" by (simp_all add: has_room_def entry_size_def)
  then show ?thesis
    using Find_room_step[of 0 demo_block 11] Find_room_found[of 12 demo_block 11] by (simp add: entry_size_def)
qed

lemma demo_GetOrCreateBlock: "GetOrCreateBlock 0 True (inode_of demo_dir) s = Some (Ret (Some 10, inode_of demo_dir, s))"
  by (simp add: GetOrCreateBlock_def GetOrCreateExtents_def Extents_top.simps[of _ _ 0] Extents_top.simps[of _ _ _ 0]
     Ensure_ptr_def demo_dir_def AddToExtentList_def Count_block_def set_i_block_def)

theorem Touch_MkDir_dangling_witness:
  "\<exists>s'. Touch (\<lambda>_. 9) [97, 98, 0] 1 demo_touch = Some (Ret (Some 9, s')) \<and> vnodes s' 9 = None"
proof -
  obtain b sb c v where alloc: "AllocVNode 9 EXT2_S_IFREG 0x1FF 0 0 demo_touch =
    (Some 9, demo_touch\<lparr>bgdt := b, super := sb, inode_bmap_cache := c, vnodes := [1 \<mapsto> demo_dir, 9 \<mapsto> v]\<rparr>)"
    and sb: "s_prealloc_blocks sb = 0" "GetExt2FileType (inode_of v) = EXT2_S_IFREG" "ino v = 2"
    "s_inodes_per_group sb = 8" "s_inode_size sb = 128" "\<forall>g. bg_inode_table (b g) = 5"
    using demo_touch_alloc by blast
  have ext: "GetOrCreateExtents 0 0 True False nd s = Some (Ret (Some [], nd, s))" for nd s
    unfolding GetOrCreateExtents_def by (subst Extents_top.simps) simp
  define s1 where "s1 = demo_touch\<lparr>bgdt := b, super := sb, inode_bmap_cache := c\<rparr>"
  have s1: "block_size s1 = 512" "sectors_per_block s1 = 1" "partition_base_sector s1 = 0" "super s1 = sb" "bgdt s1 = b"
    "io s1 = io demo_touch" "disk s1 = disk demo_touch"
    by (simp_all add: s1_def)
  have wr: "snd (WriteINode 2 n (s1\<lparr>vnodes := vn\<rparr>)) = s1\<lparr>vnodes := vn\<rparr>"
    "snd (WriteINode 2 n (s1\<lparr>vnodes := vn, disk := d\<rparr>)) = s1\<lparr>vnodes := vn, disk := d\<rparr>" for n vn d
    by (rule WriteINode_fails, simp add: s1 block_lba_def inode_tab_block_def inode_local_def sb)+
  let ?v = "v\<lparr>inode_of := (inode_of v)\<lparr>i_mode := i_mode (inode_of v) OR 0x1FF\<rparr>\<rparr>"
  have pre: "Prealloc_m v (s1\<lparr>vnodes := vn\<rparr>) = Some (Ret ((), v, s1\<lparr>vnodes := vn\<rparr>))" for vn
    by (simp add: Prealloc_m_def Prealloc_def sb s1 ext GetPreallocBlocks_def)
  have chmod: "Chmod_m 0x1FF v s = Some (Ret (True, ?v, s))" for s by (simp add: Chmod_m_def Chmod_def)
  have wb: "\<exists>ok. WriteBack_m ?v (s1\<lparr>vnodes := vn\<rparr>) = Some (Ret (ok, ?v, s1\<lparr>vnodes := vn\<rparr>))" for vn
    using wr(1)[of "inode_of ?v" vn] by (auto simp: WriteBack_m_def WriteBack_def sb split: prod.splits)
  have entry: "\<exists>d dir. MakeDirEntry [97, 98, 0] i ty demo_dir (s1\<lparr>vnodes := vn\<rparr>) =
      Some (Ret (True, dir, s1\<lparr>vnodes := vn, disk := d\<rparr>))" for i ty vn
  proof -
    have "ReadBlock 10 (s1\<lparr>vnodes := vn\<rparr>) = Some demo_block" by (simp add: ReadBlock_def disk_Read_def s1)
    moreover obtain x where "Find_room 11 demo_block 0 = Some (Ret (Some 24, x))" "length x = 512" using demo_Find_room by blast
    moreover obtain d where d: "WriteBlock (patch 24 (dir_header i 512 2 (FileTypeToExt2FileType ty) @ [97, 98, 0]) x) 10 (s1\<lparr>vnodes := vn\<rparr>) =
        (True, s1\<lparr>vnodes := vn, disk := d\<rparr>)"
      by (simp add: WriteBlock_def disk_Write_def s1 block_lba_def)
    moreover have "i_size (inode_of demo_dir) = 512" "ino demo_dir = 2" by (simp_all add: demo_dir_def)
    ultimately have "\<exists>dir. MakeDirEntry [97, 98, 0] i ty demo_dir (s1\<lparr>vnodes := vn\<rparr>) = Some (Ret (True, dir, s1\<lparr>vnodes := vn, disk := d\<rparr>))"
      using demo_GetOrCreateBlock[of "s1\<lparr>vnodes := vn\<rparr>"] by (simp add: MakeDirEntry_def s1 Let_def WriteBack_def wr)
    then show ?thesis by blast
  qed
  obtain ok where ok: "WriteBack_m ?v (s1\<lparr>vnodes := [1 \<mapsto> demo_dir, 9 \<mapsto> ?v]\<rparr>) =
      Some (Ret (ok, ?v, s1\<lparr>vnodes := [1 \<mapsto> demo_dir, 9 \<mapsto> ?v]\<rparr>))" using wb by blast
  have "\<exists>s'. Touch (\<lambda>_. 9) [97, 98, 0] 1 demo_touch = Some (Ret (Some 9, s'))"
  proof -
    have "on_vnode 9 Prealloc_m (s1\<lparr>vnodes := [1 \<mapsto> demo_dir, 9 \<mapsto> v]\<rparr>) = Some (Ret ((), s1\<lparr>vnodes := [1 \<mapsto> demo_dir, 9 \<mapsto> v]\<rparr>))"
      "on_vnode 9 (Chmod_m 0x1FF) (s1\<lparr>vnodes := [1 \<mapsto> demo_dir, 9 \<mapsto> v]\<rparr>) = Some (Ret (True, s1\<lparr>vnodes := [1 \<mapsto> demo_dir, 9 \<mapsto> ?v]\<rparr>))"
      "on_vnode 9 WriteBack_m (s1\<lparr>vnodes := [1 \<mapsto> demo_dir, 9 \<mapsto> ?v]\<rparr>) = Some (Ret (ok, s1\<lparr>vnodes := [1 \<mapsto> demo_dir, 9 \<mapsto> ?v]\<rparr>))"
      using pre ok by (simp_all add: on_vnode_def chmod)
    moreover have "\<exists>s'. MakeDirEntry_raw [97, 98, 0] 1 9 (s1\<lparr>vnodes := [1 \<mapsto> demo_dir, 9 \<mapsto> ?v]\<rparr>) = Some (Ret (True, s'))"
      using entry[of "ino ?v" "GetFileType (inode_of ?v)" "[1 \<mapsto> demo_dir, 9 \<mapsto> ?v]"] by (auto simp: MakeDirEntry_raw_def on_vnode_def)
    moreover have "AllocVNode 9 EXT2_S_IFREG 0x1FF 0 0 demo_touch = (Some 9, s1\<lparr>vnodes := [1 \<mapsto> demo_dir, 9 \<mapsto> v]\<rparr>)"
      using alloc by (simp add: s1_def)
    ultimately show ?thesis by (auto simp: Touch_def)
  qed
  then show ?thesis using Touch_MkDir_dangling by blast
qed

end
