(* ===== verification/Vfs_Examples.thy ===== *)
theory Vfs_Examples
  imports Vfs_Theorems Ext2_Examples
begin

text \<open>
  Concrete inputs for the theorems about the virtual file system: one mounted file system whose root directory holds
  only "." and "..", and a handle of the file of \<open>Ext2_Examples\<close>.
\<close>

theorem DecomposePath_splits_witness: "DecomposePath [47, 97, 47, 98, 0] = Some ([47, 97, 47, 0], [98, 0])"
  using DecomposePath_splits[of "[47, 97]" "[98]"] by (simp add: plain_def)

theorem Lookup_components_witness:
  "VNode_Lookup (\<lambda>_. 9) (\<lambda>_. 0) [47, 97, 47, 98, 0] (0, 7) no_vfs = Walk (\<lambda>_. 9) (\<lambda>_. 0) [[97], [98]] (0, 7) no_vfs"
  using Lookup_components[of "[[97], [98]]" "\<lambda>_. 9" "\<lambda>_. 0" "(0, 7)" no_vfs] by (simp add: plain_def)

lemma demo_table: "hm_inv Hash (HashMap (Suc 0))" "hm_abs (HashMap (Suc 0)) = Map.empty" "hm_room (Suc 0) (HashMap (Suc 0))"
  by (rule hm_inv_HashMap hm_room_HashMap; simp)+

theorem Mounted_never_found_witness:
  "\<exists>s'. VNode_Mount [97, 0] (1, 2) (0, 7) no_vfs = Some (True, s') \<and> hm_abs (mnt_tab s' (0, 7)) [97, 0] = Some (1, 2) \<and>
     (\<forall>x s''. VNode_Lookup (\<lambda>_. 9) (\<lambda>_. 0) [47, 97, 0] (0, 7) s' \<noteq> Some (Ret (Some (1, x), s'')))"
proof -
  have tab: "mnt_tab no_vfs h = HashMap (Suc 0)" for h by (simp add: mnt_tab_def no_vfs_def)
  have ok: "mnts_ok no_vfs" by (simp add: mnts_ok_def mnt_names_ok_def tab demo_table)
  have pre: "hm_room (Suc 0) (mnt_tab no_vfs (0, 7))" "plain [97]" "hm_abs (mnt_tab no_vfs (0, 7)) ([97] @ [0]) = None"
    by (simp_all add: tab demo_table plain_def)
  from Mounted_never_found[OF ok pre, of "(1, 2)"] obtain s' where s': "VNode_Mount ([97] @ [0]) (1, 2) (0, 7) no_vfs = Some (True, s')"
    "hm_abs (mnt_tab s' (0, 7)) ([97] @ [0]) = Some (1, 2)"
    and found: "\<forall>fresh pad t cs d x t'. mnt_run fresh pad s' t \<longrightarrow> path_ok cs \<longrightarrow>
       VNode_Lookup fresh pad (join cs @ [0]) d t = Some (Ret (Some x, t')) \<longrightarrow> fst x = fst d"
    by (elim exE conjE) (rule that, assumption+)
  have "path_ok [[97]]" by (simp add: path_ok_def plain_def)
  then have "VNode_Lookup (\<lambda>_. 9) (\<lambda>_. 0) [47, 97, 0] (0, 7) s' \<noteq> Some (Ret (Some (1, x), s''))" for x s''
    using found[rule_format, OF mnt_run.start, of "[[97]]" "\<lambda>_. 9" "\<lambda>_. 0" "(0, 7)" "(1, x)" s''] by auto
  then show ?thesis using s' by auto
qed

definition demo_vfs :: vfs where
  "demo_vfs = no_vfs\<lparr>mounts := [demo_tree\<lparr>vnodes := [7 \<mapsto> demo_dir]\<rparr>], root := Some (0, 7)\<rparr>"

lemma demo_dir_at: "dir_at demo_vfs (0, 7) demo_dir [0, 12]"
proof -
  let ?e = "demo_tree\<lparr>vnodes := [7 \<mapsto> demo_dir]\<rparr>"
  have "map_ok ?e" "disk_ok ?e" "block_size ?e = 512" "sectors_per_block ?e = 1" "ptrs_per_block ?e = 128"
    by (simp_all add: demo_tree_def map_ok_def mount_ok_def disk_ok_def ptrs_per_block_def)
  moreover have data: "dir_data ?e demo_dir = demo_block" by (simp add: dir_data_def data_block_def demo_tree_def)
  moreover have "GetExt2FileType (inode_of demo_dir) = EXT2_S_IFDIR" "i_size (inode_of demo_dir) = 512"
    "i_blocks (inode_of demo_dir) = 1" "i_block (inode_of demo_dir) ! 0 = 10"
    by (simp_all add: demo_dir_def demo_file_def GetExt2FileType_def EXT2_S_IFDIR_def)
  ultimately have "one_block_dir ?e demo_dir [0, 12]"
    by (simp add: one_block_dir_def mapped_def run_ok_def file_block_def in_range_def)
  then show ?thesis by (simp add: dir_at_def demo_vfs_def no_vfs_def)
qed

theorem Root_files_unreachable_witness:
  "VFS_Touch (\<lambda>_. 9) (\<lambda>_. 0) [47, 97, 0] demo_vfs = Some Overrun"
  using Root_files_unreachable[OF _ demo_dir_at, of "[97]"] by (simp add: plain_def demo_vfs_def)

theorem Open_finds_file_witness:
  "\<exists>fh s'. VFS_Open (\<lambda>_. 9) (\<lambda>_. 0) [47, 46, 0] True True False demo_vfs = Some (Ret (Some fh, s')) \<and> fh_vnode fh = (0, 9) \<and>
     pinned_vnodes (mounts s' ! 0) 2 = Some 9"
proof -
  let ?e = "mounts demo_vfs ! 0"
  have e: "?e = demo_tree\<lparr>vnodes := [7 \<mapsto> demo_dir]\<rparr>" by (simp add: demo_vfs_def no_vfs_def)
  have data: "dir_data ?e demo_dir = demo_block" by (simp add: e dir_data_def data_block_def demo_tree_def)
  have "dir_find ?e demo_dir [0, 12] [46] = Some 0" by (simp add: dir_find_def data)
  moreover have "e_inode demo_block 0 = 2" by (simp add: e_inode_def demo_block_def dir_header_def field_def le_bytes_concrete)
  moreover have "inode_tab_cache ?e (inode_group ?e 2) = Some (demo_mem 5 (replicate 512 0))" "pinned_vnodes ?e 2 = None" "num_pins ?e 2 = None"
    by (simp_all add: e demo_tree_def inode_group_def demo_ext2_def)
  moreover have "table_off ?e 2 < 2 ^ 32" "table_off ?e 2 + 128 \<le> length (raw (demo_mem 5 (replicate 512 0)))"
    by (simp_all add: e demo_tree_def table_off_def inode_local_def demo_mem_def demo_ext2_def)
  moreover have "open_handles demo_vfs = HashMap (Suc 0)" "root demo_vfs = Some (0, 7)" by (simp_all add: demo_vfs_def no_vfs_def)
  moreover have "plain [46]" by (simp add: plain_def)
  ultimately have "\<exists>fh s' fh2 s2 w. VFS_Open (\<lambda>_. 9) (\<lambda>_. 0) (47 # [46] @ [0]) True True False demo_vfs = Some (Ret (Some fh, s')) \<and>
    fh_vnode fh = (fst (0, 7 :: nat), 9) \<and> vnodes (mounts s' ! fst (0, 7 :: nat)) 9 = Some w \<and> ino w = 2 \<and>
    inode_of w = parse_inode (take 128 (drop (table_off ?e 2) (raw (demo_mem 5 (replicate 512 0))))) \<and>
    pinned_vnodes (mounts s' ! fst (0, 7 :: nat)) 2 = Some 9 \<and> num_pins (mounts s' ! fst (0, 7 :: nat)) 2 = Some 1 \<and>
    hm_abs (open_handles s') (47 # [46] @ [0]) = Some 1 \<and>
    VFS_Close fh s' = Some (Ret (True, fh2, s2)) \<and> pinned_vnodes (mounts s2 ! fst (0, 7 :: nat)) 2 = None \<and>
    hm_abs (open_handles s2) (47 # [46] @ [0]) = Some 1"
    by (intro Open_finds_file[where xs = "[0, 12]" and v = demo_dir and x = 0 and n = 0 and fresh = "\<lambda>_. 9"] demo_dir_at)
      (simp_all add: data demo_table)
  then show ?thesis by auto
qed

definition demo_open :: file_handle where
  "demo_open = FileHandle (0, 7) [47, 97, 0] True True"

definition demo_files :: vfs where
  "demo_files = no_vfs\<lparr>mounts := [demo_ext2\<lparr>vnodes := [7 \<mapsto> demo_child]\<rparr>], root := Some (0, 7)\<rparr>"

theorem Handle_roundtrip_witness:
  "\<exists>fh s s'. Handle_Read (\<lambda>n. replicate n 0) 512 fh s = Some (Ret (Some (replicate 512 7 @ [0]), Seek 512 demo_open, s')) \<and>
     Handle_Write (replicate 512 7 @ [0]) 512 demo_open demo_files = Some (Ret (True, Seek 512 demo_open, s))"
proof -
  let ?e = "demo_ext2\<lparr>vnodes := [7 \<mapsto> demo_child]\<rparr>"
  have geo: "block_size ?e = 512" "sectors_per_block ?e = 1" "ptrs_per_block ?e = 128" by (simp_all add: ptrs_per_block_def)
  have "map_ok ?e" "disk_ok ?e" using geo(3) by (simp_all only: map_ok_def, simp_all add: mount_ok_def disk_ok_def)
  moreover note same = mapped_same_blocks[OF refl, of ?e demo_ext2 0 1 demo_file]
  moreover have "file_blocks demo_file demo_ext2 0 1 = [10]" using demo_file_blocks[of 0 1] by simp
  moreover have "inode_tab_block ?e 3 = 5" by (simp add: inode_tab_block_def inode_local_def)
  moreover have "inode_slot_ok ?e 3" "in_range ?e 5"
    by (simp_all add: inode_slot_ok_def valid_block_def in_range_def inode_tab_block_def inode_tab_off_def inode_local_def inode_group_def)
  moreover have "wf_inode demo_file" by (simp add: demo_file_def zero_inode_def wf_inode_def)
  ultimately show ?thesis
    using Handle_roundtrip[of demo_open 0 7 demo_files ?e demo_child "replicate 512 7" 1 "\<lambda>n. replicate n 0"] demo_mapped[of 0 1]
    by (auto simp: demo_open_def FileHandle_def demo_files_def no_vfs_def demo_child_def Seek_def)
qed

end
