(* ===== verification/Spec2Isabelle.thy ===== *)
theory Spec2Isabelle
  imports Prelude Murmur_Hash Map_Interface Hash_Map Rb_Tree_Examples Libc_String Dyn_Array Ds_String Ref_Cnt
    Buddy_Theorems Lru_Cache Heap_Theorems Page_Map_Theorems Sata_Port Sector_Cache Gpt Ext2_Theorems Vfs_Examples
begin

text \<open>
  A model of the Panix kernel, a small x86-64 kernel in C++: its containers and C library, the allocators of physical pages
  and of kernel objects, the page tables, the SATA driver with its sector cache and partition table, and the ext2 file
  system with the virtual file system on top. The paths below are relative to \<open>src\<close>.

  \<^bold>\<open>How the parts fit together.\<close> The physical allocator (\<open>Buddy_Allocator\<close>) hands out blocks of pages; the kernel heap
  (\<open>Kernel_Heap\<close>) takes its own memory and every large allocation from it and contains its state; the page tables
  (\<open>Page_Map\<close>) take frames. The LRU cache (\<open>Lru_Cache\<close>) is a linked list with the hash map (\<open>Hash_Map\<close>, hashing by
  \<open>Murmur_Hash\<close>) as its index; the sector cache of a SATA port (\<open>Sector_Cache\<close>) is such a cache over the transfers of the
  port (\<open>Sata_Port\<close>). \<open>Gpt\<close> reads the partition table through it, \<open>Ext2_Mount\<close> and \<open>Ext2_VNode\<close> read and write a partition
  through it, and \<open>Vfs\<close> keeps several mounted file systems, looks up paths across them and hands out file handles; its
  tables of mount points and open files are hash maps with strings (\<open>Ds_String\<close>) as keys.

  \<^bold>\<open>Theories and sources.\<close>
    \<^item> \<open>Prelude\<close>: machine words, the option monad, lists; \<open>Byte_Codec\<close>: little-endian fields of packed structures;
      \<open>Disk_Runs\<close>: runs of sectors, what a transfer reads and writes.
    \<^item> \<open>Murmur_Hash\<close>, \<open>Hash_Map\<close> (\<open>ds/hash_map.h\<close>): metadata bytes and entry array are two lists; an operation that would
      probe for ever has the value \<open>None\<close>. \<open>Map_Interface\<close> is the contract of a table (locales \<open>kv_store\<close> and \<open>kv_map\<close>).
    \<^item> \<open>Rb_Tree\<close> (\<open>ds/rb_tree.h\<close>): nodes in a heap of addresses with pointers to children and parent. \<open>Rb_Tree_Shape\<close> relates
      the heap to a functional tree and its contexts, \<open>Rb_Tree_Insert\<close> and \<open>Rb_Tree_Delete\<close> follow the two rebalancing
      loops, \<open>Rb_Tree_Theorems\<close> states the operations over finite maps and interprets \<open>kv_store\<close> on them.
    \<^item> \<open>Libc_String\<close> (\<open>libc/string.cpp\<close>), \<open>Dyn_Array\<close> (\<open>ds/dyn_array.h\<close>, contract in the locale \<open>growable\<close>), \<open>Ds_String\<close>
      (\<open>ds/string.h\<close>), \<open>Ref_Cnt\<close> (\<open>ds/ref_cnt_ptr.h\<close> and the assignment of \<open>ds/optional.h\<close>).
    \<^item> \<open>Lru_Cache\<close> (\<open>ds/cache.h\<close>): entries in a heap of addresses, the evicted ones are logged for the handler.
    \<^item> \<open>Buddy_Allocator\<close>, \<open>Buddy_Blocks\<close>, \<open>Buddy_Theorems\<close> (\<open>sys/buddy_allocator.cpp\<close>): free-list entries by address, the
      counters as 64-bit words.
    \<^item> \<open>Kernel_Heap\<close>, \<open>Heap_Theorems\<close> (\<open>sys/kheap.cpp\<close>): memory as cells of 32 bytes, the size of a header.
    \<^item> \<open>Page_Map\<close>, \<open>Page_Map_Theorems\<close> (\<open>sys/page_map.cpp\<close>): physical memory as 64-bit words by address.
    \<^item> \<open>Sata_Port\<close>, \<open>Sector_Cache\<close>, \<open>Gpt\<close> (\<open>sys/sata_port.cpp\<close>): registers, command tables and commands; the controller is
      an argument. The cache takes the transfer of a run of sectors as an argument, whose model is \<open>DiskReadWrite\<close>.
    \<^item> \<open>Ext2_Mount\<close>, \<open>Ext2_Theorems\<close> (\<open>sys/fs/ext2_mount.cpp\<close>, \<open>sys/disk_mem.h\<close>): super block, descriptors, inodes at
      the byte level, bitmaps, pins.
    \<^item> \<open>Ext2_VNode\<close> (\<open>sys/fs/ext2_vnode.cpp\<close>) with \<open>Ext2_Extents\<close> (block lists), \<open>Ext2_Files\<close> (reading and writing),
      \<open>Ext2_Dirs\<close> (directory entries), \<open>Ext2_Objects\<close> (creation and removal), \<open>Ext2_Examples\<close> (inputs of the witnesses).
    \<^item> \<open>Vfs\<close>, \<open>Vfs_Theorems\<close>, \<open>Vfs_Examples\<close> (\<open>sys/fs/vfs.cpp\<close> and the path operations of \<open>sys/fs/ext2_vnode.cpp\<close>).

  \<^bold>\<open>Conventions.\<close> Operations are named as in the code, with a suffix or a prefix where a name is taken (\<open>Rb_Insert\<close>,
  \<open>Lookup_arr\<close>, \<open>VFS_Mount\<close>). State is passed explicitly in records. In the containers and allocators \<open>None\<close> stands for
  both faults (a null or dangling pointer, an access outside an object) and loops that do not end. From \<open>Ext2_VNode\<close> on
  the two are separate: \<open>None\<close> does not return, \<open>Some Overrun\<close> follows a bad pointer or leaves a buffer, \<open>Some (Ret x)\<close> returns
  \<open>x\<close>. Loops that may not end are \<open>partial_function (option)\<close>, so there is no fuel anywhere, and the theorems say that the
  operations return. Addresses of new objects and the bytes of fresh memory are arguments (\<open>new\<close>, \<open>fresh\<close>, \<open>mem\<close>, \<open>junk\<close>,
  \<open>alloc\<close>, \<open>pad\<close>).

  \<^bold>\<open>What is shown.\<close>
    \<^item> Containers: the hash map refines a finite map through probing, tombstones and rehashing and never probes for ever
      within the stated bounds, but an insertion behind a tombstone duplicates a key; red-black insertion and deletion keep
      order, colours, black height and parent pointers, but a deletion can lose a second key. \<open>memcpy\<close>, \<open>memmove\<close>, \<open>strcmp\<close>;
      exact reference counts; the order of eviction.
    \<^item> Allocators: \<open>Allocate\<close> of the buddy allocator returns an aligned free block and keeps the block invariant; the bins of
      the heap are searched completely and a chunk is unlinked correctly; runs in which a block is handed out twice, or in
      which the heap gives itself away, are lemmas of \<open>Buddy_Theorems\<close> and \<open>Heap_Theorems\<close>.
    \<^item> Page tables: \<open>Map\<close> and \<open>Unmap\<close> change the translation of one page and keep the tree.
    \<^item> Disk: the cache is transparent and its flush writes everything back; the commands address what they should; the
      partition table is found, but \<open>GetNthPartition\<close> never returns a partition.
    \<^item> ext2: inodes read back; allocation and release of inodes; the off-by-one of \<open>AllocBlock\<close>; stale inode tables; block
      lists against the reference \<open>file_block\<close>, with the runs that overrun a pointer block and the look-ups that never
      return; reading and writing of files; directories.
    \<^item> VFS: a path is looked up component by component; opening and closing; the files and mount points that no operation
      reaches.

  \<^bold>\<open>Bounds.\<close> Machine integers are words where the code lets them wrap; addresses, lengths and offsets that the code keeps in
  64 bits are \<open>nat\<close>, with the wrap written out where an operation can reach it (\<open>RoundUp\<close>, the rest of a directory block,
  the sizes of the heap). The bounds in the theorems keep 32-bit arithmetic from wrapping (\<open>groups_ok\<close>, \<open>map_ok\<close>, \<open>valid_block\<close>,
  \<open>table_off\<close>, \<open>hm_room\<close>) or say how large a request is (64 MiB for \<open>FindEntry\<close>, whose bitmap has 64 bins).

  \<^bold>\<open>What is not modelled.\<close> The first ext2 and partition drivers (\<open>sys/ext2.cpp\<close>, \<open>sys/ext2.h\<close>, \<open>sys/gpt.cpp\<close>, \<open>sys/gpt.h\<close>) are
  commented out. Port input and output, logging, interrupts, the local and I/O interrupt controllers, the ACPI tables and
  the PCI Express tree read or program hardware; \<open>sys/entry.cpp\<close> calls the parts in the order of booting;
  \<open>sys/stivale2.h\<close> and \<open>build/limine\<close> are the boot protocol and the boot loader, which are third-party; \<open>ds/owning_ptr.h\<close>
  only frees its object. In \<open>Ext2_Mount\<close> the caches of tables and bitmaps are maps, so eviction while memory is critical is
  left out, and allocations on the kernel heap succeed in the file system. The partitions of different mounts are disjoint.
  The allocator of \<open>Dyn_Array\<close> is the contract of its template parameter; \<open>Kernel_Heap\<close> breaks it for large arrays.
\<close>

end
